(* ===== verification/Wire_Prelude.thy ===== *)
theory Wire_Prelude
  imports Main "HOL-Library.Word" "HOL-Library.Sublist"
begin

text \<open>
  Shared vocabulary of the development: byte strings, the 64-bit \<open>size_t\<close> bound, the
  exceptions the library throws, and list facts used by several components.
\<close>

section \<open>Types\<close>

type_synonym byte = "8 word"
type_synonym bytes = "byte list"

text \<open>\<open>std::numeric_limits<size_t>::max()\<close> on the 64-bit targets the library supports.\<close>

definition SIZE_MAX :: nat where
  "SIZE_MAX = 2 ^ 64 - 1"

text \<open>The standard exceptions raised by the modelled code.\<close>

datatype exn =
    Invalid_argument
  | Length_error
  | Out_of_range
  | Bad_alloc
  | Runtime_error
  | Validation_exception
  | Logic_error

text \<open>The link states a transport reports (\<open>src/wirestead/base/common.hpp\<close>).\<close>

datatype link_state = LinkIdle | LinkConnecting | LinkListening | LinkConnected | LinkClosed | LinkError

named_theorems eval_defs \<open>definitions unfolded when a component is run on a concrete input\<close>

section \<open>Arithmetic of \<open>size_t\<close>\<close>

text \<open>Addition and subtraction wrap at 64 bits; some subtractions of the code are clamped at 0.\<close>

definition size_add :: "nat \<Rightarrow> nat \<Rightarrow> nat" where
  "size_add a b = (a + b) mod 2 ^ 64"

lemma size_add_exact [simp]: "a + b \<le> SIZE_MAX \<Longrightarrow> size_add a b = a + b"
  by (simp add: size_add_def SIZE_MAX_def)

definition size_sub :: "nat \<Rightarrow> nat \<Rightarrow> nat" where
  "size_sub a b = (if b \<le> a then a - b else 2 ^ 64 - (b - a))"

lemma size_sub_exact [simp]: "b \<le> a \<Longrightarrow> size_sub a b = a - b"
  by (simp add: size_sub_def)

definition clamped_sub :: "nat \<Rightarrow> nat \<Rightarrow> nat" where
  "clamped_sub current bytes = (if current > bytes then current - bytes else 0)"

lemma clamped_sub_eq [simp]: "clamped_sub a b = a - b"
  by (simp add: clamped_sub_def)

section \<open>Lists\<close>

lemma member_le_sum: "x \<in> set xs \<Longrightarrow> (x :: nat) \<le> sum_list xs"
  by (induction xs) auto

lemma sum_list_remove1:
  "x \<in> set xs \<Longrightarrow> sum_list xs = (x :: nat) + sum_list (remove1 x xs)"
  by (induction xs) auto

section \<open>Data refinement\<close>

text \<open>
  A component with operations \<open>conc\<close> on its concrete state implements the specification \<open>spec\<close> on
  abstract states: every operation keeps the invariant and is simulated through \<open>abs\<close>.
\<close>

locale data_refinement =
  fixes conc :: "'op \<Rightarrow> 'c \<Rightarrow> 'c"
    and spec :: "'op \<Rightarrow> 'a \<Rightarrow> 'a"
    and abs :: "'c \<Rightarrow> 'a"
    and inv :: "'c \<Rightarrow> bool"
  assumes step_refines: "inv c \<Longrightarrow> inv (conc op c) \<and> abs (conc op c) = spec op (abs c)"
begin

lemma history_refines:
  "inv c \<Longrightarrow> inv (fold conc ops c) \<and> abs (fold conc ops c) = fold spec ops (abs c)"
  by (induction ops arbitrary: c) (simp_all add: step_refines)

lemma history_invariant:
  assumes "inv c" and "\<And>op c. inv c \<Longrightarrow> P c \<Longrightarrow> P (conc op c)" and "P c"
  shows "P (fold conc ops c)"
  using assms(1,3) by (induction ops arbitrary: c) (simp_all add: step_refines assms(2))

end

section \<open>Machines\<close>

text \<open>
  A component that reacts to events is a partial step function: \<open>step a s = None\<close> when the event \<open>a\<close> cannot
  happen in \<open>s\<close>. \<open>reaches step s0\<close> holds of the states its executions visit and \<open>run_steps\<close> executes a list
  of events.
\<close>

inductive reaches :: "('a \<Rightarrow> 's \<Rightarrow> 's option) \<Rightarrow> 's \<Rightarrow> 's \<Rightarrow> bool" for step s0 where
  reaches_start: "reaches step s0 s0"
| reaches_step: "reaches step s0 s \<Longrightarrow> step a s = Some s' \<Longrightarrow> reaches step s0 s'"

fun run_steps :: "('a \<Rightarrow> 's \<Rightarrow> 's option) \<Rightarrow> 'a list \<Rightarrow> 's \<Rightarrow> 's option" where
  "run_steps step [] s = Some s"
| "run_steps step (a # as) s = (case step a s of None \<Rightarrow> None | Some s' \<Rightarrow> run_steps step as s')"

lemma run_steps_reaches: "reaches step s0 s \<Longrightarrow> run_steps step as s = Some s' \<Longrightarrow> reaches step s0 s'"
  by (induction as arbitrary: s) (auto split: option.splits intro: reaches_step)

lemma reaches_run: "run_steps step as s = Some s' \<Longrightarrow> reaches step s s'"
  using run_steps_reaches [OF reaches_start] .

locale machine_invariant =
  fixes step :: "'a \<Rightarrow> 's \<Rightarrow> 's option" and inv :: "'s \<Rightarrow> bool"
  assumes step_inv: "inv s \<Longrightarrow> step a s = Some s' \<Longrightarrow> inv s'"
begin

lemma reaches_inv: "reaches step s0 s \<Longrightarrow> inv s0 \<Longrightarrow> inv s"
  by (induction rule: reaches.induct) (auto intro: step_inv)

lemma run_inv: "run_steps step as s0 = Some s \<Longrightarrow> inv s0 \<Longrightarrow> inv s"
  using reaches_inv [OF reaches_run] .

end

end
