(* ===== verification/Byte_Search.thy ===== *)
theory Byte_Search
  imports Wire_Prelude
begin

text \<open>
  The searches the framers run over byte ranges: \<open>std::search\<close> (first occurrence of a
  pattern at or after an offset, the end iterator when there is none) and
  \<open>std::memchr\<close>. Iterators are positions in the range, the end iterator is its length.
\<close>

section \<open>Definitions\<close>

fun find_sub :: "'a list \<Rightarrow> 'a list \<Rightarrow> nat option" where
  "find_sub pat [] = (if pat = [] then Some 0 else None)"
| "find_sub pat (x # xs) =
     (if prefix pat (x # xs) then Some 0 else map_option Suc (find_sub pat xs))"

definition std_search :: "'a list \<Rightarrow> nat \<Rightarrow> 'a list \<Rightarrow> nat" where
  "std_search xs from pat =
     (case find_sub pat (drop from xs) of None \<Rightarrow> length xs | Some i \<Rightarrow> from + i)"

fun memchr :: "'a \<Rightarrow> 'a list \<Rightarrow> nat option" where
  "memchr c [] = None"
| "memchr c (x # xs) = (if x = c then Some 0 else map_option Suc (memchr c xs))"

section \<open>Occurrences\<close>

lemma find_sub_Nil [simp]: "find_sub [] xs = Some 0"
  by (cases xs) auto

lemma memchr_eq_find_sub: "memchr c xs = find_sub [c] xs"
  by (induction xs) auto

lemma find_sub_SomeD:
  "find_sub pat xs = Some i \<Longrightarrow>
     i \<le> length xs \<and> prefix pat (drop i xs) \<and> (\<forall>j<i. \<not> prefix pat (drop j xs))"
proof (induction xs arbitrary: i)
  case Nil
  then show ?case by (auto split: if_splits)
next
  case (Cons x xs)
  show ?case
  proof (cases "prefix pat (x # xs)")
    case True
    with Cons.prems show ?thesis by simp
  next
    case False
    with Cons.prems obtain k where k: "find_sub pat xs = Some k" and i: "i = Suc k"
      by auto
    from Cons.IH [OF k] have "\<not> prefix pat (drop j (x # xs))" if "j < i" for j
      using False that i by (cases j) auto
    with Cons.IH [OF k] i show ?thesis by auto
  qed
qed

lemma find_sub_NoneD: "find_sub pat xs = None \<Longrightarrow> \<not> prefix pat (drop i xs)"
proof (induction xs arbitrary: i)
  case Nil
  then show ?case by (auto split: if_splits)
next
  case (Cons x xs)
  then show ?case by (cases i) (auto split: if_splits)
qed

lemma find_sub_SomeI:
  assumes "prefix pat (drop i xs)" and "i \<le> length xs"
    and "\<And>j. j < i \<Longrightarrow> \<not> prefix pat (drop j xs)"
  shows "find_sub pat xs = Some i"
proof (cases "find_sub pat xs")
  case None
  with find_sub_NoneD assms(1) show ?thesis by blast
next
  case (Some k)
  with find_sub_SomeD [OF Some] assms show ?thesis
    by (metis linorder_neqE_nat)
qed

lemma find_sub_NoneI:
  assumes "pat \<noteq> []" and "\<And>j. j < length xs \<Longrightarrow> \<not> prefix pat (drop j xs)"
  shows "find_sub pat xs = None"
proof (rule ccontr)
  assume "find_sub pat xs \<noteq> None"
  then obtain i where i: "find_sub pat xs = Some i" by auto
  from find_sub_SomeD [OF i] have *: "i \<le> length xs" "prefix pat (drop i xs)" by auto
  with assms(1) have "i < length xs"
    by (metis drop_all le_eq_less_or_eq prefix_Nil order_refl)
  with * assms(2) show False by blast
qed

lemma prefix_drop_length:
  "prefix pat (drop i xs) \<Longrightarrow> pat \<noteq> [] \<Longrightarrow> i + length pat \<le> length xs"
  using prefix_length_le [of pat "drop i xs"] by (cases pat) auto

lemma find_sub_bound: "find_sub pat xs = Some i \<Longrightarrow> i + length pat \<le> length xs"
  by (cases "pat = []") (auto dest: find_sub_SomeD prefix_drop_length)

lemma find_sub_take:
  "find_sub pat xs = Some i \<Longrightarrow> take i xs @ pat @ drop (i + length pat) xs = xs"
  using find_sub_SomeD [of pat xs i]
  by (metis append_take_drop_id append_eq_conv_conj drop_drop prefix_def add.commute)

section \<open>Searching an extended or resumed range\<close>

lemma prefix_drop_append_short:
  "i + length pat \<le> length xs \<Longrightarrow> prefix pat (drop i (xs @ ys)) = prefix pat (drop i xs)"
proof -
  assume "i + length pat \<le> length xs"
  then have "us = []" if "pat = drop i xs @ us" for us
    using that by (cases us) auto
  with \<open>i + length pat \<le> length xs\<close> show ?thesis
    by (auto simp: prefix_append)
qed

lemma find_sub_append:
  assumes "find_sub pat xs = Some i"
  shows "find_sub pat (xs @ ys) = Some i"
proof (rule find_sub_SomeI)
  have b: "i + length pat \<le> length xs" using assms by (rule find_sub_bound)
  with find_sub_SomeD [OF assms] show "prefix pat (drop i (xs @ ys))"
    by (simp add: prefix_drop_append_short)
  show "i \<le> length (xs @ ys)" using b by simp
  fix j assume "j < i"
  then have "j + length pat \<le> length xs" using b by simp
  with \<open>j < i\<close> find_sub_SomeD [OF assms] show "\<not> prefix pat (drop j (xs @ ys))"
    by (simp add: prefix_drop_append_short del: drop_append)
qed

text \<open>
  A pattern that does not occur in the first \<open>n\<close> bytes can only start at
  \<open>n - (length pat - 1)\<close> or later: restarting the search there loses nothing.
\<close>

lemma find_sub_resume:
  assumes none: "find_sub pat xs = None" and "pat \<noteq> []"
    and k: "k + (length pat - 1) \<le> length xs"
  shows "find_sub pat (xs @ ys) = map_option ((+) k) (find_sub pat (drop k (xs @ ys)))"
proof -
  have nok: "\<not> prefix pat (drop j (xs @ ys))" if "j < k" for j
  proof -
    have "j + length pat \<le> length xs" using that k \<open>pat \<noteq> []\<close> by (cases pat) auto
    then show ?thesis
      using find_sub_NoneD [OF none] by (simp add: prefix_drop_append_short del: drop_append)
  qed
  show ?thesis
  proof (cases "find_sub pat (drop k (xs @ ys))")
    case None
    have "\<not> prefix pat (drop j (xs @ ys))" for j
      using nok [of j] find_sub_NoneD [OF None, of "j - k"]
      by (cases "j < k") (simp_all del: drop_append)
    then have "find_sub pat (xs @ ys) = None"
      by (intro find_sub_NoneI \<open>pat \<noteq> []\<close>)
    with None show ?thesis by simp
  next
    case (Some i)
    have "find_sub pat (xs @ ys) = Some (k + i)"
    proof (rule find_sub_SomeI)
      show "prefix pat (drop (k + i) (xs @ ys))"
        using find_sub_SomeD [OF Some] by (simp del: drop_append add: add.commute)
      show "k + i \<le> length (xs @ ys)"
        using find_sub_bound [OF Some] k by simp
      fix j assume "j < k + i"
      then show "\<not> prefix pat (drop j (xs @ ys))"
        using nok [of j] find_sub_SomeD [OF Some]
        by (cases "j < k") (auto simp del: drop_append dest: spec [of _ "j - k"])
    qed
    with Some show ?thesis by simp
  qed
qed

lemma find_sub_drop_None:
  "find_sub pat xs = None \<Longrightarrow> find_sub pat (drop k xs) = None"
  by (cases "find_sub pat (drop k xs)") (auto dest!: find_sub_SomeD simp: find_sub_NoneD)

lemma find_sub_append_None:
  "find_sub pat (xs @ ys) = None \<Longrightarrow> find_sub pat xs = None"
  by (cases "find_sub pat xs") (auto simp: find_sub_append)

lemma find_sub_drop_take_None:
  assumes "find_sub pat (drop s b) = None"
  shows "find_sub pat (drop s (take c b)) = None"
proof (rule find_sub_append_None)
  have "drop s b = drop s (take c b) @ drop (s - length (take c b)) (drop c b)"
    by (metis append_take_drop_id drop_append)
  with assms show "find_sub pat (drop s (take c b) @ drop (s - length (take c b)) (drop c b)) = None"
    by simp
qed

lemma find_sub_append_short:
  assumes "find_sub pat (xs @ ys) = Some i" and "i + length pat \<le> length xs"
  shows "find_sub pat xs = Some i"
  using find_sub_SomeD [OF assms(1)] assms(2) prefix_drop_append_short [of _ pat xs ys]
  by (intro find_sub_SomeI) auto

lemma std_search_found_iff:
  "pat \<noteq> [] \<Longrightarrow> from \<le> length xs \<Longrightarrow>
     std_search xs from pat = length xs \<longleftrightarrow> find_sub pat (drop from xs) = None"
  by (cases pat) (auto simp: std_search_def split: option.splits dest!: find_sub_bound)

lemma prefix_map_inj: "inj f \<Longrightarrow> prefix (map f pat) (map f xs) \<longleftrightarrow> prefix pat xs"
proof (induction pat arbitrary: xs)
  case (Cons p pat)
  then show ?case by (cases xs) (auto dest: injD)
qed simp

lemma find_sub_map_inj: "inj f \<Longrightarrow> find_sub (map f pat) (map f xs) = find_sub pat xs"
proof (induction xs)
  case (Cons x xs)
  then show ?case using prefix_map_inj [of f pat "x # xs"] by simp
qed simp

lemma inj_uint_byte: "inj (uint :: byte \<Rightarrow> int)"
  by (simp add: inj_def word_uint_eq_iff)

end
