(* ===== verification/Framer_Interface.thy ===== *)
theory Framer_Interface
  imports Byte_Search
begin

text \<open>
  The contract of \<open>IFramer\<close> (\<open>src/wirestead/framer/iframer.hpp\<close>), the interface through which
  the receive path drives a framer.

  A push takes the framer's state and a chunk of bytes and gives the new state, the messages
  handed to the message callback in order, and the exception it ended with, if any; \<open>None\<close>
  means that the push does not return. The user's callback is a parameter: from the messages it
  has been handed during this push (the current one last) it decides whether it calls
  \<open>reset()\<close> on the framer, the one re-entrant call the framers guard against.
\<close>

section \<open>Vocabulary\<close>

type_synonym msg_callback = "bytes list \<Rightarrow> bool"
type_synonym 's push_result = "('s \<times> bytes list \<times> exn option) option"

text \<open>A callback that only consumes its message.\<close>

definition quiet_callback :: msg_callback where
  "quiet_callback ms = False"

text \<open>
  The helper both \<open>line_framer.cc\<close> and \<open>packet_framer.cc\<close> define to grow their buffer.
\<close>

definition append_bytes :: "bytes \<Rightarrow> bytes \<Rightarrow> nat \<Rightarrow> exn + bytes" where
  "append_bytes buffer data offset =
     (if offset \<ge> length data then Inr buffer
      else if length data - offset > SIZE_MAX - length buffer then Inl Length_error
      else Inr (buffer @ drop offset data))"

text \<open>The receive loop of a connection: one push per chunk, until a push throws.\<close>

fun push_all :: "('s \<Rightarrow> bytes \<Rightarrow> 's push_result) \<Rightarrow> 's \<Rightarrow> bytes list \<Rightarrow> 's push_result" where
  "push_all push s [] = Some (s, [], None)"
| "push_all push s (d # ds) =
     (case push s d of
        None \<Rightarrow> None
      | Some (s', ms, Some e) \<Rightarrow> Some (s', ms, Some e)
      | Some (s', ms, None) \<Rightarrow>
          map_option (\<lambda>(s'', ms', e). (s'', ms @ ms', e)) (push_all push s' ds))"

section \<open>Bounded memory\<close>

locale bounded_framer =
  fixes push :: "'s \<Rightarrow> bytes \<Rightarrow> 's push_result"
    and reset :: "'s \<Rightarrow> 's"
    and buf :: "'s \<Rightarrow> bytes"
    and inv :: "'s \<Rightarrow> bool"
    and cap :: "'s \<Rightarrow> nat"
    and fits :: "nat \<Rightarrow> bytes \<Rightarrow> bool"
  assumes push_returns:
      "inv s \<Longrightarrow> fits (cap s) d \<Longrightarrow>
         \<exists>s' ms. push s d = Some (s', ms, None) \<and> inv s' \<and> cap s' = cap s"
    and buf_le_cap: "inv s \<Longrightarrow> length (buf s) \<le> cap s"
    and reset_clears: "inv s \<Longrightarrow> inv (reset s) \<and> buf (reset s) = [] \<and> cap (reset s) = cap s"
begin

text \<open>
  Whatever a peer sends, however it is split, the framer keeps accepting it and never holds
  more than its capacity.
\<close>

lemma push_all_bounded:
  "inv s \<Longrightarrow> \<forall>d\<in>set ds. fits (cap s) d \<Longrightarrow>
     \<exists>s' ms. push_all push s ds = Some (s', ms, None) \<and> inv s' \<and> cap s' = cap s
       \<and> length (buf s') \<le> cap s"
proof (induction ds arbitrary: s)
  case Nil
  then show ?case by (simp add: buf_le_cap)
next
  case (Cons d ds)
  from push_returns [OF Cons.prems(1), of d] Cons.prems(2)
  obtain s1 ms1 where p: "push s d = Some (s1, ms1, None)" "inv s1" "cap s1 = cap s"
    by auto
  with Cons.IH [OF p(2)] Cons.prems(2)
  obtain s2 ms2 where "push_all push s1 ds = Some (s2, ms2, None)" "inv s2" "cap s2 = cap s"
    "length (buf s2) \<le> cap s"
    by auto
  with p show ?case by simp
qed

lemma reset_reusable:
  assumes "inv s" and "\<forall>d\<in>set ds. fits (cap s) d"
  shows "\<exists>s' ms. push_all push (reset s) ds = Some (s', ms, None) \<and> length (buf s') \<le> cap s"
proof -
  from reset_clears [OF assms(1)] have "inv (reset s)" "cap (reset s) = cap s" by auto
  with push_all_bounded [of "reset s" ds] assms(2) show ?thesis by auto
qed

end

section \<open>Independence of chunk boundaries\<close>

text \<open>
  \<open>decode c h\<close> is the list of messages the byte stream \<open>h\<close> contains under configuration
  \<open>c\<close>, \<open>clean c h\<close> says that \<open>h\<close> can still be continued to a stream the framer has no reason to
  drop data from, and \<open>tracks s h\<close> that \<open>s\<close> is the state after exactly \<open>h\<close> has been received.
\<close>

locale stream_framer =
  fixes push :: "'s \<Rightarrow> bytes \<Rightarrow> 's push_result"
    and cfg :: "'s \<Rightarrow> 'c"
    and tracks :: "'s \<Rightarrow> bytes \<Rightarrow> bool"
    and clean :: "'c \<Rightarrow> bytes \<Rightarrow> bool"
    and decode :: "'c \<Rightarrow> bytes \<Rightarrow> bytes list"
    and room :: "'c \<Rightarrow> bytes \<Rightarrow> bool"
  assumes clean_prefix: "clean c (h @ d) \<Longrightarrow> clean c h"
    and push_decodes:
      "tracks s h \<Longrightarrow> clean (cfg s) (h @ d) \<Longrightarrow> room (cfg s) d \<Longrightarrow>
         \<exists>s' ms. push s d = Some (s', ms, None) \<and> cfg s' = cfg s \<and> tracks s' (h @ d)
           \<and> decode (cfg s) (h @ d) = decode (cfg s) h @ ms"
begin

text \<open>
  The messages delivered for a clean stream are those of the whole stream, however the
  transport happens to cut it into reads.
\<close>

lemma push_all_decodes:
  "tracks s h \<Longrightarrow> clean (cfg s) (h @ concat ds) \<Longrightarrow> \<forall>d\<in>set ds. room (cfg s) d \<Longrightarrow>
     \<exists>s' ms. push_all push s ds = Some (s', ms, None) \<and> cfg s' = cfg s
       \<and> tracks s' (h @ concat ds)
       \<and> decode (cfg s) (h @ concat ds) = decode (cfg s) h @ ms"
proof (induction ds arbitrary: s h)
  case Nil
  then show ?case by simp
next
  case (Cons d ds)
  have c: "clean (cfg s) (h @ d)"
    using Cons.prems(2) clean_prefix [of "cfg s" "h @ d" "concat ds"] by simp
  from push_decodes [OF Cons.prems(1) c] Cons.prems(3)
  obtain s1 ms1 where p: "push s d = Some (s1, ms1, None)" "cfg s1 = cfg s" "tracks s1 (h @ d)"
    "decode (cfg s) (h @ d) = decode (cfg s) h @ ms1"
    by auto
  have "\<exists>s' ms. push_all push s1 ds = Some (s', ms, None) \<and> cfg s' = cfg s1
       \<and> tracks s' ((h @ d) @ concat ds)
       \<and> decode (cfg s1) ((h @ d) @ concat ds) = decode (cfg s1) (h @ d) @ ms"
    by (rule Cons.IH) (use Cons.prems p in auto)
  with p show ?case by fastforce
qed

corollary push_all_rechunk:
  assumes "tracks s []" and "clean (cfg s) (concat ds)" and "concat ds = concat es"
    and "\<forall>d\<in>set ds \<union> set es. room (cfg s) d"
  shows "\<exists>s1 s2 ms. push_all push s ds = Some (s1, ms, None)
     \<and> push_all push s es = Some (s2, ms, None)"
proof -
  from push_all_decodes [OF assms(1), of ds] assms
  obtain s1 ms1 where 1: "push_all push s ds = Some (s1, ms1, None)"
    "decode (cfg s) (concat ds) = decode (cfg s) [] @ ms1"
    by auto
  from push_all_decodes [OF assms(1), of es] assms
  obtain s2 ms2 where 2: "push_all push s es = Some (s2, ms2, None)"
    "decode (cfg s) (concat es) = decode (cfg s) [] @ ms2"
    by auto
  from 1 2 assms(3) show ?thesis by auto
qed

end

end
