(* ===== verification/Length_Prefix_Framer.thy ===== *)
theory Length_Prefix_Framer
  imports Framer_Interface
begin

unbundle bit_operations_syntax

text \<open>
  \<open>LengthPrefixFramer\<close> (\<open>src/wirestead/framer/length_prefix_framer.hpp\<close> and \<open>.cc\<close>): frames are
  a 1, 2 or 4 byte length followed by the payload. The model keeps the class's fields; the
  parsing loop of \<open>push_bytes\<close> is \<open>lp_loop\<close>, a \<open>partial_function\<close> because with a zero-width
  prefix, which the constructor refuses, it would not end.
\<close>

section \<open>Model\<close>

datatype endian = Big | Little

record lp_config =
  lp_prefix_bytes :: nat
  lp_endian :: endian
  lp_max_length :: nat
  lp_length_includes_prefix :: bool

record lp_framer = lp_config +
  lp_buffer :: bytes
  lp_on_message :: "msg_callback option"

definition lp_new :: "nat \<Rightarrow> endian \<Rightarrow> nat \<Rightarrow> bool \<Rightarrow> exn + lp_framer" where
  "lp_new prefix_bytes endian max_length length_includes_prefix =
     (if prefix_bytes \<noteq> 1 \<and> prefix_bytes \<noteq> 2 \<and> prefix_bytes \<noteq> 4 then Inl Invalid_argument
      else if max_length = 0 then Inl Invalid_argument
      else Inr \<lparr>lp_prefix_bytes = prefix_bytes, lp_endian = endian, lp_max_length = max_length,
                lp_length_includes_prefix = length_includes_prefix, lp_buffer = [],
                lp_on_message = None\<rparr>)"

definition lp_set_on_message :: "lp_framer \<Rightarrow> msg_callback option \<Rightarrow> lp_framer" where
  "lp_set_on_message f cb = f\<lparr>lp_on_message := cb\<rparr>"

definition lp_reset :: "lp_framer \<Rightarrow> lp_framer" where
  "lp_reset f = f\<lparr>lp_buffer := []\<rparr>"

text \<open>
  \<open>read_length\<close>: \<open>None\<close> when the buffer does not yet hold a whole header at \<open>offset\<close>, otherwise
  the declared length, accumulated in a \<open>uint64_t\<close> byte by byte.
\<close>

definition read_length :: "lp_framer \<Rightarrow> nat \<Rightarrow> nat option" where
  "read_length f offset =
     (if length (lp_buffer f) - offset < lp_prefix_bytes f then None
      else let value = foldl (\<lambda>v i.
                  let idx = (if lp_endian f = Big then offset + i
                             else offset + (lp_prefix_bytes f - 1 - i))
                  in push_bit 8 v OR ucast (lp_buffer f ! idx))
                (0 :: 64 word) [0..<lp_prefix_bytes f]
           in Some (unat value))"

partial_function (option) lp_loop ::
    "lp_framer \<Rightarrow> nat \<Rightarrow> bytes list \<Rightarrow> lp_framer push_result" where
  "lp_loop f consumed out =
     (case read_length f consumed of
        None \<Rightarrow>
          Some ((if consumed > 0 then f\<lparr>lp_buffer := drop consumed (lp_buffer f)\<rparr> else f), out, None)
      | Some declared \<Rightarrow>
          if lp_length_includes_prefix f \<and> declared < lp_prefix_bytes f then
            Some (lp_reset f, out, None)
          else
            let payload_len =
                  (if lp_length_includes_prefix f then declared - lp_prefix_bytes f else declared)
            in if payload_len > lp_max_length f then Some (lp_reset f, out, None)
            else
              let frame_end = consumed + lp_prefix_bytes f + payload_len
              in if length (lp_buffer f) < frame_end then
                   Some ((if consumed > 0 then f\<lparr>lp_buffer := drop consumed (lp_buffer f)\<rparr> else f),
                         out, None)
                 else
                   (case lp_on_message f of
                      None \<Rightarrow> lp_loop f frame_end out
                    | Some cb \<Rightarrow>
                        let msg = take payload_len (drop (consumed + lp_prefix_bytes f) (lp_buffer f));
                            f' = (if cb (out @ [msg]) then lp_reset f else f)
                        in if lp_buffer f' = [] then Some (f', out @ [msg], None)
                           else lp_loop f' frame_end (out @ [msg])))"

definition lp_push_bytes :: "lp_framer \<Rightarrow> bytes \<Rightarrow> lp_framer push_result" where
  "lp_push_bytes f data = lp_loop (f\<lparr>lp_buffer := lp_buffer f @ data\<rparr>) 0 []"

section \<open>Reading a header\<close>

text \<open>The value a big-endian byte string denotes, and the bytes that denote a value.\<close>

definition be_nat :: "bytes \<Rightarrow> nat" where
  "be_nat bs = foldl (\<lambda>v b. 256 * v + unat b) 0 bs"

fun be_bytes :: "nat \<Rightarrow> nat \<Rightarrow> bytes" where
  "be_bytes 0 k = []"
| "be_bytes (Suc n) k = be_bytes n (k div 256) @ [of_nat k]"

definition header_value :: "endian \<Rightarrow> bytes \<Rightarrow> nat" where
  "header_value e bs = be_nat (if e = Big then bs else rev bs)"

lemma unat_byte_less [simp]: "unat (b :: byte) < 256"
proof -
  have "unat b < 2 ^ LENGTH(8)" by (rule unsigned_less)
  then show ?thesis by simp
qed

lemma unat_ucast_byte [simp]: "unat (ucast (b :: byte) :: 64 word) = unat b"
proof -
  have "unat b < 2 ^ 64" using unat_byte_less [of b] by (rule less_trans) simp
  then show ?thesis by (simp add: unsigned_ucast_eq take_bit_nat_eq_self)
qed

lemma unat_shift_or_byte:
  fixes v :: "64 word" and b :: byte
  assumes "unat v < 2 ^ 56"
  shows "unat (push_bit 8 v OR ucast b) = 256 * unat v + unat b"
proof -
  have "push_bit 8 v OR ucast b = push_bit 8 v + ucast b"
    by (rule disjunctive_add [symmetric])
      (auto simp: bit_simps dest: bit_imp_le_length)
  moreover have "push_bit 8 v = 256 * v"
    by (simp add: push_bit_eq_mult mult.commute)
  ultimately have eq: "push_bit 8 v OR ucast b = 256 * v + ucast b" by simp
  have "unat (push_bit 8 v OR ucast b) = (256 * unat v + unat b) mod 2 ^ 64"
    unfolding eq by (simp add: unat_word_ariths mod_simps)
  moreover have "256 * unat v + unat b < 2 ^ 64"
  proof -
    have "256 * unat v + unat b < 256 * (unat v + 1)" by simp
    also have "\<dots> \<le> 256 * 2 ^ 56" using assms by (intro mult_left_mono) simp_all
    finally show ?thesis by simp
  qed
  ultimately show ?thesis by simp
qed

lemma unat_foldl_shift_or:
  fixes v :: "64 word" and bs :: bytes
  assumes "length bs \<le> 8" and "unat v < 2 ^ (64 - 8 * length bs)"
  shows "unat (foldl (\<lambda>v b. push_bit 8 v OR ucast b) v bs)
    = foldl (\<lambda>v b. 256 * v + unat b) (unat v) bs"
  using assms
proof (induction bs arbitrary: v)
  case Nil
  then show ?case by simp
next
  case (Cons b bs)
  define k where "k = 56 - 8 * length bs"
  have k: "64 - 8 * length (b # bs) = k" "64 - 8 * length bs = k + 8" "k \<le> 56"
    using Cons.prems(1) by (auto simp: k_def)
  have "unat v < 2 ^ 56"
    using Cons.prems(2) k power_increasing [of k 56 "2::nat"] by simp
  then have step: "unat (push_bit 8 v OR ucast b) = 256 * unat v + unat b"
    by (rule unat_shift_or_byte)
  have "256 * unat v + unat b < 2 ^ (k + 8)"
  proof -
    have "unat v + 1 \<le> 2 ^ k" using Cons.prems(2) k(1) by simp
    then have le: "256 * (unat v + 1) \<le> 256 * 2 ^ k" by (rule mult_left_mono) simp
    have "256 * unat v + unat b < 256 * (unat v + 1)" by simp
    also note le
    also have "(256::nat) * 2 ^ k = 2 ^ (k + 8)" by (simp add: power_add)
    finally show ?thesis .
  qed
  with Cons.IH [of "push_bit 8 v OR ucast b"] Cons.prems(1) k(2) step show ?case
    by simp
qed

lemma map_nth_range:
  "c + n \<le> length xs \<Longrightarrow> map (\<lambda>i. xs ! (c + i)) [0..<n] = take n (drop c xs)"
  by (rule nth_equalityI) auto

lemma map_nth_range_rev:
  "c + n \<le> length xs \<Longrightarrow> map (\<lambda>i. xs ! (c + (n - 1 - i))) [0..<n] = rev (take n (drop c xs))"
  by (rule nth_equalityI) (auto simp: rev_nth)

lemma read_length_eq:
  assumes "lp_prefix_bytes f \<le> 8" and "consumed \<le> length (lp_buffer f)"
  shows "read_length f consumed =
    (if length (drop consumed (lp_buffer f)) < lp_prefix_bytes f then None
     else Some (header_value (lp_endian f) (take (lp_prefix_bytes f) (drop consumed (lp_buffer f)))))"
proof (cases "length (lp_buffer f) - consumed < lp_prefix_bytes f")
  case True
  then show ?thesis by (simp add: read_length_def)
next
  case False
  let ?n = "lp_prefix_bytes f" and ?b = "lp_buffer f"
  let ?g = "\<lambda>v b. push_bit 8 v OR ucast (b :: byte) :: 64 word"
  let ?idx = "\<lambda>i. if lp_endian f = Big then consumed + i else consumed + (?n - 1 - i)"
  have fits: "consumed + ?n \<le> length ?b" using False assms by simp
  have "foldl (\<lambda>v i. ?g v (?b ! ?idx i)) 0 [0..<?n] = foldl ?g 0 (map (\<lambda>i. ?b ! ?idx i) [0..<?n])"
    by (simp add: foldl_map)
  also have "map (\<lambda>i. ?b ! ?idx i) [0..<?n] =
      (if lp_endian f = Big then take ?n (drop consumed ?b) else rev (take ?n (drop consumed ?b)))"
    using map_nth_range [OF fits] map_nth_range_rev [OF fits] by simp
  finally have v: "foldl (\<lambda>v i. ?g v (?b ! ?idx i)) 0 [0..<?n] =
      foldl ?g 0 (if lp_endian f = Big then take ?n (drop consumed ?b)
                  else rev (take ?n (drop consumed ?b)))" .
  have "unat (foldl (\<lambda>v i. ?g v (?b ! ?idx i)) 0 [0..<?n]) =
      header_value (lp_endian f) (take ?n (drop consumed ?b))"
    unfolding v header_value_def be_nat_def
    by (subst unat_foldl_shift_or) (use assms fits in auto)
  with False show ?thesis by (simp add: read_length_def)
qed

lemma length_be_bytes [simp]: "length (be_bytes n k) = n"
  by (induction n arbitrary: k) auto

lemma be_nat_be_bytes: "be_nat (be_bytes n k) = k mod 256 ^ n"
proof (induction n arbitrary: k)
  case 0
  then show ?case by (simp add: be_nat_def)
next
  case (Suc n)
  have "be_nat (be_bytes (Suc n) k) = 256 * (k div 256 mod 256 ^ n) + k mod 256"
    using Suc [of "k div 256"] by (simp add: be_nat_def unat_of_nat)
  then show ?case by (simp add: mod_mult2_eq)
qed

section \<open>The stream a framer reads\<close>

text \<open>What the bytes at a frame boundary mean, independent of how they arrived.\<close>

datatype frame_view = Need_more | Corrupt | Frame nat

definition lp_frame :: "'a lp_config_scheme \<Rightarrow> bytes \<Rightarrow> frame_view" where
  "lp_frame c h =
     (let p = lp_prefix_bytes c in
      if length h < p then Need_more
      else
        let declared = header_value (lp_endian c) (take p h);
            n = (if lp_length_includes_prefix c then declared - p else declared)
        in if lp_length_includes_prefix c \<and> declared < p then Corrupt
           else if n > lp_max_length c then Corrupt
           else if length h < p + n then Need_more
           else Frame n)"

lemma lp_frame_FrameD:
  "lp_frame c h = Frame n \<Longrightarrow> lp_prefix_bytes c + n \<le> length h \<and> n \<le> lp_max_length c"
  by (auto simp: lp_frame_def Let_def split: if_splits)

function lp_decode :: "'a lp_config_scheme \<Rightarrow> bytes \<Rightarrow> bytes list" where
  "lp_decode c h =
     (if lp_prefix_bytes c = 0 then []
      else case lp_frame c h of
             Frame n \<Rightarrow> take n (drop (lp_prefix_bytes c) h) # lp_decode c (drop (lp_prefix_bytes c + n) h)
           | _ \<Rightarrow> [])"
  by pat_completeness auto
termination
  by (relation "measure (\<lambda>(c, h). length h)") (auto dest: lp_frame_FrameD)

function lp_rest :: "'a lp_config_scheme \<Rightarrow> bytes \<Rightarrow> bytes" where
  "lp_rest c h =
     (if lp_prefix_bytes c = 0 then h
      else case lp_frame c h of
             Need_more \<Rightarrow> h
           | Corrupt \<Rightarrow> []
           | Frame n \<Rightarrow> lp_rest c (drop (lp_prefix_bytes c + n) h))"
  by pat_completeness auto
termination
  by (relation "measure (\<lambda>(c, h). length h)") (auto dest: lp_frame_FrameD)

function lp_clean :: "'a lp_config_scheme \<Rightarrow> bytes \<Rightarrow> bool" where
  "lp_clean c h =
     (if lp_prefix_bytes c = 0 then False
      else case lp_frame c h of
             Need_more \<Rightarrow> True
           | Corrupt \<Rightarrow> False
           | Frame n \<Rightarrow> lp_clean c (drop (lp_prefix_bytes c + n) h))"
  by pat_completeness auto
termination
  by (relation "measure (\<lambda>(c, h). length h)") (auto dest: lp_frame_FrameD)

declare lp_decode.simps [simp del] lp_rest.simps [simp del] lp_clean.simps [simp del]

definition lp_encode :: "'a lp_config_scheme \<Rightarrow> bytes \<Rightarrow> bytes" where
  "lp_encode c payload =
     (let p = lp_prefix_bytes c;
          n = (if lp_length_includes_prefix c then length payload + p else length payload);
          hd = be_bytes p n
      in (if lp_endian c = Big then hd else rev hd) @ payload)"

definition lp_fits :: "'a lp_config_scheme \<Rightarrow> bytes \<Rightarrow> bool" where
  "lp_fits c payload \<longleftrightarrow> length payload \<le> lp_max_length c
     \<and> length payload + (if lp_length_includes_prefix c then lp_prefix_bytes c else 0)
         < 256 ^ lp_prefix_bytes c"

definition lp_inv :: "lp_framer \<Rightarrow> bool" where
  "lp_inv f \<longleftrightarrow> lp_prefix_bytes f \<in> {1, 2, 4} \<and> 0 < lp_max_length f
     \<and> length (lp_buffer f) < lp_prefix_bytes f + lp_max_length f"

section \<open>The parsing loop\<close>

lemma header_value_encode:
  "k < 256 ^ n \<Longrightarrow> header_value e (if e = Big then be_bytes n k else rev (be_bytes n k)) = k"
  by (simp add: header_value_def be_nat_be_bytes)

lemma lp_frame_encode:
  assumes "lp_fits c payload"
  shows "lp_frame c (lp_encode c payload @ rest) = Frame (length payload)"
  using assms
  by (auto simp: lp_frame_def lp_encode_def lp_fits_def Let_def header_value_def be_nat_be_bytes)

lemma lp_frame_append:
  "lp_frame c h = Frame n \<Longrightarrow> lp_frame c (h @ d) = Frame n"
  "lp_frame c h = Corrupt \<Longrightarrow> lp_frame c (h @ d) = Corrupt"
  by (auto simp: lp_frame_def Let_def split: if_splits)

lemma lp_decode_rest_append:
  "lp_clean c h \<Longrightarrow>
     lp_decode c (h @ d) = lp_decode c h @ lp_decode c (lp_rest c h @ d)
     \<and> lp_rest c (h @ d) = lp_rest c (lp_rest c h @ d)
     \<and> lp_clean c (h @ d) = lp_clean c (lp_rest c h @ d)"
proof (induction c h rule: lp_clean.induct)
  case (1 c h)
  note p = lp_clean.simps [of c h]
  show ?case
  proof (cases "lp_frame c h")
    case Need_more
    with "1.prems" p show ?thesis
      by (simp add: lp_decode.simps [of c h] lp_rest.simps [of c h])
  next
    case Corrupt
    with "1.prems" p show ?thesis by (simp split: if_splits)
  next
    case (Frame n)
    have pz: "lp_prefix_bytes c \<noteq> 0" using "1.prems" p by (simp split: if_splits)
    with Frame "1.prems" p have "lp_clean c (drop (lp_prefix_bytes c + n) h)" by simp
    from "1.IH" [OF pz Frame this] lp_frame_FrameD [OF Frame] pz Frame lp_frame_append(1) [OF Frame, of d]
    show ?thesis
      by (simp add: lp_decode.simps [of c h] lp_rest.simps [of c h]
          lp_decode.simps [of c "h @ d"] lp_rest.simps [of c "h @ d"] lp_clean.simps [of c "h @ d"])
  qed
qed

lemma lp_clean_prefix: "lp_clean c (h @ d) \<Longrightarrow> lp_clean c h"
proof (induction c h rule: lp_clean.induct)
  case (1 c h)
  show ?case
  proof (cases "lp_prefix_bytes c = 0")
    case False
    with 1 show ?thesis
      by (cases "lp_frame c h")
        (auto simp: lp_clean.simps [of c h] lp_clean.simps [of c "h @ d"] lp_frame_append
          dest: lp_frame_FrameD)
  qed (use 1 in \<open>simp add: lp_clean.simps [of c "h @ d"]\<close>)
qed

lemma lp_rest_short:
  "lp_prefix_bytes c \<noteq> 0 \<Longrightarrow> 0 < lp_max_length c \<Longrightarrow>
     length (lp_rest c h) < lp_prefix_bytes c + lp_max_length c"
proof (induction c h rule: lp_rest.induct)
  case (1 c h)
  then show ?case
    by (cases "lp_frame c h")
      (auto simp: lp_rest.simps [of c h] lp_frame_def Let_def split: if_splits)
qed

lemma lp_frame_truncate [simp]:
  "lp_frame (lp_config.truncate f) h = lp_frame f h"
  by (simp add: lp_frame_def lp_config.defs Let_def)

text \<open>One iteration of the loop, in terms of the bytes at the frame boundary.\<close>

lemma lp_loop_unfold:
  assumes "lp_prefix_bytes f \<le> 8" and "consumed \<le> length (lp_buffer f)"
  shows "lp_loop f consumed out =
    (case lp_frame f (drop consumed (lp_buffer f)) of
       Need_more \<Rightarrow> Some (f\<lparr>lp_buffer := drop consumed (lp_buffer f)\<rparr>, out, None)
     | Corrupt \<Rightarrow> Some (lp_reset f, out, None)
     | Frame n \<Rightarrow>
         (let frame_end = consumed + lp_prefix_bytes f + n;
              msg = take n (drop (consumed + lp_prefix_bytes f) (lp_buffer f))
          in case lp_on_message f of
               None \<Rightarrow> lp_loop f frame_end out
             | Some cb \<Rightarrow>
                 let f' = (if cb (out @ [msg]) then lp_reset f else f)
                 in if lp_buffer f' = [] then Some (f', out @ [msg], None)
                    else lp_loop f' frame_end (out @ [msg])))"
  by (subst lp_loop.simps)
    (use assms in \<open>auto simp: read_length_eq lp_frame_def Let_def split: option.splits if_splits\<close>)

lemma lp_loop_quiet:
  assumes "lp_prefix_bytes f \<le> 8" "lp_prefix_bytes f \<noteq> 0" "consumed \<le> length (lp_buffer f)"
    and cb: "lp_on_message f = Some quiet_callback"
  shows "lp_loop f consumed out =
    Some (f\<lparr>lp_buffer := lp_rest f (drop consumed (lp_buffer f))\<rparr>,
          out @ lp_decode f (drop consumed (lp_buffer f)), None)"
  using assms(3)
proof (induction "length (lp_buffer f) - consumed" arbitrary: consumed out rule: less_induct)
  case less
  let ?h = "drop consumed (lp_buffer f)"
  note unf = lp_loop_unfold [OF assms(1) less.prems, of out]
    lp_rest.simps [of f ?h] lp_decode.simps [of f ?h]
  show ?case
  proof (cases "lp_frame f ?h")
    case Need_more
    then show ?thesis using assms(2) by (simp add: unf)
  next
    case Corrupt
    then show ?thesis using assms(2) by (simp add: unf lp_reset_def)
  next
    case (Frame n)
    have e: "consumed + lp_prefix_bytes f + n \<le> length (lp_buffer f)" (is "?e \<le> _")
      using lp_frame_FrameD [OF Frame] less.prems by auto
    have ne: "lp_buffer f \<noteq> []" using e assms(2) by auto
    have "lp_loop f ?e (out @ [take n (drop (consumed + lp_prefix_bytes f) (lp_buffer f))])
      = Some (f\<lparr>lp_buffer := lp_rest f (drop ?e (lp_buffer f))\<rparr>,
          (out @ [take n (drop (consumed + lp_prefix_bytes f) (lp_buffer f))])
            @ lp_decode f (drop ?e (lp_buffer f)), None)"
      by (rule less.hyps) (use e assms(2) in auto)
    with Frame assms(2) cb ne show ?thesis
      by (simp add: unf Let_def quiet_callback_def add_ac)
  qed
qed

lemma lp_reset_simps [simp]:
  "lp_buffer (lp_reset f) = []" "lp_prefix_bytes (lp_reset f) = lp_prefix_bytes f"
  "lp_max_length (lp_reset f) = lp_max_length f" "lp_on_message (lp_reset f) = lp_on_message f"
  "lp_config.truncate (lp_reset f) = lp_config.truncate f"
  by (simp_all add: lp_reset_def lp_config.defs)

lemma lp_loop_returns:
  assumes "lp_prefix_bytes f \<le> 8" "lp_prefix_bytes f \<noteq> 0" "0 < lp_max_length f"
    "consumed \<le> length (lp_buffer f)"
  shows "\<exists>f' ms. lp_loop f consumed out = Some (f', ms, None)
    \<and> lp_config.truncate f' = lp_config.truncate f \<and> lp_on_message f' = lp_on_message f
    \<and> length (lp_buffer f') < lp_prefix_bytes f + lp_max_length f"
  using assms(4)
proof (induction "length (lp_buffer f) - consumed" arbitrary: consumed out rule: less_induct)
  case less
  let ?h = "drop consumed (lp_buffer f)"
  note unf = lp_loop_unfold [OF assms(1) less.prems, of out]
  show ?case
  proof (cases "lp_frame f ?h")
    case Need_more
    then have "length ?h < lp_prefix_bytes f + lp_max_length f"
      using assms(3) by (auto simp: lp_frame_def Let_def split: if_splits)
    with Need_more show ?thesis by (simp add: unf lp_config.defs)
  next
    case Corrupt
    then show ?thesis using assms(2) by (simp add: unf)
  next
    case (Frame n)
    have e: "consumed + lp_prefix_bytes f + n \<le> length (lp_buffer f)" (is "?e \<le> _")
      using lp_frame_FrameD [OF Frame] less.prems by auto
    have "\<exists>f' ms. lp_loop f ?e out' = Some (f', ms, None)
        \<and> lp_config.truncate f' = lp_config.truncate f \<and> lp_on_message f' = lp_on_message f
        \<and> length (lp_buffer f') < lp_prefix_bytes f + lp_max_length f" for out'
      by (rule less.hyps) (use e assms(2) in auto)
    with Frame assms(2) show ?thesis
      by (auto simp: unf Let_def split: option.splits)
  qed
qed

lemma lp_truncate_prefix [simp]: "lp_prefix_bytes (lp_config.truncate f) = lp_prefix_bytes f"
  by (simp add: lp_config.defs)

lemma lp_truncate_simps [simp]:
  "lp_decode (lp_config.truncate f) h = lp_decode f h"
  "lp_rest (lp_config.truncate f) h = lp_rest f h"
  "lp_clean (lp_config.truncate f) h = lp_clean f h"
proof -
  show "lp_decode (lp_config.truncate f) h = lp_decode f h"
    by (induction f h rule: lp_decode.induct)
      (subst (1 2) lp_decode.simps, auto split: frame_view.split)
  show "lp_rest (lp_config.truncate f) h = lp_rest f h"
    by (induction f h rule: lp_rest.induct)
      (subst (1 2) lp_rest.simps, auto split: frame_view.split)
  show "lp_clean (lp_config.truncate f) h = lp_clean f h"
    by (induction f h rule: lp_clean.induct)
      (subst (1 2) lp_clean.simps, auto split: frame_view.split)
qed

section \<open>The contract of IFramer\<close>

definition lp_cap :: "lp_framer \<Rightarrow> nat" where
  "lp_cap f = lp_prefix_bytes f + lp_max_length f - 1"

lemma lp_truncate_eqD:
  assumes "lp_config.truncate f' = lp_config.truncate f"
  shows "lp_prefix_bytes f' = lp_prefix_bytes f" "lp_max_length f' = lp_max_length f"
    "lp_rest f' h = lp_rest f h" "lp_decode f' h = lp_decode f h" "lp_clean f' h = lp_clean f h"
  using lp_truncate_prefix [of f] lp_truncate_prefix [of f'] assms
    lp_truncate_simps [of f h] lp_truncate_simps [of f' h]
  by (simp_all add: lp_config.defs)

lemma lp_frame_buffer [simp]: "lp_frame (f\<lparr>lp_buffer := b\<rparr>) h = lp_frame f h"
  by (simp add: lp_frame_def Let_def)

lemma lp_buffer_irrelevant [simp]:
  "lp_config.truncate (f\<lparr>lp_buffer := b\<rparr>) = lp_config.truncate f"
  "lp_rest (f\<lparr>lp_buffer := b\<rparr>) h = lp_rest f h"
  "lp_decode (f\<lparr>lp_buffer := b\<rparr>) h = lp_decode f h"
  "lp_clean (f\<lparr>lp_buffer := b\<rparr>) h = lp_clean f h"
proof -
  show t: "lp_config.truncate (f\<lparr>lp_buffer := b\<rparr>) = lp_config.truncate f"
    by (simp add: lp_config.defs)
  show "lp_rest (f\<lparr>lp_buffer := b\<rparr>) h = lp_rest f h"
    "lp_decode (f\<lparr>lp_buffer := b\<rparr>) h = lp_decode f h"
    "lp_clean (f\<lparr>lp_buffer := b\<rparr>) h = lp_clean f h"
    using lp_truncate_eqD(3,4,5) [OF t] by simp_all
qed

lemma lp_push_returns:
  assumes "lp_inv f"
  shows "\<exists>f' ms. lp_push_bytes f d = Some (f', ms, None) \<and> lp_inv f'
    \<and> lp_config.truncate f' = lp_config.truncate f \<and> lp_on_message f' = lp_on_message f"
proof -
  let ?g = "f\<lparr>lp_buffer := lp_buffer f @ d\<rparr>"
  from assms have "lp_prefix_bytes ?g \<le> 8" "lp_prefix_bytes ?g \<noteq> 0" "0 < lp_max_length ?g"
    by (auto simp: lp_inv_def)
  from lp_loop_returns [OF this, of 0 "[]"]
  obtain f' ms where *: "lp_loop ?g 0 [] = Some (f', ms, None)"
    "lp_config.truncate f' = lp_config.truncate ?g" "lp_on_message f' = lp_on_message f"
    "length (lp_buffer f') < lp_prefix_bytes f + lp_max_length f"
    by auto
  with assms lp_truncate_eqD(1,2) [of f' f] show ?thesis
    by (auto simp: lp_push_bytes_def lp_inv_def)
qed

interpretation lp: bounded_framer lp_push_bytes lp_reset lp_buffer lp_inv lp_cap "\<lambda>_ _. True"
proof (unfold_locales, goal_cases)
  case (1 s d)
  from lp_push_returns [OF this(1), of d] obtain s' ms
    where "lp_push_bytes s d = Some (s', ms, None)" "lp_inv s'"
      and t: "lp_config.truncate s' = lp_config.truncate s"
    by blast
  then show ?case by (simp add: lp_cap_def lp_truncate_eqD(1,2) [OF t])
next
  case (2 s)
  then show ?case by (auto simp: lp_inv_def lp_cap_def)
next
  case (3 s)
  then show ?case by (auto simp: lp_inv_def lp_cap_def)
qed

definition lp_tracks :: "lp_framer \<Rightarrow> bytes \<Rightarrow> bool" where
  "lp_tracks f h \<longleftrightarrow> lp_inv f \<and> lp_on_message f = Some quiet_callback
     \<and> lp_clean f h \<and> lp_buffer f = lp_rest f h"

lemma lp_push_tracks:
  assumes t: "lp_tracks f h" and c: "lp_clean f (h @ d)"
  shows "\<exists>f' ms. lp_push_bytes f d = Some (f', ms, None)
    \<and> lp_config.truncate f' = lp_config.truncate f \<and> lp_tracks f' (h @ d)
    \<and> lp_decode f (h @ d) = lp_decode f h @ ms"
proof -
  let ?g = "f\<lparr>lp_buffer := lp_buffer f @ d\<rparr>"
  from t have inv: "lp_prefix_bytes ?g \<le> 8" "lp_prefix_bytes ?g \<noteq> 0"
    "lp_on_message ?g = Some quiet_callback"
    by (auto simp: lp_tracks_def lp_inv_def)
  from lp_loop_quiet [OF inv(1,2) _ inv(3), of 0 "[]"]
  have push: "lp_push_bytes f d = Some (?g\<lparr>lp_buffer := lp_rest f (lp_rest f h @ d)\<rparr>,
      lp_decode f (lp_rest f h @ d), None)"
    using t by (simp add: lp_push_bytes_def lp_tracks_def)
  have app: "lp_decode f (h @ d) = lp_decode f h @ lp_decode f (lp_rest f h @ d)"
    "lp_rest f (h @ d) = lp_rest f (lp_rest f h @ d)"
    using lp_decode_rest_append [of f h d] t by (auto simp: lp_tracks_def)
  let ?f' = "?g\<lparr>lp_buffer := lp_rest f (lp_rest f h @ d)\<rparr>"
  have "lp_tracks ?f' (h @ d)"
    using t c app(2) lp_rest_short [of f "h @ d"]
    by (auto simp: lp_tracks_def lp_inv_def)
  with push app(1) show ?thesis by simp
qed

interpretation lps: stream_framer lp_push_bytes "lp_config.truncate :: lp_framer \<Rightarrow> lp_config"
  lp_tracks lp_clean lp_decode "\<lambda>_ _. True"
proof (unfold_locales, goal_cases)
  case (1 c h d)
  then show ?case by (rule lp_clean_prefix)
next
  case (2 s h d)
  then show ?case using lp_push_tracks [of s h d] by simp
qed

section \<open>Properties\<close>

lemma lp_new_inv: "lp_new p e mx incl = Inr f \<Longrightarrow> lp_inv f"
  by (auto simp: lp_new_def lp_inv_def split: if_splits)

lemma lp_decode_encoded:
  assumes "lp_prefix_bytes c \<noteq> 0" and "\<forall>m\<in>set ps. lp_fits c m"
  shows "lp_decode c (concat (map (lp_encode c) ps)) = ps
    \<and> lp_rest c (concat (map (lp_encode c) ps)) = [] \<and> lp_clean c (concat (map (lp_encode c) ps))"
  using assms(2)
proof (induction ps)
  case Nil
  then show ?case
    using assms(1)
    by (simp add: lp_decode.simps [of c "[]"] lp_rest.simps [of c "[]"] lp_clean.simps [of c "[]"]
        lp_frame_def)
next
  case (Cons m ps)
  let ?rest = "concat (map (lp_encode c) ps)"
  have fr: "lp_frame c (lp_encode c m @ ?rest) = Frame (length m)"
    using Cons.prems by (intro lp_frame_encode) simp
  have enc: "take (length m) (drop (lp_prefix_bytes c) (lp_encode c m @ ?rest)) = m"
    "drop (lp_prefix_bytes c + length m) (lp_encode c m @ ?rest) = ?rest"
    by (simp_all add: lp_encode_def Let_def)
  show ?case
    using Cons assms(1) fr enc
    by (simp add: lp_decode.simps [of c "lp_encode c m @ ?rest"]
        lp_rest.simps [of c "lp_encode c m @ ?rest"] lp_clean.simps [of c "lp_encode c m @ ?rest"])
qed

text \<open>
  C4: Round trip. Whatever payloads a peer sends, encoded with this framer's configuration, and
  however the transport splits the encoded stream into reads, the callback receives exactly those
  payloads, in order, and nothing is left in the buffer.
\<close>

theorem lp_roundtrip:
  assumes "lp_new p e mx incl = Inr f"
    and "\<forall>m\<in>set ps. lp_fits f m"
    and "concat ds = concat (map (lp_encode f) ps)"
  shows "\<exists>f'. push_all lp_push_bytes (lp_set_on_message f (Some quiet_callback)) ds = Some (f', ps, None)
    \<and> lp_buffer f' = []"
proof -
  let ?f = "lp_set_on_message f (Some quiet_callback)"
  have inv: "lp_inv f" using assms(1) by (rule lp_new_inv)
  then have p: "lp_prefix_bytes f \<noteq> 0" by (auto simp: lp_inv_def)
  have t: "lp_config.truncate ?f = lp_config.truncate f"
    by (simp add: lp_set_on_message_def lp_config.defs)
  note dec = lp_decode_encoded [OF p assms(2)]
  note nil = lp_decode_encoded [OF p, of "[]"]
  have "lp_buffer f = []" using assms(1) by (auto simp: lp_new_def split: if_splits)
  then have "lp_tracks ?f []"
    using inv nil lp_truncate_eqD [OF t] by (simp add: lp_tracks_def lp_inv_def lp_set_on_message_def)
  from lps.push_all_decodes [OF this, of ds] dec assms(3) t
  obtain f' ms where "push_all lp_push_bytes ?f ds = Some (f', ms, None)"
    and t': "lp_config.truncate f' = lp_config.truncate f" and "lp_tracks f' (concat ds)"
    and "lp_decode f (concat ds) = lp_decode f [] @ ms"
    by auto
  with dec nil assms(3) lp_truncate_eqD(3) [OF t'] show ?thesis
    by (auto simp: lp_tracks_def)
qed

theorem lp_roundtrip_witness:
  "\<exists>f'. push_all lp_push_bytes
      \<lparr>lp_prefix_bytes = 2, lp_endian = Little, lp_max_length = 8, lp_length_includes_prefix = True,
       lp_buffer = [], lp_on_message = Some quiet_callback\<rparr>
      [[4], [0, 7], [9, 3, 0], [5]] = Some (f', [[7, 9], [5]], None) \<and> lp_buffer f' = []"
proof -
  let ?f = "\<lparr>lp_prefix_bytes = 2, lp_endian = Little, lp_max_length = 8,
      lp_length_includes_prefix = True, lp_buffer = [], lp_on_message = None\<rparr>"
  have n: "lp_new 2 Little 8 True = Inr ?f" by (simp add: lp_new_def)
  have hd: "be_bytes 2 4 = [0, 4]" "be_bytes 2 3 = [0, 3]" by (simp_all add: numeral_2_eq_2)
  have enc: "lp_encode ?f [7, 9] = [4, 0, 7, 9]" "lp_encode ?f [5] = [3, 0, 5]"
    by (simp_all add: lp_encode_def Let_def hd)
  have fit: "\<forall>m\<in>set [[7, 9], [5]]. lp_fits ?f m" by (simp add: lp_fits_def)
  have "concat [[4], [0, 7], [9, 3, 0], [5]] = concat (map (lp_encode ?f) [[7, 9], [5]])"
    by (simp add: enc)
  from lp_roundtrip [OF n fit this] show ?thesis
    by (simp add: lp_set_on_message_def del: push_all.simps)
qed

text \<open>
  C33: Bounded memory and liveness. For any callback (one that calls \<open>reset()\<close> re-entrantly
  included) and any bytes a peer may send, every push returns without throwing and the framer
  never retains more than a header and a maximal payload, less one byte.
\<close>

theorem lp_push_bounded:
  assumes "lp_new p e mx incl = Inr f"
  shows "\<exists>f' ms. push_all lp_push_bytes (lp_set_on_message f cb) ds = Some (f', ms, None)
    \<and> length (lp_buffer f') \<le> p + mx - 1"
proof -
  from lp_new_inv [OF assms] have "lp_inv (lp_set_on_message f cb)"
    by (simp add: lp_inv_def lp_set_on_message_def)
  moreover have "lp_cap (lp_set_on_message f cb) = p + mx - 1"
    using assms by (auto simp: lp_new_def lp_cap_def lp_set_on_message_def split: if_splits)
  ultimately show ?thesis
    using lp.push_all_bounded [of "lp_set_on_message f cb" ds] by auto
qed

theorem lp_push_bounded_witness:
  "\<exists>f' ms. push_all lp_push_bytes (lp_set_on_message
      \<lparr>lp_prefix_bytes = 4, lp_endian = Big, lp_max_length = 16, lp_length_includes_prefix = False,
       lp_buffer = [], lp_on_message = None\<rparr> (Some (\<lambda>ms. length ms = 1))) [[0, 0, 0], [1, 255, 255]]
     = Some (f', ms, None) \<and> length (lp_buffer f') \<le> 4 + 16 - 1"
  using lp_push_bounded [of 4 Big 16 False "\<lparr>lp_prefix_bytes = 4, lp_endian = Big, lp_max_length = 16,
      lp_length_includes_prefix = False, lp_buffer = [], lp_on_message = None\<rparr>"]
  by (simp add: lp_new_def del: push_all.simps)

text \<open>
  A header that cannot be honest is never believed. When the declared length is shorter than
  the header it claims to include, or the payload longer than \<open>max_length\<close>, the push drops the
  whole buffer and delivers nothing, instead of waiting for the announced bytes.
\<close>

lemma lp_corrupt_header_drops:
  assumes "lp_inv f" and "lp_buffer f = []"
    and "lp_prefix_bytes f \<le> length d"
    and "(let n = header_value (lp_endian f) (take (lp_prefix_bytes f) d)
          in if lp_length_includes_prefix f
             then n < lp_prefix_bytes f \<or> lp_max_length f < n - lp_prefix_bytes f
             else lp_max_length f < n)"
  shows "lp_push_bytes f d = Some (lp_reset f, [], None)"
proof -
  have "lp_frame f d = Corrupt"
    using assms(3,4) by (auto simp: lp_frame_def Let_def split: if_splits)
  moreover have "lp_prefix_bytes f \<le> 8" using assms(1) by (auto simp: lp_inv_def)
  ultimately show ?thesis
    using lp_loop_unfold [of "f\<lparr>lp_buffer := d\<rparr>" 0 "[]"] assms(2)
    by (simp add: lp_push_bytes_def lp_reset_def)
qed

end
