(* ===== verification/Line_Framer.thy ===== *)
theory Line_Framer
  imports Framer_Interface
begin

text \<open>
  \<open>LineFramer\<close> (\<open>src/wirestead/framer/line_framer.hpp\<close> and \<open>.cc\<close>): messages end with a
  delimiter; the delimiter may be split across reads; a message over \<open>max_length\<close> is dropped and
  the framer resynchronises at the next delimiter.

  The delimiter is a \<open>std::string\<close>, the data are \<open>uint8_t\<close>. A one-byte delimiter is cast to
  \<open>uint8_t\<close> and searched with \<open>memchr\<close>; a longer one goes through \<open>std::search\<close>, which compares a
  \<open>uint8_t\<close> with a \<open>char\<close> after integral promotion. Whether \<open>char\<close> is signed is
  implementation-defined, so it is the parameter \<open>sg\<close> of the model.
\<close>

section \<open>Model\<close>

record line_config =
  ln_delimiter :: bytes
  ln_include_delimiter :: bool
  ln_max_length :: nat

record line_framer = line_config +
  ln_scanned_idx :: nat
  ln_buffer :: bytes
  ln_on_message :: "msg_callback option"
  ln_discarding :: bool

definition max_partial_length :: "nat \<Rightarrow> nat \<Rightarrow> nat" where
  "max_partial_length max_length delimiter_length =
     (let split = delimiter_length - 1
      in if max_length > SIZE_MAX - split then SIZE_MAX else max_length + split)"

definition ln_new :: "bytes \<Rightarrow> bool \<Rightarrow> nat \<Rightarrow> line_framer" where
  "ln_new delimiter include_delimiter max_length =
     \<lparr>ln_delimiter = (if delimiter = [] then [10] else delimiter),
      ln_include_delimiter = include_delimiter, ln_max_length = max_length,
      ln_scanned_idx = 0, ln_buffer = [], ln_on_message = None, ln_discarding = False\<rparr>"

definition ln_set_on_message :: "line_framer \<Rightarrow> msg_callback option \<Rightarrow> line_framer" where
  "ln_set_on_message f cb = f\<lparr>ln_on_message := cb\<rparr>"

definition ln_reset :: "line_framer \<Rightarrow> line_framer" where
  "ln_reset f = f\<lparr>ln_buffer := [], ln_scanned_idx := 0, ln_discarding := False\<rparr>"

text \<open>Integral promotion of a \<open>char\<close>.\<close>

definition char_int :: "bool \<Rightarrow> byte \<Rightarrow> int" where
  "char_int sg c = (if sg then sint c else uint c)"

text \<open>
  The search both \<open>skip_until_delimiter\<close> and \<open>scan_and_process\<close> perform: the position of the next
  delimiter at or after \<open>from\<close>, the end of the data when there is none.
\<close>

definition find_delimiter :: "bool \<Rightarrow> 'a line_config_scheme \<Rightarrow> bytes \<Rightarrow> nat \<Rightarrow> nat" where
  "find_delimiter sg f data from =
     (if length (ln_delimiter f) = 1 then
        (case memchr (hd (ln_delimiter f)) (drop from data) of
           None \<Rightarrow> length data
         | Some i \<Rightarrow> from + i)
      else std_search (map uint data) from (map (char_int sg) (ln_delimiter f)))"

definition skip_until_delimiter :: "bool \<Rightarrow> 'a line_config_scheme \<Rightarrow> bytes \<Rightarrow> nat option" where
  "skip_until_delimiter sg f data =
     (let it = find_delimiter sg f data 0
      in if it = length data then None else Some (it + length (ln_delimiter f)))"

text \<open>
  \<open>scan_and_process\<close>: \<open>own\<close> says that the scanned span is the framer's own buffer, which a
  re-entrant \<open>reset()\<close> empties. The result is the framer, the number of bytes processed and the
  messages delivered.
\<close>

partial_function (option) ln_scan_loop ::
    "bool \<Rightarrow> line_framer \<Rightarrow> bool \<Rightarrow> bytes \<Rightarrow> nat \<Rightarrow> nat \<Rightarrow> bytes list
       \<Rightarrow> (line_framer \<times> nat \<times> bytes list) option" where
  "ln_scan_loop sg f own data processed_count search_cursor out =
     (if search_cursor > length data then Some (f, processed_count, out)
      else
        let it = find_delimiter sg f data search_cursor
        in if it = length data then Some (f, processed_count, out)
        else
          let match_end_idx = it + length (ln_delimiter f);
              current_msg_total_len = match_end_idx - processed_count;
              content_len = current_msg_total_len - length (ln_delimiter f)
          in if content_len > ln_max_length f then
               ln_scan_loop sg f own data match_end_idx match_end_idx out
             else
               (case ln_on_message f of
                  None \<Rightarrow> ln_scan_loop sg f own data match_end_idx match_end_idx out
                | Some cb \<Rightarrow>
                    let payload_len =
                          (if ln_include_delimiter f then current_msg_total_len else content_len);
                        msg = take payload_len (drop processed_count data);
                        f' = (if cb (out @ [msg]) then ln_reset f else f)
                    in if own \<and> ln_buffer f' = [] then Some (f', 0, out @ [msg])
                       else ln_scan_loop sg f' own data match_end_idx match_end_idx (out @ [msg])))"

definition scan_and_process ::
    "bool \<Rightarrow> line_framer \<Rightarrow> bool \<Rightarrow> bytes \<Rightarrow> nat \<Rightarrow> bytes list
       \<Rightarrow> (line_framer \<times> nat \<times> bytes list) option" where
  "scan_and_process sg f own data search_start_offset out =
     ln_scan_loop sg f own data 0 (min search_start_offset (length data)) out"

text \<open>\<open>push_bytes_internal\<close>: first the resynchronisation prologue, then the fast or slow path.\<close>

definition ln_overflow_check :: "line_framer \<Rightarrow> line_framer" where
  "ln_overflow_check f =
     (if length (ln_buffer f) > max_partial_length (ln_max_length f) (length (ln_delimiter f))
      then f\<lparr>ln_buffer := [], ln_scanned_idx := 0, ln_discarding := True\<rparr>
      else f)"

definition ln_fast_path :: "bool \<Rightarrow> line_framer \<Rightarrow> bytes \<Rightarrow> bytes list \<Rightarrow> line_framer push_result" where
  "ln_fast_path sg f data out =
     (case scan_and_process sg f False data 0 out of
        None \<Rightarrow> None
      | Some (f1, processed_count, out1) \<Rightarrow>
          if processed_count < length data then
            (case append_bytes (ln_buffer f1) data processed_count of
               Inl e \<Rightarrow> Some (f1, out1, Some e)
             | Inr b \<Rightarrow>
                 Some (ln_overflow_check (f1\<lparr>ln_buffer := b, ln_scanned_idx := length b\<rparr>), out1, None))
          else Some (f1\<lparr>ln_scanned_idx := 0\<rparr>, out1, None))"

definition ln_slow_path :: "bool \<Rightarrow> line_framer \<Rightarrow> bytes \<Rightarrow> bytes list \<Rightarrow> line_framer push_result" where
  "ln_slow_path sg f data out =
     (case append_bytes (ln_buffer f) data 0 of
        Inl e \<Rightarrow> Some (f, out, Some e)
      | Inr b \<Rightarrow>
          let f0 = f\<lparr>ln_buffer := b\<rparr>;
              dl = length (ln_delimiter f);
              search_start_idx =
                (if ln_scanned_idx f \<ge> dl then ln_scanned_idx f - (dl - 1) else 0)
          in (case scan_and_process sg f0 True b search_start_idx out of
                None \<Rightarrow> None
              | Some (f1, processed_count, out1) \<Rightarrow>
                  let f2 = (if processed_count > 0
                            then f1\<lparr>ln_buffer := drop processed_count (ln_buffer f1)\<rparr> else f1)
                  in Some (ln_overflow_check (f2\<lparr>ln_scanned_idx := length (ln_buffer f2)\<rparr>), out1, None)))"

definition ln_push_bytes_internal ::
    "bool \<Rightarrow> line_framer \<Rightarrow> bytes \<Rightarrow> bytes list \<Rightarrow> line_framer push_result" where
  "ln_push_bytes_internal sg f data out =
     (if data = [] then Some (f, out, None)
      else if ln_discarding f then
        (case skip_until_delimiter sg f data of
           None \<Rightarrow> Some (f, out, None)
         | Some consumed \<Rightarrow>
             let f' = f\<lparr>ln_discarding := False\<rparr>; data' = drop consumed data
             in if data' = [] then Some (f', out, None)
                else if ln_buffer f' = [] then ln_fast_path sg f' data' out
                else ln_slow_path sg f' data' out)
      else if ln_buffer f = [] then ln_fast_path sg f data out
      else ln_slow_path sg f data out)"

function ln_push_loop ::
    "bool \<Rightarrow> nat \<Rightarrow> line_framer \<Rightarrow> bytes \<Rightarrow> nat \<Rightarrow> bytes list \<Rightarrow> line_framer push_result" where
  "ln_push_loop sg max_length f data offset out =
     (if offset < length data then
        let len = min (length data - offset) (max max_length 4096)
        in (case ln_push_bytes_internal sg f (take len (drop offset data)) out of
              None \<Rightarrow> None
            | Some (f', out', Some e) \<Rightarrow> Some (f', out', Some e)
            | Some (f', out', None) \<Rightarrow> ln_push_loop sg max_length f' data (offset + len) out')
      else Some (f, out, None))"
  by pat_completeness auto
termination
  by (relation "measure (\<lambda>(sg, max_length, f, data, offset, out). length data - offset)") auto

declare ln_push_loop.simps [simp del]

definition ln_push_bytes :: "bool \<Rightarrow> line_framer \<Rightarrow> bytes \<Rightarrow> line_framer push_result" where
  "ln_push_bytes sg f data =
     (if data = [] then Some (f, [], None) else ln_push_loop sg (ln_max_length f) f data 0 [])"

section \<open>The delimiter as a pattern\<close>

definition delim_pattern :: "bool \<Rightarrow> bytes \<Rightarrow> int list" where
  "delim_pattern sg d = (if length d = 1 then [uint (hd d)] else map (char_int sg) d)"

lemma length_delim_pattern [simp]: "length (delim_pattern sg d) = length d"
  by (simp add: delim_pattern_def)

lemma delim_pattern_Nil_iff [simp]: "delim_pattern sg d = [] \<longleftrightarrow> d = []"
  by (metis length_0_conv length_delim_pattern)

lemma find_delimiter_eq:
  "find_delimiter sg f data from =
     (case find_sub (delim_pattern sg (ln_delimiter f)) (map uint (drop from data)) of
        None \<Rightarrow> length data | Some i \<Rightarrow> from + i)"
proof (cases "length (ln_delimiter f) = 1")
  case True
  have "memchr c xs = find_sub [uint c] (map uint xs)" for c :: byte and xs
    using find_sub_map_inj [of uint "[c]" xs] inj_uint_byte
    by (simp add: memchr_eq_find_sub)
  with True show ?thesis
    by (simp add: find_delimiter_def delim_pattern_def)
next
  case False
  then show ?thesis
    by (simp add: find_delimiter_def delim_pattern_def std_search_def drop_map split: option.split)
qed

text \<open>Delimiters that compare as they are meant to.\<close>

definition ascii_safe :: "bool \<Rightarrow> bytes \<Rightarrow> bool" where
  "ascii_safe sg d \<longleftrightarrow> \<not> sg \<or> length d = 1 \<or> (\<forall>c\<in>set d. c < 128)"

lemma sint_byte_low: "c < (128 :: byte) \<Longrightarrow> sint c = uint c"
  by (rule sym) (simp add: sint_uint word_less_def signed_take_bit_eq_take_bit_minus
      bit_iff_odd take_bit_int_eq_self)

lemma delim_pattern_safe: "ascii_safe sg d \<Longrightarrow> delim_pattern sg d = map uint d"
  by (cases d) (auto simp: ascii_safe_def delim_pattern_def char_int_def sint_byte_low)

lemma char_int_nonneg:
  assumes "0 \<le> char_int sg c"
  shows "char_int sg c = uint c"
proof (cases sg)
  case True
  have "sint c < 2 ^ 7"
    using signed_take_bit_int_less_exp [of 7 "uint c"] by (simp add: sint_uint)
  then have "take_bit LENGTH(8) (sint c) = sint c"
    using assms True by (intro take_bit_int_eq_self) (auto simp: char_int_def)
  with True show ?thesis using uint_sint [of c] by (simp add: char_int_def)
qed (simp add: char_int_def)

lemma delim_pattern_match:
  assumes "find_sub (delim_pattern sg d) (map uint h) = Some i"
  shows "take (length d) (drop i h) = d"
proof -
  have m: "prefix (delim_pattern sg d) (map uint (drop i h))"
    using find_sub_SomeD [OF assms] by (simp add: drop_map)
  have "\<forall>x\<in>set (delim_pattern sg d). 0 \<le> x"
    using set_mono_prefix [OF m] by auto
  then have "delim_pattern sg d = map uint d"
  proof (cases "length d = 1")
    case True
    then show ?thesis by (cases d) (auto simp: delim_pattern_def)
  next
    case False
    assume nn: "\<forall>x\<in>set (delim_pattern sg d). 0 \<le> x"
    have "char_int sg c = uint c" if "c \<in> set d" for c
    proof -
      have "0 \<le> char_int sg c"
        using nn False that by (simp add: delim_pattern_def)
      then show ?thesis by (rule char_int_nonneg)
    qed
    with False show ?thesis by (simp add: delim_pattern_def)
  qed
  with m have "prefix (map uint d) (map uint (drop i h))" by simp
  then have "prefix d (drop i h)" using prefix_map_inj [OF inj_uint_byte] by blast
  then show ?thesis by (auto simp: prefix_def)
qed

section \<open>The stream a framer reads\<close>

abbreviation find_pat :: "int list \<Rightarrow> bytes \<Rightarrow> nat option" where
  "find_pat pat h \<equiv> find_sub pat (map uint h)"

lemma find_pat_bound: "find_pat pat h = Some i \<Longrightarrow> i + length pat \<le> length h"
  using find_sub_bound [of pat "map uint h" i] by simp

lemma find_pat_append: "find_pat pat h = Some i \<Longrightarrow> find_pat pat (h @ x) = Some i"
  using find_sub_append [of pat "map uint h" i "map uint x"] by simp

text \<open>The contents of the complete messages of a stream, and what follows the last delimiter.\<close>

function ln_frames :: "int list \<Rightarrow> bytes \<Rightarrow> bytes list" where
  "ln_frames pat h =
     (if pat = [] then []
      else case find_pat pat h of
             None \<Rightarrow> []
           | Some i \<Rightarrow> take i h # ln_frames pat (drop (i + length pat) h))"
  by pat_completeness auto
termination
  by (relation "measure (\<lambda>(pat, h). length h)") (auto dest!: find_pat_bound simp flip: length_greater_0_conv)

function ln_tail :: "int list \<Rightarrow> bytes \<Rightarrow> bytes" where
  "ln_tail pat h =
     (if pat = [] then h
      else case find_pat pat h of
             None \<Rightarrow> h
           | Some i \<Rightarrow> ln_tail pat (drop (i + length pat) h))"
  by pat_completeness auto
termination
  by (relation "measure (\<lambda>(pat, h). length h)") (auto dest!: find_pat_bound simp flip: length_greater_0_conv)

declare ln_frames.simps [simp del] ln_tail.simps [simp del]

abbreviation ln_pat :: "bool \<Rightarrow> 'a line_config_scheme \<Rightarrow> int list" where
  "ln_pat sg c \<equiv> delim_pattern sg (ln_delimiter c)"

definition ln_deliver :: "'a line_config_scheme \<Rightarrow> bytes \<Rightarrow> bytes" where
  "ln_deliver c m = (if ln_include_delimiter c then m @ ln_delimiter c else m)"

definition ln_decode :: "bool \<Rightarrow> 'a line_config_scheme \<Rightarrow> bytes \<Rightarrow> bytes list" where
  "ln_decode sg c h =
     map (ln_deliver c) (filter (\<lambda>m. length m \<le> ln_max_length c) (ln_frames (ln_pat sg c) h))"

definition ln_clean :: "bool \<Rightarrow> 'a line_config_scheme \<Rightarrow> bytes \<Rightarrow> bool" where
  "ln_clean sg c h \<longleftrightarrow>
     ln_delimiter c \<noteq> [] \<and> ln_max_length c + length (ln_delimiter c) \<le> SIZE_MAX
     \<and> (\<forall>m\<in>set (ln_frames (ln_pat sg c) h). length m \<le> ln_max_length c)
     \<and> length (ln_tail (ln_pat sg c) h) < ln_max_length c + length (ln_delimiter c)"

lemma ln_tail_no_delimiter: "pat \<noteq> [] \<Longrightarrow> find_pat pat (ln_tail pat h) = None"
  by (induction pat h rule: ln_tail.induct)
    (subst ln_tail.simps, auto split: option.split)

lemma ln_tail_suffix_ex: "\<exists>p. h = p @ ln_tail pat h"
proof (induction pat h rule: ln_tail.induct)
  case (1 pat h)
  show ?case
  proof (cases "pat = [] \<or> find_pat pat h = None")
    case True
    then show ?thesis by (auto simp: ln_tail.simps [of pat h])
  next
    case False
    then obtain i where ne: "pat \<noteq> []" and i: "find_pat pat h = Some i" by auto
    from "1.IH" [OF ne i] obtain p
      where "drop (i + length pat) h = p @ ln_tail pat (drop (i + length pat) h)" by blast
    then have "h = (take (i + length pat) h @ p) @ ln_tail pat (drop (i + length pat) h)"
      by (metis append_assoc append_take_drop_id)
    then have "\<exists>p. h = p @ ln_tail pat (drop (i + length pat) h)" by blast
    with ne i show ?thesis by (simp add: ln_tail.simps [of pat h])
  qed
qed

lemma ln_tail_suffix:
  "drop (length h - length (ln_tail pat h)) h = ln_tail pat h" "length (ln_tail pat h) \<le> length h"
proof -
  obtain p where p: "h = p @ ln_tail pat h" using ln_tail_suffix_ex by blast
  then have "length h = length p + length (ln_tail pat h)" by (metis length_append)
  with p show "drop (length h - length (ln_tail pat h)) h = ln_tail pat h"
    "length (ln_tail pat h) \<le> length h"
    by (metis add_diff_cancel_right' append_eq_conv_conj, simp)
qed

lemma ln_frames_tail_append:
  "ln_frames pat (h @ x) = ln_frames pat h @ ln_frames pat (ln_tail pat h @ x)
   \<and> ln_tail pat (h @ x) = ln_tail pat (ln_tail pat h @ x)"
proof (induction pat h rule: ln_tail.induct)
  case (1 pat h)
  show ?case
  proof (cases "pat = [] \<or> find_pat pat h = None")
    case True
    then show ?thesis
      by (auto simp: ln_tail.simps [of pat h] ln_frames.simps [of pat h] ln_frames.simps [of "[]"])
  next
    case False
    then obtain i where ne: "pat \<noteq> []" and i: "find_pat pat h = Some i" by auto
    from "1.IH" [OF ne i] i ne find_pat_append [OF i, of x] find_pat_bound [OF i] show ?thesis
      by (simp add: ln_tail.simps [of pat h] ln_frames.simps [of pat h]
          ln_tail.simps [of pat "h @ x"] ln_frames.simps [of pat "h @ x"])
  qed
qed

lemma ln_clean_prefix:
  assumes "ln_clean sg c (h @ x)"
  shows "ln_clean sg c h"
proof -
  let ?p = "ln_pat sg c" let ?t = "ln_tail ?p h"
  have d: "ln_delimiter c \<noteq> []" using assms by (simp add: ln_clean_def)
  note app = ln_frames_tail_append [of ?p h x]
  have "length ?t < ln_max_length c + length (ln_delimiter c)"
  proof (cases "find_pat ?p (?t @ x)")
    case None
    then have "ln_tail ?p (h @ x) = ?t @ x"
      using app by (simp add: ln_tail.simps [of ?p "?t @ x"])
    then show ?thesis using assms by (simp add: ln_clean_def)
  next
    case (Some i)
    then have "take i (?t @ x) \<in> set (ln_frames ?p (h @ x))"
      using app d by (simp add: ln_frames.simps [of ?p "?t @ x"] split: option.splits)
    then have "length (take i (?t @ x)) \<le> ln_max_length c"
      using assms unfolding ln_clean_def by blast
    moreover have "length (take i (?t @ x)) = i" using find_pat_bound [OF Some] by simp
    moreover have "length ?t < i + length (ln_delimiter c)"
    proof (rule ccontr)
      assume "\<not> ?thesis"
      then have "find_pat ?p ?t = Some i"
        using find_sub_SomeD [OF Some] prefix_drop_append_short [of _ ?p "map uint ?t" "map uint x"]
        by (intro find_sub_SomeI) auto
      then show False using ln_tail_no_delimiter [of ?p h] d by simp
    qed
    ultimately show ?thesis by simp
  qed
  with assms app show ?thesis by (auto simp: ln_clean_def)
qed

section \<open>Scanning\<close>

lemma ln_reset_simps [simp]:
  "ln_buffer (ln_reset f) = []" "ln_delimiter (ln_reset f) = ln_delimiter f"
  "ln_scanned_idx (ln_reset f) = 0" "ln_max_length (ln_reset f) = ln_max_length f"
  "ln_on_message (ln_reset f) = ln_on_message f" "ln_discarding (ln_reset f) = False"
  "ln_include_delimiter (ln_reset f) = ln_include_delimiter f"
  "ln_reset (ln_reset f) = ln_reset f"
  by (simp_all add: ln_reset_def)

text \<open>One iteration, in terms of the next delimiter.\<close>

lemma ln_scan_unfold:
  assumes "ln_delimiter f \<noteq> []" and "cur \<le> length data"
  shows "ln_scan_loop sg f own data p cur out =
    (case find_pat (ln_pat sg f) (drop cur data) of
       None \<Rightarrow> Some (f, p, out)
     | Some i \<Rightarrow>
         let e = cur + i + length (ln_delimiter f); n = cur + i - p
         in if n > ln_max_length f then ln_scan_loop sg f own data e e out
            else (case ln_on_message f of
                    None \<Rightarrow> ln_scan_loop sg f own data e e out
                  | Some cb \<Rightarrow>
                      let msg = take (if ln_include_delimiter f then e - p else n) (drop p data);
                          f' = (if cb (out @ [msg]) then ln_reset f else f)
                      in if own \<and> ln_buffer f' = [] then Some (f', 0, out @ [msg])
                         else ln_scan_loop sg f' own data e e (out @ [msg])))"
proof (cases "find_pat (ln_pat sg f) (drop cur data)")
  case None
  then show ?thesis
    using assms by (subst ln_scan_loop.simps) (simp add: find_delimiter_eq)
next
  case (Some i)
  then have "cur + i \<noteq> length data"
    using find_pat_bound [OF Some] assms by (cases "ln_delimiter f") auto
  moreover have n: "cur + i + length (ln_delimiter f) - p - length (ln_delimiter f) = cur + i - p"
    by simp
  ultimately show ?thesis
    using assms
    by (subst ln_scan_loop.simps, unfold find_delimiter_eq Some option.case Let_def n) simp
qed

lemma ln_scan_quiet:
  assumes d: "ln_delimiter f \<noteq> []" and cb: "ln_on_message f = Some quiet_callback"
    and own: "own \<Longrightarrow> ln_buffer f \<noteq> []" and p: "p \<le> length data"
  shows "ln_scan_loop sg f own data p p out =
    Some (f, length data - length (ln_tail (ln_pat sg f) (drop p data)),
          out @ ln_decode sg f (drop p data))"
  using p
proof (induction "length data - p" arbitrary: p out rule: less_induct)
  case less
  let ?h = "drop p data" let ?pat = "ln_pat sg f"
  note unf = ln_scan_unfold [OF d less.prems, of sg own p out]
    ln_decode_def ln_frames.simps [of ?pat ?h] ln_tail.simps [of ?pat ?h]
  show ?case
  proof (cases "find_pat ?pat ?h")
    case None
    then show ?thesis using less.prems by (simp add: unf)
  next
    case (Some i)
    let ?e = "p + i + length (ln_delimiter f)"
    have e: "?e \<le> length data" "p < ?e" using find_pat_bound [OF Some] less.prems d by auto
    have msg: "take (if ln_include_delimiter f then i + length (ln_delimiter f) else i) ?h
        = ln_deliver f (take i ?h)"
      using delim_pattern_match [OF Some] by (simp add: ln_deliver_def take_add)
    have IH: "ln_scan_loop sg f own data ?e ?e out' =
        Some (f, length data - length (ln_tail ?pat (drop ?e data)), out' @ ln_decode sg f (drop ?e data))"
      for out'
    proof (rule less.hyps)
      show "length data - ?e < length data - p" using e by linarith
    qed (use e in auto)
    have len: "length (take i ?h) = i" using find_pat_bound [OF Some] by simp
    show ?thesis
      using Some d cb own IH msg len
      by (auto simp: unf Let_def quiet_callback_def add_ac)
  qed
qed

text \<open>What any delivered message satisfies, whatever the input.\<close>

definition ln_msg_ok :: "bool \<Rightarrow> 'a line_config_scheme \<Rightarrow> bytes \<Rightarrow> bool" where
  "ln_msg_ok sg c m \<longleftrightarrow>
     length m \<le> ln_max_length c + (if ln_include_delimiter c then length (ln_delimiter c) else 0)
     \<and> (\<exists>h. find_pat (ln_pat sg c) h \<noteq> None)"

lemma ln_msg_ok_reset [simp]: "ln_msg_ok sg (ln_reset f) m = ln_msg_ok sg f m"
  by (simp add: ln_msg_ok_def)

text \<open>
  Any callback: either it reset the framer while its own buffer was scanned, or the scan consumed
  everything up to the last delimiter.
\<close>

lemma ln_scan_returns:
  assumes "ln_delimiter f \<noteq> []" and "own \<Longrightarrow> ln_buffer f \<noteq> []" and "p \<le> length data"
  shows "\<exists>f' q out'. ln_scan_loop sg f own data p p out = Some (f', q, out')
    \<and> ((\<forall>m\<in>set out. ln_msg_ok sg f m) \<longrightarrow> (\<forall>m\<in>set out'. ln_msg_ok sg f m))
    \<and> (f' = f \<or> f' = ln_reset f)
    \<and> (own \<and> f' = ln_reset f \<and> q = 0
       \<or> (own \<longrightarrow> f' = f) \<and> p \<le> q \<and> q \<le> length data \<and> find_pat (ln_pat sg f) (drop q data) = None)"
  using assms
proof (induction "length data - p" arbitrary: f p out rule: less_induct)
  case less
  let ?h = "drop p data" let ?pat = "ln_pat sg f"
  note unf = ln_scan_unfold [OF less.prems(1,3), of sg own p out]
  show ?case
  proof (cases "find_pat ?pat ?h")
    case None
    then show ?thesis using less.prems by (auto simp: unf)
  next
    case (Some i)
    let ?e = "p + i + length (ln_delimiter f)"
    have e: "?e \<le> length data" "p < ?e"
      using find_pat_bound [OF Some] less.prems by auto
    have IH: "\<exists>f' q out'. ln_scan_loop sg g own data ?e ?e o2 = Some (f', q, out')
      \<and> ((\<forall>m\<in>set o2. ln_msg_ok sg g m) \<longrightarrow> (\<forall>m\<in>set out'. ln_msg_ok sg g m))
      \<and> (f' = g \<or> f' = ln_reset g)
      \<and> (own \<and> f' = ln_reset g \<and> q = 0
         \<or> (own \<longrightarrow> f' = g) \<and> ?e \<le> q \<and> q \<le> length data \<and> find_pat (ln_pat sg g) (drop q data) = None)"
      if "ln_delimiter g = ln_delimiter f" "own \<Longrightarrow> ln_buffer g \<noteq> []" for g o2
    proof (rule less.hyps)
      show "length data - ?e < length data - p" using e by linarith
    qed (use e that less.prems(1) in auto)
    show ?thesis
    proof (cases "i > ln_max_length f \<or> ln_on_message f = None")
      case True
      then have "ln_scan_loop sg f own data p p out = ln_scan_loop sg f own data ?e ?e out"
        using Some by (auto simp: unf Let_def)
      with IH [of f out] less.prems(2) e show ?thesis by auto
    next
      case False
      then obtain cb where cb: "ln_on_message f = Some cb" by auto
      define msg where "msg = take (if ln_include_delimiter f then ?e - p else i) ?h"
      have ok: "ln_msg_ok sg f msg"
        using False Some by (auto simp: ln_msg_ok_def msg_def)
      show ?thesis
      proof (cases "cb (out @ [msg])")
        case True
        have "ln_scan_loop sg f own data p p out =
            (if own then Some (ln_reset f, 0, out @ [msg])
             else ln_scan_loop sg (ln_reset f) own data ?e ?e (out @ [msg]))"
          using Some False cb True by (auto simp: unf Let_def msg_def)
        with IH [of "ln_reset f" "out @ [msg]"] e ok show ?thesis by auto
      next
        case no: False
        have "ln_scan_loop sg f own data p p out = ln_scan_loop sg f own data ?e ?e (out @ [msg])"
          using Some False cb no less.prems(2) by (auto simp: unf Let_def msg_def)
        with IH [of f "out @ [msg]"] less.prems(2) e ok show ?thesis by auto
      qed
    qed
  qed
qed

section \<open>One chunk\<close>

definition ln_cap :: "line_framer \<Rightarrow> nat" where
  "ln_cap f = max_partial_length (ln_max_length f) (length (ln_delimiter f))"

definition ln_inv :: "bool \<Rightarrow> line_framer \<Rightarrow> bool" where
  "ln_inv sg f \<longleftrightarrow> ln_delimiter f \<noteq> [] \<and> ln_scanned_idx f = length (ln_buffer f)
     \<and> length (ln_buffer f) \<le> ln_cap f \<and> find_pat (ln_pat sg f) (ln_buffer f) = None
     \<and> (ln_discarding f \<longrightarrow> ln_buffer f = [])"

text \<open>Resuming the search at the back-up point finds what a search from the start would.\<close>

lemma ln_scan_resume:
  assumes d: "ln_delimiter f \<noteq> []" and none: "find_pat (ln_pat sg f) b = None"
    and k: "k = (if length b \<ge> length (ln_delimiter f) then length b - (length (ln_delimiter f) - 1) else 0)"
  shows "ln_scan_loop sg f own (b @ x) 0 k out = ln_scan_loop sg f own (b @ x) 0 0 out"
proof (cases "k = 0")
  case False
  have kb: "k + (length (ln_pat sg f) - 1) \<le> length (map uint b)"
    using k False d by (cases "ln_delimiter f") (auto split: if_splits)
  have "find_pat (ln_pat sg f) (b @ x) =
      map_option ((+) k) (find_pat (ln_pat sg f) (drop k (b @ x)))"
    using find_sub_resume [OF none _ kb, of "map uint x"] d
    by (simp add: drop_map flip: map_append del: drop_append map_append)
  moreover have "k \<le> length (b @ x)" using kb by simp
  ultimately show ?thesis
    using ln_scan_unfold [OF d, of k "b @ x" sg own 0 out] ln_scan_unfold [OF d, of 0 "b @ x" sg own 0 out]
    by (cases "find_pat (ln_pat sg f) (drop k (b @ x))") (simp_all add: Let_def)
qed simp

lemma append_bytes_ok:
  "length b + length data \<le> SIZE_MAX \<Longrightarrow> append_bytes b data k = Inr (b @ drop k data)"
  by (auto simp: append_bytes_def)

lemma ln_slow_path_eq:
  assumes "length (ln_buffer f) + length x \<le> SIZE_MAX" and "ln_scanned_idx f = length (ln_buffer f)"
    and k: "k = (if length (ln_delimiter f) \<le> length (ln_buffer f)
                 then length (ln_buffer f) - (length (ln_delimiter f) - 1) else 0)"
  shows "ln_slow_path sg f x out =
    (case scan_and_process sg (f\<lparr>ln_buffer := ln_buffer f @ x\<rparr>) True (ln_buffer f @ x) k out of
       None \<Rightarrow> None
     | Some (f1, n, out1) \<Rightarrow>
         let f2 = (if n > 0 then f1\<lparr>ln_buffer := drop n (ln_buffer f1)\<rparr> else f1)
         in Some (ln_overflow_check (f2\<lparr>ln_scanned_idx := length (ln_buffer f2)\<rparr>), out1, None))"
  using append_bytes_ok [OF assms(1), of 0] assms(2)
  by (simp add: ln_slow_path_def k Let_def)

text \<open>A push of one chunk outside discard mode, for a callback that only consumes.\<close>

lemma ln_push_internal_quiet:
  assumes inv: "ln_inv sg f" and cb: "ln_on_message f = Some quiet_callback"
    and nd: "\<not> ln_discarding f" and room: "length (ln_buffer f) + length x \<le> SIZE_MAX"
  shows "ln_push_bytes_internal sg f x out =
    Some (ln_overflow_check
            (f\<lparr>ln_buffer := ln_tail (ln_pat sg f) (ln_buffer f @ x),
               ln_scanned_idx := length (ln_tail (ln_pat sg f) (ln_buffer f @ x))\<rparr>),
          out @ ln_decode sg f (ln_buffer f @ x), None)"
proof -
  let ?p = "ln_pat sg f" and ?b = "ln_buffer f"
  have d: "ln_delimiter f \<noteq> []" and sc: "ln_scanned_idx f = length ?b"
    and none: "find_pat ?p ?b = None" and cap: "length ?b \<le> ln_cap f"
    using inv by (auto simp: ln_inv_def)
  consider "x = []" | "x \<noteq> []" "?b = []" | "x \<noteq> []" "?b \<noteq> []" by blast
  then show ?thesis
  proof cases
    case 1
    have "ln_tail ?p ?b = ?b" "ln_frames ?p ?b = []"
      using none by (simp_all add: ln_tail.simps [of ?p ?b] ln_frames.simps [of ?p ?b])
    with 1 cap sc show ?thesis
      by (simp add: ln_push_bytes_internal_def ln_overflow_check_def ln_decode_def ln_cap_def)
  next
    case 2
    let ?t = "ln_tail ?p x"
    have "scan_and_process sg f False x 0 out =
        Some (f, length x - length ?t, out @ ln_decode sg f x)"
      using ln_scan_quiet [OF d cb, of False 0 x sg out] by (simp add: scan_and_process_def)
    moreover have "append_bytes [] x k = Inr (drop k x)" for k
      using append_bytes_ok [of "[]" x k] room 2 by simp
    ultimately show ?thesis
      using 2 nd ln_tail_suffix [where pat = ?p and h = x]
      by (auto simp: ln_push_bytes_internal_def ln_fast_path_def ln_overflow_check_def
          simp flip: length_greater_0_conv)
  next
    case 3
    let ?f0 = "f\<lparr>ln_buffer := ?b @ x\<rparr>" and ?t = "ln_tail ?p (?b @ x)"
    let ?k = "if length (ln_delimiter f) \<le> length ?b then length ?b - (length (ln_delimiter f) - 1) else 0"
    have "scan_and_process sg ?f0 True (?b @ x) ?k out = ln_scan_loop sg ?f0 True (?b @ x) 0 ?k out"
      by (auto simp: scan_and_process_def min_def)
    also have "\<dots> = ln_scan_loop sg ?f0 True (?b @ x) 0 0 out"
      by (rule ln_scan_resume) (use d none in auto)
    also have "\<dots> = Some (?f0, length (?b @ x) - length ?t, out @ ln_decode sg f (?b @ x))"
      using ln_scan_quiet [of ?f0 True 0 "?b @ x" sg out] d cb 3
      by (simp add: ln_decode_def ln_deliver_def)
    finally have scan: "scan_and_process sg ?f0 True (?b @ x) ?k out =
      Some (?f0, length (?b @ x) - length ?t, out @ ln_decode sg f (?b @ x))" .
    have dr: "drop (length (?b @ x) - length ?t) (?b @ x) = ?t"
      by (rule ln_tail_suffix)
    have "ln_push_bytes_internal sg f x out = ln_slow_path sg f x out"
      using 3 nd by (simp add: ln_push_bytes_internal_def)
    note this [unfolded ln_slow_path_eq [OF room sc refl]]
    moreover have "(if n > 0 then ?f0\<lparr>ln_buffer := drop n (ln_buffer ?f0)\<rparr> else ?f0)
        = f\<lparr>ln_buffer := ?t\<rparr>" if "n = length (?b @ x) - length ?t" for n
      using dr that by (cases "n = 0") (simp_all del: drop_append length_append)
    ultimately show ?thesis
      unfolding scan by (simp add: Let_def del: drop_append length_append)
  qed
qed

text \<open>Any callback: the push returns and keeps the invariant.\<close>

definition ln_same :: "line_framer \<Rightarrow> line_framer \<Rightarrow> bool" where
  "ln_same f g \<longleftrightarrow> ln_delimiter g = ln_delimiter f \<and> ln_include_delimiter g = ln_include_delimiter f
     \<and> ln_max_length g = ln_max_length f \<and> ln_on_message g = ln_on_message f"

text \<open>The outcome every path of a push has: it returns, keeps the invariant and delivers only such messages.\<close>

definition ln_outcome ::
    "bool \<Rightarrow> line_framer \<Rightarrow> bytes list \<Rightarrow> line_framer push_result \<Rightarrow> bool" where
  "ln_outcome sg f out r \<longleftrightarrow> (\<exists>f' out'. r = Some (f', out', None) \<and> ln_inv sg f' \<and> ln_same f f'
     \<and> ((\<forall>m\<in>set out. ln_msg_ok sg f m) \<longrightarrow> (\<forall>m\<in>set out'. ln_msg_ok sg f m)))"

lemma ln_same_refl [simp]: "ln_same f f"
  by (simp add: ln_same_def)

lemma ln_same_trans: "ln_same f g \<Longrightarrow> ln_same g h \<Longrightarrow> ln_same f h"
  by (simp add: ln_same_def)

lemma ln_same_msg_ok: "ln_same f g \<Longrightarrow> ln_msg_ok sg g = ln_msg_ok sg f"
  by (auto simp: ln_same_def ln_msg_ok_def fun_eq_iff)

lemma ln_same_cap: "ln_same f g \<Longrightarrow> ln_cap g = ln_cap f"
  by (simp add: ln_same_def ln_cap_def)

lemma ln_outcome_same: "ln_outcome sg g out r \<Longrightarrow> ln_same f g \<Longrightarrow> ln_outcome sg f out r"
  by (auto simp: ln_outcome_def ln_same_msg_ok dest: ln_same_trans)

lemma ln_outcome_trivial: "ln_inv sg f \<Longrightarrow> ln_outcome sg f out (Some (f, out, None))"
  by (simp add: ln_outcome_def)

lemma ln_overflow_check_inv:
  assumes "ln_delimiter f \<noteq> []" "ln_scanned_idx f = length (ln_buffer f)"
    "find_pat (ln_pat sg f) (ln_buffer f) = None" "\<not> ln_discarding f"
  shows "ln_inv sg (ln_overflow_check f) \<and> ln_same f (ln_overflow_check f)"
  using assms by (auto simp: ln_inv_def ln_overflow_check_def ln_cap_def ln_same_def)

lemma ln_fast_path_returns:
  assumes inv: "ln_inv sg f" and b: "ln_buffer f = []" and nd: "\<not> ln_discarding f"
    and room: "length x \<le> SIZE_MAX"
  shows "ln_outcome sg f out (ln_fast_path sg f x out)"
proof -
  have d: "ln_delimiter f \<noteq> []" and r: "ln_reset f = f"
    using inv b nd by (auto simp: ln_inv_def ln_reset_def)
  from ln_scan_returns [OF d, of False 0 x sg out] r obtain q out'
    where scan: "scan_and_process sg f False x 0 out = Some (f, q, out')"
      and q: "find_pat (ln_pat sg f) (drop q x) = None"
      and ok: "(\<forall>m\<in>set out. ln_msg_ok sg f m) \<longrightarrow> (\<forall>m\<in>set out'. ln_msg_ok sg f m)"
    by (auto simp: scan_and_process_def)
  have app: "append_bytes [] x q = Inr (drop q x)" using append_bytes_ok [of "[]" x q] room by simp
  let ?g = "f\<lparr>ln_buffer := drop q x, ln_scanned_idx := length (drop q x)\<rparr>"
  have over: "ln_inv sg (ln_overflow_check ?g)" "ln_same ?g (ln_overflow_check ?g)"
    using ln_overflow_check_inv [of ?g sg] d q nd by auto
  have "ln_same f ?g" by (simp add: ln_same_def)
  then have "ln_same f (ln_overflow_check ?g)" using over(2) by (rule ln_same_trans)
  moreover have "ln_same f (f\<lparr>ln_scanned_idx := 0\<rparr>)" by (simp add: ln_same_def)
  moreover have "ln_inv sg (f\<lparr>ln_scanned_idx := 0\<rparr>)" using inv b by (simp add: ln_inv_def ln_cap_def)
  ultimately show ?thesis
    using over(1) ok b app by (auto simp: ln_outcome_def ln_fast_path_def scan)
qed

lemma ln_slow_path_returns:
  assumes inv: "ln_inv sg f" and b: "ln_buffer f \<noteq> []" and nd: "\<not> ln_discarding f"
    and room: "length (ln_buffer f) + length x \<le> SIZE_MAX"
  shows "ln_outcome sg f out (ln_slow_path sg f x out)"
proof -
  let ?b = "ln_buffer f" and ?f0 = "f\<lparr>ln_buffer := ln_buffer f @ x\<rparr>"
  let ?k = "if length (ln_delimiter f) \<le> length ?b then length ?b - (length (ln_delimiter f) - 1) else 0"
  have d: "ln_delimiter f \<noteq> []" and sc: "ln_scanned_idx f = length ?b"
    and none: "find_pat (ln_pat sg f) ?b = None"
    using inv by (auto simp: ln_inv_def)
  have same: "ln_same f ?f0" by (simp add: ln_same_def)
  have start: "scan_and_process sg ?f0 True (?b @ x) ?k out = ln_scan_loop sg ?f0 True (?b @ x) 0 0 out"
    using ln_scan_resume [of ?f0 sg ?b ?k True x out] d none
    by (auto simp: scan_and_process_def min_def)
  have "ln_delimiter ?f0 \<noteq> []" "True \<Longrightarrow> ln_buffer ?f0 \<noteq> []" "0 \<le> length (?b @ x)"
    using d b by auto
  from ln_scan_returns [where sg = sg and out = out, OF this] obtain f1 q out1
    where scan: "scan_and_process sg ?f0 True (?b @ x) ?k out = Some (f1, q, out1)"
      and "(\<forall>m\<in>set out. ln_msg_ok sg ?f0 m) \<longrightarrow> (\<forall>m\<in>set out1. ln_msg_ok sg ?f0 m)"
      and "f1 = ln_reset ?f0 \<and> q = 0 \<or>
        f1 = ?f0 \<and> find_pat (ln_pat sg ?f0) (drop q (?b @ x)) = None"
    unfolding start by blast
  then have ok: "(\<forall>m\<in>set out. ln_msg_ok sg f m) \<longrightarrow> (\<forall>m\<in>set out1. ln_msg_ok sg f m)"
    and cases: "f1 = ln_reset ?f0 \<and> q = 0 \<or>
        f1 = ?f0 \<and> find_pat (ln_pat sg f) (drop q (?b @ x)) = None"
    unfolding ln_same_msg_ok [OF same] by simp_all
  let ?f2 = "if q > 0 then f1\<lparr>ln_buffer := drop q (ln_buffer f1)\<rparr> else f1"
  let ?f3 = "?f2\<lparr>ln_scanned_idx := length (ln_buffer ?f2)\<rparr>"
  have "ln_slow_path sg f x out = Some (ln_overflow_check ?f3, out1, None)"
    unfolding ln_slow_path_eq [OF room sc refl] scan by (simp add: Let_def)
  moreover have "ln_inv sg (ln_overflow_check ?f3) \<and> ln_same ?f3 (ln_overflow_check ?f3)"
    using cases d nd by (intro ln_overflow_check_inv) auto
  moreover have "ln_same f ?f3" using cases by (auto simp: ln_same_def)
  ultimately show ?thesis using ok by (auto simp: ln_outcome_def dest: ln_same_trans)
qed

lemma ln_push_internal_returns:
  assumes inv: "ln_inv sg f" and room: "ln_cap f + length x \<le> SIZE_MAX"
  shows "ln_outcome sg f out (ln_push_bytes_internal sg f x out)"
proof -
  have nd: "ln_outcome sg f out (if ln_buffer g = [] then ln_fast_path sg g y out else ln_slow_path sg g y out)"
    if "ln_inv sg g" "\<not> ln_discarding g" "ln_same f g" "length y \<le> length x" for g y
  proof -
    have "length (ln_buffer g) + length y \<le> SIZE_MAX" "length y \<le> SIZE_MAX"
      using that room by (auto simp: ln_inv_def ln_cap_def ln_same_def)
    with ln_fast_path_returns [OF that(1) _ that(2), of y out]
      ln_slow_path_returns [OF that(1) _ that(2), of y out] that(3)
    show ?thesis by (auto dest: ln_outcome_same)
  qed
  let ?g = "f\<lparr>ln_discarding := False\<rparr>"
  show ?thesis
  proof (cases "ln_discarding f")
    case True
    have g: "ln_inv sg ?g" "ln_same f ?g"
      using inv by (auto simp: ln_inv_def ln_same_def ln_cap_def)
    then have "ln_outcome sg f out (Some (?g, out, None))"
      using ln_outcome_same [OF ln_outcome_trivial] by blast
    with nd [of ?g] g True inv show ?thesis
      by (auto simp: ln_push_bytes_internal_def Let_def ln_outcome_trivial split: option.split)
  next
    case False
    with nd [of f x] inv show ?thesis
      by (auto simp: ln_push_bytes_internal_def ln_outcome_trivial)
  qed
qed

section \<open>The contract of IFramer\<close>

lemma ln_push_loop_returns:
  "ln_inv sg f \<Longrightarrow> ln_cap f + length data \<le> SIZE_MAX \<Longrightarrow>
     ln_outcome sg f out (ln_push_loop sg mx f data offset out)"
proof (induction sg mx f data offset out rule: ln_push_loop.induct)
  case (1 sg mx f data offset out)
  note unf = ln_push_loop.simps [of sg mx f data offset out]
  show ?case
  proof (cases "offset < length data")
    case True
    define len where "len = min (length data - offset) (max mx 4096)"
    have "ln_cap f + length (take len (drop offset data)) \<le> SIZE_MAX"
      using "1.prems"(2) by simp
    from ln_push_internal_returns [OF "1.prems"(1) this, of out]
    obtain f1 out1 where p: "ln_push_bytes_internal sg f (take len (drop offset data)) out = Some (f1, out1, None)"
      "ln_inv sg f1" "ln_same f f1"
      and ok: "(\<forall>m\<in>set out. ln_msg_ok sg f m) \<longrightarrow> (\<forall>m\<in>set out1. ln_msg_ok sg f m)"
      by (auto simp: ln_outcome_def)
    have "ln_outcome sg f1 out1 (ln_push_loop sg mx f1 data (offset + len) out1)"
      using "1.IH" [OF True len_def p(1) refl refl refl p(2)] "1.prems"(2) ln_same_cap [OF p(3)] by simp
    then have "ln_outcome sg f out (ln_push_loop sg mx f1 data (offset + len) out1)"
      using ok ln_same_msg_ok [OF p(3)] ln_same_trans [OF p(3)] by (auto simp: ln_outcome_def)
    with p True show ?thesis by (simp add: unf flip: len_def)
  next
    case False
    with "1.prems" show ?thesis by (simp add: unf ln_outcome_trivial)
  qed
qed

lemma ln_push_returns:
  assumes "ln_inv sg f" and "ln_cap f + length data \<le> SIZE_MAX"
  shows "ln_outcome sg f [] (ln_push_bytes sg f data)"
  using ln_push_loop_returns [OF assms, of "[]" "ln_max_length f" 0] ln_outcome_trivial [OF assms(1)]
  by (simp add: ln_push_bytes_def)

interpretation ln: bounded_framer "ln_push_bytes sg" ln_reset ln_buffer "ln_inv sg" ln_cap
  "\<lambda>c d. c + length d \<le> SIZE_MAX" for sg
proof (unfold_locales, goal_cases)
  case (1 s d)
  then show ?case using ln_push_returns [OF 1] by (auto simp: ln_outcome_def dest: ln_same_cap)
next
  case (2 s)
  then show ?case by (simp add: ln_inv_def)
next
  case (3 s)
  then show ?case by (auto simp: ln_inv_def ln_cap_def)
qed

definition ln_tracks :: "bool \<Rightarrow> line_framer \<Rightarrow> bytes \<Rightarrow> bool" where
  "ln_tracks sg f h \<longleftrightarrow> ln_inv sg f \<and> ln_on_message f = Some quiet_callback \<and> \<not> ln_discarding f
     \<and> ln_clean sg f h \<and> ln_buffer f = ln_tail (ln_pat sg f) h"

lemma ln_clean_cap:
  assumes "ln_clean sg f h"
  shows "ln_cap f = ln_max_length f + length (ln_delimiter f) - 1"
    and "length (ln_tail (ln_pat sg f) h) \<le> ln_cap f"
  using assms length_greater_0_conv [of "ln_delimiter f"]
  by (auto simp: ln_clean_def ln_cap_def max_partial_length_def Let_def simp del: length_greater_0_conv)

lemma ln_push_internal_tracks:
  assumes t: "ln_tracks sg f h" and c: "ln_clean sg f (h @ x)" and r: "ln_cap f + length x \<le> SIZE_MAX"
  shows "\<exists>f'. ln_push_bytes_internal sg f x out =
      Some (f', out @ ln_decode sg f (ln_buffer f @ x), None)
    \<and> ln_same f f' \<and> ln_tracks sg f' (h @ x)
    \<and> ln_decode sg f (h @ x) = ln_decode sg f h @ ln_decode sg f (ln_buffer f @ x)"
proof -
  let ?p = "ln_pat sg f"
  have f: "ln_inv sg f" "ln_on_message f = Some quiet_callback" "\<not> ln_discarding f"
    "ln_buffer f = ln_tail ?p h"
    using t by (auto simp: ln_tracks_def)
  have d: "ln_delimiter f \<noteq> []" using f(1) by (simp add: ln_inv_def)
  note app = ln_frames_tail_append [of ?p h x]
  have "length (ln_buffer f) + length x \<le> SIZE_MAX" using f(1) r by (simp add: ln_inv_def)
  note push = ln_push_internal_quiet [OF f(1,2,3) this, of out]
  define f' where "f' = f\<lparr>ln_buffer := ln_tail ?p (h @ x), ln_scanned_idx := length (ln_tail ?p (h @ x))\<rparr>"
  have cap: "ln_cap f' = ln_cap f" by (simp add: f'_def ln_cap_def)
  have "ln_overflow_check f' = f'"
    using ln_clean_cap(2) [OF c] cap by (simp add: ln_overflow_check_def ln_cap_def f'_def)
  moreover have "ln_tracks sg f' (h @ x)"
    using f c d ln_clean_cap(2) [OF c] cap ln_tail_no_delimiter [of ?p "h @ x"]
    by (simp add: ln_tracks_def ln_inv_def f'_def ln_clean_def)
  moreover have "ln_same f f'" by (simp add: f'_def ln_same_def)
  ultimately show ?thesis
    using push app f(4) by (simp add: f'_def ln_decode_def)
qed

lemma ln_push_loop_tracks:
  assumes "ln_tracks sg f (h @ take offset data)" and "ln_clean sg f (h @ data)"
    and "ln_cap f + length data \<le> SIZE_MAX" and "offset \<le> length data"
  shows "\<exists>f' ms. ln_push_loop sg mx f data offset out = Some (f', out @ ms, None)
    \<and> ln_same f f' \<and> ln_tracks sg f' (h @ data)
    \<and> ln_decode sg f (h @ data) = ln_decode sg f (h @ take offset data) @ ms"
  using assms
proof (induction sg mx f data offset out rule: ln_push_loop.induct)
  case (1 sg mx f data offset out)
  show ?case
  proof (cases "offset < length data")
    case True
    define len where "len = min (length data - offset) (max mx 4096)"
    let ?x = "take len (drop offset data)"
    have hx: "h @ take (offset + len) data = (h @ take offset data) @ ?x" by (simp add: take_add)
    have c: "ln_clean sg f ((h @ take offset data) @ ?x)"
      using "1.prems"(2) ln_clean_prefix [of sg f "h @ take (offset + len) data" "drop (offset + len) data"]
      by (simp add: hx [symmetric] del: append_assoc)
        (simp add: append_assoc)
    have "ln_cap f + length ?x \<le> SIZE_MAX" using "1.prems"(3) by simp
    from ln_push_internal_tracks [OF "1.prems"(1) c this, of out] obtain f1
      where p: "ln_push_bytes_internal sg f ?x out = Some (f1, out @ ln_decode sg f (ln_buffer f @ ?x), None)"
        and s: "ln_same f f1" and t: "ln_tracks sg f1 (h @ take (offset + len) data)"
        and dec: "ln_decode sg f (h @ take (offset + len) data) =
          ln_decode sg f (h @ take offset data) @ ln_decode sg f (ln_buffer f @ ?x)"
      unfolding hx by blast
    have cfg: "ln_clean sg f1 = ln_clean sg f" "ln_decode sg f1 = ln_decode sg f" "ln_cap f1 = ln_cap f"
      using s by (auto simp: fun_eq_iff ln_clean_def ln_decode_def ln_same_def ln_cap_def ln_deliver_def)
    have "offset + len \<le> length data" using True by (auto simp: len_def)
    with "1.IH" [OF True len_def p refl refl refl, of] t "1.prems" cfg
    obtain f2 ms where "ln_push_loop sg mx f1 data (offset + len) (out @ ln_decode sg f (ln_buffer f @ ?x))
        = Some (f2, (out @ ln_decode sg f (ln_buffer f @ ?x)) @ ms, None)"
      "ln_same f1 f2" "ln_tracks sg f2 (h @ data)"
      "ln_decode sg f (h @ data) = ln_decode sg f (h @ take (offset + len) data) @ ms"
      by auto
    with p True s dec show ?thesis
      by (auto simp: ln_push_loop.simps [of sg mx f data offset out] ln_same_def simp flip: len_def)
  next
    case False
    then have "ln_push_loop sg mx f data offset out = Some (f, out, None)"
      by (simp add: ln_push_loop.simps [of sg mx f data offset out])
    with "1.prems" False show ?thesis by auto
  qed
qed

lemma ln_truncate_simps [simp]:
  "ln_clean sg (line_config.truncate f) = ln_clean sg f"
  "ln_decode sg (line_config.truncate f) = ln_decode sg f"
  "ln_delimiter (line_config.truncate f) = ln_delimiter f"
  "ln_max_length (line_config.truncate f) = ln_max_length f"
  by (auto simp: fun_eq_iff ln_clean_def ln_decode_def ln_deliver_def line_config.defs)

lemma ln_same_truncate: "ln_same f g \<Longrightarrow> line_config.truncate g = line_config.truncate f"
  by (simp add: ln_same_def line_config.defs)

definition ln_room :: "line_config \<Rightarrow> bytes \<Rightarrow> bool" where
  "ln_room c x \<longleftrightarrow> ln_max_length c + length (ln_delimiter c) + length x \<le> SIZE_MAX"

interpretation lns: stream_framer "ln_push_bytes sg" "line_config.truncate :: line_framer \<Rightarrow> line_config"
  "ln_tracks sg" "ln_clean sg" "ln_decode sg" ln_room for sg
proof (unfold_locales, goal_cases)
  case (1 c h d)
  then show ?case by (rule ln_clean_prefix)
next
  case (2 s h d)
  then have c: "ln_clean sg s (h @ d)" and room: "ln_cap s + length d \<le> SIZE_MAX"
    using ln_clean_cap(1) [of sg s "h @ d"] by (auto simp: ln_room_def)
  show ?case
  proof (cases "d = []")
    case True
    with 2 show ?thesis by (simp add: ln_push_bytes_def)
  next
    case False
    with ln_push_loop_tracks [of sg s h 0 d "ln_max_length s" "[]"] 2(1) c room
    show ?thesis by (auto simp: ln_push_bytes_def dest: ln_same_truncate)
  qed
qed

section \<open>Properties\<close>

text \<open>A line the delimiter \<open>d\<close> terminates: its first occurrence in \<open>m @ d\<close> is the one appended.\<close>

definition line_ok :: "bytes \<Rightarrow> bytes \<Rightarrow> bool" where
  "line_ok d m \<longleftrightarrow> find_sub d (m @ d) = Some (length m)"

lemma ln_frames_encoded:
  assumes "d \<noteq> []" and "\<forall>m\<in>set ms. line_ok d m"
  shows "ln_frames (map uint d) (concat (map (\<lambda>m. m @ d) ms)) = ms
    \<and> ln_tail (map uint d) (concat (map (\<lambda>m. m @ d) ms)) = []"
  using assms(2)
proof (induction ms)
  case Nil
  then show ?case using assms(1) by (simp add: ln_frames.simps [of _ "[]"] ln_tail.simps [of _ "[]"])
next
  case (Cons m ms)
  let ?rest = "concat (map (\<lambda>m. m @ d) ms)" and ?p = "map uint d"
  have "find_pat ?p (m @ d) = Some (length m)"
    using Cons.prems find_sub_map_inj [OF inj_uint_byte, of d "m @ d"] by (simp add: line_ok_def)
  then have "find_pat ?p ((m @ d) @ ?rest) = Some (length m)" by (rule find_pat_append)
  with Cons assms(1) show ?case
    by (simp add: ln_frames.simps [of ?p "m @ d @ ?rest"] ln_tail.simps [of ?p "m @ d @ ?rest"])
qed

lemma ln_new_inv:
  "ln_inv sg (ln_set_on_message (ln_new d incl mx) cb)"
  by (simp add: ln_inv_def ln_set_on_message_def ln_new_def)

lemma ln_push_all_msgs:
  "ln_inv sg f \<Longrightarrow> \<forall>x\<in>set ds. ln_cap f + length x \<le> SIZE_MAX \<Longrightarrow>
     \<exists>f' ms. push_all (ln_push_bytes sg) f ds = Some (f', ms, None) \<and> (\<forall>m\<in>set ms. ln_msg_ok sg f m)"
proof (induction ds arbitrary: f)
  case (Cons x ds)
  from ln_push_returns [of sg f x] Cons.prems obtain f1 ms1
    where p: "ln_push_bytes sg f x = Some (f1, ms1, None)" "ln_inv sg f1" "ln_same f f1"
      "\<forall>m\<in>set ms1. ln_msg_ok sg f m"
    by (auto simp: ln_outcome_def)
  with Cons.IH [OF p(2)] Cons.prems ln_same_cap [OF p(3)] ln_same_msg_ok [OF p(3)]
  show ?case by fastforce
qed simp

lemma high_pattern_never_found:
  assumes "2 \<le> length d" and "c \<in> set d" and "128 \<le> c"
  shows "find_pat (delim_pattern True d) h = None"
proof (rule ccontr)
  assume "find_pat (delim_pattern True d) h \<noteq> None"
  then obtain i where "find_pat (delim_pattern True d) h = Some i" by auto
  then have "prefix (delim_pattern True d) (map uint (drop i h))"
    by (auto dest!: find_sub_SomeD simp: drop_map)
  then have "\<forall>x\<in>set (delim_pattern True d). 0 \<le> x"
    using set_mono_prefix by fastforce
  then have "0 \<le> char_int True c" using assms by (auto simp: delim_pattern_def)
  then have "sint c = uint c" using char_int_nonneg [of True c] by (simp add: char_int_def)
  moreover have "sint c < 128"
    using signed_take_bit_int_less_exp [of 7 "uint c"] by (simp add: sint_uint)
  ultimately show False using assms(3) by (simp add: word_le_def)
qed



text \<open>
  Bounded memory and message size under any input. For any bytes, chunking and callback, every
  push returns without throwing; no more is retained than a maximal message and an incomplete
  delimiter; and no delivered message is longer than \<open>max_length\<close> (plus the delimiter if included).
\<close>

lemma ln_push_bounded:
  assumes "\<forall>x\<in>set ds. max_partial_length mx (length d) + length x \<le> SIZE_MAX" and "d \<noteq> []"
  shows "\<exists>f' ms. push_all (ln_push_bytes sg) (ln_set_on_message (ln_new d incl mx) cb) ds = Some (f', ms, None)
    \<and> length (ln_buffer f') \<le> max_partial_length mx (length d)
    \<and> (\<forall>m\<in>set ms. length m \<le> mx + (if incl then length d else 0))"
proof -
  let ?f = "ln_set_on_message (ln_new d incl mx) cb"
  have f: "ln_cap ?f = max_partial_length mx (length d)" "ln_max_length ?f = mx"
    "ln_include_delimiter ?f = incl" "ln_delimiter ?f = d"
    using assms(2) by (simp_all add: ln_cap_def ln_set_on_message_def ln_new_def)
  from ln_push_all_msgs [OF ln_new_inv, of ds d incl mx cb sg] assms f
  obtain f' ms where r: "push_all (ln_push_bytes sg) ?f ds = Some (f', ms, None)"
    and "\<forall>m\<in>set ms. length m \<le> mx + (if incl then length d else 0)"
    by (auto simp: ln_msg_ok_def)
  moreover have "length (ln_buffer f') \<le> max_partial_length mx (length d)"
    using ln.push_all_bounded [OF ln_new_inv, of ds d incl mx cb sg] assms f r by auto
  ultimately show ?thesis by blast
qed

text \<open>
  C34: Where \<open>char\<close> is signed, a delimiter of two or more bytes with a byte above 127 never matches:
  the comparison of \<open>uint8_t\<close> with \<open>char\<close> in \<open>std::search\<close> is between a non-negative and a negative
  integer. No message is ever delivered, whatever the peer sends.
\<close>

theorem ln_high_delimiter_never_matches:
  assumes "2 \<le> length d" and "\<exists>c\<in>set d. 128 \<le> c"
    and "\<forall>x\<in>set ds. max_partial_length mx (length d) + length x \<le> SIZE_MAX"
  shows "\<exists>f'. push_all (ln_push_bytes True) (ln_set_on_message (ln_new d incl mx) cb) ds = Some (f', [], None)"
proof -
  let ?f = "ln_set_on_message (ln_new d incl mx) cb"
  have f: "ln_cap ?f = max_partial_length mx (length d)" "ln_delimiter ?f = d"
    using assms(1) by (auto simp: ln_cap_def ln_set_on_message_def ln_new_def)
  from ln_push_all_msgs [OF ln_new_inv, of ds d incl mx cb True] assms(3) f(1)
  obtain f' ms where "push_all (ln_push_bytes True) ?f ds = Some (f', ms, None)"
    and ok: "\<forall>m\<in>set ms. ln_msg_ok True ?f m"
    by auto
  moreover have "\<not> ln_msg_ok True ?f m" for m
    using assms(1,2) high_pattern_never_found by (auto simp: ln_msg_ok_def f(2))
  then have "ms = []" using ok by (cases ms) auto
  ultimately show ?thesis by auto
qed

theorem ln_high_delimiter_never_matches_witness:
  "\<exists>f'. push_all (ln_push_bytes True) (ln_set_on_message (ln_new [194, 167] False 8) (Some quiet_callback))
      [[65, 194, 167, 66]] = Some (f', [], None)"
  by (rule ln_high_delimiter_never_matches)
    (auto simp: max_partial_length_def SIZE_MAX_def)

end
