(* ===== verification/Packet_Framer.thy ===== *)
theory Packet_Framer
  imports Framer_Interface
begin

text \<open>
  \<open>PacketFramer\<close> (\<open>src/wirestead/framer/packet_framer.hpp\<close> and \<open>.cc\<close>): a packet is a start
  pattern, a payload and an end pattern. While no packet is open the framer scans the caller's
  span in place (fast path); what is left over is buffered and a later push continues on the
  buffer (slow path), resuming the search for the end pattern where the last one stopped.
\<close>

section \<open>Model\<close>

datatype pk_phase = State_Sync | State_Collect

record packet_config =
  pk_start_pattern :: bytes
  pk_end_pattern :: bytes
  pk_max_length :: nat

record packet_framer = packet_config +
  pk_state :: pk_phase
  pk_buffer :: bytes
  pk_on_message :: "msg_callback option"
  pk_scanned_idx :: nat

definition pk_new :: "bytes \<Rightarrow> bytes \<Rightarrow> nat \<Rightarrow> exn + packet_framer" where
  "pk_new start_pattern end_pattern max_length =
     (if start_pattern = [] \<and> end_pattern = [] then Inl Invalid_argument
      else Inr \<lparr>pk_start_pattern = start_pattern, pk_end_pattern = end_pattern,
                pk_max_length = max_length, pk_state = State_Sync, pk_buffer = [],
                pk_on_message = None, pk_scanned_idx = 0\<rparr>)"

definition pk_set_on_message :: "packet_framer \<Rightarrow> msg_callback option \<Rightarrow> packet_framer" where
  "pk_set_on_message f cb = f\<lparr>pk_on_message := cb\<rparr>"

definition pk_reset :: "packet_framer \<Rightarrow> packet_framer" where
  "pk_reset f = f\<lparr>pk_buffer := [], pk_state := State_Sync, pk_scanned_idx := 0\<rparr>"

text \<open>\<open>if (on_message_) on_message_(msg)\<close>, with the callback free to call \<open>reset()\<close>.\<close>

definition pk_emit :: "packet_framer \<Rightarrow> bytes list \<Rightarrow> bytes \<Rightarrow> packet_framer \<times> bytes list" where
  "pk_emit f out msg =
     (case pk_on_message f of
        None \<Rightarrow> (f, out)
      | Some cb \<Rightarrow> (if cb (out @ [msg]) then pk_reset f else f, out @ [msg]))"

text \<open>The fast path's loop over the caller's span: the framer, the bytes processed, the messages.\<close>

partial_function (option) pk_fast_loop ::
    "packet_framer \<Rightarrow> bytes \<Rightarrow> nat \<Rightarrow> bytes list \<Rightarrow> (packet_framer \<times> nat \<times> bytes list) option" where
  "pk_fast_loop f data processed_count out =
     (if processed_count < length data then
        let it_start = std_search data processed_count (pk_start_pattern f)
        in if it_start = length data then
             let remaining = length data - processed_count;
                 keep_len = (if length (pk_start_pattern f) > 1
                             then length (pk_start_pattern f) - 1 else 0)
             in Some (f, if remaining > keep_len then length data - keep_len else processed_count, out)
           else
             let start_idx = it_start;
                 search_end_start_idx = start_idx + length (pk_start_pattern f)
             in if pk_end_pattern f = [] then
                  let packet_len = length (pk_start_pattern f);
                      (f', out') = pk_emit f out (take packet_len (drop start_idx data))
                  in pk_fast_loop f' data (start_idx + packet_len) out'
                else
                  let it_end = std_search data search_end_start_idx (pk_end_pattern f)
                  in if it_end = length data then Some (f, start_idx, out)
                     else
                       let packet_len = it_end + length (pk_end_pattern f) - start_idx;
                           (f', out') =
                             (if packet_len \<le> pk_max_length f
                              then pk_emit f out (take packet_len (drop start_idx data))
                              else (f, out))
                       in pk_fast_loop f' data (start_idx + packet_len) out'
      else Some (f, processed_count, out))"

text \<open>What follows the loop once the left-over bytes are in the buffer.\<close>

definition pk_note_start :: "packet_framer \<Rightarrow> packet_framer" where
  "pk_note_start f =
     (if pk_state f = State_Sync \<and> pk_buffer f \<noteq> [] \<and>
         length (pk_buffer f) \<ge> length (pk_start_pattern f) \<and>
         take (length (pk_start_pattern f)) (pk_buffer f) = pk_start_pattern f
      then f\<lparr>pk_state := State_Collect, pk_scanned_idx := length (pk_start_pattern f)\<rparr>
      else f)"

definition pk_cap_collect :: "packet_framer \<Rightarrow> packet_framer" where
  "pk_cap_collect f =
     (if pk_state f = State_Collect \<and> length (pk_buffer f) > pk_max_length f
      then f\<lparr>pk_buffer := [], pk_state := State_Sync, pk_scanned_idx := 0\<rparr>
      else f)"

definition pk_fast_path :: "packet_framer \<Rightarrow> bytes \<Rightarrow> packet_framer push_result" where
  "pk_fast_path f data =
     (case pk_fast_loop f data 0 [] of
        None \<Rightarrow> None
      | Some (f1, processed_count, out) \<Rightarrow>
          if processed_count < length data then
            (case append_bytes (pk_buffer f1) data processed_count of
               Inl e \<Rightarrow> Some (f1, out, Some e)
             | Inr b \<Rightarrow> Some (pk_cap_collect (pk_note_start (f1\<lparr>pk_buffer := b\<rparr>)), out, None))
          else Some (f1, out, None))"

text \<open>Where the slow path resumes its search for the end pattern.\<close>

definition pk_search_offset :: "packet_framer \<Rightarrow> nat" where
  "pk_search_offset f =
     (let start_size = length (pk_start_pattern f);
          search_offset = max start_size (pk_scanned_idx f);
          overlap = (if length (pk_end_pattern f) > 1 then length (pk_end_pattern f) - 1 else 0);
          backed_up =
            (if search_offset > start_size then
               if search_offset \<ge> overlap then search_offset - overlap else 0
             else search_offset)
      in if backed_up < start_size then start_size else backed_up)"

text \<open>The slow path's loop over the buffer.\<close>

partial_function (option) pk_slow_loop ::
    "packet_framer \<Rightarrow> bytes list \<Rightarrow> packet_framer push_result" where
  "pk_slow_loop f out =
     (case pk_state f of
        State_Sync \<Rightarrow>
          if pk_start_pattern f = [] then pk_slow_loop (f\<lparr>pk_state := State_Collect\<rparr>) out
          else
            let it = std_search (pk_buffer f) 0 (pk_start_pattern f)
            in if it \<noteq> length (pk_buffer f) then
                 pk_slow_loop (f\<lparr>pk_buffer := (if it \<noteq> 0 then drop it (pk_buffer f) else pk_buffer f),
                                 pk_state := State_Collect,
                                 pk_scanned_idx := length (pk_start_pattern f)\<rparr>) out
               else
                 let b = (if length (pk_start_pattern f) > 1 then
                            let keep_len = length (pk_start_pattern f) - 1
                            in if length (pk_buffer f) > keep_len
                               then drop (length (pk_buffer f) - keep_len) (pk_buffer f)
                               else pk_buffer f
                          else [])
                 in Some (f\<lparr>pk_buffer := b\<rparr>, out, None)
      | State_Collect \<Rightarrow>
          if pk_end_pattern f = [] then
            let packet_len = length (pk_start_pattern f);
                (f', out') = pk_emit f out (take packet_len (pk_buffer f))
            in if pk_buffer f' = [] then Some (f', out', None)
               else pk_slow_loop (f'\<lparr>pk_buffer := drop packet_len (pk_buffer f'),
                                    pk_state := State_Sync\<rparr>) out'
          else
            let search_offset = pk_search_offset f
            in if length (pk_buffer f) < search_offset then Some (f, out, None)
               else
                 let it = std_search (pk_buffer f) search_offset (pk_end_pattern f)
                 in if it \<noteq> length (pk_buffer f) then
                      let packet_len = it + length (pk_end_pattern f)
                      in if packet_len \<le> pk_max_length f then
                           let (f', out') = pk_emit f out (take packet_len (pk_buffer f))
                           in if pk_buffer f' = [] then Some (f', out', None)
                              else pk_slow_loop (f'\<lparr>pk_buffer := drop packet_len (pk_buffer f'),
                                                   pk_state := State_Sync, pk_scanned_idx := 0\<rparr>) out'
                         else pk_slow_loop (f\<lparr>pk_buffer := drop packet_len (pk_buffer f),
                                              pk_state := State_Sync, pk_scanned_idx := 0\<rparr>) out
                    else Some (if length (pk_buffer f) > pk_max_length f
                               then f\<lparr>pk_buffer := [], pk_state := State_Sync, pk_scanned_idx := 0\<rparr>
                               else f\<lparr>pk_scanned_idx := length (pk_buffer f)\<rparr>, out, None))"

definition pk_push_bytes :: "packet_framer \<Rightarrow> bytes \<Rightarrow> packet_framer push_result" where
  "pk_push_bytes f data =
     (if data = [] then Some (f, [], None)
      else if pk_buffer f = [] then pk_fast_path f data
      else case append_bytes (pk_buffer f) data 0 of
             Inl e \<Rightarrow> Some (f, [], Some e)
           | Inr b \<Rightarrow> pk_slow_loop (f\<lparr>pk_buffer := b\<rparr>) [])"

section \<open>The packets of a stream\<close>

text \<open>Position and length of the first complete packet.\<close>

definition pk_next :: "bytes \<Rightarrow> bytes \<Rightarrow> bytes \<Rightarrow> (nat \<times> nat) option" where
  "pk_next s e h =
     (case find_sub s h of
        None \<Rightarrow> None
      | Some i \<Rightarrow>
          (case find_sub e (drop (i + length s) h) of
             None \<Rightarrow> None
           | Some j \<Rightarrow> Some (i, length s + j + length e)))"

lemma pk_next_bound:
  assumes "pk_next s e h = Some (i, n)"
  shows "i + n \<le> length h" and "length s + length e \<le> n"
proof -
  from assms obtain j where i: "find_sub s h = Some i"
    and j: "find_sub e (drop (i + length s) h) = Some j" and n: "n = length s + j + length e"
    by (auto simp: pk_next_def split: option.splits)
  from find_sub_bound [OF i] find_sub_bound [OF j] n
  show "i + n \<le> length h" "length s + length e \<le> n" by auto
qed

lemma pk_next_append:
  assumes "pk_next s e h = Some r"
  shows "pk_next s e (h @ x) = Some r"
proof -
  from assms obtain i j where i: "find_sub s h = Some i"
    and j: "find_sub e (drop (i + length s) h) = Some j" and r: "r = (i, length s + j + length e)"
    by (auto simp: pk_next_def split: option.splits)
  with find_sub_append [OF i, of x] find_sub_append [OF j, of x] find_sub_bound [OF i]
  show ?thesis by (simp add: pk_next_def)
qed

lemma pk_next_shift:
  assumes "find_sub s h = map_option ((+) k) (find_sub s (drop k h))"
  shows "pk_next s e h = map_option (\<lambda>(i, n). (k + i, n)) (pk_next s e (drop k h))"
  using assms by (auto simp: pk_next_def add_ac split: option.splits)

lemma pk_next_progress:
  assumes "pk_next s e h = Some (i, n)" and "\<not> (s = [] \<and> e = [])"
  shows "length h - (i + n) < length h"
proof -
  have "0 < length s + length e" using assms(2) by auto
  with pk_next_bound [OF assms(1)] show ?thesis by linarith
qed

function pk_frames :: "bytes \<Rightarrow> bytes \<Rightarrow> bytes \<Rightarrow> bytes list" where
  "pk_frames s e h =
     (if s = [] \<and> e = [] then []
      else case pk_next s e h of
             None \<Rightarrow> []
           | Some (i, n) \<Rightarrow> take n (drop i h) # pk_frames s e (drop (i + n) h))"
  by pat_completeness auto
termination
  by (relation "measure (\<lambda>(s, e, h). length h)")
    (use pk_next_progress in auto)

function pk_tail :: "bytes \<Rightarrow> bytes \<Rightarrow> bytes \<Rightarrow> bytes" where
  "pk_tail s e h =
     (if s = [] \<and> e = [] then h
      else case pk_next s e h of
             None \<Rightarrow> h
           | Some (i, n) \<Rightarrow> pk_tail s e (drop (i + n) h))"
  by pat_completeness auto
termination
  by (relation "measure (\<lambda>(s, e, h). length h)")
    (use pk_next_progress in auto)

declare pk_frames.simps [simp del] pk_tail.simps [simp del]

lemma pk_stream_None:
  assumes "pk_next s e h = None"
  shows "pk_frames s e h = []" and "pk_tail s e h = h"
  using assms by (simp_all add: pk_frames.simps [of s e h] pk_tail.simps [of s e h])

lemma pk_stream_Some:
  assumes "pk_next s e h = Some (i, n)" and "\<not> (s = [] \<and> e = [])"
  shows "pk_frames s e h = take n (drop i h) # pk_frames s e (drop (i + n) h)"
    and "pk_tail s e h = pk_tail s e (drop (i + n) h)"
  using assms by (auto simp: pk_frames.simps [of s e h] pk_tail.simps [of s e h])

text \<open>What has to be kept of a tail without a complete packet.\<close>

definition pk_pend :: "bytes \<Rightarrow> bytes \<Rightarrow> bytes" where
  "pk_pend s t =
     (case find_sub s t of
        None \<Rightarrow> drop (length t - (length s - 1)) t
      | Some i \<Rightarrow> drop i t)"

definition pk_decode :: "'a packet_config_scheme \<Rightarrow> bytes \<Rightarrow> bytes list" where
  "pk_decode c h =
     filter (\<lambda>m. pk_end_pattern c = [] \<or> length m \<le> pk_max_length c)
       (pk_frames (pk_start_pattern c) (pk_end_pattern c) h)"

definition pk_clean :: "'a packet_config_scheme \<Rightarrow> bytes \<Rightarrow> bool" where
  "pk_clean c h \<longleftrightarrow>
     (pk_start_pattern c \<noteq> [] \<or> pk_end_pattern c \<noteq> [])
     \<and> (pk_end_pattern c = [] \<or>
        (\<forall>m\<in>set (pk_frames (pk_start_pattern c) (pk_end_pattern c) h). length m \<le> pk_max_length c))
     \<and> (let t = pk_tail (pk_start_pattern c) (pk_end_pattern c) h
        in find_sub (pk_start_pattern c) t = None \<or>
           length (pk_pend (pk_start_pattern c) t) \<le> pk_max_length c)"

lemma pk_tail_next: "s \<noteq> [] \<or> e \<noteq> [] \<Longrightarrow> pk_next s e (pk_tail s e h) = None"
  by (induction s e h rule: pk_tail.induct)
    (subst pk_tail.simps, auto split: option.split)

lemma pk_frames_tail_append:
  "pk_frames s e (h @ x) = pk_frames s e h @ pk_frames s e (pk_tail s e h @ x)
   \<and> pk_tail s e (h @ x) = pk_tail s e (pk_tail s e h @ x)"
proof (induction s e h rule: pk_tail.induct)
  case (1 s e h)
  show ?case
  proof (cases "(s = [] \<and> e = []) \<or> pk_next s e h = None")
    case True
    then show ?thesis
      by (auto simp: pk_stream_None pk_tail.simps [of "[]" "[]"] pk_frames.simps [of "[]" "[]"])
  next
    case False
    then obtain i n where ne: "\<not> (s = [] \<and> e = [])" and i: "pk_next s e h = Some (i, n)" by auto
    from "1.IH" [OF ne i refl] pk_next_bound [OF i] show ?thesis
      by (simp add: pk_stream_Some [OF i ne] pk_stream_Some [OF pk_next_append [OF i] ne])
  qed
qed

text \<open>Dropping what cannot be part of a packet does not change what follows.\<close>

lemma pk_pend_length: "length (pk_pend s t) \<le> length t"
  by (simp add: pk_pend_def split: option.split)

lemma pk_pend_drop: "pk_pend s t = drop (length t - length (pk_pend s t)) t"
  by (auto simp: pk_pend_def dest: find_sub_SomeD split: option.split)

lemma map_option_plus_0: "map_option ((+) (0 :: nat)) r = r"
  by (cases r) auto

lemma pk_pend_shift:
  fixes s t x
  defines "k \<equiv> length t - length (pk_pend s t)"
  shows "find_sub s (t @ x) = map_option ((+) k) (find_sub s (drop k (t @ x)))"
proof (cases "find_sub s t")
  case None
  then have "s \<noteq> []" by auto
  moreover have "k + (length s - 1) \<le> length t \<or> k = 0"
    using None by (auto simp: k_def pk_pend_def)
  ultimately show ?thesis
    using find_sub_resume [OF None, of k x] by (auto simp: map_option_plus_0)
next
  case (Some i)
  then have k: "k = i" "i \<le> length t" using find_sub_SomeD [OF Some] by (auto simp: k_def pk_pend_def)
  moreover have "prefix s (drop i t @ x)"
    using find_sub_SomeD [OF Some] by (auto simp: prefix_def)
  then have "find_sub s (drop i t @ x) = Some 0" by (intro find_sub_SomeI) auto
  ultimately show ?thesis using find_sub_append [OF Some, of x] by simp
qed

lemma pk_frames_pend:
  assumes ne: "s \<noteq> [] \<or> e \<noteq> []"
  shows "pk_frames s e (pk_pend s t @ x) = pk_frames s e (t @ x)"
    and "pk_pend s (pk_tail s e (pk_pend s t @ x)) = pk_pend s (pk_tail s e (t @ x))"
    and "find_sub s (pk_tail s e (pk_pend s t @ x)) = None \<longleftrightarrow>
      find_sub s (pk_tail s e (t @ x)) = None"
proof -
  define k where "k = length t - length (pk_pend s t)"
  have h2: "pk_pend s t @ x = drop k (t @ x)"
    using pk_pend_drop [of s t] pk_pend_length [of s t] by (simp add: k_def)
  note fs = pk_pend_shift [of s t x, folded k_def]
  note nx = pk_next_shift [OF fs, of e]
  have "pk_frames s e (drop k (t @ x)) = pk_frames s e (t @ x)
    \<and> pk_pend s (pk_tail s e (drop k (t @ x))) = pk_pend s (pk_tail s e (t @ x))
    \<and> (find_sub s (pk_tail s e (drop k (t @ x))) = None \<longleftrightarrow> find_sub s (pk_tail s e (t @ x)) = None)"
  proof (cases "pk_next s e (drop k (t @ x))")
    case None
    have *: "length (t @ x) - (length s - 1) \<ge> k \<or> k = 0"
      if "find_sub s (t @ x) = None"
      using find_sub_append_None [OF that] by (auto simp: k_def pk_pend_def)
    have "pk_pend s (drop k (t @ x)) = pk_pend s (t @ x)"
    proof (cases "find_sub s (drop k (t @ x))")
      case None
      with * fs have "length (drop k (t @ x)) - (length s - 1) + k = length (t @ x) - (length s - 1) \<or> k = 0"
        by auto
      with None fs show ?thesis
        by (auto simp: pk_pend_def simp del: length_append length_drop drop_append)
    next
      case (Some i)
      with fs show ?thesis by (simp add: pk_pend_def add.commute del: drop_append)
    qed
    with nx fs None show ?thesis by (simp add: pk_stream_None)
  next
    case (Some r)
    then obtain i n where r: "pk_next s e (drop k (t @ x)) = Some (i, n)" by (cases r) auto
    then have r': "pk_next s e (t @ x) = Some (k + i, n)" using nx by simp
    have ne': "\<not> (s = [] \<and> e = [])" using ne by blast
    from pk_stream_Some [OF r ne'] pk_stream_Some [OF r' ne'] show ?thesis
      by (simp add: add_ac del: drop_append)
  qed
  then show "pk_frames s e (pk_pend s t @ x) = pk_frames s e (t @ x)"
    "pk_pend s (pk_tail s e (pk_pend s t @ x)) = pk_pend s (pk_tail s e (t @ x))"
    "find_sub s (pk_tail s e (pk_pend s t @ x)) = None \<longleftrightarrow> find_sub s (pk_tail s e (t @ x)) = None"
    by (simp_all add: h2)
qed

section \<open>The fast path\<close>

definition pk_ok :: "'a packet_config_scheme \<Rightarrow> bool" where
  "pk_ok f \<longleftrightarrow> \<not> (pk_start_pattern f = [] \<and> pk_end_pattern f = [])"

abbreviation pk_stream_next :: "'a packet_config_scheme \<Rightarrow> bytes \<Rightarrow> (nat \<times> nat) option" where
  "pk_stream_next f \<equiv> pk_next (pk_start_pattern f) (pk_end_pattern f)"

abbreviation pk_stream_tail :: "'a packet_config_scheme \<Rightarrow> bytes \<Rightarrow> bytes" where
  "pk_stream_tail f \<equiv> pk_tail (pk_start_pattern f) (pk_end_pattern f)"

definition pk_msg_ok :: "'a packet_config_scheme \<Rightarrow> bytes \<Rightarrow> bool" where
  "pk_msg_ok f m \<longleftrightarrow> pk_end_pattern f = [] \<and> m = pk_start_pattern f \<or> length m \<le> pk_max_length f"

lemma pk_reset_simps [simp]:
  "pk_buffer (pk_reset f) = []" "pk_state (pk_reset f) = State_Sync" "pk_scanned_idx (pk_reset f) = 0"
  "pk_start_pattern (pk_reset f) = pk_start_pattern f" "pk_end_pattern (pk_reset f) = pk_end_pattern f"
  "pk_max_length (pk_reset f) = pk_max_length f" "pk_on_message (pk_reset f) = pk_on_message f"
  "pk_reset (pk_reset f) = pk_reset f" "pk_ok (pk_reset f) = pk_ok f"
  by (simp_all add: pk_reset_def pk_ok_def)

lemma pk_emit_cases:
  assumes "pk_emit f out m = (f', out')"
  obtains ms where "f' = f \<or> f' = pk_reset f" "out' = out @ ms" "set ms \<subseteq> {m}"
    "pk_on_message f = Some quiet_callback \<Longrightarrow> f' = f \<and> ms = [m]"
proof (cases "pk_on_message f")
  case None
  then show ?thesis using assms that [of "[]"] by (simp add: pk_emit_def)
next
  case (Some cb)
  then show ?thesis
    using assms that [of "[m]"]
    by (cases "cb = quiet_callback") (auto simp: pk_emit_def quiet_callback_def split: if_splits)
qed

lemma pk_emit_if:
  obtains f1 ms1 where "(if del then pk_emit f out m else (f, out)) = (f1, out @ ms1)"
    "f1 = f \<or> f1 = pk_reset f" "set ms1 \<subseteq> (if del then {m} else {})"
    "pk_on_message f = Some quiet_callback \<Longrightarrow> f1 = f \<and> ms1 = (if del then [m] else [])"
proof (cases del)
  case True
  obtain g o' where g: "pk_emit f out m = (g, o')" by fastforce
  from g show ?thesis by (rule pk_emit_cases) (use that True g in auto)
next
  case False
  then show ?thesis using that [of f "[]"] by simp
qed

text \<open>One iteration of the fast loop, in terms of the next packet.\<close>

lemma pk_fast_unfold:
  assumes "p < length data"
  shows "pk_fast_loop f data p out =
    (case pk_stream_next f (drop p data) of
       None \<Rightarrow> Some (f, length data - length (pk_pend (pk_start_pattern f) (drop p data)), out)
     | Some (i, n) \<Rightarrow>
         (case (if pk_end_pattern f = [] \<or> n \<le> pk_max_length f
                then pk_emit f out (take n (drop (p + i) data)) else (f, out)) of
            (f', out') \<Rightarrow> pk_fast_loop f' data (p + i + n) out'))"
proof (cases "find_sub (pk_start_pattern f) (drop p data)")
  case None
  then show ?thesis
    using assms by (subst pk_fast_loop.simps) (auto simp: std_search_def pk_next_def pk_pend_def Let_def)
next
  case (Some i)
  let ?s = "pk_start_pattern f" and ?e = "pk_end_pattern f"
  have b: "p + i + length ?s \<le> length data" using find_sub_bound [OF Some] assms by simp
  have ne: "p + i \<noteq> length data" using b Some assms by (cases ?s) auto
  note start = Some assms ne std_search_def [of data p ?s]
  show ?thesis
  proof (cases "?e = []")
    case True
    then show ?thesis
      by (subst pk_fast_loop.simps) (simp add: start pk_next_def Let_def)
  next
    case False
    show ?thesis
    proof (cases "find_sub ?e (drop (p + i + length ?s) data)")
      case None
      then have "std_search data (p + i + length ?s) ?e = length data"
        using std_search_found_iff [OF False b] by simp
      moreover have "pk_stream_next f (drop p data) = None"
        using None by (simp add: pk_next_def start(1) add_ac)
      moreover have "pk_pend ?s (drop p data) = drop (p + i) data"
        by (simp add: pk_pend_def start(1) add_ac)
      ultimately show ?thesis
        using False b by (subst pk_fast_loop.simps) (simp add: start Let_def)
    next
      case (Some j)
      have "p + i + length ?s + j + length ?e \<le> length data" using find_sub_bound [OF Some] b by simp
      moreover have "0 < length ?e" using False by simp
      ultimately have j: "p + i + length ?s + j \<noteq> length data" by linarith
      have nx: "pk_stream_next f (drop p data) = Some (i, length ?s + j + length ?e)"
        using Some by (simp add: pk_next_def start(1) add_ac)
      have n: "p + i + length ?s + j + length ?e - (p + i) = length ?s + j + length ?e" by simp
      show ?thesis
        by (subst pk_fast_loop.simps, unfold Let_def start(4) start(1) option.case nx prod.case
            std_search_def [of data _ ?e] Some n) (simp add: start(2,3) False j)
    qed
  qed
qed

lemma pk_next_msg_ok:
  assumes "pk_stream_next f h = Some (i, n)" and "pk_end_pattern f = [] \<or> n \<le> pk_max_length f"
  shows "pk_msg_ok f (take n (drop i h))"
proof (cases "pk_end_pattern f = []")
  case True
  with assms(1) have i: "find_sub (pk_start_pattern f) h = Some i" "n = length (pk_start_pattern f)"
    by (auto simp: pk_next_def split: option.splits)
  then have "take n (drop i h) = pk_start_pattern f"
    using find_sub_SomeD [OF i(1)] by (auto simp: prefix_def)
  with True show ?thesis by (simp add: pk_msg_ok_def)
qed (use assms in \<open>auto simp: pk_msg_ok_def\<close>)

lemma pk_decode_Some:
  assumes "pk_stream_next f h = Some (i, n)" and "pk_ok f"
  shows "pk_decode f h =
    (if pk_end_pattern f = [] \<or> n \<le> pk_max_length f then [take n (drop i h)] else [])
    @ pk_decode f (drop (i + n) h)"
  using pk_stream_Some [OF assms(1)] assms(2) pk_next_bound [OF assms(1)]
  by (simp add: pk_decode_def pk_ok_def)

lemma pk_decode_None: "pk_stream_next f h = None \<Longrightarrow> pk_decode f h = []"
  by (simp add: pk_decode_def pk_stream_None)

lemma pk_fast_loop_spec:
  assumes "pk_ok f" and "p \<le> length data"
  shows "\<exists>f' ms. pk_fast_loop f data p out =
      Some (f', length data - length (pk_pend (pk_start_pattern f) (pk_stream_tail f (drop p data))), out @ ms)
    \<and> (f' = f \<or> f' = pk_reset f) \<and> (\<forall>m\<in>set ms. pk_msg_ok f m)
    \<and> (pk_on_message f = Some quiet_callback \<longrightarrow> f' = f \<and> ms = pk_decode f (drop p data))"
  using assms
proof (induction "length data - p" arbitrary: f p out rule: less_induct)
  case less
  let ?s = "pk_start_pattern f" and ?e = "pk_end_pattern f" and ?h = "drop p data"
  show ?case
  proof (cases "p < length data")
    case False
    then have h: "?h = []" "p = length data" using less.prems by auto
    have "pk_stream_next f [] = None"
      using less.prems(1) by (cases ?s; cases ?e) (auto simp: pk_next_def pk_ok_def)
    moreover have "pk_pend ?s [] = []" by (simp add: pk_pend_def split: option.split)
    ultimately show ?thesis
      using h by (subst pk_fast_loop.simps) (simp add: pk_stream_None pk_decode_None)
  next
    case True
    note unf = pk_fast_unfold [OF True, of f out]
    show ?thesis
    proof (cases "pk_stream_next f ?h")
      case None
      then show ?thesis by (simp add: unf pk_stream_None pk_decode_None)
    next
      case (Some r)
      then obtain i n where nx: "pk_stream_next f ?h = Some (i, n)" by (cases r) auto
      have ne: "\<not> (?s = [] \<and> ?e = [])" using less.prems(1) by (simp add: pk_ok_def)
      have le: "p + i + n \<le> length data" and dec: "length data - (p + i + n) < length data - p"
        using pk_next_bound [OF nx] pk_next_progress [OF nx ne] True by auto
      define del where "del = (?e = [] \<or> n \<le> pk_max_length f)"
      let ?m = "take n (drop (p + i) data)"
      obtain f1 ms1 where e: "(if del then pk_emit f out ?m else (f, out)) = (f1, out @ ms1)"
        and f1: "f1 = f \<or> f1 = pk_reset f" and ms1: "set ms1 \<subseteq> (if del then {?m} else {})"
        and q: "pk_on_message f = Some quiet_callback \<Longrightarrow> f1 = f \<and> ms1 = (if del then [?m] else [])"
        by (rule pk_emit_if [of del f out ?m]) blast
      have "pk_ok f1" using f1 less.prems(1) by auto
      from less.hyps [OF dec this le, of "out @ ms1"] obtain f2 ms2 where
        "pk_fast_loop f1 data (p + i + n) (out @ ms1) = Some (f2,
          length data - length (pk_pend ?s (pk_stream_tail f (drop (p + i + n) data))), (out @ ms1) @ ms2)"
        "f2 = f1 \<or> f2 = pk_reset f1" "\<forall>m\<in>set ms2. pk_msg_ok f m"
        "pk_on_message f = Some quiet_callback \<longrightarrow> f2 = f1 \<and> ms2 = pk_decode f1 (drop (p + i + n) data)"
        using f1 by (auto simp: pk_msg_ok_def)
      moreover have "\<forall>m\<in>set ms1. pk_msg_ok f m"
        using ms1 pk_next_msg_ok [OF nx] by (auto simp: del_def add_ac split: if_splits)
      moreover have "pk_fast_loop f data p out = pk_fast_loop f1 data (p + i + n) (out @ ms1)"
        using e by (simp add: unf nx del_def)
      ultimately show ?thesis
        using f1 q pk_stream_Some [OF nx ne] pk_decode_Some [OF nx less.prems(1)]
        by (auto simp: del_def add_ac)
    qed
  qed
qed

section \<open>The slow path\<close>

definition pk_same :: "packet_framer \<Rightarrow> packet_framer \<Rightarrow> bool" where
  "pk_same f g \<longleftrightarrow> packet_config.truncate g = packet_config.truncate f \<and> pk_on_message g = pk_on_message f"

lemma pk_same_iff:
  "pk_same f g \<longleftrightarrow> pk_start_pattern g = pk_start_pattern f \<and> pk_end_pattern g = pk_end_pattern f
     \<and> pk_max_length g = pk_max_length f \<and> pk_on_message g = pk_on_message f"
  by (auto simp: pk_same_def packet_config.defs)

lemma pk_same_congs:
  assumes "pk_same f g"
  shows "pk_decode g = pk_decode f" "pk_ok g = pk_ok f" "pk_msg_ok g = pk_msg_ok f" "pk_clean g = pk_clean f"
  using assms by (auto simp: pk_same_iff fun_eq_iff pk_decode_def pk_ok_def pk_msg_ok_def pk_clean_def)

text \<open>The state between two pushes.\<close>

definition pk_inv :: "packet_framer \<Rightarrow> bool" where
  "pk_inv f \<longleftrightarrow> pk_ok f \<and>
     (case pk_state f of
        State_Sync \<Rightarrow> length (pk_buffer f) \<le> length (pk_start_pattern f) - 1
          \<and> (pk_start_pattern f = [] \<longrightarrow> pk_scanned_idx f = 0)
      | State_Collect \<Rightarrow> pk_end_pattern f \<noteq> [] \<and> prefix (pk_start_pattern f) (pk_buffer f)
          \<and> find_sub (pk_end_pattern f) (drop (length (pk_start_pattern f)) (pk_buffer f)) = None
          \<and> length (pk_buffer f) \<le> pk_max_length f \<and> pk_scanned_idx f \<le> length (pk_buffer f))"

text \<open>The state at the head of the slow loop.\<close>

definition pk_loop_inv :: "packet_framer \<Rightarrow> bool" where
  "pk_loop_inv f \<longleftrightarrow> pk_ok f \<and>
     (case pk_state f of
        State_Sync \<Rightarrow> pk_start_pattern f = [] \<longrightarrow> pk_scanned_idx f = 0
      | State_Collect \<Rightarrow> prefix (pk_start_pattern f) (pk_buffer f)
          \<and> pk_scanned_idx f \<le> length (pk_buffer f)
          \<and> (pk_end_pattern f \<noteq> [] \<longrightarrow> find_sub (pk_end_pattern f)
               (drop (length (pk_start_pattern f)) (take (pk_scanned_idx f) (pk_buffer f))) = None))"

definition pk_keep :: "'a packet_config_scheme \<Rightarrow> bytes \<Rightarrow> bytes" where
  "pk_keep c t =
     (if find_sub (pk_start_pattern c) t \<noteq> None
         \<and> length (pk_pend (pk_start_pattern c) t) > pk_max_length c
      then [] else pk_pend (pk_start_pattern c) t)"

text \<open>What a push on a framer that holds \<open>b\<close> (with the new data appended) has to achieve.\<close>

definition pk_outcome :: "packet_framer \<Rightarrow> bytes \<Rightarrow> bytes list \<Rightarrow> packet_framer push_result \<Rightarrow> bool" where
  "pk_outcome f b out r \<longleftrightarrow>
     (\<exists>f' ms. r = Some (f', out @ ms, None) \<and> pk_same f f' \<and> pk_inv f' \<and> (\<forall>m\<in>set ms. pk_msg_ok f m)
        \<and> (pk_on_message f = Some quiet_callback \<longrightarrow>
             ms = pk_decode f b \<and> pk_buffer f' = pk_keep f (pk_stream_tail f b)))"

lemma pk_outcome_step:
  assumes "pk_outcome f1 b1 (out @ ms0) r" and s: "pk_same f f1" and "\<forall>m\<in>set ms0. pk_msg_ok f m"
    and "pk_on_message f = Some quiet_callback \<Longrightarrow> pk_decode f b = ms0 @ pk_decode f b1
      \<and> pk_keep f (pk_stream_tail f b) = pk_keep f (pk_stream_tail f b1)"
  shows "pk_outcome f b out r"
proof -
  from assms(1) obtain f' ms where r: "r = Some (f', (out @ ms0) @ ms, None)" "pk_same f1 f'" "pk_inv f'"
    "\<forall>m\<in>set ms. pk_msg_ok f1 m"
    "pk_on_message f1 = Some quiet_callback \<longrightarrow>
       ms = pk_decode f1 b1 \<and> pk_buffer f' = pk_keep f1 (pk_stream_tail f1 b1)"
    unfolding pk_outcome_def by blast
  have "pk_keep f1 = pk_keep f" using s by (auto simp: fun_eq_iff pk_keep_def pk_same_iff)
  then show ?thesis
    unfolding pk_outcome_def
    using r assms(3,4) s pk_same_congs [OF s]
    by (intro exI [of _ f'] exI [of _ "ms0 @ ms"]) (auto simp: pk_same_iff)
qed

lemma pk_collect_next:
  assumes "prefix s b"
  shows "find_sub s b = Some 0" "pk_pend s b = b"
    "pk_next s e b = map_option (\<lambda>j. (0, length s + j + length e)) (find_sub e (drop (length s) b))"
proof -
  show *: "find_sub s b = Some 0" using assms by (intro find_sub_SomeI) auto
  show "pk_pend s b = b" by (simp add: pk_pend_def *)
  show "pk_next s e b = map_option (\<lambda>j. (0, length s + j + length e)) (find_sub e (drop (length s) b))"
    by (simp add: pk_next_def * split: option.split)
qed

text \<open>Resuming the search behind the start pattern misses no end pattern.\<close>

lemma pk_search_offset_ok:
  assumes inv: "pk_loop_inv f" "pk_state f = State_Collect" and e: "pk_end_pattern f \<noteq> []"
  shows "pk_search_offset f \<le> length (pk_buffer f)"
    and "std_search (pk_buffer f) (pk_search_offset f) (pk_end_pattern f) =
      (case find_sub (pk_end_pattern f) (drop (length (pk_start_pattern f)) (pk_buffer f)) of
         None \<Rightarrow> length (pk_buffer f) | Some j \<Rightarrow> length (pk_start_pattern f) + j)"
proof -
  let ?s = "pk_start_pattern f" and ?e = "pk_end_pattern f" and ?b = "pk_buffer f"
  let ?c = "pk_scanned_idx f" and ?o = "pk_search_offset f"
  have p: "prefix ?s ?b" "?c \<le> length ?b" "find_sub ?e (drop (length ?s) (take ?c ?b)) = None"
    using inv e by (auto simp: pk_loop_inv_def)
  have sb: "length ?s \<le> length ?b" using p(1) by (rule prefix_length_le)
  have o: "?o = max (length ?s) (?c - (length ?e - 1))" if "?c > length ?s"
    using that by (auto simp: pk_search_offset_def Let_def)
  have o': "?o = length ?s" if "\<not> ?c > length ?s"
    using that by (auto simp: pk_search_offset_def Let_def)
  show le: "?o \<le> length ?b" using o o' sb p(2) by (cases "?c > length ?s") auto
  define k where "k = ?o - length ?s"
  have k: "?o = length ?s + k" using o o' by (cases "?c > length ?s") (auto simp: k_def)
  have "find_sub ?e (drop (length ?s) ?b) = map_option ((+) k) (find_sub ?e (drop ?o ?b))"
  proof (cases "k = 0")
    case True
    then show ?thesis by (simp add: k map_option_plus_0)
  next
    case False
    have c1: "?c > length ?s" using o' k False by (cases "?c > length ?s") auto
    with o k False have c: "?c > length ?s" "?o = ?c - (length ?e - 1)"
      by (auto simp: max_def split: if_splits)
    have sp: "drop (length ?s) ?b = drop (length ?s) (take ?c ?b) @ drop ?c ?b"
      using c(1) p(2) append_take_drop_id [of ?c ?b]
      by (metis (no_types, lifting) append_Nil2 diff_is_0_eq drop0 drop_append less_imp_le length_take min.absorb2)
    have "k + (length ?e - 1) \<le> length (drop (length ?s) (take ?c ?b))"
      using c False p(2) k by auto
    from find_sub_resume [OF p(3) e this, of "drop ?c ?b"]
    show ?thesis by (simp only: sp [symmetric] drop_drop k add.commute)
  qed
  then show "std_search ?b ?o ?e = (case find_sub ?e (drop (length ?s) ?b) of
      None \<Rightarrow> length ?b | Some j \<Rightarrow> length ?s + j)"
    by (cases "find_sub ?e (drop ?o ?b)") (simp_all add: std_search_def k)
qed

text \<open>Delivering or dropping the complete packet at the head of the buffer.\<close>

lemma pk_packet_step:
  fixes f out n zf
  defines "cont \<equiv> \<lambda>f'. f'\<lparr>pk_buffer := drop n (pk_buffer f'), pk_state := State_Sync, pk_scanned_idx := zf f'\<rparr>"
  assumes n: "pk_stream_next f (pk_buffer f) = Some (0, n)" and ok: "pk_ok f"
    and IH: "\<And>out'. pk_outcome (cont f) (drop n (pk_buffer f)) out' (pk_slow_loop (cont f) out')"
  shows "pk_outcome f (pk_buffer f) out
     (case (if pk_end_pattern f = [] \<or> n \<le> pk_max_length f
            then pk_emit f out (take n (pk_buffer f)) else (f, out)) of
        (f', out') \<Rightarrow> if pk_buffer f' = [] then Some (f', out', None) else pk_slow_loop (cont f') out')"
proof -
  let ?b = "pk_buffer f"
  define del where "del = (pk_end_pattern f = [] \<or> n \<le> pk_max_length f)"
  have ne: "\<not> (pk_start_pattern f = [] \<and> pk_end_pattern f = [])" using ok by (simp add: pk_ok_def)
  have bne: "?b \<noteq> []" using pk_next_progress [OF n ne] by auto
  obtain f1 ms1 where e: "(if del then pk_emit f out (take n ?b) else (f, out)) = (f1, out @ ms1)"
    and f1: "f1 = f \<or> f1 = pk_reset f" and ms1: "set ms1 \<subseteq> (if del then {take n ?b} else {})"
    and q: "pk_on_message f = Some quiet_callback \<Longrightarrow> f1 = f \<and> ms1 = (if del then [take n ?b] else [])"
    by (rule pk_emit_if [of del f out "take n ?b"]) blast
  have mok: "\<forall>m\<in>set ms1. pk_msg_ok f m"
    using ms1 pk_next_msg_ok [OF n] by (auto simp: del_def split: if_splits)
  show ?thesis
  proof (cases "f1 = f")
    case True
    have "pk_outcome f ?b out (pk_slow_loop (cont f) (out @ ms1))"
      using mok q pk_decode_Some [OF n ok] pk_stream_Some [OF n ne] IH
      by (intro pk_outcome_step [of "cont f" "drop n ?b" out ms1]) (auto simp: pk_same_iff del_def cont_def)
    with True e bne show ?thesis by (simp add: del_def)
  next
    case False
    then have "f1 = pk_reset f" using f1 by blast
    moreover have "pk_inv (pk_reset f)" "pk_same f (pk_reset f)"
      using ok by (auto simp: pk_inv_def pk_same_iff)
    ultimately show ?thesis
      using e mok q False unfolding pk_outcome_def by (auto simp: del_def)
  qed
qed

lemma pk_slow_loop_spec:
  "pk_loop_inv f \<Longrightarrow> pk_outcome f (pk_buffer f) out (pk_slow_loop f out)"
proof (induction "2 * length (pk_buffer f) + (if pk_state f = State_Sync then 1 else 0)"
    arbitrary: f out rule: less_induct)
  case less
  let ?s = "pk_start_pattern f" and ?e = "pk_end_pattern f" and ?b = "pk_buffer f"
  have ok: "pk_ok f" and ne: "\<not> (?s = [] \<and> ?e = [])"
    using less.prems by (auto simp: pk_loop_inv_def pk_ok_def)
  show ?case
  proof (cases "pk_state f")
    case State_Sync
    show ?thesis
    proof (cases "?s = []")
      case True
      let ?f1 = "f\<lparr>pk_state := State_Collect\<rparr>"
      have "pk_outcome ?f1 (pk_buffer ?f1) out (pk_slow_loop ?f1 out)"
        using less.prems State_Sync True ne
        by (intro less.hyps) (auto simp: pk_loop_inv_def pk_ok_def)
      then have "pk_outcome f ?b out (pk_slow_loop ?f1 out)"
        using ok by (intro pk_outcome_step [of ?f1 ?b out "[]"]) (auto simp: pk_same_iff)
      with State_Sync True show ?thesis by (subst pk_slow_loop.simps) simp
    next
      case False
      note it = std_search_found_iff [OF False, of 0 ?b, simplified]
      show ?thesis
      proof (cases "find_sub ?s ?b")
        case None
        then have "pk_slow_loop f out = Some (f\<lparr>pk_buffer := pk_pend ?s ?b\<rparr>, out, None)"
          using State_Sync False it by (subst pk_slow_loop.simps) (auto simp: pk_pend_def Let_def)
        moreover have "pk_stream_next f ?b = None" using None by (simp add: pk_next_def)
        ultimately show ?thesis
          using None State_Sync ok less.prems False unfolding pk_outcome_def
          by (auto simp: pk_same_iff pk_inv_def pk_ok_def pk_decode_None pk_stream_None pk_keep_def pk_pend_def)
      next
        case (Some i)
        let ?f1 = "f\<lparr>pk_buffer := drop i ?b, pk_state := State_Collect, pk_scanned_idx := length ?s\<rparr>"
        have i: "i + length ?s \<le> length ?b" "prefix ?s (drop i ?b)"
          using find_sub_bound [OF Some] find_sub_SomeD [OF Some] by auto
        have "pk_outcome ?f1 (pk_buffer ?f1) out (pk_slow_loop ?f1 out)"
          using ok i State_Sync by (intro less.hyps) (auto simp: pk_loop_inv_def pk_ok_def)
        moreover have "pk_pend ?s ?b = drop i ?b" by (simp add: pk_pend_def Some)
        ultimately have "pk_outcome f ?b out (pk_slow_loop ?f1 out)"
          using ok pk_frames_pend [of ?s ?e ?b "[]"] ne
          by (intro pk_outcome_step [of ?f1 "drop i ?b" out "[]"])
            (auto simp: pk_same_iff pk_decode_def pk_keep_def)
        moreover have "std_search ?b 0 ?s = i" by (simp add: std_search_def Some)
        ultimately show ?thesis
          using State_Sync False it Some by (subst pk_slow_loop.simps) (auto simp: Let_def)
      qed
    qed
  next
    case State_Collect
    have pre: "prefix ?s ?b" using less.prems State_Collect by (simp add: pk_loop_inv_def)
    note nx = pk_collect_next [OF pre]
    have packet: "pk_outcome f ?b out (case (if ?e = [] \<or> n \<le> pk_max_length f
          then pk_emit f out (take n ?b) else (f, out)) of (f', out') \<Rightarrow>
        if pk_buffer f' = [] then Some (f', out', None)
        else pk_slow_loop (f'\<lparr>pk_buffer := drop n (pk_buffer f'), pk_state := State_Sync,
               pk_scanned_idx := zf f'\<rparr>) out')"
      if n: "pk_stream_next f ?b = Some (0, n)" and z: "?s = [] \<Longrightarrow> zf f = 0" for n zf
    proof (rule pk_packet_step [OF n ok])
      let ?f2 = "f\<lparr>pk_buffer := drop n ?b, pk_state := State_Sync, pk_scanned_idx := zf f\<rparr>"
      fix out'
      have "pk_outcome ?f2 (pk_buffer ?f2) out' (pk_slow_loop ?f2 out')"
        using pk_next_progress [OF n ne] pk_next_bound [OF n] ok z State_Collect
        by (intro less.hyps) (auto simp: pk_loop_inv_def pk_ok_def)
      then show "pk_outcome ?f2 (drop n ?b) out' (pk_slow_loop ?f2 out')" by simp
    qed
    show ?thesis
    proof (cases "?e = []")
      case True
      then have "pk_stream_next f ?b = Some (0, length ?s)" "?s \<noteq> []" using nx ne by auto
      from packet [OF this(1), of pk_scanned_idx] this(2) True State_Collect show ?thesis
        by (subst pk_slow_loop.simps) (auto simp: Let_def split: prod.splits)
    next
      case False
      note so = pk_search_offset_ok [OF less.prems State_Collect False]
      show ?thesis
      proof (cases "find_sub ?e (drop (length ?s) ?b)")
        case None
        then have "pk_stream_next f ?b = None" by (simp add: nx)
        moreover have "pk_inv f'" if "f' = (if length ?b > pk_max_length f
            then f\<lparr>pk_buffer := [], pk_state := State_Sync, pk_scanned_idx := 0\<rparr>
            else f\<lparr>pk_scanned_idx := length ?b\<rparr>)" for f'
          using that None False pre ok State_Collect by (auto simp: pk_inv_def pk_ok_def)
        ultimately show ?thesis
          using False State_Collect None so unfolding pk_outcome_def
          by (subst pk_slow_loop.simps)
            (auto simp: Let_def pk_decode_None pk_stream_None pk_keep_def nx pk_same_iff)
      next
        case (Some j)
        let ?n = "length ?s + j + length ?e"
        have n: "pk_stream_next f ?b = Some (0, ?n)" by (simp add: nx Some)
        have "length ?s + j \<noteq> length ?b" using pk_next_bound [OF n] False by (cases ?e) auto
        with packet [OF n, of "\<lambda>_. 0"] Some so State_Collect False pk_next_progress [OF n ne] show ?thesis
          by (subst pk_slow_loop.simps) (auto simp: Let_def split: prod.splits if_splits)
      qed
    qed
  qed
qed

section \<open>One push\<close>

lemma pk_tail_suffix_ex: "\<exists>p. h = p @ pk_tail s e h"
proof (induction s e h rule: pk_tail.induct)
  case (1 s e h)
  show ?case
  proof (cases "(s = [] \<and> e = []) \<or> pk_next s e h = None")
    case True
    then show ?thesis by (auto simp: pk_stream_None pk_tail.simps [of "[]" "[]"])
  next
    case False
    then obtain i n where ne: "\<not> (s = [] \<and> e = [])" and i: "pk_next s e h = Some (i, n)" by auto
    from "1.IH" [OF ne i refl] obtain p where "drop (i + n) h = p @ pk_tail s e h"
      by (auto simp: pk_stream_Some [OF i ne])
    then have "h = (take (i + n) h @ p) @ pk_tail s e h"
      by (metis append_assoc append_take_drop_id)
    then show ?thesis by blast
  qed
qed

lemma pk_pend_suffix:
  "drop (length h - length (pk_pend s (pk_tail s e h))) h = pk_pend s (pk_tail s e h)"
  "length (pk_pend s (pk_tail s e h)) \<le> length h"
proof -
  let ?t = "pk_tail s e h"
  obtain p where p: "h = p @ ?t" using pk_tail_suffix_ex by blast
  then have "h = (p @ take (length ?t - length (pk_pend s ?t)) ?t) @ pk_pend s ?t"
    using pk_pend_drop [of s ?t] by (metis append_assoc append_take_drop_id)
  then obtain q where q: "h = q @ pk_pend s ?t" by blast
  then have "length h = length q + length (pk_pend s ?t)" by (metis length_append)
  with q show "drop (length h - length (pk_pend s ?t)) h = pk_pend s ?t"
    "length (pk_pend s ?t) \<le> length h"
    by (metis add_diff_cancel_right' append_eq_conv_conj, simp)
qed

text \<open>Settling the state for the bytes the fast path leaves over.\<close>

lemma pk_settle:
  assumes nx: "pk_stream_next f t = None" and ok: "pk_ok f"
    and ne: "pk_pend (pk_start_pattern f) t \<noteq> []"
    and st: "pk_state f = State_Collect \<or> pk_start_pattern f = [] \<Longrightarrow>
      pk_start_pattern f = [] \<and> pk_scanned_idx f = 0"
  defines "g \<equiv> pk_cap_collect (pk_note_start (f\<lparr>pk_buffer := pk_pend (pk_start_pattern f) t\<rparr>))"
  shows "pk_inv g" "pk_same f g" "pk_buffer g = pk_keep f t"
proof -
  let ?s = "pk_start_pattern f" and ?e = "pk_end_pattern f" and ?b = "pk_pend (pk_start_pattern f) t"
  have *: "pk_inv g \<and> pk_same f g \<and> pk_buffer g = pk_keep f t"
  proof (cases "find_sub ?s t")
    case None
    then have "?s \<noteq> []" by auto
    then have l: "length ?b \<le> length ?s - 1" "length ?b < length ?s"
      using None by (auto simp: pk_pend_def simp flip: length_greater_0_conv)
    moreover have "pk_state f = State_Sync" using st \<open>?s \<noteq> []\<close> by (cases "pk_state f") auto
    ultimately have "g = f\<lparr>pk_buffer := ?b\<rparr>"
      by (auto simp: g_def pk_note_start_def pk_cap_collect_def)
    with None ok l \<open>?s \<noteq> []\<close> \<open>pk_state f = State_Sync\<close> show ?thesis
      by (simp add: pk_inv_def pk_same_iff pk_keep_def pk_ok_def)
  next
    case (Some i)
    have pre: "prefix ?s ?b" using find_sub_SomeD [OF Some] by (simp add: pk_pend_def Some)
    have e: "find_sub ?e (drop (length ?s) ?b) = None" "?e \<noteq> []"
      using nx Some by (auto simp: pk_next_def pk_pend_def add.commute split: option.splits)
    let ?h = "f\<lparr>pk_buffer := ?b, pk_state := State_Collect, pk_scanned_idx := length ?s\<rparr>"
    have "pk_note_start (f\<lparr>pk_buffer := ?b\<rparr>) = ?h"
      using pre ne st prefix_length_le [OF pre]
      by (cases "pk_state f") (auto simp: pk_note_start_def prefix_def)
    then have "g = (if length ?b > pk_max_length f then pk_reset ?h else ?h)"
      by (simp add: g_def pk_cap_collect_def pk_reset_def)
    with Some ok pre e prefix_length_le [OF pre] show ?thesis
      by (simp add: pk_inv_def pk_same_iff pk_keep_def pk_ok_def)
  qed
  then show "pk_inv g" "pk_same f g" "pk_buffer g = pk_keep f t" by auto
qed

definition pk_cap :: "'a packet_config_scheme \<Rightarrow> nat" where
  "pk_cap f = max (pk_max_length f) (length (pk_start_pattern f) - 1)"

lemma pk_inv_buffer_le: "pk_inv f \<Longrightarrow> length (pk_buffer f) \<le> pk_cap f"
  by (auto simp: pk_inv_def pk_cap_def split: pk_phase.splits)

lemma pk_inv_no_packet:
  assumes "pk_inv f"
  shows "pk_stream_next f (pk_buffer f) = None \<and> pk_keep f (pk_buffer f) = pk_buffer f"
proof (cases "pk_state f")
  case State_Sync
  have len: "length (pk_buffer f) \<le> length (pk_start_pattern f) - 1" and ok: "pk_ok f"
    using assms State_Sync by (auto simp: pk_inv_def)
  have "find_sub (pk_start_pattern f) (pk_buffer f) = None" if "pk_start_pattern f \<noteq> []"
  proof (rule find_sub_NoneI [OF that])
    fix j
    have "length (drop j (pk_buffer f)) < length (pk_start_pattern f)"
      using len that by (cases "pk_start_pattern f") auto
    then show "\<not> prefix (pk_start_pattern f) (drop j (pk_buffer f))"
      using prefix_length_le by fastforce
  qed
  with len ok show ?thesis
    by (cases "pk_start_pattern f = []") (auto simp: pk_next_def pk_keep_def pk_pend_def pk_ok_def)
next
  case State_Collect
  with assms pk_collect_next show ?thesis by (auto simp: pk_inv_def pk_keep_def)
qed

lemma pk_fast_path_spec:
  assumes inv: "pk_inv f" and b: "pk_buffer f = []" and x: "length x \<le> SIZE_MAX"
  shows "pk_outcome f x [] (pk_fast_path f x)"
proof -
  let ?s = "pk_start_pattern f" and ?t = "pk_stream_tail f x"
  have ok: "pk_ok f" using inv by (simp add: pk_inv_def)
  have nx: "pk_stream_next f ?t = None" using ok by (intro pk_tail_next) (auto simp: pk_ok_def)
  from pk_fast_loop_spec [OF ok, of 0 x "[]"] obtain f1 ms where
    loop: "pk_fast_loop f x 0 [] = Some (f1, length x - length (pk_pend ?s ?t), ms)"
    and f1: "f1 = f \<or> f1 = pk_reset f" and ms: "\<forall>m\<in>set ms. pk_msg_ok f m"
    and q: "pk_on_message f = Some quiet_callback \<longrightarrow> f1 = f \<and> ms = pk_decode f x"
    by auto
  have s1: "pk_same f f1" "pk_inv f1" "pk_buffer f1 = []"
    using f1 inv b ok by (auto simp: pk_same_iff pk_inv_def)
  show ?thesis
  proof (cases "pk_pend ?s ?t = []")
    case True
    then have "pk_keep f ?t = []" by (simp add: pk_keep_def)
    with True loop s1 ms q b show ?thesis
      unfolding pk_outcome_def by (simp add: pk_fast_path_def)
  next
    case False
    let ?g = "pk_cap_collect (pk_note_start (f1\<lparr>pk_buffer := pk_pend ?s ?t\<rparr>))"
    have st: "pk_start_pattern f1 = [] \<and> pk_scanned_idx f1 = 0"
      if "pk_state f1 = State_Collect \<or> pk_start_pattern f1 = []"
      using that s1(2,3) by (cases "pk_state f1") (auto simp: pk_inv_def)
    have cfg: "pk_start_pattern f1 = ?s" "pk_stream_next f1 ?t = None" "pk_ok f1" "pk_keep f1 = pk_keep f"
      using s1(1) nx ok by (auto simp: pk_same_iff pk_ok_def pk_keep_def fun_eq_iff)
    note g = pk_settle [of f1 ?t, OF cfg(2,3) _ st, unfolded cfg(1), OF False]
    have "append_bytes (pk_buffer f1) x (length x - length (pk_pend ?s ?t)) = Inr (pk_pend ?s ?t)"
      using s1(3) False x pk_pend_suffix [of x ?s "pk_end_pattern f"]
      by (auto simp: append_bytes_def)
    moreover have "length x - length (pk_pend ?s ?t) < length x"
      using False pk_pend_suffix(2) [of ?s "pk_end_pattern f" x]
      by (metis diff_less length_greater_0_conv order_less_le_trans)
    ultimately have "pk_fast_path f x = Some (?g, ms, None)" using loop by (simp add: pk_fast_path_def)
    with g ms q s1(1) cfg(4) show ?thesis
      unfolding pk_outcome_def by (auto simp: pk_same_iff)
  qed
qed

lemma pk_push_spec:
  assumes inv: "pk_inv f" and x: "pk_cap f + length x \<le> SIZE_MAX"
  shows "pk_outcome f (pk_buffer f @ x) [] (pk_push_bytes f x)"
proof -
  consider "x = []" | "x \<noteq> []" "pk_buffer f = []" | "x \<noteq> []" "pk_buffer f \<noteq> []" by blast
  then show ?thesis
  proof cases
    case 1
    with pk_inv_no_packet [OF inv] inv show ?thesis
      unfolding pk_outcome_def
      by (simp add: pk_push_bytes_def pk_decode_None pk_stream_None pk_same_iff)
  next
    case 2
    with pk_fast_path_spec [OF inv] x show ?thesis by (simp add: pk_push_bytes_def)
  next
    case 3
    let ?f1 = "f\<lparr>pk_buffer := pk_buffer f @ x\<rparr>"
    have "pk_loop_inv ?f1"
      using inv find_sub_drop_take_None
      by (auto simp: pk_inv_def pk_loop_inv_def pk_ok_def split: pk_phase.splits)
    from pk_slow_loop_spec [OF this, of "[]"]
    have "pk_outcome ?f1 (pk_buffer f @ x) ([] @ []) (pk_slow_loop ?f1 [])" by simp
    then have "pk_outcome f (pk_buffer f @ x) [] (pk_slow_loop ?f1 [])"
      by (rule pk_outcome_step) (auto simp: pk_same_iff)
    moreover have "append_bytes (pk_buffer f) x 0 = Inr (pk_buffer f @ x)"
      using pk_inv_buffer_le [OF inv] x 3 by (auto simp: append_bytes_def)
    ultimately show ?thesis using 3 by (simp add: pk_push_bytes_def)
  qed
qed

section \<open>The framer contracts\<close>

interpretation pk: bounded_framer pk_push_bytes pk_reset pk_buffer pk_inv pk_cap
  "\<lambda>cap x. cap + length x \<le> SIZE_MAX"
proof (unfold_locales, goal_cases)
  case (1 f x)
  then have "pk_outcome f (pk_buffer f @ x) [] (pk_push_bytes f x)" by (intro pk_push_spec)
  then show ?case by (auto simp: pk_outcome_def pk_same_iff pk_cap_def)
next
  case (2 f)
  then show ?case by (rule pk_inv_buffer_le)
next
  case (3 f)
  then show ?case by (auto simp: pk_inv_def pk_cap_def)
qed

lemma pk_truncate_simps [simp]:
  "pk_clean (packet_config.truncate f) = pk_clean f"
  "pk_decode (packet_config.truncate f) = pk_decode f"
  "pk_cap (packet_config.truncate f) = pk_cap f"
  by (auto simp: fun_eq_iff pk_clean_def pk_decode_def pk_cap_def packet_config.defs)

lemma pk_clean_prefix:
  assumes "pk_clean c (h @ x)"
  shows "pk_clean c h"
proof -
  let ?s = "pk_start_pattern c" and ?e = "pk_end_pattern c" let ?t = "pk_tail ?s ?e h"
  have ne: "?s \<noteq> [] \<or> ?e \<noteq> []" using assms by (simp add: pk_clean_def)
  note app = pk_frames_tail_append [of ?s ?e h x] and nx = pk_tail_next [OF ne, of h]
  have "length (pk_pend ?s ?t) \<le> pk_max_length c" if i: "find_sub ?s ?t = Some i" for i
  proof -
    have e: "?e \<noteq> []" "find_sub ?e (drop (i + length ?s) ?t) = None"
      using nx i by (auto simp: pk_next_def split: option.splits)
    have b: "i + length ?s \<le> length ?t" using find_sub_bound [OF i] .
    note i' = find_sub_append [OF i, of x]
    show ?thesis
    proof (cases "find_sub ?e (drop (i + length ?s) (?t @ x))")
      case None
      then have "pk_next ?s ?e (?t @ x) = None" by (simp add: pk_next_def i')
      then have "pk_tail ?s ?e (h @ x) = ?t @ x" using app by (simp add: pk_stream_None)
      then have "length (drop i (?t @ x)) \<le> pk_max_length c"
        using assms i' by (simp add: pk_clean_def pk_pend_def)
      then show ?thesis by (simp add: pk_pend_def i)
    next
      case (Some j)
      let ?n = "length ?s + j + length ?e"
      have p: "pk_next ?s ?e (?t @ x) = Some (i, ?n)" using Some by (simp add: pk_next_def i')
      then have "length (take ?n (drop i (?t @ x))) \<le> pk_max_length c"
        using assms app e(1) pk_stream_Some(1) [OF p] by (simp add: pk_clean_def del: drop_append length_take)
      moreover have "length (take ?n (drop i (?t @ x))) = ?n" using pk_next_bound(1) [OF p] by simp
      moreover have "length ?t < i + ?n"
      proof (rule ccontr)
        assume "\<not> ?thesis"
        then have "j + length ?e \<le> length (drop (i + length ?s) ?t)" by simp
        moreover have "find_sub ?e (drop (i + length ?s) ?t @ x) = Some j" using Some b by simp
        ultimately show False using e(2) find_sub_append_short by fastforce
      qed
      ultimately show ?thesis by (simp add: pk_pend_def i)
    qed
  qed
  then have "find_sub ?s ?t = None \<or> length (pk_pend ?s ?t) \<le> pk_max_length c"
    by (cases "find_sub ?s ?t") simp_all
  moreover have "set (pk_frames ?s ?e h) \<subseteq> set (pk_frames ?s ?e (h @ x))" using app by simp
  ultimately show ?thesis using assms ne unfolding pk_clean_def Let_def by blast
qed

definition pk_tracks :: "packet_framer \<Rightarrow> bytes \<Rightarrow> bool" where
  "pk_tracks f h \<longleftrightarrow> pk_inv f \<and> pk_on_message f = Some quiet_callback \<and> pk_clean f h
     \<and> pk_buffer f = pk_pend (pk_start_pattern f) (pk_stream_tail f h)"

interpretation pks: stream_framer pk_push_bytes "packet_config.truncate :: packet_framer \<Rightarrow> packet_config"
  pk_tracks pk_clean pk_decode "\<lambda>c x. pk_cap c + length x \<le> SIZE_MAX"
proof (unfold_locales, goal_cases)
  case (1 c h d)
  then show ?case by (rule pk_clean_prefix)
next
  case (2 f h x)
  let ?s = "pk_start_pattern f" and ?e = "pk_end_pattern f" let ?t = "pk_tail ?s ?e h"
  have f: "pk_inv f" "pk_on_message f = Some quiet_callback" "pk_buffer f = pk_pend ?s ?t"
    and c: "pk_clean f (h @ x)"
    using 2 by (auto simp: pk_tracks_def)
  have ne: "?s \<noteq> [] \<or> ?e \<noteq> []" using c by (simp add: pk_clean_def)
  note app = pk_frames_tail_append [of ?s ?e h x] and pend = pk_frames_pend [OF ne, of ?t x]
  have keep: "pk_keep f (pk_tail ?s ?e (pk_pend ?s ?t @ x)) = pk_pend ?s (pk_tail ?s ?e (h @ x))"
    using c app pend by (auto simp: pk_keep_def pk_clean_def Let_def)
  have "pk_outcome f (pk_buffer f @ x) [] (pk_push_bytes f x)"
    using 2 f(1) by (intro pk_push_spec) auto
  then obtain f' where p: "pk_push_bytes f x = Some (f', pk_decode f (pk_pend ?s ?t @ x), None)"
    "pk_same f f'" "pk_inv f'" "pk_buffer f' = pk_pend ?s (pk_tail ?s ?e (h @ x))"
    unfolding pk_outcome_def using f keep by auto
  moreover have "pk_tracks f' (h @ x)"
    using p f c pk_same_congs [OF p(2)] by (simp add: pk_tracks_def pk_same_iff)
  moreover have "pk_decode f (h @ x) = pk_decode f h @ pk_decode f (pk_pend ?s ?t @ x)"
    using app pend by (simp add: pk_decode_def)
  ultimately show ?case by (auto simp: pk_same_def)
qed

section \<open>Properties\<close>

text \<open>
  A packet as a sender writes it, behind noise \<open>g\<close>: the first start pattern is the packet's own,
  and the first end pattern behind it the one that closes it.
\<close>

definition packet_ok :: "bytes \<Rightarrow> bytes \<Rightarrow> bytes \<times> bytes \<Rightarrow> bool" where
  "packet_ok s e = (\<lambda>(g, m). find_sub s (g @ s) = Some (length g) \<and> find_sub e (m @ e) = Some (length m))"

definition packet_wire :: "bytes \<Rightarrow> bytes \<Rightarrow> bytes \<times> bytes \<Rightarrow> bytes" where
  "packet_wire s e = (\<lambda>(g, m). g @ s @ m @ e)"

lemma pk_next_wire:
  assumes "packet_ok s e (g, m)"
  shows "pk_next s e (packet_wire s e (g, m) @ x) = Some (length g, length (s @ m @ e))"
proof -
  have "find_sub s (g @ s) = Some (length g)" "find_sub e (m @ e) = Some (length m)"
    using assms by (simp_all add: packet_ok_def)
  from this [THEN find_sub_append, of "m @ e @ x"] this [THEN find_sub_append, of x]
  have "find_sub s ((g @ s) @ (m @ e @ x)) = Some (length g)"
    "find_sub e ((m @ e) @ x) = Some (length m)"
    by simp_all
  then show ?thesis by (simp add: pk_next_def packet_wire_def)
qed

lemma pk_stream_wire:
  assumes ne: "\<not> (s = [] \<and> e = [])"
  shows "\<forall>p\<in>set ps. packet_ok s e p \<Longrightarrow>
    pk_frames s e (concat (map (packet_wire s e) ps)) = map (\<lambda>(g, m). s @ m @ e) ps
    \<and> pk_tail s e (concat (map (packet_wire s e) ps)) = []"
proof (induction ps)
  case Nil
  have "pk_next s e [] = None" using ne by (cases s; cases e) (auto simp: pk_next_def)
  then show ?case by (simp add: pk_stream_None)
next
  case (Cons p ps)
  obtain g m where p: "p = (g, m)" by fastforce
  let ?x = "concat (map (packet_wire s e) ps)"
  have nx: "pk_next s e (packet_wire s e (g, m) @ ?x) = Some (length g, length (s @ m @ e))"
    using Cons.prems p by (intro pk_next_wire) auto
  have "drop (length g + length (s @ m @ e)) (packet_wire s e (g, m) @ ?x) = ?x"
    "take (length (s @ m @ e)) (drop (length g) (packet_wire s e (g, m) @ ?x)) = s @ m @ e"
    by (auto simp: packet_wire_def)
  with Cons pk_stream_Some [OF nx ne] p show ?case by simp
qed

lemma pk_new_inv:
  assumes "pk_new s e mx = Inr f"
  shows "pk_inv (pk_set_on_message f cb)" "pk_start_pattern f = s" "pk_end_pattern f = e"
    "pk_max_length f = mx" "pk_buffer f = []" "\<not> (s = [] \<and> e = [])"
  using assms
  by (auto simp: pk_new_def pk_inv_def pk_ok_def pk_set_on_message_def split: if_splits)

text \<open>
  C11: Round trip through noise. Packets no longer than \<open>max_length\<close>, each behind bytes without a
  start pattern, and split into reads at any points (inside a pattern too), are delivered one by
  one, unchanged and in order, without the noise, and nothing stays buffered.
\<close>

theorem pk_roundtrip:
  assumes new: "pk_new s e mx = Inr f"
    and ps: "\<forall>p\<in>set ps. packet_ok s e p \<and> length (s @ snd p @ e) \<le> mx"
    and room: "\<forall>x\<in>set ds. max mx (length s - 1) + length x \<le> SIZE_MAX"
    and ds: "concat ds = concat (map (packet_wire s e) ps)"
  shows "\<exists>f'. push_all pk_push_bytes (pk_set_on_message f (Some quiet_callback)) ds
      = Some (f', map (\<lambda>(g, m). s @ m @ e) ps, None) \<and> pk_buffer f' = []"
proof -
  let ?f = "pk_set_on_message f (Some quiet_callback)"
  note n = pk_new_inv [OF new]
  have f: "pk_start_pattern ?f = s" "pk_end_pattern ?f = e" "pk_max_length ?f = mx" "pk_buffer ?f = []"
    "pk_on_message ?f = Some quiet_callback" "pk_inv ?f"
    using n by (simp_all add: pk_set_on_message_def)
  have pend: "pk_pend s [] = []" by (simp add: pk_pend_def split: option.split)
  note w = pk_stream_wire [OF n(6), of ps] and w0 = pk_stream_wire [OF n(6), of "[]"]
  have dec: "pk_decode ?f (concat ds) = map (\<lambda>(g, m). s @ m @ e) ps" "pk_decode ?f [] = []"
    using ps w w0 by (auto simp: pk_decode_def f ds filter_id_conv)
  have cl: "pk_clean ?f (concat ds)" "pk_clean ?f []"
    using ps w w0 n(6) pend by (auto simp: pk_clean_def f ds Let_def)
  have t: "pk_tracks ?f []" using f cl(2) w0 pend by (simp add: pk_tracks_def)
  have "pk_clean (packet_config.truncate ?f) ([] @ concat ds)"
    "\<forall>x\<in>set ds. pk_cap (packet_config.truncate ?f) + length x \<le> SIZE_MAX"
    using cl(1) room by (simp_all only: pk_truncate_simps append_Nil) (simp add: pk_cap_def f)
  from pks.push_all_decodes [OF t this] dec obtain f' where
    "push_all pk_push_bytes ?f ds = Some (f', map (\<lambda>(g, m). s @ m @ e) ps, None)"
    and tr: "pk_tracks f' (concat ds)" and cfg: "packet_config.truncate f' = packet_config.truncate ?f"
    by auto
  moreover have "pk_start_pattern f' = s" "pk_end_pattern f' = e"
    using cfg f by (auto simp: packet_config.defs)
  then have "pk_buffer f' = []" using tr ps w pend by (simp add: pk_tracks_def ds)
  ultimately show ?thesis by blast
qed

theorem pk_roundtrip_witness:
  "\<exists>f f'. pk_new [2, 2] [3] 5 = Inr f \<and>
     push_all pk_push_bytes (pk_set_on_message f (Some quiet_callback)) [[9, 2], [2, 7], [3, 2, 2], [3]]
       = Some (f', map (\<lambda>(g, m). [2, 2] @ m @ [3]) [([9 :: byte], [7]), ([], [])], None) \<and> pk_buffer f' = []"
proof -
  obtain f where new: "pk_new [2, 2] [3] 5 = Inr f" by (simp add: pk_new_def)
  have "\<exists>f'. push_all pk_push_bytes (pk_set_on_message f (Some quiet_callback)) [[9, 2], [2, 7], [3, 2, 2], [3]]
       = Some (f', map (\<lambda>(g, m). [2, 2] @ m @ [3]) [([9 :: byte], [7]), ([], [])], None) \<and> pk_buffer f' = []"
    by (rule pk_roundtrip [OF new]) (auto simp: packet_ok_def packet_wire_def SIZE_MAX_def)
  with new show ?thesis by blast
qed

text \<open>
  Bounded memory under any input. For any bytes, chunking and callback (one that calls
  \<open>reset()\<close> included), every push returns without throwing, no more is retained than
  \<open>max_length\<close> bytes of an open packet or a proper prefix of the start pattern, and every delivered
  packet respects \<open>max_length\<close>, unless it is the bare start pattern of a framer without end pattern.
\<close>

lemma pk_push_bounded:
  assumes new: "pk_new s e mx = Inr f"
    and room: "\<forall>x\<in>set ds. max mx (length s - 1) + length x \<le> SIZE_MAX"
  shows "\<exists>f' ms. push_all pk_push_bytes (pk_set_on_message f cb) ds = Some (f', ms, None)
    \<and> length (pk_buffer f') \<le> max mx (length s - 1)
    \<and> (\<forall>m\<in>set ms. length m \<le> mx \<or> e = [] \<and> m = s)"
proof -
  have msgs: "\<exists>f' ms. push_all pk_push_bytes g ds = Some (f', ms, None) \<and> (\<forall>m\<in>set ms. pk_msg_ok g m)"
    if "pk_inv g" "\<forall>x\<in>set ds. pk_cap g + length x \<le> SIZE_MAX" for g
    using that
  proof (induction ds arbitrary: g)
    case (Cons x ds)
    then have "pk_outcome g (pk_buffer g @ x) [] (pk_push_bytes g x)" by (intro pk_push_spec) auto
    then obtain g1 ms1 where p: "pk_push_bytes g x = Some (g1, ms1, None)" "pk_same g g1" "pk_inv g1"
      "\<forall>m\<in>set ms1. pk_msg_ok g m"
      by (auto simp: pk_outcome_def)
    moreover have "pk_cap g1 = pk_cap g" using p(2) by (simp add: pk_same_iff pk_cap_def)
    ultimately show ?case using Cons.IH [OF p(3)] Cons.prems pk_same_congs [OF p(2)] by fastforce
  qed simp
  let ?f = "pk_set_on_message f cb"
  have f: "pk_inv ?f" "pk_cap ?f = max mx (length s - 1)" "pk_end_pattern ?f = e" "pk_max_length ?f = mx"
    "pk_start_pattern ?f = s"
    using pk_new_inv [OF new] by (simp_all add: pk_cap_def pk_set_on_message_def)
  with msgs [of ?f] room pk.push_all_bounded [of ?f ds] show ?thesis
    by (auto simp: pk_msg_ok_def)
qed

end
