(* ===== verification/Backpressure.thy ===== *)
theory Backpressure
  imports Wire_Prelude
begin

text \<open>
  The write-queue helpers of \<open>src/wirestead/transport/base/bp_utils.hpp\<close> and the backpressure
  state machine of \<open>bp_state_machine.hpp\<close>, shared by every transport.

  The record \<open>bp_fields\<close> holds the counters and thresholds \<open>BackpressureFields\<close> refers to, with the
  \<open>inflight_bytes\<close> counter the admission paths add; \<open>bp_queue\<close> adds the two queues of the
  transport. The functions here are the uninterrupted operations; \<open>Reservation\<close> takes them apart
  into atomic accesses and interleaves them.
\<close>

section \<open>Counters and thresholds\<close>

datatype backpressure_strategy = Reliable | BestEffort

record bp_fields =
  queue_bytes :: nat
  pending_bytes :: nat
  inflight_bytes :: nat
  backpressure_active :: bool
  bp_high :: nat
  bp_low :: nat
  bp_limit :: nat
  bp_strategy :: backpressure_strategy

record 'a bp_queue = bp_fields +
  tx :: "'a list"
  pending :: "'a list"

record drop_accounting =
  messages :: nat
  drop_bytes :: nat

section \<open>Reservations\<close>

text \<open>The two checks of the compare-and-swap loop.\<close>

definition reserve_fits :: "nat \<Rightarrow> nat \<Rightarrow> nat \<Rightarrow> nat \<Rightarrow> nat \<Rightarrow> bool" where
  "reserve_fits current pend bytes high limit \<longleftrightarrow>
     \<not> (current > high \<or> bytes > high - current) \<and>
     \<not> (current > limit \<or> pend > limit - current \<or> bytes > limit - current - pend)"

definition try_reserve_write_bytes ::
    "nat \<Rightarrow> nat \<Rightarrow> 'a bp_fields_scheme \<Rightarrow> bool \<times> 'a bp_fields_scheme" where
  "try_reserve_write_bytes bytes limit f =
     (if bytes = 0 \<or> bytes > limit \<or> backpressure_active f then (False, f)
      else if reserve_fits (queue_bytes f) (pending_bytes f) bytes (bp_high f) limit
      then (True, f\<lparr>queue_bytes := size_add (queue_bytes f) bytes\<rparr>)
      else (False, f))"

text \<open>Under the reservation mutex, leaving room for accepted posts not yet routed.\<close>

definition try_reserve_write_bytes_locked ::
    "nat \<Rightarrow> 'a bp_fields_scheme \<Rightarrow> bool \<times> 'a bp_fields_scheme" where
  "try_reserve_write_bytes_locked bytes f =
     (if inflight_bytes f > bp_limit f then (False, f)
      else try_reserve_write_bytes bytes (bp_limit f - inflight_bytes f) f)"

definition release_reserved_write_bytes :: "nat \<Rightarrow> 'a bp_fields_scheme \<Rightarrow> 'a bp_fields_scheme" where
  "release_reserved_write_bytes bytes f = f\<lparr>queue_bytes := clamped_sub (queue_bytes f) bytes\<rparr>"

definition limit_fits :: "nat \<Rightarrow> nat \<Rightarrow> nat \<Rightarrow> nat \<Rightarrow> nat \<Rightarrow> bool" where
  "limit_fits queue pend inflight added limit \<longleftrightarrow>
     \<not> (queue > limit \<or> pend > limit - queue \<or> inflight > limit - queue - pend \<or>
        added > limit - queue - pend - inflight)"

definition try_reserve_limit_bytes :: "nat \<Rightarrow> 'a bp_fields_scheme \<Rightarrow> bool \<times> 'a bp_fields_scheme" where
  "try_reserve_limit_bytes added f =
     (if added = 0 \<or> added > bp_limit f then (False, f)
      else if limit_fits (queue_bytes f) (pending_bytes f) (inflight_bytes f) added (bp_limit f)
      then (True, f\<lparr>inflight_bytes := size_add (inflight_bytes f) added\<rparr>)
      else (False, f))"

definition release_reserved_limit_bytes :: "nat \<Rightarrow> 'a bp_fields_scheme \<Rightarrow> 'a bp_fields_scheme" where
  "release_reserved_limit_bytes bytes f = f\<lparr>inflight_bytes := clamped_sub (inflight_bytes f) bytes\<rparr>"

text \<open>\<open>commit_reserved_limit_bytes\<close> on \<open>queue_bytes_\<close> and on \<open>pending_bytes_\<close>.\<close>

definition commit_to_queue :: "nat \<Rightarrow> 'a bp_fields_scheme \<Rightarrow> 'a bp_fields_scheme" where
  "commit_to_queue bytes f =
     f\<lparr>queue_bytes := size_add (queue_bytes f) bytes,
       inflight_bytes := clamped_sub (inflight_bytes f) bytes\<rparr>"

definition commit_to_pending :: "nat \<Rightarrow> 'a bp_fields_scheme \<Rightarrow> 'a bp_fields_scheme" where
  "commit_to_pending bytes f =
     f\<lparr>pending_bytes := size_add (pending_bytes f) bytes,
       inflight_bytes := clamped_sub (inflight_bytes f) bytes\<rparr>"

lemma reserve_fits_iff:
  "reserve_fits current pend bytes high limit \<longleftrightarrow>
     current + bytes \<le> high \<and> current + pend + bytes \<le> limit"
  unfolding reserve_fits_def by linarith

lemma limit_fits_iff:
  "limit_fits queue pend inflight added limit \<longleftrightarrow> queue + pend + inflight + added \<le> limit"
  unfolding limit_fits_def by linarith

section \<open>Gather writes\<close>

definition kMaxGatherBuffers :: nat where "kMaxGatherBuffers = 16"
definition kMaxGatherBytes :: nat where "kMaxGatherBytes = 256 * 1024"

fun take_gather_loop :: "('a \<Rightarrow> nat) \<Rightarrow> 'a list \<Rightarrow> 'a list \<Rightarrow> nat \<Rightarrow> 'a list \<times> 'a list \<times> nat" where
  "take_gather_loop sz [] batch total_bytes = ([], batch, total_bytes)"
| "take_gather_loop sz (x # xs) batch total_bytes =
     (if length batch < kMaxGatherBuffers \<and> total_bytes < kMaxGatherBytes
      then take_gather_loop sz xs (batch @ [x]) (size_add total_bytes (sz x))
      else (x # xs, batch, total_bytes))"

definition take_gather_batch :: "('a \<Rightarrow> nat) \<Rightarrow> 'a list \<Rightarrow> 'a list \<times> 'a list \<times> nat" where
  "take_gather_batch sz q = take_gather_loop sz q [] 0"

fun return_gather_loop :: "'a list \<Rightarrow> 'a list \<Rightarrow> 'a list" where
  "return_gather_loop q [] = q"
| "return_gather_loop q (x # rev_batch) = return_gather_loop (x # q) rev_batch"

definition return_gather_batch :: "'a list \<Rightarrow> 'a list \<Rightarrow> 'a list" where
  "return_gather_batch q batch = return_gather_loop q (rev batch)"

abbreviation sum_size :: "('a \<Rightarrow> nat) \<Rightarrow> 'a list \<Rightarrow> nat" where
  "sum_size sz xs \<equiv> sum_list (map sz xs)"

lemma take_gather_loop_spec:
  assumes "take_gather_loop sz q batch total_bytes = (q', batch', total_bytes')"
    and "length batch \<le> kMaxGatherBuffers" and "total_bytes = sum_size sz batch"
    and "sum_size sz batch + sum_size sz q \<le> SIZE_MAX"
    and "batch \<noteq> [] \<Longrightarrow> sum_size sz (butlast batch) < kMaxGatherBytes"
  shows "batch @ q = batch' @ q' \<and> total_bytes' = sum_size sz batch' \<and> length batch' \<le> kMaxGatherBuffers
    \<and> (batch' \<noteq> [] \<longrightarrow> sum_size sz (butlast batch') < kMaxGatherBytes)
    \<and> (q' = [] \<or> length batch' = kMaxGatherBuffers \<or> total_bytes' \<ge> kMaxGatherBytes)"
  using assms
proof (induction sz q batch total_bytes rule: take_gather_loop.induct)
  case (1 sz batch total_bytes)
  then show ?case by auto
next
  case (2 sz x xs batch total_bytes)
  show ?case
  proof (cases "length batch < kMaxGatherBuffers \<and> total_bytes < kMaxGatherBytes")
    case True
    with 2 show ?thesis by (auto simp: butlast_append)
  next
    case False
    with 2 show ?thesis by auto
  qed
qed

lemma return_gather_loop_eq: "return_gather_loop q rb = rev rb @ q"
  by (induction q rb rule: return_gather_loop.induct) auto

lemma return_gather_batch_eq [simp]: "return_gather_batch q batch = batch @ q"
  by (simp add: return_gather_batch_def return_gather_loop_eq)

lemma take_gather_batch_spec:
  assumes "take_gather_batch sz q = (q', batch, total_bytes)" and "sum_size sz q \<le> SIZE_MAX"
  shows "q = batch @ q'" "total_bytes = sum_size sz batch" "length batch \<le> kMaxGatherBuffers"
    "q \<noteq> [] \<Longrightarrow> batch \<noteq> []"
    "batch \<noteq> [] \<Longrightarrow> sum_size sz (butlast batch) < kMaxGatherBytes"
    "q' = [] \<or> length batch = kMaxGatherBuffers \<or> total_bytes \<ge> kMaxGatherBytes"
proof -
  note r = take_gather_loop_spec [OF assms(1) [unfolded take_gather_batch_def], simplified, OF assms(2)]
  then show "q = batch @ q'" "total_bytes = sum_size sz batch" "length batch \<le> kMaxGatherBuffers"
    "batch \<noteq> [] \<Longrightarrow> sum_size sz (butlast batch) < kMaxGatherBytes"
    "q' = [] \<or> length batch = kMaxGatherBuffers \<or> total_bytes \<ge> kMaxGatherBytes"
    by auto
  show "q \<noteq> [] \<Longrightarrow> batch \<noteq> []"
    using r by (auto simp: kMaxGatherBuffers_def kMaxGatherBytes_def)
qed

section \<open>Keep-latest trimming\<close>

fun keep_latest_loop ::
    "('a \<Rightarrow> nat) \<Rightarrow> nat \<Rightarrow> nat \<Rightarrow> 'a list \<Rightarrow> nat \<Rightarrow> drop_accounting \<Rightarrow> 'a list \<times> nat \<times> drop_accounting" where
  "keep_latest_loop sz added high [] qb d = ([], qb, d)"
| "keep_latest_loop sz added high (x # xs) qb d =
     (if size_add qb added \<le> high then (x # xs, qb, d)
      else keep_latest_loop sz added high xs (clamped_sub qb (sz x))
             \<lparr>messages = size_add (messages d) 1, drop_bytes = size_add (drop_bytes d) (sz x)\<rparr>)"

definition maybe_flush_for_keep_latest ::
    "('a \<Rightarrow> nat) \<Rightarrow> backpressure_strategy \<Rightarrow> nat \<Rightarrow> nat \<Rightarrow> 'a list \<Rightarrow> nat \<Rightarrow> bool
       \<Rightarrow> 'a list \<times> nat \<times> drop_accounting" where
  "maybe_flush_for_keep_latest sz strategy added high q qb active =
     (let none = \<lparr>messages = 0, drop_bytes = 0\<rparr>
      in if strategy \<noteq> BestEffort then (q, qb, none)
         else if added \<ge> high then
           let removed_bytes = fold (\<lambda>x acc. size_add acc (sz x)) q 0
           in ([], clamped_sub qb removed_bytes, \<lparr>messages = length q, drop_bytes = removed_bytes\<rparr>)
         else if active \<or> size_add qb added > high then keep_latest_loop sz added high q qb none
         else (q, qb, none))"

section \<open>The backpressure state machine\<close>

datatype enqueue_decision = Immediate | Pending | Rejected

definition decide_enqueue :: "nat \<Rightarrow> 'a bp_fields_scheme \<Rightarrow> enqueue_decision" where
  "decide_enqueue added f =
     (let queued = queue_bytes f; pend = pending_bytes f
      in if queued > bp_limit f \<or> pend > bp_limit f - queued \<or> added > bp_limit f - queued - pend
         then Rejected
         else if backpressure_active f then Pending else Immediate)"

text \<open>The flush every stream transport passes: all of \<open>pending_\<close> moves behind \<open>tx_\<close>.\<close>

definition flush_pending_into_tx :: "('a, 'b) bp_queue_scheme \<Rightarrow> ('a, 'b) bp_queue_scheme" where
  "flush_pending_into_tx f =
     f\<lparr>queue_bytes := size_add (queue_bytes f) (pending_bytes f), pending_bytes := 0,
       tx := tx f @ pending f, pending := []\<rparr>"

text \<open>
  \<open>report_backpressure\<close> gives the new state, the values \<open>on_bp\<close> is called with (one
  \<open>record_backpressure_event\<close> each), and whether \<open>kick_write\<close> is called.
\<close>

definition report_backpressure ::
    "nat \<Rightarrow> ('a, 'b) bp_queue_scheme \<Rightarrow> ('a, 'b) bp_queue_scheme \<times> nat list \<times> bool" where
  "report_backpressure queued f =
     (if \<not> backpressure_active f \<and> queued \<ge> bp_high f
      then (f\<lparr>backpressure_active := True\<rparr>, [queued], False)
      else if backpressure_active f \<and> queued \<le> bp_low f then
        let f1 = (flush_pending_into_tx f)\<lparr>backpressure_active := False\<rparr>;
            post_flush = queue_bytes f1
        in if post_flush \<ge> bp_high f1
           then (f1\<lparr>backpressure_active := True\<rparr>, [queued, post_flush], True)
           else (f1, [queued], True)
      else (f, [], False))"

text \<open>The terminal drain, with the \<open>clear_queues\<close> every stream transport passes.\<close>

definition drain_and_clear_backpressure ::
    "('a, 'b) bp_queue_scheme \<Rightarrow> ('a, 'b) bp_queue_scheme \<times> nat list" where
  "drain_and_clear_backpressure f =
     (let f1 = f\<lparr>tx := [], queue_bytes := 0, pending := [], pending_bytes := 0\<rparr>
      in (f1\<lparr>backpressure_active := False\<rparr>, if backpressure_active f1 then [0] else []))"

lemma decide_enqueue_eq:
  "decide_enqueue added f =
     (if queue_bytes f + pending_bytes f + added \<le> bp_limit f
      then if backpressure_active f then Pending else Immediate else Rejected)"
  unfolding decide_enqueue_def Let_def by (auto; linarith)

lemma keep_latest_loop_spec:
  assumes "keep_latest_loop sz added high q qb d = (q', qb', d')"
    and "sum_size sz q \<le> qb" and "qb + added \<le> SIZE_MAX"
    and "messages d + length q \<le> SIZE_MAX" and "drop_bytes d + sum_size sz q \<le> SIZE_MAX"
  shows "\<exists>gone. q = gone @ q' \<and> qb' = qb - sum_size sz gone
    \<and> d' = \<lparr>messages = messages d + length gone, drop_bytes = drop_bytes d + sum_size sz gone\<rparr>
    \<and> (q' = [] \<or> qb' + added \<le> high)"
  using assms
proof (induction sz added high q qb d rule: keep_latest_loop.induct)
  case (1 sz added high qb d)
  then show ?case by simp
next
  case (2 sz added high x xs qb d)
  show ?case
  proof (cases "qb + added \<le> high")
    case True
    with 2 show ?thesis by simp
  next
    case False
    let ?d = "\<lparr>messages = messages d + 1, drop_bytes = drop_bytes d + sz x\<rparr>"
    have s: "size_add qb added = qb + added" "size_add (messages d) 1 = messages d + 1"
      "size_add (drop_bytes d) (sz x) = drop_bytes d + sz x"
      using "2.prems" by simp_all
    have "keep_latest_loop sz added high xs (qb - sz x) ?d = (q', qb', d')"
      using "2.prems"(1) False s by simp
    with "2.IH" [unfolded s clamped_sub_eq] False "2.prems" obtain gone where
      "xs = gone @ q' \<and> qb' = qb - sz x - sum_size sz gone
       \<and> d' = \<lparr>messages = messages ?d + length gone, drop_bytes = drop_bytes ?d + sum_size sz gone\<rparr>
       \<and> (q' = [] \<or> qb' + added \<le> high)"
      by fastforce
    then show ?thesis by (intro exI [of _ "x # gone"]) auto
  qed
qed

lemma fold_size_add:
  "acc + sum_size sz q \<le> SIZE_MAX \<Longrightarrow>
     fold (\<lambda>x acc. size_add acc (sz x)) q acc = acc + sum_size sz q"
  by (induction q arbitrary: acc) simp_all

section \<open>Properties\<close>

text \<open>
  Gather writes keep the queue in order. A batch is the front of the queue, within the caps of 16
  buffers and (but for its last buffer) 256 KiB; it is not empty if the queue is not; it stops only
  at a cap or at the end; its byte count is the one the completion subtracts; and giving a failed
  batch back restores the queue exactly.
\<close>

lemma gather_batch_fifo:
  assumes "sum_size sz q \<le> SIZE_MAX" and "take_gather_batch sz q = (q', batch, n)"
  shows "q = batch @ q' \<and> return_gather_batch q' batch = q \<and> n = sum_size sz batch
    \<and> length batch \<le> 16 \<and> sum_size sz (butlast batch) \<le> 256 * 1024
    \<and> (q \<noteq> [] \<longrightarrow> batch \<noteq> []) \<and> (q' \<noteq> [] \<longrightarrow> length batch = 16 \<or> n \<ge> 256 * 1024)"
  using take_gather_batch_spec [OF assms(2,1)]
  by (cases "batch = []") (auto simp: kMaxGatherBuffers_def kMaxGatherBytes_def)

text \<open>
  Keep-latest trimming drops only the oldest entries, accounts for exactly what it drops, and
  makes room: afterwards the new buffer fits under the high watermark or nothing is left to drop.
\<close>

lemma keep_latest_drops_oldest:
  assumes "sum_size sz q \<le> qb" and "qb + added \<le> SIZE_MAX" and "length q \<le> SIZE_MAX"
    and "maybe_flush_for_keep_latest sz BestEffort added high q qb active = (q', qb', d)"
  shows "\<exists>gone. q = gone @ q' \<and> messages d = length gone \<and> drop_bytes d = sum_size sz gone
    \<and> qb' = qb - sum_size sz gone \<and> (q' = [] \<or> qb' + added \<le> high)"
proof (cases "added \<ge> high")
  case True
  with assms fold_size_add [of 0 sz q] show ?thesis
    by (intro exI [of _ q]) (auto simp: maybe_flush_for_keep_latest_def Let_def)
next
  case False
  show ?thesis
  proof (cases "active \<or> qb + added > high")
    case True
    with False assms(2,4)
    have "keep_latest_loop sz added high q qb \<lparr>messages = 0, drop_bytes = 0\<rparr> = (q', qb', d)"
      by (auto simp: maybe_flush_for_keep_latest_def)
    from keep_latest_loop_spec [OF this] assms(1-3) show ?thesis by auto
  next
    case False': False
    with False assms(2,4) show ?thesis
      by (auto simp: maybe_flush_for_keep_latest_def)
  qed
qed

text \<open>
  The state machine's hysteresis. Reporting the current queue size keeps the accepted requests in
  order and their bytes accounted, turns backpressure on at the high watermark, and once the queue
  is at the low watermark releases every pending request. Afterwards pending work exists only while
  backpressure is on, and backpressure is off only below the high watermark.
\<close>

lemma report_backpressure_hysteresis:
  assumes "pending f \<noteq> [] \<Longrightarrow> backpressure_active f"
    and "queue_bytes f + pending_bytes f \<le> SIZE_MAX"
    and "report_backpressure (queue_bytes f) f = (f', events, kick)"
  shows "tx f' @ pending f' = tx f @ pending f
    \<and> queue_bytes f' + pending_bytes f' = queue_bytes f + pending_bytes f
    \<and> (pending f' \<noteq> [] \<longrightarrow> backpressure_active f' \<and> queue_bytes f' > bp_low f)
    \<and> (queue_bytes f' \<ge> bp_high f \<longrightarrow> backpressure_active f')
    \<and> (\<not> backpressure_active f' \<longrightarrow> pending f' = [])
    \<and> length events \<le> 2
    \<and> (backpressure_active f \<noteq> backpressure_active f' \<longrightarrow> length events = 1)"
  using assms
  by (auto simp: report_backpressure_def flush_pending_into_tx_def Let_def split: if_splits)

end
