(* ===== verification/Reservation.thy ===== *)
theory Reservation
  imports Backpressure
begin

text \<open>
  Concurrent admission (\<open>src/wirestead/transport/base/bp_utils.hpp\<close>). Any number of sender threads
  and the transport's strand share three independently atomic counters. The critical sections
  behind the reservation mutex are taken apart into their single loads, stores and
  read-modify-writes; what runs outside the mutex (the lock-free release of written bytes, the
  stores of the terminal drain, changes of the backpressure flag) may happen between any two of
  them. An action list is one interleaving.

  The holder of the mutex is a program counter with the values its thread has loaded so far. The
  ghost field \<open>grants\<close> lists the reservations handed out by \<open>try_reserve_limit_bytes\<close> and neither
  committed nor released; a commit or release is only begun for one of them, which is how the
  posted handlers use them.
\<close>

section \<open>The machine\<close>

datatype holder =
    Free
  | Limit_load_queue nat
  | Limit_load_pending nat nat
  | Limit_load_inflight nat nat nat
  | Limit_add nat nat nat nat
  | Write_load_inflight nat
  | Write_check nat nat
  | Write_load_queue nat nat
  | Write_load_pending nat nat nat
  | Write_cas nat nat nat nat
  | Commit_add nat bool
  | Commit_load nat
  | Commit_store nat nat
  | Release_load nat
  | Release_store nat nat
  | Flush_take
  | Flush_add nat

record rstate = bp_fields +
  mutex :: holder
  grants :: "nat list"

text \<open>One access of the thread that holds the mutex.\<close>

fun holder_step :: "rstate \<Rightarrow> rstate" where
  "holder_step s =
     (case mutex s of
        Free \<Rightarrow> s
      | Limit_load_queue n \<Rightarrow> s\<lparr>mutex := Limit_load_pending n (queue_bytes s)\<rparr>
      | Limit_load_pending n q \<Rightarrow> s\<lparr>mutex := Limit_load_inflight n q (pending_bytes s)\<rparr>
      | Limit_load_inflight n q p \<Rightarrow>
          (if limit_fits q p (inflight_bytes s) n (bp_limit s)
           then s\<lparr>mutex := Limit_add n q p (inflight_bytes s)\<rparr>
           else s\<lparr>mutex := Free\<rparr>)
      | Limit_add n q p i \<Rightarrow>
          s\<lparr>inflight_bytes := size_add (inflight_bytes s) n, mutex := Free, grants := n # grants s\<rparr>
      | Write_load_inflight n \<Rightarrow>
          (if inflight_bytes s > bp_limit s then s\<lparr>mutex := Free\<rparr>
           else s\<lparr>mutex := Write_check n (bp_limit s - inflight_bytes s)\<rparr>)
      | Write_check n limit \<Rightarrow>
          (if n = 0 \<or> n > limit \<or> backpressure_active s then s\<lparr>mutex := Free\<rparr>
           else s\<lparr>mutex := Write_load_queue n limit\<rparr>)
      | Write_load_queue n limit \<Rightarrow> s\<lparr>mutex := Write_load_pending n limit (queue_bytes s)\<rparr>
      | Write_load_pending n limit current \<Rightarrow>
          (if reserve_fits current (pending_bytes s) n (bp_high s) limit
           then s\<lparr>mutex := Write_cas n limit current (pending_bytes s)\<rparr>
           else s\<lparr>mutex := Free\<rparr>)
      | Write_cas n limit current p \<Rightarrow>
          (if queue_bytes s = current
           then s\<lparr>queue_bytes := size_add current n, mutex := Free\<rparr>
           else s\<lparr>mutex := Write_load_pending n limit (queue_bytes s)\<rparr>)
      | Commit_add n to_queue \<Rightarrow>
          (if to_queue then s\<lparr>queue_bytes := size_add (queue_bytes s) n, mutex := Commit_load n\<rparr>
           else s\<lparr>pending_bytes := size_add (pending_bytes s) n, mutex := Commit_load n\<rparr>)
      | Commit_load n \<Rightarrow> s\<lparr>mutex := Commit_store n (inflight_bytes s)\<rparr>
      | Commit_store n current \<Rightarrow>
          s\<lparr>inflight_bytes := clamped_sub current n, mutex := Free, grants := remove1 n (grants s)\<rparr>
      | Release_load n \<Rightarrow> s\<lparr>mutex := Release_store n (inflight_bytes s)\<rparr>
      | Release_store n current \<Rightarrow>
          s\<lparr>inflight_bytes := clamped_sub current n, mutex := Free, grants := remove1 n (grants s)\<rparr>
      | Flush_take \<Rightarrow> s\<lparr>pending_bytes := 0, mutex := Flush_add (pending_bytes s)\<rparr>
      | Flush_add moved \<Rightarrow> s\<lparr>queue_bytes := size_add (queue_bytes s) moved, mutex := Free\<rparr>)"

declare holder_step.simps [simp del]

text \<open>
  What the scheduler may do next: let a thread enter a critical section, let the holder make its
  next access, let a weak compare-and-swap fail spuriously, or run one of the lock-free accesses.
\<close>

datatype action =
    Enter_limit nat
  | Enter_write nat
  | Enter_commit nat bool
  | Enter_release nat
  | Enter_flush
  | Holder
  | Spurious
  | Release_write nat
  | Drain_queue
  | Drain_pending
  | Set_active bool

definition enter :: "holder \<Rightarrow> rstate \<Rightarrow> rstate option" where
  "enter h s = (if mutex s = Free then Some (s\<lparr>mutex := h\<rparr>) else None)"

fun rstep :: "action \<Rightarrow> rstate \<Rightarrow> rstate option" where
  "rstep (Enter_limit n) s =
     (if n = 0 \<or> n > bp_limit s then Some s else enter (Limit_load_queue n) s)"
| "rstep (Enter_write n) s = enter (Write_load_inflight n) s"
| "rstep (Enter_commit n to_queue) s = (if n \<in> set (grants s) then enter (Commit_add n to_queue) s else None)"
| "rstep (Enter_release n) s = (if n \<in> set (grants s) then enter (Release_load n) s else None)"
| "rstep Enter_flush s = enter Flush_take s"
| "rstep Holder s = Some (holder_step s)"
| "rstep Spurious s =
     (case mutex s of
        Write_cas n limit current p \<Rightarrow> Some (s\<lparr>mutex := Write_load_pending n limit (queue_bytes s)\<rparr>)
      | _ \<Rightarrow> None)"
| "rstep (Release_write n) s = Some (s\<lparr>queue_bytes := clamped_sub (queue_bytes s) n\<rparr>)"
| "rstep Drain_queue s = Some (s\<lparr>queue_bytes := 0\<rparr>)"
| "rstep Drain_pending s = Some (s\<lparr>pending_bytes := 0\<rparr>)"
| "rstep (Set_active b) s = Some (s\<lparr>backpressure_active := b\<rparr>)"

inductive rreachable :: "rstate \<Rightarrow> rstate \<Rightarrow> bool" for s0 where
  start: "rreachable s0 s0"
| step: "rreachable s0 s \<Longrightarrow> rstep a s = Some s' \<Longrightarrow> rreachable s0 s'"

definition r_init :: "nat \<Rightarrow> nat \<Rightarrow> nat \<Rightarrow> rstate" where
  "r_init high low limit =
     \<lparr>queue_bytes = 0, pending_bytes = 0, inflight_bytes = 0, backpressure_active = False,
      bp_high = high, bp_low = low, bp_limit = limit, bp_strategy = Reliable, mutex = Free, grants = []\<rparr>"

section \<open>The invariant\<close>

abbreviation committed :: "rstate \<Rightarrow> nat" where
  "committed s \<equiv> queue_bytes s + pending_bytes s + inflight_bytes s"

text \<open>
  What the holder has loaded bounds what the counters hold now, since only decreasing accesses run
  outside the mutex. Half-way through a commit its bytes are counted twice, half-way through a
  flush the moved bytes are not counted at all.
\<close>

fun holder_ok :: "rstate \<Rightarrow> bool" where
  "holder_ok s =
     (case mutex s of
        Limit_load_pending n q \<Rightarrow> queue_bytes s \<le> q
      | Limit_load_inflight n q p \<Rightarrow> queue_bytes s \<le> q \<and> pending_bytes s \<le> p
      | Limit_add n q p i \<Rightarrow>
          queue_bytes s \<le> q \<and> pending_bytes s \<le> p \<and> i = inflight_bytes s \<and> q + p + i + n \<le> bp_limit s
      | Write_check n limit \<Rightarrow> limit + inflight_bytes s = bp_limit s
      | Write_load_queue n limit \<Rightarrow> limit + inflight_bytes s = bp_limit s
      | Write_load_pending n limit current \<Rightarrow> limit + inflight_bytes s = bp_limit s
      | Write_cas n limit current p \<Rightarrow>
          limit + inflight_bytes s = bp_limit s \<and> pending_bytes s \<le> p \<and> current + p + n \<le> limit
      | Commit_add n to_queue \<Rightarrow> n \<in> set (grants s)
      | Commit_load n \<Rightarrow> n \<in> set (grants s)
      | Commit_store n current \<Rightarrow> n \<in> set (grants s) \<and> current = inflight_bytes s
      | Release_load n \<Rightarrow> n \<in> set (grants s)
      | Release_store n current \<Rightarrow> n \<in> set (grants s) \<and> current = inflight_bytes s
      | _ \<Rightarrow> True)"

fun slack :: "holder \<Rightarrow> nat" where
  "slack (Commit_load n) = n"
| "slack (Commit_store n c) = n"
| "slack h = 0"

fun carried :: "holder \<Rightarrow> nat" where
  "carried (Flush_add moved) = moved"
| "carried h = 0"

declare holder_ok.simps [simp del]

definition r_inv :: "rstate \<Rightarrow> bool" where
  "r_inv s \<longleftrightarrow> bp_limit s \<le> SIZE_MAX \<and> holder_ok s \<and> inflight_bytes s = sum_list (grants s)
     \<and> committed s + carried (mutex s) \<le> bp_limit s + slack (mutex s)"

lemmas r_inv_simps = r_inv_def holder_ok.simps holder_step.simps

lemma holder_step_limit [simp]: "bp_limit (holder_step s) = bp_limit s"
  by (auto simp: holder_step.simps split: holder.split)

lemma grant_le: "r_inv s \<Longrightarrow> n \<in> set (grants s) \<Longrightarrow> n \<le> inflight_bytes s"
  by (auto simp: r_inv_def dest: member_le_sum)

lemma holder_step_inv:
  assumes "r_inv s"
  shows "r_inv (holder_step s)"
proof (cases "mutex s")
  case (Limit_add n q p i)
  then have "inflight_bytes s + n \<le> SIZE_MAX" using assms by (auto simp: r_inv_simps)
  with Limit_add assms show ?thesis by (auto simp: r_inv_simps)
next
  case (Write_cas n limit current p)
  then have "current + n \<le> SIZE_MAX" using assms by (auto simp: r_inv_simps)
  with Write_cas assms show ?thesis by (auto simp: r_inv_simps)
next
  case (Commit_add n to_queue)
  then have "n \<in> set (grants s)" using assms by (auto simp: r_inv_simps)
  from grant_le [OF assms this] have "queue_bytes s + n \<le> SIZE_MAX" "pending_bytes s + n \<le> SIZE_MAX"
    using assms Commit_add by (auto simp: r_inv_def)
  with Commit_add assms \<open>n \<in> _\<close> show ?thesis by (auto simp: r_inv_simps)
next
  case (Commit_store n current)
  then have "n \<in> set (grants s)" "current = inflight_bytes s" using assms by (auto simp: r_inv_simps)
  with sum_list_remove1 [of n "grants s"] Commit_store assms show ?thesis by (auto simp: r_inv_simps)
next
  case (Release_store n current)
  then have "n \<in> set (grants s)" "current = inflight_bytes s" using assms by (auto simp: r_inv_simps)
  with sum_list_remove1 [of n "grants s"] Release_store assms show ?thesis by (auto simp: r_inv_simps)
next
  case (Flush_add moved)
  then have "queue_bytes s + moved \<le> SIZE_MAX" using assms by (auto simp: r_inv_simps)
  with Flush_add assms show ?thesis by (auto simp: r_inv_simps)
qed (use assms in \<open>auto simp: r_inv_simps limit_fits_iff reserve_fits_iff\<close>)

text \<open>The lock-free accesses only lower the counters.\<close>

lemma decrease_inv:
  assumes "r_inv s" and "queue_bytes s' \<le> queue_bytes s" and "pending_bytes s' \<le> pending_bytes s"
    and "inflight_bytes s' = inflight_bytes s" and "bp_limit s' = bp_limit s"
    and "mutex s' = mutex s" and "grants s' = grants s"
  shows "r_inv s'"
  using assms by (cases "mutex s") (auto simp: r_inv_def holder_ok.simps)

lemma enter_inv:
  assumes "r_inv s" and "enter h s = Some s'" and "holder_ok (s\<lparr>mutex := h\<rparr>)"
    and "slack h = 0" and "carried h = 0"
  shows "r_inv s'"
  using assms by (auto simp: enter_def r_inv_def split: if_splits)

lemma rstep_inv:
  assumes "r_inv s" and "rstep a s = Some s'"
  shows "r_inv s'"
proof (cases a)
  case Holder
  then show ?thesis using assms holder_step_inv by fastforce
next
  case Spurious
  then show ?thesis
    using assms by (auto simp: r_inv_def holder_ok.simps split: holder.splits)
next
  case (Release_write n)
  then show ?thesis
    using assms by (auto intro: decrease_inv [OF assms(1)])
next
  case Drain_queue
  then show ?thesis
    using assms by (auto intro: decrease_inv [OF assms(1)])
next
  case Drain_pending
  then show ?thesis
    using assms by (auto intro: decrease_inv [OF assms(1)])
next
  case (Set_active b)
  then show ?thesis
    using assms by (auto intro: decrease_inv [OF assms(1)])
qed (use assms in \<open>auto simp: holder_ok.simps split: if_splits elim!: enter_inv\<close>)

lemma rstep_limit: "rstep a s = Some s' \<Longrightarrow> bp_limit s' = bp_limit s"
  by (cases a) (auto simp: enter_def split: if_splits holder.splits)

lemma rreachable_inv:
  assumes "rreachable (r_init high low limit) s" and "limit \<le> SIZE_MAX"
  shows "r_inv s \<and> bp_limit s = limit"
  using assms
proof (induction rule: rreachable.induct)
  case start
  then show ?case by (simp add: r_inv_def holder_ok.simps r_init_def)
next
  case (step s a s')
  then show ?case using rstep_inv rstep_limit by metis
qed

text \<open>A schedule in which one sender reserves 60 bytes.\<close>

lemma reach_one_grant:
  "rreachable (r_init 50 25 100) ((r_init 50 25 100)\<lparr>inflight_bytes := 60, grants := [60]\<rparr>)"
proof -
  let ?i = "r_init 50 25 100"
  have s1: "rreachable ?i (?i\<lparr>mutex := Limit_load_queue 60\<rparr>)"
    by (rule rreachable.step [OF rreachable.start, where a = "Enter_limit 60"])
      (simp add: enter_def r_init_def)
  have s2: "rreachable ?i (?i\<lparr>mutex := Limit_load_pending 60 0\<rparr>)"
    by (rule rreachable.step [OF s1, where a = Holder]) (simp add: holder_step.simps r_init_def)
  have s3: "rreachable ?i (?i\<lparr>mutex := Limit_load_inflight 60 0 0\<rparr>)"
    by (rule rreachable.step [OF s2, where a = Holder]) (simp add: holder_step.simps r_init_def)
  have s4: "rreachable ?i (?i\<lparr>mutex := Limit_add 60 0 0 0\<rparr>)"
    by (rule rreachable.step [OF s3, where a = Holder])
      (simp add: holder_step.simps r_init_def limit_fits_def)
  show ?thesis
    by (rule rreachable.step [OF s4, where a = Holder])
      (simp add: holder_step.simps r_init_def SIZE_MAX_def)
qed

section \<open>Properties\<close>

text \<open>
  C1: No interleaving over-commits the queue. At every instant of every schedule of senders, strand
  and terminal drain, the queued and pending bytes stay within the hard limit; and whenever the
  reservation mutex is free, so do they together with every accepted request not yet routed.
\<close>

theorem admission_never_overcommits:
  assumes "rreachable (r_init high low limit) s" and "limit \<le> SIZE_MAX"
  shows "queue_bytes s + pending_bytes s \<le> limit \<and> inflight_bytes s = sum_list (grants s)
    \<and> (mutex s = Free \<longrightarrow> queue_bytes s + pending_bytes s + sum_list (grants s) \<le> limit)"
proof -
  have inv: "r_inv s" "bp_limit s = limit" using rreachable_inv [OF assms] by auto
  moreover have "slack (mutex s) \<le> inflight_bytes s"
    using inv(1) grant_le [OF inv(1)] by (cases "mutex s") (auto simp: r_inv_def holder_ok.simps)
  ultimately show ?thesis by (auto simp: r_inv_def)
qed

theorem admission_never_overcommits_witness:
  "\<exists>s. rreachable (r_init 50 25 100) s \<and> grants s = [60] \<and> mutex s = Free
     \<and> queue_bytes s + pending_bytes s + sum_list (grants s) \<le> 100"
proof -
  let ?i = "r_init 50 25 100"
  have l: "(100 :: nat) \<le> SIZE_MAX" by (simp add: SIZE_MAX_def)
  note s5 = reach_one_grant
  from admission_never_overcommits [OF s5 l] s5 show ?thesis
    by (auto simp: r_init_def intro!: exI [of _ "?i\<lparr>inflight_bytes := 60, grants := [60]\<rparr>"])
qed

text \<open>
  A granted reservation is never refused later. Whenever the strand routes a request that
  \<open>try_reserve_limit_bytes\<close> accepted, in whatever state the other threads have left the counters
  and the mutex, \<open>decide_enqueue\<close> does not reject it: the drop-after-accept branch is unreachable.
\<close>

lemma granted_request_never_rejected:
  assumes "rreachable (r_init high low limit) s" and "limit \<le> SIZE_MAX" and "n \<in> set (grants s)"
    and strand_not_in_section: "slack (mutex s) = 0"
  shows "decide_enqueue n s = (if backpressure_active s then Pending else Immediate)"
proof -
  have inv: "r_inv s" "bp_limit s = limit" using rreachable_inv [OF assms(1,2)] by auto
  then have "committed s \<le> bp_limit s" using assms(4) by (simp add: r_inv_def)
  with grant_le [OF inv(1) assms(3)] show ?thesis by (simp add: decide_enqueue_eq)
qed

end
