(* ===== verification/Send_Ledger.thy ===== *)
theory Send_Ledger
  imports Wire_Prelude "HOL-Library.Multiset"
begin

text \<open>
  \<open>SendAccountingLedger\<close> (\<open>src/wirestead/diagnostics/send_accounting.hpp\<close>) with the totals of
  \<open>src/wirestead/wrapper/send_accounting.hpp\<close>: every accepted send request is tracked until it is
  written, discarded or aborted.

  Requests live in a power-of-two ring indexed by request id; ids that stall behind a mostly
  retired ring are moved to a sparse map. Contributor groups are shared objects, so a handle is an
  address in the store \<open>groups\<close>. The 64-bit totals are words, so the bookkeeping is exact with
  wrap-around; request ids and epochs are unbounded naturals (a ledger that ran for \<open>2 ^ 64\<close>
  admissions is outside the model). Allocation failure is not modelled. Every public operation
  runs under the ledger's mutex and is one function.
\<close>

unbundle bit_operations_syntax

section \<open>Totals\<close>

record request_totals =
  requests :: "64 word"
  req_bytes :: "64 word"

record loss_totals =
  discarded_before_write :: request_totals
  aborted_during_write :: request_totals

record send_accounting =
  accepted :: request_totals
  written :: request_totals
  outstanding :: request_totals
  explicit_stop :: loss_totals
  connection_loss :: loss_totals
  queue_pressure :: loss_totals
  confirmed_written_bytes :: "64 word"
  session_expiry :: loss_totals

datatype cause = ExplicitStop | ConnectionLoss | QueuePressure | SessionExpiry

definition no_requests :: request_totals where
  "no_requests = \<lparr>requests = 0, req_bytes = 0\<rparr>"

definition no_loss :: loss_totals where
  "no_loss = \<lparr>discarded_before_write = no_requests, aborted_during_write = no_requests\<rparr>"

definition no_accounting :: send_accounting where
  "no_accounting =
     \<lparr>accepted = no_requests, written = no_requests, outstanding = no_requests,
      explicit_stop = no_loss, connection_loss = no_loss, queue_pressure = no_loss,
      confirmed_written_bytes = 0, session_expiry = no_loss\<rparr>"

definition add_request :: "nat \<Rightarrow> request_totals \<Rightarrow> request_totals" where
  "add_request bytes t = \<lparr>requests = requests t + 1, req_bytes = req_bytes t + of_nat bytes\<rparr>"

definition remove_request :: "nat \<Rightarrow> request_totals \<Rightarrow> request_totals" where
  "remove_request bytes t = \<lparr>requests = requests t - 1, req_bytes = req_bytes t - of_nat bytes\<rparr>"

text \<open>\<open>accumulate_send_accounting\<close>, for a server that sums its sessions.\<close>

definition add_totals :: "request_totals \<Rightarrow> request_totals \<Rightarrow> request_totals" where
  "add_totals to from = \<lparr>requests = requests to + requests from, req_bytes = req_bytes to + req_bytes from\<rparr>"

definition add_losses :: "loss_totals \<Rightarrow> loss_totals \<Rightarrow> loss_totals" where
  "add_losses to from =
     \<lparr>discarded_before_write = add_totals (discarded_before_write to) (discarded_before_write from),
      aborted_during_write = add_totals (aborted_during_write to) (aborted_during_write from)\<rparr>"

definition accumulate_send_accounting :: "send_accounting \<Rightarrow> send_accounting \<Rightarrow> send_accounting" where
  "accumulate_send_accounting t s =
     \<lparr>accepted = add_totals (accepted t) (accepted s), written = add_totals (written t) (written s),
      outstanding = add_totals (outstanding t) (outstanding s),
      explicit_stop = add_losses (explicit_stop t) (explicit_stop s),
      connection_loss = add_losses (connection_loss t) (connection_loss s),
      queue_pressure = add_losses (queue_pressure t) (queue_pressure s),
      confirmed_written_bytes = confirmed_written_bytes t + confirmed_written_bytes s,
      session_expiry = add_losses (session_expiry t) (session_expiry s)\<rparr>"

section \<open>The ledger\<close>

record group =
  grp_totals :: send_accounting
  grp_epoch :: nat

record entry =
  ent_bytes :: nat
  ent_epoch :: nat
  ent_active :: bool
  ent_live :: bool
  ent_group :: "nat option"

record ledger =
  slots :: "entry list"
  sparse :: "(nat \<times> entry) list"
  head :: nat
  count :: nat
  base :: nat
  next_id :: nat
  epoch :: nat
  totals :: send_accounting
  groups :: "nat \<Rightarrow> group"

definition no_entry :: entry where
  "no_entry = \<lparr>ent_bytes = 0, ent_epoch = 0, ent_active = False, ent_live = False, ent_group = None\<rparr>"

definition new_ledger :: "(nat \<Rightarrow> group) \<Rightarrow> ledger" where
  "new_ledger gs =
     \<lparr>slots = [], sparse = [], head = 0, count = 0, base = 1, next_id = 0, epoch = 0,
      totals = no_accounting, groups = gs\<rparr>"

definition slot_index :: "ledger \<Rightarrow> nat \<Rightarrow> nat" where
  "slot_index l i = (head l + i) AND (length (slots l) - 1)"

definition slot :: "ledger \<Rightarrow> nat \<Rightarrow> entry" where
  "slot l i = slots l ! slot_index l i"

definition set_slot :: "nat \<Rightarrow> entry \<Rightarrow> ledger \<Rightarrow> ledger" where
  "set_slot i e l = l\<lparr>slots := (slots l)[slot_index l i := e]\<rparr>"

text \<open>\<open>update\<close>: the totals of the ledger and of the entry's group, within the current epoch.\<close>

definition update_totals :: "entry \<Rightarrow> (send_accounting \<Rightarrow> send_accounting) \<Rightarrow> ledger \<Rightarrow> ledger" where
  "update_totals e apply_f l =
     (if ent_epoch e \<noteq> epoch l then l
      else
        let l1 = l\<lparr>totals := apply_f (totals l)\<rparr>
        in case ent_group e of
             None \<Rightarrow> l1
           | Some g \<Rightarrow>
               l1\<lparr>groups := (groups l)(g := (groups l g)\<lparr>grp_totals := apply_f (grp_totals (groups l g))\<rparr>)\<rparr>)"

definition lose :: "cause \<Rightarrow> (loss_totals \<Rightarrow> loss_totals) \<Rightarrow> send_accounting \<Rightarrow> send_accounting" where
  "lose c f t =
     (case c of
        ExplicitStop \<Rightarrow> t\<lparr>explicit_stop := f (explicit_stop t)\<rparr>
      | ConnectionLoss \<Rightarrow> t\<lparr>connection_loss := f (connection_loss t)\<rparr>
      | SessionExpiry \<Rightarrow> t\<lparr>session_expiry := f (session_expiry t)\<rparr>
      | QueuePressure \<Rightarrow> t\<lparr>queue_pressure := f (queue_pressure t)\<rparr>)"

definition add_loss :: "bool \<Rightarrow> nat \<Rightarrow> loss_totals \<Rightarrow> loss_totals" where
  "add_loss active bytes loss =
     (if active then loss\<lparr>aborted_during_write := add_request bytes (aborted_during_write loss)\<rparr>
      else loss\<lparr>discarded_before_write := add_request bytes (discarded_before_write loss)\<rparr>)"

definition remove_outstanding :: "nat \<Rightarrow> send_accounting \<Rightarrow> send_accounting" where
  "remove_outstanding bytes t = t\<lparr>outstanding := remove_request bytes (outstanding t)\<rparr>"

definition terminate_entry :: "cause \<Rightarrow> entry \<Rightarrow> ledger \<Rightarrow> ledger" where
  "terminate_entry c e l =
     update_totals e
       (\<lambda>t. remove_outstanding (ent_bytes e) (lose c (add_loss (ent_active e) (ent_bytes e)) t)) l"

definition find_entry :: "ledger \<Rightarrow> nat \<Rightarrow> entry option" where
  "find_entry l rid =
     (if rid < base l then map_of (sparse l) rid
      else if rid - base l \<ge> count l then None
      else let e = slot l (rid - base l) in if ent_live e then Some e else None)"

definition contains :: "ledger \<Rightarrow> nat \<Rightarrow> bool" where
  "contains l rid =
     (if rid < base l then map_of (sparse l) rid \<noteq> None
      else rid - base l < count l \<and> ent_live (slot l (rid - base l)))"

function compact :: "ledger \<Rightarrow> ledger" where
  "compact l =
     (if count l > 0 \<and> \<not> ent_live (slot l 0)
      then compact (l\<lparr>head := (head l + 1) AND (length (slots l) - 1),
                      count := count l - 1, base := base l + 1\<rparr>)
      else l)"
  by pat_completeness auto
termination by (relation "measure count") auto

declare compact.simps [simp del]

definition erase_entry :: "nat \<Rightarrow> entry \<Rightarrow> ledger \<Rightarrow> ledger" where
  "erase_entry rid e l =
     (if rid < base l then l\<lparr>sparse := filter (\<lambda>(k, _). k \<noteq> rid) (sparse l)\<rparr>
      else compact (set_slot (rid - base l) (e\<lparr>ent_live := False, ent_group := None\<rparr>) l))"

text \<open>A write through the pointer \<open>find\<close> returned.\<close>

definition store_entry :: "nat \<Rightarrow> entry \<Rightarrow> ledger \<Rightarrow> ledger" where
  "store_entry rid e l =
     (if rid < base l then l\<lparr>sparse := map (\<lambda>(k, v). (k, if k = rid then e else v)) (sparse l)\<rparr>
      else set_slot (rid - base l) e l)"

definition live_count :: "ledger \<Rightarrow> nat" where
  "live_count l = length (filter (\<lambda>i. ent_live (slot l i)) [0..<count l])"

definition make_room :: "ledger \<Rightarrow> ledger" where
  "make_room l =
     (if slots l \<noteq> [] \<and> live_count l \<le> count l div 2 then
        let staged = sparse l @ map (\<lambda>i. (base l + i, slot l i)) (filter (\<lambda>i. ent_live (slot l i)) [0..<count l])
        in (fold (\<lambda>i. set_slot i no_entry) [0..<count l] l)
             \<lparr>sparse := staged, head := 0, count := 0, base := next_id l + 1\<rparr>
      else
        let larger = (if slots l = [] then 16 else length (slots l) * 2)
        in l\<lparr>slots := map (\<lambda>i. if i < count l then slot l i else no_entry) [0..<larger], head := 0\<rparr>)"

definition admit :: "nat \<Rightarrow> nat option \<Rightarrow> ledger \<Rightarrow> nat \<times> ledger" where
  "admit bytes grp l =
     (let rid = next_id l + 1;
          l1 = (case grp of
                  None \<Rightarrow> l
                | Some g \<Rightarrow>
                    if grp_epoch (groups l g) \<noteq> epoch l
                    then l\<lparr>groups := (groups l)(g := \<lparr>grp_totals = no_accounting, grp_epoch = epoch l\<rparr>)\<rparr>
                    else l);
          l2 = (if count l1 = length (slots l1) then make_room l1 else l1);
          e = \<lparr>ent_bytes = bytes, ent_epoch = epoch l2, ent_active = False, ent_live = True, ent_group = grp\<rparr>;
          l3 = (set_slot (count l2) e l2)\<lparr>count := count l2 + 1, next_id := rid\<rparr>
      in (rid, update_totals e
                (\<lambda>t. t\<lparr>accepted := add_request bytes (accepted t),
                       outstanding := add_request bytes (outstanding t)\<rparr>) l3))"

definition begin_locked :: "nat \<Rightarrow> ledger \<Rightarrow> bool \<times> ledger" where
  "begin_locked rid l =
     (case find_entry l rid of
        None \<Rightarrow> (False, l)
      | Some e \<Rightarrow> (True, store_entry rid (e\<lparr>ent_active := True\<rparr>) l))"

definition begin_batch :: "nat list \<Rightarrow> ledger \<Rightarrow> bool \<times> ledger" where
  "begin_batch ids l =
     (if \<exists>rid\<in>set ids. find_entry l rid = None then (False, l)
      else (True, fold (\<lambda>rid l. snd (begin_locked rid l)) ids l))"

definition complete_totals :: "nat \<Rightarrow> nat \<Rightarrow> send_accounting \<Rightarrow> send_accounting" where
  "complete_totals bytes confirmed t =
     (let t1 = remove_outstanding bytes
                 (t\<lparr>confirmed_written_bytes := confirmed_written_bytes t + of_nat confirmed\<rparr>)
      in if confirmed = bytes then t1\<lparr>written := add_request bytes (written t1)\<rparr>
         else t1\<lparr>connection_loss := add_loss True bytes (connection_loss t1)\<rparr>)"

definition complete_locked :: "nat \<Rightarrow> nat \<Rightarrow> ledger \<Rightarrow> ledger" where
  "complete_locked rid confirmed_bytes l =
     (case find_entry l rid of
        None \<Rightarrow> l
      | Some e \<Rightarrow>
          erase_entry rid e
            (update_totals e (complete_totals (ent_bytes e) (min confirmed_bytes (ent_bytes e))) l))"

text \<open>A batch is given by the request and the size of each of its items.\<close>

fun complete_batch :: "(nat \<times> nat) list \<Rightarrow> nat \<Rightarrow> ledger \<Rightarrow> ledger" where
  "complete_batch [] confirmed_bytes l = l"
| "complete_batch ((rid, sz) # batch) confirmed_bytes l =
     (let confirmed = min confirmed_bytes sz
      in complete_batch batch (confirmed_bytes - confirmed) (complete_locked rid confirmed l))"

definition discard :: "nat \<Rightarrow> cause \<Rightarrow> ledger \<Rightarrow> ledger" where
  "discard rid c l =
     (case find_entry l rid of
        None \<Rightarrow> l
      | Some e \<Rightarrow> erase_entry rid e (terminate_entry c e l))"

definition rollback :: "nat \<Rightarrow> ledger \<Rightarrow> ledger" where
  "rollback rid l =
     (case find_entry l rid of
        None \<Rightarrow> l
      | Some e \<Rightarrow>
          erase_entry rid e
            (update_totals e
               (\<lambda>t. remove_outstanding (ent_bytes e) (t\<lparr>accepted := remove_request (ent_bytes e) (accepted t)\<rparr>)) l))"

definition waiting_of :: "nat \<Rightarrow> entry \<Rightarrow> bool" where
  "waiting_of g e \<longleftrightarrow> ent_group e = Some g \<and> \<not> ent_active e"

definition discard_waiting :: "nat option \<Rightarrow> cause \<Rightarrow> ledger \<Rightarrow> ledger" where
  "discard_waiting grp c l =
     (case grp of
        None \<Rightarrow> l
      | Some g \<Rightarrow>
          let l1 = fold (\<lambda>(rid, e) l. if waiting_of g e then terminate_entry c e l else l) (sparse l) l;
              l2 = l1\<lparr>sparse := filter (\<lambda>(rid, e). \<not> waiting_of g e) (sparse l1)\<rparr>;
              l3 = fold (\<lambda>i l. let e = slot l i in
                           if ent_live e \<and> waiting_of g e
                           then set_slot i (e\<lparr>ent_live := False, ent_group := None\<rparr>) (terminate_entry c e l)
                           else l) [0..<count l2] l2
          in compact l3)"

definition end_ledger :: "cause \<Rightarrow> ledger \<Rightarrow> ledger" where
  "end_ledger c l =
     (let l1 = fold (\<lambda>(rid, e). terminate_entry c e) (sparse l) l;
          l2 = l1\<lparr>sparse := []\<rparr>;
          l3 = fold (\<lambda>i l. set_slot i no_entry
                 (if ent_live (slot l i) then terminate_entry c (slot l i) l else l)) [0..<count l2] l2
      in l3\<lparr>head := 0, count := 0, base := next_id l3 + 1\<rparr>)"

definition snapshot_group :: "nat option \<Rightarrow> ledger \<Rightarrow> send_accounting" where
  "snapshot_group grp l =
     (case grp of
        None \<Rightarrow> no_accounting
      | Some g \<Rightarrow> if grp_epoch (groups l g) = epoch l then grp_totals (groups l g) else no_accounting)"

definition reset_ledger :: "ledger \<Rightarrow> ledger" where
  "reset_ledger l = l\<lparr>epoch := epoch l + 1, totals := no_accounting\<rparr>"

section \<open>The ring as a list\<close>

definition ring :: "ledger \<Rightarrow> entry list" where
  "ring l = map (slot l) [0..<count l]"

definition ring_ok :: "ledger \<Rightarrow> bool" where
  "ring_ok l \<longleftrightarrow> count l \<le> length (slots l) \<and>
     (if slots l = [] then head l = 0 else head l < length (slots l) \<and> (\<exists>k. length (slots l) = 2 ^ k))"

lemma length_ring [simp]: "length (ring l) = count l"
  by (simp add: ring_def)

lemma ring_nth [simp]: "i < count l \<Longrightarrow> ring l ! i = slot l i"
  by (simp add: ring_def)

lemma and_pow2_minus_1: "n AND (2 ^ k - Suc 0) = n mod (2 ^ k :: nat)"
  by (metis One_nat_def mask_eq_exp_minus_1 take_bit_eq_mask take_bit_eq_mod)

lemma slot_index_mod:
  "ring_ok l \<Longrightarrow> slots l \<noteq> [] \<Longrightarrow> slot_index l i = (head l + i) mod length (slots l)"
  by (auto simp: ring_ok_def slot_index_def and_pow2_minus_1)

lemma slot_index_less: "ring_ok l \<Longrightarrow> slots l \<noteq> [] \<Longrightarrow> slot_index l i < length (slots l)"
  by (simp add: slot_index_mod)

lemma mod_shift_inj:
  assumes "(h + i) mod n = (h + j) mod n" and "i < n" and "j < (n :: nat)"
  shows "i = j"
proof -
  have *: "i = j" if "i \<le> j" "j < n" "(h + j) mod n = (h + i) mod n" for i j
  proof -
    have "n dvd (h + j) - (h + i)" using that mod_eq_dvd_iff_nat [of "h + i" "h + j" n] by simp
    then have "n dvd j - i" by simp
    then show ?thesis using that by (auto dest: dvd_imp_le)
  qed
  from *[of i j] *[of j i] assms show ?thesis by (cases "i \<le> j") auto
qed

lemma slot_index_inj:
  assumes "ring_ok l" and "i < length (slots l)" and "j < length (slots l)"
  shows "slot_index l i = slot_index l j \<longleftrightarrow> i = j"
proof -
  have "slots l \<noteq> []" using assms(2) by auto
  with assms mod_shift_inj [of "head l" i "length (slots l)" j] show ?thesis
    by (auto simp: slot_index_mod)
qed

lemma set_slot_fields [simp]:
  "count (set_slot i e l) = count l" "head (set_slot i e l) = head l" "base (set_slot i e l) = base l"
  "sparse (set_slot i e l) = sparse l" "next_id (set_slot i e l) = next_id l"
  "epoch (set_slot i e l) = epoch l" "totals (set_slot i e l) = totals l" "groups (set_slot i e l) = groups l"
  "length (slots (set_slot i e l)) = length (slots l)" "slots (set_slot i e l) = [] \<longleftrightarrow> slots l = []"
  "slot_index (set_slot i e l) j = slot_index l j" "ring_ok (set_slot i e l) = ring_ok l"
  by (auto simp: set_slot_def slot_index_def ring_ok_def)

lemma slot_set_slot:
  assumes "ring_ok l" and "i < length (slots l)" and "j < length (slots l)"
  shows "slot (set_slot i e l) j = (if i = j then e else slot l j)"
proof -
  have "slots l \<noteq> []" using assms(2) by auto
  then have "slot_index l i < length (slots l)" using assms(1) by (simp add: slot_index_less)
  with slot_index_inj [OF assms] show ?thesis
    by (auto simp: slot_def set_slot_def slot_index_def)
qed

lemma ring_set_slot:
  assumes "ring_ok l" and "i < count l"
  shows "ring (set_slot i e l) = (ring l)[i := e]"
proof (rule nth_equalityI)
  fix j assume "j < length (ring (set_slot i e l))"
  then have "j < count l" by simp
  with assms show "ring (set_slot i e l) ! j = (ring l)[i := e] ! j"
    by (auto simp: slot_set_slot ring_ok_def nth_list_update)
qed simp

lemma ring_cong: "slots l' = slots l \<Longrightarrow> head l' = head l \<Longrightarrow> count l' = count l \<Longrightarrow> ring l' = ring l"
  by (simp add: ring_def slot_def slot_index_def)

lemma slot_Suc_head:
  assumes "ring_ok l" and "slots l \<noteq> []"
  shows "slot (l\<lparr>head := (head l + 1) AND (length (slots l) - 1), count := c, base := b\<rparr>) i = slot l (Suc i)"
proof -
  from assms obtain k where k: "length (slots l) = 2 ^ k" by (auto simp: ring_ok_def)
  show ?thesis
    by (simp add: slot_def slot_index_def k and_pow2_minus_1 mod_simps)
qed

lemma compact_spec:
  assumes "ring_ok l"
  shows "ring (compact l) = dropWhile (\<lambda>e. \<not> ent_live e) (ring l)
    \<and> base (compact l) + count (compact l) = base l + count l
    \<and> ring_ok (compact l) \<and> slots (compact l) = slots l \<and> sparse (compact l) = sparse l
    \<and> next_id (compact l) = next_id l \<and> epoch (compact l) = epoch l \<and> totals (compact l) = totals l
    \<and> groups (compact l) = groups l \<and> base l \<le> base (compact l)"
  using assms
proof (induction l rule: compact.induct)
  case (1 l)
  show ?case
  proof (cases "count l > 0 \<and> \<not> ent_live (slot l 0)")
    case False
    then have "compact l = l" by (subst compact.simps) auto
    moreover have "dropWhile (\<lambda>e. \<not> ent_live e) (ring l) = ring l"
      using False by (cases "count l") (auto simp: ring_def upt_rec)
    ultimately show ?thesis using "1.prems" by simp
  next
    case True
    let ?l = "l\<lparr>head := (head l + 1) AND (length (slots l) - 1), count := count l - 1, base := base l + 1\<rparr>"
    have ne: "slots l \<noteq> []" using "1.prems" True by (auto simp: ring_ok_def)
    from "1.prems" ne obtain k where k: "length (slots l) = 2 ^ k" by (auto simp: ring_ok_def)
    have ok: "ring_ok ?l" using "1.prems" ne k by (auto simp: ring_ok_def and_pow2_minus_1)
    have "ring l = slot l 0 # ring ?l"
      using True slot_Suc_head [OF "1.prems" ne, where c = "count l - 1" and b = "base l + 1"]
      by (intro nth_equalityI) (auto simp: nth_Cons ring_def split: nat.split)
    moreover have "compact l = compact ?l" using True by (subst compact.simps) simp
    ultimately show ?thesis using "1.IH" [OF True ok] True by simp
  qed
qed

section \<open>Lookup\<close>

text \<open>The store as the sparse part and the ring, seen through its ids.\<close>

definition ring_find :: "nat \<Rightarrow> entry list \<Rightarrow> nat \<Rightarrow> entry option" where
  "ring_find b es rid =
     (if b \<le> rid \<and> rid - b < length es \<and> ent_live (es ! (rid - b)) then Some (es ! (rid - b)) else None)"

lemma find_entry_eq:
  "find_entry l rid = (if rid < base l then map_of (sparse l) rid else ring_find (base l) (ring l) rid)"
  by (auto simp: find_entry_def ring_find_def Let_def)

lemma contains_iff: "contains l rid \<longleftrightarrow> find_entry l rid \<noteq> None"
  by (auto simp: contains_def find_entry_def Let_def)

definition ledger_inv :: "ledger \<Rightarrow> bool" where
  "ledger_inv l \<longleftrightarrow> ring_ok l \<and> base l + count l = next_id l + 1 \<and> distinct (map fst (sparse l))
     \<and> (\<forall>(k, e)\<in>set (sparse l). k < base l \<and> ent_live e)"

lemma update_totals_fields [simp]:
  "slots (update_totals e f l) = slots l" "sparse (update_totals e f l) = sparse l"
  "head (update_totals e f l) = head l" "count (update_totals e f l) = count l"
  "base (update_totals e f l) = base l" "next_id (update_totals e f l) = next_id l"
  "epoch (update_totals e f l) = epoch l"
  by (simp_all add: update_totals_def Let_def split: option.split)

lemma ledger_views_cong:
  assumes "slots l' = slots l" and "sparse l' = sparse l" and "head l' = head l" and "count l' = count l"
    and "base l' = base l" and "next_id l' = next_id l"
  shows "ring l' = ring l" "ring_ok l' = ring_ok l" "slot l' = slot l"
    "ledger_inv l' = ledger_inv l" "find_entry l' = find_entry l"
proof -
  show r: "ring l' = ring l" using assms by (intro ring_cong)
  show o: "ring_ok l' = ring_ok l" using assms by (simp add: ring_ok_def)
  show "slot l' = slot l" using assms by (simp add: slot_def slot_index_def fun_eq_iff)
  show "ledger_inv l' = ledger_inv l" using assms o by (simp add: ledger_inv_def)
  show "find_entry l' = find_entry l" using assms r by (simp add: find_entry_eq fun_eq_iff)
qed

lemma update_totals_views [simp]:
  "ring (update_totals e f l) = ring l" "ring_ok (update_totals e f l) = ring_ok l"
  "slot (update_totals e f l) = slot l"
  "ledger_inv (update_totals e f l) = ledger_inv l" "find_entry (update_totals e f l) = find_entry l"
  by (rule ledger_views_cong; simp)+

lemma terminate_entry_fields [simp]:
  "slots (terminate_entry c e l) = slots l" "sparse (terminate_entry c e l) = sparse l"
  "head (terminate_entry c e l) = head l" "count (terminate_entry c e l) = count l"
  "base (terminate_entry c e l) = base l" "next_id (terminate_entry c e l) = next_id l"
  "epoch (terminate_entry c e l) = epoch l" "ring (terminate_entry c e l) = ring l"
  "ring_ok (terminate_entry c e l) = ring_ok l" "slot (terminate_entry c e l) = slot l"
  "ledger_inv (terminate_entry c e l) = ledger_inv l" "find_entry (terminate_entry c e l) = find_entry l"
  by (simp_all add: terminate_entry_def)

lemma ring_find_dropWhile:
  assumes "b + length es = b' + length (dropWhile (\<lambda>e. \<not> ent_live e) es)"
  shows "ring_find b' (dropWhile (\<lambda>e. \<not> ent_live e) es) rid = ring_find b es rid"
proof -
  let ?d = "dropWhile (\<lambda>e. \<not> ent_live e) es" and ?t = "takeWhile (\<lambda>e. \<not> ent_live e) es"
  have es: "es = ?t @ ?d" by simp
  then have len: "length es = length ?t + length ?d" by (metis length_append)
  then have b': "b' = b + length ?t" using assms by simp
  have dead: "\<not> ent_live (es ! i)" if "i < length ?t" for i
    using that by (metis nth_mem set_takeWhileD takeWhile_nth)
  have "?d ! k = es ! (length ?t + k)" for k
    using len by (subst dropWhile_eq_drop) (simp add: nth_drop)
  then have "es ! (rid - b) = ?d ! (rid - b')" if "b' \<le> rid"
    using that b' by simp
  with dead len b' show ?thesis
    by (cases "b' \<le> rid") (auto simp: ring_find_def)
qed

lemma compact_find:
  assumes "ledger_inv l"
  shows "ledger_inv (compact l)" "find_entry (compact l) = find_entry l"
proof -
  note c = compact_spec [of l]
  have ok: "ring_ok l" using assms by (simp add: ledger_inv_def)
  show "ledger_inv (compact l)" using assms c [OF ok] by (fastforce simp: ledger_inv_def)
  have none: "map_of (sparse l) rid = None" if "base l \<le> rid" for rid
    using assms that by (auto simp: ledger_inv_def map_of_eq_None_iff)
  have len: "base l + length (ring l) = base (compact l) + length (dropWhile (\<lambda>e. \<not> ent_live e) (ring l))"
    using c [OF ok] by (metis length_ring)
  have "ring_find (base (compact l)) (ring (compact l)) rid = ring_find (base l) (ring l) rid" for rid
    using ring_find_dropWhile [OF len] c [OF ok] by simp
  moreover have "ring_find (base (compact l)) (ring (compact l)) rid = None" if "rid < base (compact l)" for rid
    using that by (simp add: ring_find_def)
  ultimately have "find_entry (compact l) rid = find_entry l rid" for rid
    using c [OF ok] none [of rid] unfolding find_entry_eq
    by (metis (no_types, lifting) linorder_not_less order_less_le_trans)
  then show "find_entry (compact l) = find_entry l" ..
qed

lemma find_entry_live: "ledger_inv l \<Longrightarrow> find_entry l rid = Some e \<Longrightarrow> ent_live e"
  by (auto simp: find_entry_eq ring_find_def ledger_inv_def dest!: map_of_SomeD split: if_splits)

lemma find_entry_bound: "ledger_inv l \<Longrightarrow> find_entry l rid = Some e \<Longrightarrow> rid \<le> next_id l"
  by (auto simp: find_entry_eq ring_find_def ledger_inv_def dest!: map_of_SomeD split: if_splits)

lemma map_of_filter_key: "map_of (filter (\<lambda>(k, _). k \<noteq> a) xs) = (map_of xs)(a := None)"
  by (induction xs) auto

lemma map_of_map_key:
  "map_of (map (\<lambda>(k, v). (k, if k = a then e else v)) xs) b =
     (if b = a then map_option (\<lambda>_. e) (map_of xs a) else map_of xs b)"
  by (induction xs) auto

lemma erase_entry_find:
  assumes inv: "ledger_inv l" and f: "find_entry l rid = Some e"
  shows "ledger_inv (erase_entry rid e l)" "find_entry (erase_entry rid e l) = (find_entry l)(rid := None)"
proof -
  show "ledger_inv (erase_entry rid e l)"
  proof (cases "rid < base l")
    case True
    with inv show ?thesis
      by (auto simp: erase_entry_def ledger_inv_def ring_ok_def distinct_map inj_on_def)
  next
    case False
    with inv show ?thesis
      by (auto simp: erase_entry_def intro!: compact_find(1)) (auto simp: ledger_inv_def)
  qed
  show "find_entry (erase_entry rid e l) = (find_entry l)(rid := None)"
  proof (cases "rid < base l")
    case True
    have "ring (l\<lparr>sparse := xs\<rparr>) = ring l" for xs by (rule ring_cong) simp_all
    with True show ?thesis
      by (auto simp: erase_entry_def find_entry_eq map_of_filter_key fun_eq_iff)
  next
    case False
    let ?e = "e\<lparr>ent_live := False, ent_group := None\<rparr>" and ?i = "rid - base l"
    have i: "?i < count l" using f False by (auto simp: find_entry_def split: if_splits)
    have inv': "ledger_inv (set_slot ?i ?e l)" using inv by (simp add: ledger_inv_def)
    have "ring (set_slot ?i ?e l) = (ring l)[?i := ?e]"
      using inv i by (intro ring_set_slot) (auto simp: ledger_inv_def)
    then have "find_entry (set_slot ?i ?e l) = (find_entry l)(rid := None)"
      using False i by (auto simp: find_entry_eq fun_eq_iff ring_find_def nth_list_update)
    with False compact_find(2) [OF inv'] show ?thesis by (simp add: erase_entry_def)
  qed
qed

lemma store_entry_find:
  assumes inv: "ledger_inv l" and f: "find_entry l rid = Some e0" and live: "ent_live e"
  shows "ledger_inv (store_entry rid e l)" "find_entry (store_entry rid e l) = (find_entry l)(rid \<mapsto> e)"
proof -
  have k: "map fst (map (\<lambda>(k, v). (k, if k = rid then e else v)) xs) = map fst xs" for xs
    by (induction xs) auto
  show "ledger_inv (store_entry rid e l)"
    using inv live by (auto simp: store_entry_def ledger_inv_def ring_ok_def k simp del: map_map)
  show "find_entry (store_entry rid e l) = (find_entry l)(rid \<mapsto> e)"
  proof (cases "rid < base l")
    case True
    have "ring (l\<lparr>sparse := xs\<rparr>) = ring l" for xs by (rule ring_cong) simp_all
    with True f show ?thesis
      by (auto simp: store_entry_def find_entry_eq map_of_map_key fun_eq_iff)
  next
    case False
    let ?i = "rid - base l"
    have i: "?i < count l" using f False by (auto simp: find_entry_def split: if_splits)
    have "ring (set_slot ?i e l) = (ring l)[?i := e]"
      using inv i by (intro ring_set_slot) (auto simp: ledger_inv_def)
    with False i live show ?thesis
      by (auto simp: store_entry_def find_entry_eq fun_eq_iff ring_find_def nth_list_update)
  qed
qed

section \<open>Growth and promotion\<close>

text \<open>The requests in the store, with their multiplicity.\<close>

definition live_mset :: "ledger \<Rightarrow> entry multiset" where
  "live_mset l = mset (map snd (sparse l)) + filter_mset ent_live (mset (ring l))"

lemma live_ring:
  "filter_mset ent_live (mset (ring l)) = mset (map (slot l) (filter (\<lambda>i. ent_live (slot l i)) [0..<count l]))"
proof -
  have "filter ent_live (ring l) = map (slot l) (filter (\<lambda>i. ent_live (slot l i)) [0..<count l])"
    by (simp add: ring_def filter_map comp_def)
  then show ?thesis by (metis mset_filter)
qed

lemma live_count_mset: "live_count l = size (filter_mset ent_live (mset (ring l)))"
  unfolding live_ring by (simp add: live_count_def del: mset_map mset_filter)

lemma fold_set_slot_fields:
  "count (fold (\<lambda>i. set_slot i e) is l) = count l \<and> base (fold (\<lambda>i. set_slot i e) is l) = base l
   \<and> head (fold (\<lambda>i. set_slot i e) is l) = head l \<and> sparse (fold (\<lambda>i. set_slot i e) is l) = sparse l
   \<and> next_id (fold (\<lambda>i. set_slot i e) is l) = next_id l \<and> epoch (fold (\<lambda>i. set_slot i e) is l) = epoch l
   \<and> totals (fold (\<lambda>i. set_slot i e) is l) = totals l \<and> groups (fold (\<lambda>i. set_slot i e) is l) = groups l
   \<and> length (slots (fold (\<lambda>i. set_slot i e) is l)) = length (slots l)"
  by (induction "is" arbitrary: l) simp_all

lemma map_of_indexed:
  "map_of (map (\<lambda>i. (b + i, f i)) is) (rid :: nat) = (if b \<le> rid \<and> rid - b \<in> set is then Some (f (rid - b)) else None)"
  by (induction "is") auto

lemma make_room_spec:
  assumes inv: "ledger_inv l" and full: "count l = length (slots l)"
  shows "ledger_inv (make_room l) \<and> find_entry (make_room l) = find_entry l
    \<and> count (make_room l) < length (slots (make_room l)) \<and> next_id (make_room l) = next_id l
    \<and> epoch (make_room l) = epoch l \<and> totals (make_room l) = totals l \<and> groups (make_room l) = groups l
    \<and> live_mset (make_room l) = live_mset l
    \<and> length (slots (make_room l)) \<le> max (length (slots l)) (max 16 (4 * live_count l))"
proof -
  have ok: "ring_ok l" and bc: "base l + count l = next_id l + 1" using inv by (auto simp: ledger_inv_def)
  have none: "map_of (sparse l) rid = None" if "base l \<le> rid" for rid
    using inv that by (auto simp: ledger_inv_def map_of_eq_None_iff)
  show ?thesis
  proof (cases "slots l \<noteq> [] \<and> live_count l \<le> count l div 2")
    case True
    let ?live = "filter (\<lambda>i. ent_live (slot l i)) [0..<count l]"
    let ?st = "sparse l @ map (\<lambda>i. (base l + i, slot l i)) ?live"
    define l' where "l' = (fold (\<lambda>i. set_slot i no_entry) [0..<count l] l)
      \<lparr>sparse := ?st, head := 0, count := 0, base := next_id l + 1\<rparr>"
    have mk: "make_room l = l'" using True by (simp add: make_room_def l'_def Let_def)
    have f: "sparse l' = ?st" "head l' = 0" "count l' = 0" "base l' = next_id l + 1" "next_id l' = next_id l"
      "epoch l' = epoch l" "totals l' = totals l" "groups l' = groups l" "length (slots l') = length (slots l)"
      using fold_set_slot_fields [of no_entry "[0..<count l]" l] by (simp_all add: l'_def)
    have "distinct (map fst ?st)"
      using inv by (auto simp: ledger_inv_def distinct_map inj_on_def comp_def)
    then have "ledger_inv l'"
      using inv ok bc f True by (auto simp: ledger_inv_def ring_ok_def)
    moreover have "find_entry l' rid = find_entry l rid" for rid
      using none [of rid] bc
      by (auto simp: find_entry_eq ring_find_def f map_add_def map_of_indexed split: option.split)
    moreover have "live_mset l' = live_mset l"
      using f by (simp add: live_mset_def live_ring comp_def del: mset_filter)
    ultimately show ?thesis using mk f True by auto
  next
    case False
    let ?n = "if slots l = [] then 16 else length (slots l) * 2"
    define l' where "l' = l\<lparr>slots := map (\<lambda>i. if i < count l then slot l i else no_entry) [0..<?n], head := 0\<rparr>"
    have mk: "make_room l = l'" using False by (auto simp: make_room_def l'_def Let_def)
    have len: "length (slots l') = ?n" by (simp add: l'_def)
    have n: "\<exists>k. ?n = 2 ^ k" "count l < ?n"
    proof -
      have "(16 :: nat) = 2 ^ 4" by simp
      moreover have "(2 :: nat) ^ k * 2 = 2 ^ Suc k" for k by simp
      ultimately show "\<exists>k. ?n = 2 ^ k" using ok unfolding ring_ok_def by metis
      show "count l < ?n" using full by auto
    qed
    then have ok': "ring_ok l'" using len by (auto simp: ring_ok_def l'_def)
    have "slot l' i = slot l i" if "i < count l" for i
    proof -
      have ne: "slots l' \<noteq> []" using len by (cases "slots l = []") auto
      have "slot_index l' i = i"
        using slot_index_mod [OF ok' ne, of i] len that n(2) by (simp add: l'_def)
      then have "slot l' i = slots l' ! i" by (simp add: slot_def)
      also have "\<dots> = slot l i"
        using that n(2) less_trans [OF that n(2)] unfolding l'_def by (simp del: upt.simps)
      finally show ?thesis .
    qed
    moreover have "count l' = count l" by (simp add: l'_def)
    ultimately have ring: "ring l' = ring l" by (simp add: ring_def)
    have f: "base l' = base l" "sparse l' = sparse l" "count l' = count l" "next_id l' = next_id l"
      "epoch l' = epoch l" "totals l' = totals l" "groups l' = groups l"
      by (simp_all add: l'_def)
    have "?n \<le> max (length (slots l)) (max 16 (4 * live_count l))"
      using False full by (cases "slots l = []") auto
    moreover have "find_entry l' = find_entry l" using ring f by (simp add: find_entry_eq fun_eq_iff)
    ultimately show ?thesis using mk inv ok' n(2) len f ring by (simp add: ledger_inv_def live_mset_def)
  qed
qed

lemma ring_snoc:
  assumes "ring_ok l" and "count l < length (slots l)"
  shows "ring ((set_slot (count l) e l)\<lparr>count := count l + 1, next_id := n\<rparr>) = ring l @ [e]"
proof -
  let ?l = "(set_slot (count l) e l)\<lparr>count := count l + 1, next_id := n\<rparr>"
  have "slot ?l i = slot (set_slot (count l) e l) i" for i by (simp add: slot_def slot_index_def)
  then have "slot ?l i = (if count l = i then e else slot l i)" if "i < count l + 1" for i
    using slot_set_slot [OF assms(1), of "count l" i e] that assms(2) by simp
  then show ?thesis by (simp add: ring_def)
qed

definition admitted_entry :: "nat \<Rightarrow> nat option \<Rightarrow> nat \<Rightarrow> entry" where
  "admitted_entry bytes grp ep =
     \<lparr>ent_bytes = bytes, ent_epoch = ep, ent_active = False, ent_live = True, ent_group = grp\<rparr>"

text \<open>The ledger just before the totals are updated.\<close>

definition refresh_group :: "nat option \<Rightarrow> ledger \<Rightarrow> ledger" where
  "refresh_group grp l =
     (case grp of
        None \<Rightarrow> l
      | Some g \<Rightarrow>
          if grp_epoch (groups l g) \<noteq> epoch l
          then l\<lparr>groups := (groups l)(g := \<lparr>grp_totals = no_accounting, grp_epoch = epoch l\<rparr>)\<rparr>
          else l)"

lemma refresh_group_fields [simp]:
  "slots (refresh_group g l) = slots l" "sparse (refresh_group g l) = sparse l"
  "head (refresh_group g l) = head l" "count (refresh_group g l) = count l" "base (refresh_group g l) = base l"
  "next_id (refresh_group g l) = next_id l" "epoch (refresh_group g l) = epoch l"
  "totals (refresh_group g l) = totals l"
  by (simp_all add: refresh_group_def split: option.split)

lemma refresh_group_views [simp]:
  "ring (refresh_group g l) = ring l" "ledger_inv (refresh_group g l) = ledger_inv l"
  "find_entry (refresh_group g l) = find_entry l"
  by (rule ledger_views_cong; simp)+

definition stored :: "nat \<Rightarrow> nat option \<Rightarrow> ledger \<Rightarrow> ledger" where
  "stored bytes grp l =
     (let l1 = refresh_group grp l; l2 = (if count l1 = length (slots l1) then make_room l1 else l1)
      in (set_slot (count l2) (admitted_entry bytes grp (epoch l)) l2)
           \<lparr>count := count l2 + 1, next_id := next_id l + 1\<rparr>)"

lemma room_spec:
  assumes "ledger_inv l"
  defines "l2 \<equiv> (if count l = length (slots l) then make_room l else l)"
  shows "ledger_inv l2 \<and> find_entry l2 = find_entry l \<and> count l2 < length (slots l2)
    \<and> next_id l2 = next_id l \<and> epoch l2 = epoch l \<and> totals l2 = totals l \<and> groups l2 = groups l
    \<and> live_mset l2 = live_mset l
    \<and> length (slots l2) \<le> max (length (slots l)) (max 16 (4 * live_count l))"
  using make_room_spec [OF assms(1)] assms(1)
  by (auto simp: l2_def ledger_inv_def ring_ok_def)

lemma admit_eq:
  assumes "ledger_inv l"
  shows "admit bytes grp l = (next_id l + 1, update_totals (admitted_entry bytes grp (epoch l))
    (\<lambda>t. t\<lparr>accepted := add_request bytes (accepted t), outstanding := add_request bytes (outstanding t)\<rparr>)
    (stored bytes grp l))"
proof -
  have "epoch (if count (refresh_group grp l) = length (slots (refresh_group grp l))
      then make_room (refresh_group grp l) else refresh_group grp l) = epoch l"
    using room_spec [of "refresh_group grp l"] assms by simp
  then show ?thesis
    by (simp add: admit_def stored_def Let_def admitted_entry_def flip: refresh_group_def)
qed

lemma stored_spec:
  assumes inv: "ledger_inv l"
  shows "ledger_inv (stored bytes grp l)"
    "find_entry (stored bytes grp l) = (find_entry l)(next_id l + 1 \<mapsto> admitted_entry bytes grp (epoch l))"
    "live_mset (stored bytes grp l) = add_mset (admitted_entry bytes grp (epoch l)) (live_mset l)"
    "epoch (stored bytes grp l) = epoch l" "totals (stored bytes grp l) = totals l"
    "groups (stored bytes grp l) = groups (refresh_group grp l)"
    "next_id (stored bytes grp l) = next_id l + 1"
    "length (slots (stored bytes grp l)) \<le> max (length (slots l)) (max 16 (4 * live_count l))"
proof -
  let ?l1 = "refresh_group grp l"
  define l2 where "l2 = (if count ?l1 = length (slots ?l1) then make_room ?l1 else ?l1)"
  define l3 where "l3 = (set_slot (count l2) (admitted_entry bytes grp (epoch l)) l2)
    \<lparr>count := count l2 + 1, next_id := next_id l + 1\<rparr>"
  have s: "stored bytes grp l = l3" by (simp add: stored_def l2_def l3_def Let_def)
  have r: "ledger_inv l2" "find_entry l2 = find_entry l" "count l2 < length (slots l2)" "next_id l2 = next_id l"
    using room_spec [of ?l1] inv by (auto simp: l2_def)
  have ring: "ring l3 = ring l2 @ [admitted_entry bytes grp (epoch l)]"
    unfolding l3_def using r by (intro ring_snoc) (auto simp: ledger_inv_def)
  show inv3: "ledger_inv (stored bytes grp l)"
    unfolding s using r by (auto simp: ledger_inv_def l3_def ring_ok_def set_slot_def)
  have bc: "base l2 + count l2 = next_id l + 1" using r by (simp add: ledger_inv_def)
  have "find_entry l3 rid = ((find_entry l2)(next_id l + 1 \<mapsto> admitted_entry bytes grp (epoch l))) rid" for rid
    using bc ring
    by (auto simp: find_entry_eq ring_find_def nth_append l3_def admitted_entry_def split: if_splits)
  then show "find_entry (stored bytes grp l) =
      (find_entry l)(next_id l + 1 \<mapsto> admitted_entry bytes grp (epoch l))"
    unfolding s by (simp add: fun_eq_iff r)
  have r': "epoch l2 = epoch l" "totals l2 = totals l" "groups l2 = groups ?l1" "live_mset l2 = live_mset l"
    "length (slots l2) \<le> max (length (slots l)) (max 16 (4 * live_count l))"
    using room_spec [of ?l1] inv by (auto simp: l2_def live_mset_def live_count_mset)
  then show "live_mset (stored bytes grp l) = add_mset (admitted_entry bytes grp (epoch l)) (live_mset l)"
    "epoch (stored bytes grp l) = epoch l" "totals (stored bytes grp l) = totals l"
    "groups (stored bytes grp l) = groups (refresh_group grp l)"
    "next_id (stored bytes grp l) = next_id l + 1"
    "length (slots (stored bytes grp l)) \<le> max (length (slots l)) (max 16 (4 * live_count l))"
    unfolding s live_mset_def [of l3] ring
    by (simp_all add: live_mset_def [of l2, symmetric] l3_def admitted_entry_def live_mset_def)
qed

section \<open>Termination of many requests\<close>

lemma fold_terminate_fields:
  "slots (fold (\<lambda>(k, e). terminate_entry c e) es l) = slots l
   \<and> sparse (fold (\<lambda>(k, e). terminate_entry c e) es l) = sparse l
   \<and> head (fold (\<lambda>(k, e). terminate_entry c e) es l) = head l
   \<and> count (fold (\<lambda>(k, e). terminate_entry c e) es l) = count l
   \<and> base (fold (\<lambda>(k, e). terminate_entry c e) es l) = base l
   \<and> next_id (fold (\<lambda>(k, e). terminate_entry c e) es l) = next_id l
   \<and> epoch (fold (\<lambda>(k, e). terminate_entry c e) es l) = epoch l"
  by (induction es arbitrary: l) auto

text \<open>The pass over the ring of \<open>end\<close> and of \<open>discard_waiting\<close>: entries satisfying \<open>P\<close> are terminated
  and every entry is replaced by \<open>upd\<close> of it.\<close>

definition sweep_step :: "cause \<Rightarrow> (entry \<Rightarrow> bool) \<Rightarrow> (entry \<Rightarrow> entry) \<Rightarrow> nat \<Rightarrow> ledger \<Rightarrow> ledger" where
  "sweep_step c P upd i l =
     set_slot i (upd (slot l i)) (if P (slot l i) then terminate_entry c (slot l i) l else l)"

lemma sweep_step_fields [simp]:
  "sparse (sweep_step c P upd i l) = sparse l" "head (sweep_step c P upd i l) = head l"
  "count (sweep_step c P upd i l) = count l" "base (sweep_step c P upd i l) = base l"
  "next_id (sweep_step c P upd i l) = next_id l" "epoch (sweep_step c P upd i l) = epoch l"
  "length (slots (sweep_step c P upd i l)) = length (slots l)"
  "ring_ok (sweep_step c P upd i l) = ring_ok l"
  by (simp_all add: sweep_step_def)

lemma sweep_spec:
  fixes c P upd
  assumes "ring_ok l" and "n \<le> count l"
  defines "sweep \<equiv> fold (sweep_step c P upd)"
  shows "ring (sweep [0..<n] l) = map upd (take n (ring l)) @ drop n (ring l)
    \<and> ring_ok (sweep [0..<n] l) \<and> sparse (sweep [0..<n] l) = sparse l \<and> head (sweep [0..<n] l) = head l
    \<and> count (sweep [0..<n] l) = count l \<and> base (sweep [0..<n] l) = base l
    \<and> next_id (sweep [0..<n] l) = next_id l \<and> epoch (sweep [0..<n] l) = epoch l
    \<and> length (slots (sweep [0..<n] l)) = length (slots l)"
  using assms(2)
proof (induction n)
  case 0
  then show ?case using assms(1) by (simp add: sweep_def)
next
  case (Suc n)
  let ?l = "sweep [0..<n] l"
  have IH: "ring ?l = map upd (take n (ring l)) @ drop n (ring l)" "ring_ok ?l" "count ?l = count l"
    using Suc by auto
  have e: "slot ?l n = ring l ! n"
    using IH Suc.prems ring_nth [of n ?l] by (simp add: nth_append)
  have "ring (sweep_step c P upd n ?l) = (ring ?l)[n := upd (ring l ! n)]"
    unfolding sweep_step_def e using IH(2,3) Suc.prems by (subst ring_set_slot) (auto split: if_splits)
  also have "\<dots> = map upd (take (Suc n) (ring l)) @ drop (Suc n) (ring l)"
    using Suc.prems IH(1)
    by (simp add: list_update_append take_Suc_conv_app_nth Cons_nth_drop_Suc [symmetric] del: ring_nth)
  finally show ?case using Suc by (simp add: sweep_def)
qed

lemma end_ledger_eq:
  "end_ledger c l =
     (let l2 = (fold (\<lambda>(k, e). terminate_entry c e) (sparse l) l)\<lparr>sparse := []\<rparr>;
          l3 = fold (sweep_step c ent_live (\<lambda>_. no_entry)) [0..<count l] l2
      in l3\<lparr>head := 0, count := 0, base := next_id l3 + 1\<rparr>)"
  using fold_terminate_fields [of c "sparse l" l]
  by (simp add: end_ledger_def sweep_step_def [abs_def] Let_def)

lemma set_slot_self: "ring_ok l \<Longrightarrow> slots l \<noteq> [] \<Longrightarrow> set_slot i (slot l i) l = l"
  by (simp add: set_slot_def slot_def)

definition waiting_dead :: "nat \<Rightarrow> entry \<Rightarrow> entry" where
  "waiting_dead g e =
     (if ent_live e \<and> waiting_of g e then e\<lparr>ent_live := False, ent_group := None\<rparr> else e)"

lemma discard_waiting_eq:
  assumes "ring_ok l"
  shows "discard_waiting (Some g) c l =
     (let l1 = fold (\<lambda>(k, e). terminate_entry c e) (filter (\<lambda>(k, e). waiting_of g e) (sparse l)) l;
          l2 = l1\<lparr>sparse := filter (\<lambda>(k, e). \<not> waiting_of g e) (sparse l)\<rparr>
      in compact (fold (sweep_step c (\<lambda>e. ent_live e \<and> waiting_of g e) (waiting_dead g)) [0..<count l] l2))"
proof -
  have f: "fold (\<lambda>(k, e) l. if waiting_of g e then terminate_entry c e l else l) es l' =
      fold (\<lambda>(k, e). terminate_entry c e) (filter (\<lambda>(k, e). waiting_of g e) es) l'" for es l'
    by (induction es arbitrary: l') auto
  have step: "fold (\<lambda>i l. let e = slot l i in
        if ent_live e \<and> waiting_of g e
        then set_slot i (e\<lparr>ent_live := False, ent_group := None\<rparr>) (terminate_entry c e l) else l) is l' =
      fold (sweep_step c (\<lambda>e. ent_live e \<and> waiting_of g e) (waiting_dead g)) is l'"
    if "ring_ok l'" "is = [] \<or> slots l' \<noteq> []" for "is" l'
    using that
  proof (induction "is" arbitrary: l')
    case (Cons i "is")
    let ?s = "sweep_step c (\<lambda>e. ent_live e \<and> waiting_of g e) (waiting_dead g) i l'"
    have "(let e = slot l' i in if ent_live e \<and> waiting_of g e
        then set_slot i (e\<lparr>ent_live := False, ent_group := None\<rparr>) (terminate_entry c e l') else l') = ?s"
      using Cons.prems by (simp add: sweep_step_def waiting_dead_def Let_def set_slot_self)
    moreover have "ring_ok ?s" "slots ?s \<noteq> []" using Cons.prems by (auto simp flip: length_greater_0_conv)
    ultimately show ?case using Cons.IH [of ?s] by simp
  qed simp
  let ?l1 = "fold (\<lambda>(k, e). terminate_entry c e) (filter (\<lambda>(k, e). waiting_of g e) (sparse l)) l"
  let ?l2 = "?l1\<lparr>sparse := filter (\<lambda>(k, e). \<not> waiting_of g e) (sparse l)\<rparr>"
  note fields = fold_terminate_fields [of c "filter (\<lambda>(k, e). waiting_of g e) (sparse l)" l]
  have "ring_ok ?l2" "[0..<count l] = [] \<or> slots ?l2 \<noteq> []"
    using assms fields by (auto simp: ring_ok_def)
  from step [OF this, unfolded Let_def] fields show ?thesis by (simp add: discard_waiting_def f Let_def)
qed

lemma end_ledger_find:
  assumes "ledger_inv l"
  shows "ledger_inv (end_ledger c l)" "find_entry (end_ledger c l) = Map.empty"
proof -
  let ?l2 = "(fold (\<lambda>(k, e). terminate_entry c e) (sparse l) l)\<lparr>sparse := []\<rparr>"
  have f: "ring_ok ?l2" "count ?l2 = count l" "sparse ?l2 = []"
    using fold_terminate_fields [of c "sparse l" l] assms by (auto simp: ledger_inv_def ring_ok_def)
  note sw = sweep_spec [OF f(1), of "count l" c ent_live "\<lambda>_. no_entry"]
  show "ledger_inv (end_ledger c l)" "find_entry (end_ledger c l) = Map.empty"
    using sw f
    by (auto simp: end_ledger_eq Let_def ledger_inv_def ring_ok_def find_entry_eq ring_find_def fun_eq_iff)
qed

lemma discard_waiting_find:
  assumes inv: "ledger_inv l"
  shows "ledger_inv (discard_waiting (Some g) c l)"
    "find_entry (discard_waiting (Some g) c l) rid =
       (case find_entry l rid of Some e \<Rightarrow> if waiting_of g e then None else Some e | None \<Rightarrow> None)"
proof -
  let ?l1 = "fold (\<lambda>(k, e). terminate_entry c e) (filter (\<lambda>(k, e). waiting_of g e) (sparse l)) l"
  let ?l2 = "?l1\<lparr>sparse := filter (\<lambda>(k, e). \<not> waiting_of g e) (sparse l)\<rparr>"
  define l3 where "l3 = fold (sweep_step c (\<lambda>e. ent_live e \<and> waiting_of g e) (waiting_dead g)) [0..<count l] ?l2"
  note fields = fold_terminate_fields [of c "filter (\<lambda>(k, e). waiting_of g e) (sparse l)" l]
  have ok: "ring_ok l" using inv by (simp add: ledger_inv_def)
  have ok2: "ring_ok ?l2" "count l \<le> count ?l2" using ok fields by (auto simp: ring_ok_def)
  have r2: "ring ?l2 = ring l" using fields by (intro ring_cong) auto
  note sw = sweep_spec [OF ok2, of c "\<lambda>e. ent_live e \<and> waiting_of g e" "waiting_dead g", folded l3_def]
  have l3: "ring l3 = map (waiting_dead g) (ring l)" "ring_ok l3" "base l3 = base l" "count l3 = count l"
    "next_id l3 = next_id l" "sparse l3 = filter (\<lambda>(k, e). \<not> waiting_of g e) (sparse l)"
    using sw r2 fields by auto
  have inv3: "ledger_inv l3"
    using inv l3 by (auto simp: ledger_inv_def distinct_map_filter split_def)
  have d: "discard_waiting (Some g) c l = compact l3"
    by (simp add: discard_waiting_eq [OF ok] Let_def l3_def)
  show "ledger_inv (discard_waiting (Some g) c l)" unfolding d using inv3 by (rule compact_find)
  have m: "distinct (map fst xs) \<Longrightarrow> map_of (filter (\<lambda>(k, e). \<not> waiting_of g e) xs) rid =
      (case map_of xs rid of Some e \<Rightarrow> if waiting_of g e then None else Some e | None \<Rightarrow> None)"
    for xs :: "(nat \<times> entry) list"
    by (induction xs) (auto split: option.splits dest: map_of_SomeD simp: rev_image_eqI image_iff map_of_eq_None_iff)
  show "find_entry (discard_waiting (Some g) c l) rid =
       (case find_entry l rid of Some e \<Rightarrow> if waiting_of g e then None else Some e | None \<Rightarrow> None)"
    unfolding d compact_find(2) [OF inv3]
    using m [of "sparse l"] inv l3
    by (auto simp: find_entry_eq ring_find_def ledger_inv_def waiting_dead_def waiting_of_def split: if_splits)
qed

section \<open>Bookkeeping\<close>

text \<open>Every accepted request of the epoch is in exactly one column.\<close>

definition lost :: "loss_totals \<Rightarrow> request_totals" where
  "lost l = add_totals (discarded_before_write l) (aborted_during_write l)"

definition accounted :: "send_accounting \<Rightarrow> request_totals" where
  "accounted t =
     add_totals (add_totals (written t) (outstanding t))
       (add_totals (add_totals (lost (explicit_stop t)) (lost (connection_loss t)))
                   (add_totals (lost (queue_pressure t)) (lost (session_expiry t))))"

definition balanced :: "send_accounting \<Rightarrow> bool" where
  "balanced t \<longleftrightarrow> accepted t = accounted t"

definition totals_of :: "nat \<Rightarrow> entry multiset \<Rightarrow> request_totals" where
  "totals_of ep M =
     (let cur = filter_mset (\<lambda>e. ent_epoch e = ep) M
      in \<lparr>requests = of_nat (size cur), req_bytes = of_nat (sum_mset (image_mset ent_bytes cur))\<rparr>)"

definition books :: "entry multiset \<Rightarrow> ledger \<Rightarrow> bool" where
  "books M l \<longleftrightarrow> balanced (totals l) \<and> outstanding (totals l) = totals_of (epoch l) M
     \<and> (\<forall>g. balanced (grp_totals (groups l g))) \<and> (\<forall>e\<in>#M. ent_epoch e \<le> epoch l)"

lemmas totals_simps = balanced_def accounted_def lost_def add_totals_def add_request_def remove_request_def
  remove_outstanding_def add_loss_def

lemma balanced_no_accounting [simp]: "balanced no_accounting"
  by (simp add: totals_simps no_accounting_def no_requests_def no_loss_def)

lemma outstanding_no_accounting [simp]: "outstanding no_accounting = no_requests"
  by (simp add: no_accounting_def)

lemma balanced_lose:
  "balanced t \<Longrightarrow> balanced (remove_outstanding b (lose c (add_loss a b) t))"
  by (cases c) (auto simp: totals_simps lose_def)

lemma outstanding_lose [simp]:
  "outstanding (remove_outstanding b (lose c f t)) = remove_request b (outstanding t)"
  by (cases c) (auto simp: remove_outstanding_def lose_def)

lemma balanced_complete: "balanced t \<Longrightarrow> balanced (complete_totals b n t)"
  by (auto simp: totals_simps complete_totals_def Let_def)

lemma outstanding_complete [simp]:
  "outstanding (complete_totals b n t) = remove_request b (outstanding t)"
  by (auto simp: complete_totals_def remove_outstanding_def Let_def)

lemma totals_of_remove:
  "totals_of ep M =
     (if ent_epoch e = ep then remove_request (ent_bytes e) (totals_of ep (add_mset e M))
      else totals_of ep (add_mset e M))"
  by (simp add: totals_of_def remove_request_def Let_def)

lemma update_totals_books:
  assumes "\<And>t. balanced t \<Longrightarrow> balanced (f t)"
    and "balanced (totals l)" and "\<forall>g. balanced (grp_totals (groups l g))"
  shows "balanced (totals (update_totals e f l)) \<and> (\<forall>g. balanced (grp_totals (groups (update_totals e f l) g)))"
  using assms by (auto simp: update_totals_def Let_def split: option.split)

lemma update_totals_outstanding:
  "outstanding (totals (update_totals e f l)) =
     (if ent_epoch e = epoch l then outstanding (f (totals l)) else outstanding (totals l))"
  by (auto simp: update_totals_def Let_def split: option.split)

lemma retire_books:
  assumes "books (add_mset e M) l" and "\<And>t. balanced t \<Longrightarrow> balanced (f t)"
    and "\<And>t. outstanding (f t) = remove_request (ent_bytes e) (outstanding t)"
  shows "books M (update_totals e f l)"
  using assms update_totals_books [of f l e] totals_of_remove [of "epoch l" M e]
  by (auto simp: books_def update_totals_outstanding)

lemma terminate_books: "books (add_mset e M) l \<Longrightarrow> books M (terminate_entry c e l)"
  unfolding terminate_entry_def by (rule retire_books) (auto intro: balanced_lose)

lemma books_cong:
  "totals l' = totals l \<Longrightarrow> epoch l' = epoch l \<Longrightarrow> groups l' = groups l \<Longrightarrow> books M l' = books M l"
  by (simp add: books_def)

lemma fold_terminate_books:
  "books (mset (map snd es) + M) l \<Longrightarrow> books M (fold (\<lambda>(k, e). terminate_entry c e) es l)"
  by (induction es arbitrary: l) (auto dest: terminate_books [where c = c])

lemma filter_live_dropWhile [simp]:
  "filter_mset ent_live (mset (dropWhile (\<lambda>e. \<not> ent_live e) es)) = filter_mset ent_live (mset es)"
  by (induction es) auto

lemma compact_live [simp]: "ring_ok l \<Longrightarrow> live_mset (compact l) = live_mset l"
  using compact_spec [of l] by (simp add: live_mset_def)

lemma live_mset_split:
  assumes inv: "ledger_inv l" and f: "find_entry l rid = Some e"
  shows "live_mset l = add_mset e (live_mset (erase_entry rid e l))"
proof (cases "rid < base l")
  case True
  have key: "distinct (map fst xs) \<Longrightarrow> map_of xs rid = Some e \<Longrightarrow>
      mset (map snd xs) = add_mset e (mset (map snd (filter (\<lambda>(k, _). k \<noteq> rid) xs)))"
    for xs :: "(nat \<times> entry) list"
  proof (induction xs)
    case (Cons x xs)
    have "filter (\<lambda>(k, _). k \<noteq> rid) xs = xs" if "rid \<notin> fst ` set xs"
      using that by (force simp: filter_id_conv)
    with Cons show ?case by (auto split: if_splits simp del: mset_filter)
  qed simp
  have "ring (l\<lparr>sparse := xs\<rparr>) = ring l" for xs by (rule ring_cong) simp_all
  with True key [of "sparse l"] inv f show ?thesis
    by (auto simp: live_mset_def erase_entry_def ledger_inv_def find_entry_def)
next
  case False
  let ?i = "rid - base l" and ?e = "e\<lparr>ent_live := False, ent_group := None\<rparr>"
  have i: "?i < count l" "ring l ! ?i = e" "ent_live e"
    using f False by (auto simp: find_entry_def Let_def split: if_splits)
  have ok: "ring_ok (set_slot ?i ?e l)" using inv by (simp add: ledger_inv_def)
  have r: "ring (set_slot ?i ?e l) = (ring l)[?i := ?e]"
    using inv i by (intro ring_set_slot) (auto simp: ledger_inv_def)
  have "filter_mset ent_live (mset (ring l)) = add_mset e (filter_mset ent_live (mset ((ring l)[?i := ?e])))"
    using i mset_update [of ?i "ring l" ?e] nth_mem_mset [of ?i "ring l"]
    by (simp add: filter_diff_mset multiset_filter_mono)
  then show ?thesis
    using False compact_live [OF ok] r by (simp add: live_mset_def erase_entry_def)
qed

lemma erase_entry_fields:
  assumes "ring_ok l"
  shows "totals (erase_entry rid e l) = totals l" "epoch (erase_entry rid e l) = epoch l"
    "groups (erase_entry rid e l) = groups l" "next_id (erase_entry rid e l) = next_id l"
  using compact_spec [of "set_slot (rid - base l) (e\<lparr>ent_live := False, ent_group := None\<rparr>) l"] assms
  by (simp_all add: erase_entry_def)

lemma update_totals_live [simp]: "live_mset (update_totals e f l) = live_mset l"
  by (simp add: live_mset_def)

text \<open>Retiring one request, for \<open>discard\<close>, \<open>complete\<close> and \<open>rollback\<close> alike.\<close>

lemma retire_spec:
  assumes inv: "ledger_inv l" and b: "books (live_mset l) l" and f: "find_entry l rid = Some e"
    and up: "\<And>t. balanced t \<Longrightarrow> balanced (up t)"
      "\<And>t. outstanding (up t) = remove_request (ent_bytes e) (outstanding t)"
  defines "l' \<equiv> erase_entry rid e (update_totals e up l)"
  shows "ledger_inv l' \<and> books (live_mset l') l' \<and> find_entry l' = (find_entry l)(rid := None)
    \<and> next_id l' = next_id l \<and> epoch l' = epoch l"
proof -
  let ?u = "update_totals e up l"
  have u: "ledger_inv ?u" "find_entry ?u rid = Some e" "ring_ok ?u" using inv f by (auto simp: ledger_inv_def)
  have "live_mset l = add_mset e (live_mset l')" using live_mset_split [OF u(1,2)] by (simp add: l'_def)
  then have "books (live_mset l') ?u" using retire_books [of e _ l up] b up by simp
  moreover have "totals l' = totals ?u" "epoch l' = epoch ?u" "groups l' = groups ?u" "next_id l' = next_id ?u"
    using erase_entry_fields [OF u(3)] by (simp_all add: l'_def)
  ultimately show ?thesis
    using erase_entry_find [OF u(1,2)] by (simp add: l'_def books_def)
qed

lemma balanced_rollback:
  "balanced t \<Longrightarrow> balanced (remove_outstanding b (t\<lparr>accepted := remove_request b (accepted t)\<rparr>))"
  by (auto simp: totals_simps)

definition good :: "ledger \<Rightarrow> bool" where
  "good l \<longleftrightarrow> ledger_inv l \<and> books (live_mset l) l"

lemma discard_spec:
  assumes "good l"
  shows "good (discard rid c l) \<and> find_entry (discard rid c l) = (find_entry l)(rid := None)
    \<and> next_id (discard rid c l) = next_id l \<and> epoch (discard rid c l) = epoch l"
proof (cases "find_entry l rid")
  case None
  then show ?thesis using assms by (auto simp: discard_def fun_eq_iff)
next
  case (Some e)
  then show ?thesis
    using assms retire_spec [OF _ _ Some, where
        up = "\<lambda>t. remove_outstanding (ent_bytes e) (lose c (add_loss (ent_active e) (ent_bytes e)) t)"]
    by (simp add: discard_def good_def terminate_entry_def balanced_lose)
qed

lemma rollback_spec:
  assumes "good l"
  shows "good (rollback rid l) \<and> find_entry (rollback rid l) = (find_entry l)(rid := None)
    \<and> next_id (rollback rid l) = next_id l \<and> epoch (rollback rid l) = epoch l"
proof (cases "find_entry l rid")
  case None
  then show ?thesis using assms by (auto simp: rollback_def fun_eq_iff)
next
  case (Some e)
  have "outstanding (remove_outstanding b (t\<lparr>accepted := a\<rparr>)) = remove_request b (outstanding t)" for b t a
    by (simp add: remove_outstanding_def)
  with Some show ?thesis
    using assms retire_spec [OF _ _ Some, where up = "\<lambda>t. remove_outstanding (ent_bytes e)
        (t\<lparr>accepted := remove_request (ent_bytes e) (accepted t)\<rparr>)"]
    by (simp add: rollback_def good_def balanced_rollback)
qed

lemma complete_spec:
  assumes "good l"
  shows "good (complete_locked rid n l) \<and> find_entry (complete_locked rid n l) = (find_entry l)(rid := None)
    \<and> next_id (complete_locked rid n l) = next_id l \<and> epoch (complete_locked rid n l) = epoch l"
proof (cases "find_entry l rid")
  case None
  then show ?thesis using assms by (auto simp: complete_locked_def fun_eq_iff)
next
  case (Some e)
  then show ?thesis
    using assms retire_spec [OF _ _ Some, where up = "complete_totals (ent_bytes e) (min n (ent_bytes e))"]
    by (simp add: complete_locked_def good_def balanced_complete)
qed

lemma complete_batch_spec:
  "good l \<Longrightarrow> good (complete_batch batch n l)
    \<and> find_entry (complete_batch batch n l) = (\<lambda>i. if i \<in> fst ` set batch then None else find_entry l i)
    \<and> next_id (complete_batch batch n l) = next_id l \<and> epoch (complete_batch batch n l) = epoch l"
proof (induction batch n l rule: complete_batch.induct)
  case (1 n l)
  then show ?case by simp
next
  case (2 rid sz batch n l)
  then show ?case using complete_spec [OF "2.prems", of rid "min n sz"] by (auto simp: Let_def fun_eq_iff)
qed

lemma store_entry_live:
  assumes inv: "ledger_inv l" and f: "find_entry l rid = Some e" and live: "ent_live e'"
  shows "live_mset (store_entry rid e' l) = add_mset e' (live_mset (erase_entry rid e l))"
proof (cases "rid < base l")
  case True
  have key: "distinct (map fst xs) \<Longrightarrow> map_of xs rid = Some e \<Longrightarrow>
      mset (map snd (map (\<lambda>(k, v). (k, if k = rid then e' else v)) xs)) =
      add_mset e' (mset (map snd (filter (\<lambda>(k, _). k \<noteq> rid) xs)))"
    for xs :: "(nat \<times> entry) list"
  proof (induction xs)
    case (Cons x xs)
    have "filter (\<lambda>(k, _). k \<noteq> rid) xs = xs"
      "map (\<lambda>(k, v). (k, if k = rid then e' else v)) xs = xs" if "rid \<notin> fst ` set xs"
      using that by (force simp: filter_id_conv intro: map_idI)+
    with Cons show ?case by (auto split: if_splits simp del: mset_filter map_map mset_map)
  qed simp
  have "ring (l\<lparr>sparse := xs\<rparr>) = ring l" for xs by (rule ring_cong) simp_all
  with True key [of "sparse l"] inv f show ?thesis
    by (simp add: live_mset_def erase_entry_def store_entry_def ledger_inv_def find_entry_def
        del: mset_filter map_map mset_map)
next
  case False
  let ?i = "rid - base l" and ?d = "e\<lparr>ent_live := False, ent_group := None\<rparr>"
  have i: "?i < count l" "ring l ! ?i = e" "ent_live e"
    using f False by (auto simp: find_entry_def Let_def split: if_splits)
  have ok: "ring_ok l" "ring_ok (set_slot ?i ?d l)" using inv by (auto simp: ledger_inv_def)
  have "filter_mset ent_live (mset ((ring l)[?i := e'])) =
      add_mset e' (filter_mset ent_live (mset ((ring l)[?i := ?d])))"
    using i live mset_update [of ?i "ring l"] by simp
  then show ?thesis
    using False ring_set_slot [OF ok(1) i(1)] compact_live [OF ok(2)]
    by (simp add: live_mset_def store_entry_def erase_entry_def)
qed

lemma store_entry_fields [simp]:
  "totals (store_entry rid e l) = totals l" "epoch (store_entry rid e l) = epoch l"
  "groups (store_entry rid e l) = groups l" "next_id (store_entry rid e l) = next_id l"
  by (simp_all add: store_entry_def)

lemma begin_locked_spec:
  assumes "good l" and f: "find_entry l rid = Some e"
  shows "good (snd (begin_locked rid l))
    \<and> find_entry (snd (begin_locked rid l)) = (find_entry l)(rid \<mapsto> e\<lparr>ent_active := True\<rparr>)
    \<and> next_id (snd (begin_locked rid l)) = next_id l \<and> epoch (snd (begin_locked rid l)) = epoch l"
proof -
  let ?e = "e\<lparr>ent_active := True\<rparr>" and ?M = "live_mset (erase_entry rid e l)"
  have inv: "ledger_inv l" and b: "books (live_mset l) l" using assms by (auto simp: good_def)
  have live: "ent_live ?e" using find_entry_live [OF inv f] by simp
  have "books (add_mset ?e ?M) l"
    using b live_mset_split [OF inv f] by (auto simp: books_def totals_of_def Let_def)
  then have "books (live_mset (store_entry rid ?e l)) (store_entry rid ?e l)"
    using store_entry_live [OF inv f live] by (simp add: books_def)
  with store_entry_find [OF inv f live] f show ?thesis
    by (simp add: begin_locked_def good_def)
qed

definition activate :: "nat list \<Rightarrow> (nat \<Rightarrow> entry option) \<Rightarrow> nat \<Rightarrow> entry option" where
  "activate ids m i = (if i \<in> set ids then map_option (\<lambda>e. e\<lparr>ent_active := True\<rparr>) (m i) else m i)"

lemma begin_all_spec:
  "good l \<Longrightarrow> \<forall>i\<in>set ids. find_entry l i \<noteq> None \<Longrightarrow>
   good (fold (\<lambda>i l. snd (begin_locked i l)) ids l)
   \<and> find_entry (fold (\<lambda>i l. snd (begin_locked i l)) ids l) = activate ids (find_entry l)
   \<and> next_id (fold (\<lambda>i l. snd (begin_locked i l)) ids l) = next_id l
   \<and> epoch (fold (\<lambda>i l. snd (begin_locked i l)) ids l) = epoch l"
proof (induction ids arbitrary: l)
  case Nil
  then show ?case by (simp add: activate_def fun_eq_iff)
next
  case (Cons i ids)
  then obtain e where e: "find_entry l i = Some e" by auto
  note st = begin_locked_spec [OF Cons.prems(1) e]
  have act: "activate ids (find_entry (snd (begin_locked i l))) = activate (i # ids) (find_entry l)"
    using st e by (auto simp: activate_def fun_eq_iff)
  have "\<forall>j\<in>set ids. find_entry (snd (begin_locked i l)) j \<noteq> None" using st Cons.prems(2) by auto
  note IH = Cons.IH [OF conjunct1 [OF st] this]
  show ?case unfolding fold_simps using IH st act by metis
qed

lemma begin_batch_spec:
  assumes "good l"
  shows "good (snd (begin_batch ids l))
    \<and> find_entry (snd (begin_batch ids l)) =
        (if \<exists>i\<in>set ids. find_entry l i = None then find_entry l else activate ids (find_entry l))
    \<and> next_id (snd (begin_batch ids l)) = next_id l \<and> epoch (snd (begin_batch ids l)) = epoch l"
  using assms begin_all_spec [OF assms, of ids] by (auto simp: begin_batch_def)

lemma admit_spec:
  fixes bytes grp
  assumes "good l"
  defines "l' \<equiv> snd (admit bytes grp l)"
  shows "fst (admit bytes grp l) = next_id l + 1" "good l'"
    "find_entry l' = (find_entry l)(next_id l + 1 \<mapsto> admitted_entry bytes grp (epoch l))"
    "next_id l' = next_id l + 1" "epoch l' = epoch l"
    "length (slots l') \<le> max (length (slots l)) (max 16 (4 * live_count l))"
proof -
  let ?e = "admitted_entry bytes grp (epoch l)" and ?s = "stored bytes grp l"
  let ?f = "\<lambda>t. t\<lparr>accepted := add_request bytes (accepted t), outstanding := add_request bytes (outstanding t)\<rparr>"
  have inv: "ledger_inv l" and b: "books (live_mset l) l" using assms by (auto simp: good_def)
  note s = stored_spec [OF inv, of bytes grp] and eq = admit_eq [OF inv, of bytes grp]
  have l': "l' = update_totals ?e ?f ?s" by (simp add: l'_def eq)
  have bal: "balanced t \<Longrightarrow> balanced (?f t)" for t by (auto simp: totals_simps)
  have "\<forall>g. balanced (grp_totals (groups ?s g))"
    using b s(6) by (auto simp: books_def refresh_group_def split: option.split)
  then have "balanced (totals l') \<and> (\<forall>g. balanced (grp_totals (groups l' g)))"
    unfolding l' using b s(5) bal by (intro update_totals_books) (auto simp: books_def)
  moreover have "outstanding (totals l') = totals_of (epoch l) (add_mset ?e (live_mset l))"
    unfolding l' using b s(4,5)
    by (simp add: update_totals_outstanding books_def totals_of_def add_request_def Let_def)
      (simp add: admitted_entry_def)
  ultimately have "books (live_mset l') l'"
    using b s(3,4) by (auto simp: books_def l' admitted_entry_def)
  then show "good l'" using s(1) by (simp add: good_def l')
  show "fst (admit bytes grp l) = next_id l + 1" by (simp add: eq)
  show "find_entry l' = (find_entry l)(next_id l + 1 \<mapsto> ?e)" "next_id l' = next_id l + 1" "epoch l' = epoch l"
    "length (slots l') \<le> max (length (slots l)) (max 16 (4 * live_count l))"
    using s by (simp_all add: l')
qed

lemma reset_spec:
  assumes "good l"
  shows "good (reset_ledger l) \<and> find_entry (reset_ledger l) = find_entry l
    \<and> next_id (reset_ledger l) = next_id l \<and> epoch (reset_ledger l) = epoch l + 1"
proof -
  have v: "ring (reset_ledger l) = ring l" "ledger_inv (reset_ledger l) = ledger_inv l"
    "find_entry (reset_ledger l) = find_entry l"
    by (rule ledger_views_cong; simp add: reset_ledger_def)+
  have "filter_mset (\<lambda>e. ent_epoch e = epoch l + 1) (live_mset l) = {#}"
    using assms filter_mset_cong [of "live_mset l" "live_mset l" _ "\<lambda>_. False"]
    by (fastforce simp: good_def books_def)
  then have "totals_of (epoch l + 1) (live_mset l) = no_requests"
    unfolding totals_of_def Let_def by (simp only:) (simp add: no_requests_def)
  moreover have "live_mset (reset_ledger l) = live_mset l"
    using v(1) by (simp add: live_mset_def) (simp add: reset_ledger_def)
  ultimately show ?thesis
    using assms v by (auto simp: good_def books_def reset_ledger_def intro: le_SucI)
qed

lemma reset_live: "live_mset (reset_ledger l) = live_mset l"
proof -
  have "ring (reset_ledger l) = ring l" by (rule ring_cong) (simp_all add: reset_ledger_def)
  then show ?thesis by (simp add: live_mset_def) (simp add: reset_ledger_def)
qed

lemma books_set_slot [simp]: "books M (set_slot i e l) = books M l"
  by (rule books_cong) simp_all

lemma sweep_books:
  assumes "ring_ok l"
  shows "n \<le> count l \<Longrightarrow> books (filter_mset P (mset (take n (ring l))) + M) l \<Longrightarrow>
    books M (fold (sweep_step c P upd) [0..<n] l)"
proof (induction n arbitrary: M)
  case (Suc n)
  let ?e = "ring l ! n" and ?l = "fold (sweep_step c P upd) [0..<n] l"
  note sw = sweep_spec [OF assms Suc_leD [OF Suc.prems(1)], of c P upd]
  have e: "slot ?l n = ?e"
    using sw Suc.prems(1) ring_nth [of n ?l] by (simp add: nth_append del: ring_nth)
  have "books (filter_mset P (mset (take n (ring l))) + (if P ?e then add_mset ?e M else M)) l"
    using Suc.prems by (simp add: take_Suc_conv_app_nth split: if_splits del: ring_nth)
  then have "books (if P ?e then add_mset ?e M else M) ?l"
    using Suc.IH Suc.prems(1) by simp
  then have "books M (if P ?e then terminate_entry c ?e ?l else ?l)"
    by (auto intro: terminate_books)
  moreover have "fold (sweep_step c P upd) [0..<Suc n] l = set_slot n (upd ?e)
      (if P ?e then terminate_entry c ?e ?l else ?l)"
    using e by (simp add: sweep_step_def [of c P upd n ?l] del: ring_nth)
  ultimately show ?case by (simp del: ring_nth upt.simps)
qed simp

lemma end_spec:
  assumes "good l"
  shows "good (end_ledger c l) \<and> find_entry (end_ledger c l) = Map.empty
    \<and> next_id (end_ledger c l) = next_id l \<and> epoch (end_ledger c l) = epoch l
    \<and> live_mset (end_ledger c l) = {#}"
proof -
  have inv: "ledger_inv l" and b: "books (live_mset l) l" using assms by (auto simp: good_def)
  let ?l1 = "fold (\<lambda>(k, e). terminate_entry c e) (sparse l) l"
  let ?l2 = "?l1\<lparr>sparse := []\<rparr>"
  note fields = fold_terminate_fields [of c "sparse l" l]
  have f: "ring_ok ?l2" "count ?l2 = count l" using fields inv by (auto simp: ledger_inv_def ring_ok_def)
  have r: "ring ?l2 = ring l" using fields by (intro ring_cong) auto
  have "books (filter_mset ent_live (mset (ring l))) ?l1"
    using fold_terminate_books [of "sparse l" _ l c] b by (simp add: live_mset_def)
  then have "books (filter_mset ent_live (mset (take (count l) (ring ?l2))) + {#}) ?l2"
    using r by (simp add: books_def)
  from sweep_books [OF f(1) _ this] f(2)
  have "books {#} (fold (sweep_step c ent_live (\<lambda>_. no_entry)) [0..<count l] ?l2)" by simp
  then have "books {#} (end_ledger c l)" by (simp add: end_ledger_eq Let_def books_def)
  moreover have "live_mset (end_ledger c l) = {#}" "next_id (end_ledger c l) = next_id l"
    "epoch (end_ledger c l) = epoch l"
    using sweep_spec [OF f(1), of "count l" c ent_live "\<lambda>_. no_entry"] f fields
    by (simp_all add: end_ledger_eq Let_def live_mset_def ring_def)
  ultimately show ?thesis using end_ledger_find [OF inv, of c] by (simp add: good_def)
qed

lemma discard_waiting_spec:
  assumes "good l"
  shows "good (discard_waiting (Some g) c l)
    \<and> next_id (discard_waiting (Some g) c l) = next_id l \<and> epoch (discard_waiting (Some g) c l) = epoch l"
proof -
  have inv: "ledger_inv l" and ok: "ring_ok l" and b: "books (live_mset l) l"
    using assms by (auto simp: good_def ledger_inv_def)
  let ?P = "\<lambda>e. ent_live e \<and> waiting_of g e"
  let ?gone = "filter (\<lambda>(k, e). waiting_of g e) (sparse l)"
  let ?kept = "filter (\<lambda>(k, e). \<not> waiting_of g e) (sparse l)"
  let ?l1 = "fold (\<lambda>(k, e). terminate_entry c e) ?gone l"
  let ?l2 = "?l1\<lparr>sparse := ?kept\<rparr>"
  define l3 where "l3 = fold (sweep_step c ?P (waiting_dead g)) [0..<count l] ?l2"
  note fields = fold_terminate_fields [of c ?gone l]
  have ok2: "ring_ok ?l2" "count l \<le> count ?l2" using ok fields by (auto simp: ring_ok_def)
  have r2: "ring ?l2 = ring l" using fields by (intro ring_cong) auto
  note sw = sweep_spec [OF ok2, of c ?P "waiting_dead g", folded l3_def]
  let ?R = "mset (map snd ?kept) + filter_mset ent_live (mset (map (waiting_dead g) (ring l)))"
  have split: "mset (map snd xs) = mset (map snd (filter (\<lambda>(k, e). waiting_of g e) xs))
      + mset (map snd (filter (\<lambda>(k, e). \<not> waiting_of g e) xs))" for xs :: "(nat \<times> entry) list"
    by (induction xs) auto
  have ring: "filter_mset ent_live (mset es) = filter_mset ?P (mset es)
      + filter_mset ent_live (mset (map (waiting_dead g) es))" for es
    by (induction es) (auto simp: waiting_dead_def)
  have "books (mset (map snd ?gone) + (filter_mset ?P (mset (ring l)) + ?R)) l"
    using b split [of "sparse l"] ring [of "ring l"] by (simp add: live_mset_def add_ac)
  then have "books (filter_mset ?P (mset (ring l)) + ?R) ?l1" by (rule fold_terminate_books)
  moreover have "take (count l) (ring ?l2) = ring l" unfolding r2 by simp
  ultimately have "books (filter_mset ?P (mset (take (count l) (ring ?l2))) + ?R) ?l2"
    using books_cong [of ?l2 ?l1] by simp
  from sweep_books [OF ok2 this] have "books ?R l3" unfolding l3_def .
  moreover have l3: "ring_ok l3" "live_mset l3 = ?R" "next_id l3 = next_id l" "epoch l3 = epoch l"
    using sw r2 fields by (auto simp: live_mset_def)
  moreover have d: "discard_waiting (Some g) c l = compact l3"
    by (simp add: discard_waiting_eq [OF ok] Let_def l3_def)
  ultimately show ?thesis
    using discard_waiting_find(1) [OF inv, of g c] compact_spec [OF l3(1)]
    by (simp add: good_def books_def)
qed

section \<open>Histories\<close>

datatype ledger_op =
    Admit nat "nat option"
  | Begin_batch "nat list"
  | Complete_batch "(nat \<times> nat) list" nat
  | Discard nat cause
  | Rollback nat
  | Discard_waiting nat cause
  | End cause
  | Reset

fun run_op :: "ledger_op \<Rightarrow> ledger \<Rightarrow> ledger" where
  "run_op (Admit bytes grp) l = snd (admit bytes grp l)"
| "run_op (Begin_batch ids) l = snd (begin_batch ids l)"
| "run_op (Complete_batch batch n) l = complete_batch batch n l"
| "run_op (Discard rid c) l = discard rid c l"
| "run_op (Rollback rid) l = rollback rid l"
| "run_op (Discard_waiting g c) l = discard_waiting (Some g) c l"
| "run_op (End c) l = end_ledger c l"
| "run_op Reset l = reset_ledger l"

text \<open>The specification: a finite map from request ids to entries.\<close>

type_synonym ledger_spec = "(nat \<Rightarrow> entry option) \<times> nat \<times> nat"

fun spec_op :: "ledger_op \<Rightarrow> ledger_spec \<Rightarrow> ledger_spec" where
  "spec_op (Admit bytes grp) (m, n, ep) = (m(n + 1 \<mapsto> admitted_entry bytes grp ep), n + 1, ep)"
| "spec_op (Begin_batch ids) (m, n, ep) =
     (if \<exists>i\<in>set ids. m i = None then m else activate ids m, n, ep)"
| "spec_op (Complete_batch batch k) (m, n, ep) = (\<lambda>i. if i \<in> fst ` set batch then None else m i, n, ep)"
| "spec_op (Discard rid c) (m, n, ep) = (m(rid := None), n, ep)"
| "spec_op (Rollback rid) (m, n, ep) = (m(rid := None), n, ep)"
| "spec_op (Discard_waiting g c) (m, n, ep) =
     (\<lambda>i. case m i of Some e \<Rightarrow> if waiting_of g e then None else Some e | None \<Rightarrow> None, n, ep)"
| "spec_op (End c) (m, n, ep) = (Map.empty, n, ep)"
| "spec_op Reset (m, n, ep) = (m, n, ep + 1)"

definition abs_ledger :: "ledger \<Rightarrow> ledger_spec" where
  "abs_ledger l = (find_entry l, next_id l, epoch l)"

lemma run_op_refines:
  assumes "good l"
  shows "good (run_op op l) \<and> abs_ledger (run_op op l) = spec_op op (abs_ledger l)"
proof (cases op)
  case (Admit b g)
  with admit_spec [OF assms, of b g] show ?thesis by (simp add: abs_ledger_def)
next
  case (Begin_batch ids)
  with begin_batch_spec [OF assms, of ids] show ?thesis by (simp add: abs_ledger_def)
next
  case (Complete_batch b n)
  with complete_batch_spec [OF assms, of b n] show ?thesis by (simp add: abs_ledger_def)
next
  case (Discard_waiting g c)
  with discard_waiting_spec [OF assms, of g c] discard_waiting_find(2) [of l g c] assms show ?thesis
    by (simp add: abs_ledger_def good_def fun_eq_iff)
qed (use discard_spec [OF assms] rollback_spec [OF assms] end_spec [OF assms] reset_spec [OF assms]
    in \<open>simp_all add: abs_ledger_def\<close>)

lemma new_ledger_good:
  assumes "\<forall>g. balanced (grp_totals (gs g))"
  shows "good (new_ledger gs)" "abs_ledger (new_ledger gs) = (Map.empty, 0, 0)"
  using assms
  by (simp_all add: good_def books_def ledger_inv_def ring_ok_def new_ledger_def live_mset_def ring_def
      totals_of_def no_requests_def Let_def abs_ledger_def find_entry_def fun_eq_iff)

interpretation led: data_refinement run_op spec_op abs_ledger good
  by unfold_locales (rule run_op_refines)

abbreviation fresh_ledger :: ledger where
  "fresh_ledger \<equiv> new_ledger (\<lambda>_. \<lparr>grp_totals = no_accounting, grp_epoch = 0\<rparr>)"

lemma fresh_ledger_good: "good fresh_ledger" "abs_ledger fresh_ledger = (Map.empty, 0, 0)"
  by (rule new_ledger_good; simp)+

text \<open>Only admission resizes the ring.\<close>

lemma erase_entry_slots: "ring_ok l \<Longrightarrow> length (slots (erase_entry rid e l)) = length (slots l)"
  using compact_spec [of "set_slot (rid - base l) (e\<lparr>ent_live := False, ent_group := None\<rparr>) l"]
  by (simp add: erase_entry_def)

lemma retire_slots:
  assumes "good l"
  shows "length (slots (discard rid c l)) = length (slots l)" "length (slots (rollback rid l)) = length (slots l)"
    "length (slots (complete_locked rid n l)) = length (slots l)"
  using assms
  by (simp_all add: discard_def rollback_def complete_locked_def erase_entry_slots good_def ledger_inv_def
      split: option.split)

lemma store_entry_slots: "length (slots (store_entry rid e l)) = length (slots l)"
  by (simp add: store_entry_def)

lemma batch_slots:
  "good l \<Longrightarrow> length (slots (complete_batch batch n l)) = length (slots l)"
  "length (slots (fold (\<lambda>i l. snd (begin_locked i l)) ids l)) = length (slots l)"
proof -
  show "good l \<Longrightarrow> length (slots (complete_batch batch n l)) = length (slots l)"
    by (induction batch n l rule: complete_batch.induct) (simp_all add: Let_def complete_spec retire_slots)
  show "length (slots (fold (\<lambda>i l. snd (begin_locked i l)) ids l)) = length (slots l)"
    by (induction ids arbitrary: l) (simp_all add: begin_locked_def store_entry_slots split: option.split)
qed

lemma sweep_slots:
  assumes "good l"
  shows "length (slots (discard_waiting (Some g) c l)) = length (slots l)"
    "length (slots (end_ledger c l)) = length (slots l)"
proof -
  have ok: "ring_ok l" using assms by (simp add: good_def ledger_inv_def)
  have r: "ring_ok ((fold (\<lambda>(k, e). terminate_entry c e) es l)\<lparr>sparse := xs\<rparr>)"
    for es :: "(nat \<times> entry) list" and xs
    using ok fold_terminate_fields [of c es l] by (auto simp: ring_ok_def)
  have sw: "ring_ok (fold (sweep_step c P upd) [0..<count l] ((fold (\<lambda>(k, e). terminate_entry c e) es l)\<lparr>sparse := xs\<rparr>))
      \<and> length (slots (fold (sweep_step c P upd) [0..<count l]
          ((fold (\<lambda>(k, e). terminate_entry c e) es l)\<lparr>sparse := xs\<rparr>))) = length (slots l)"
    for P upd and es :: "(nat \<times> entry) list" and xs
    using sweep_spec [OF r [of xs es], of "count l" c P upd] fold_terminate_fields [of c es l] by simp
  show "length (slots (discard_waiting (Some g) c l)) = length (slots l)"
    using sw compact_spec by (simp add: discard_waiting_eq [OF ok] Let_def)
  show "length (slots (end_ledger c l)) = length (slots l)"
    using sw by (simp add: end_ledger_eq Let_def)
qed

lemma run_op_slots:
  assumes "good l"
  shows "length (slots (run_op op l)) \<le> max (length (slots l)) (max 16 (4 * size (live_mset l)))"
proof -
  have "live_count l \<le> size (live_mset l)" by (simp add: live_count_mset live_mset_def)
  then have "length (slots (snd (admit b g l))) \<le> max (length (slots l)) (max 16 (4 * size (live_mset l)))" for b g
    using admit_spec(6) [OF assms, of b g] by linarith
  then show ?thesis
    by (cases op) (simp_all add: begin_batch_def retire_slots batch_slots sweep_slots assms reset_ledger_def)
qed

section \<open>Properties\<close>

text \<open>
  C16: The ring with its sparse overflow is a map. For every history of operations, growth, promotion
  and compaction included, looking a request up gives what the plain map from ids to entries gives:
  no request is lost or confused with another, retired ids stay retired, and ids never repeat.
\<close>

theorem ledger_refines_map:
  "abs_ledger (fold run_op ops fresh_ledger) = fold spec_op ops (Map.empty, 0, 0)"
  using led.history_refines [OF fresh_ledger_good(1)] fresh_ledger_good(2) by simp

text \<open>
  C15: Conservation. After any history, the requests and bytes accepted in the current epoch are exactly
  those written, those lost (by cause and stage) and those outstanding; the outstanding ones are
  the live requests of the epoch; and every contributor group balances in the same way.
\<close>

theorem ledger_conservation:
  "let l = fold run_op ops fresh_ledger; t = totals l
   in accepted t = accounted t
     \<and> outstanding t = totals_of (epoch l) (live_mset l)
     \<and> (\<forall>g. accepted (grp_totals (groups l g)) = accounted (grp_totals (groups l g)))"
proof -
  have "good (fold run_op ops fresh_ledger)" using led.history_refines [OF fresh_ledger_good(1)] by blast
  then show ?thesis by (simp add: good_def books_def balanced_def Let_def)
qed

text \<open>
  Storage is bounded by the load, not by history. If no more than \<open>p\<close> requests were ever live at
  once, the ring has at most \<open>max 16 (4 * p)\<close> slots, however many requests came and went.
\<close>

lemma ledger_capacity:
  assumes "\<forall>k \<le> length ops. size (live_mset (fold run_op (take k ops) fresh_ledger)) \<le> p"
  shows "length (slots (fold run_op ops fresh_ledger)) \<le> max 16 (4 * p)"
proof -
  have "length (slots (fold run_op (take k ops) fresh_ledger)) \<le> max 16 (4 * p)" if "k \<le> length ops" for k
    using that
  proof (induction k)
    case 0
    then show ?case by (simp add: new_ledger_def)
  next
    case (Suc k)
    let ?l = "fold run_op (take k ops) fresh_ledger"
    have g: "good ?l" using led.history_refines [OF fresh_ledger_good(1)] by blast
    have "size (live_mset ?l) \<le> p" using assms Suc.prems by simp
    with run_op_slots [OF g, of "ops ! k"] Suc show ?case by (simp add: take_Suc_conv_app_nth)
  qed
  from this [of "length ops"] show ?thesis by simp
qed

text \<open>
  A terminal boundary is final. After \<open>end\<close> no request is outstanding, and no completion, discard or
  roll-back that arrives late for any request changes the ledger.
\<close>

lemma ledger_end_is_final:
  fixes ops c
  defines "l \<equiv> end_ledger c (fold run_op ops fresh_ledger)"
  shows "outstanding (totals l) = no_requests \<and> complete_batch batch n l = l
    \<and> discard rid c' l = l \<and> rollback rid l = l \<and> \<not> contains l rid"
proof -
  have "good (fold run_op ops fresh_ledger)" using led.history_refines [OF fresh_ledger_good(1)] by blast
  from end_spec [OF this, of c] have f: "find_entry l = Map.empty" and g: "good l" "live_mset l = {#}"
    by (simp_all add: l_def)
  have "complete_batch batch n l = l"
    by (induction batch arbitrary: n) (auto simp: complete_locked_def f Let_def)
  with f g show ?thesis
    by (simp add: discard_def rollback_def contains_iff good_def books_def totals_of_def no_requests_def Let_def)
qed

end
