(* ===== verification/Runtime_Stats.thy ===== *)
theory Runtime_Stats
  imports Send_Ledger
begin

text \<open>
  \<open>RuntimeStatsCounters\<close> (\<open>src/wirestead/diagnostics/runtime_stats_counter.hpp\<close>) and its snapshot type
  \<open>RuntimeStats\<close> (\<open>src/wirestead/wrapper/runtime_stats.hpp\<close>). Counters are 64-bit and wrap; the reading
  of the steady clock is an argument.
\<close>

record stats_counters =
  bytes_accepted :: "64 word"
  messages_accepted :: "64 word"
  bytes_sent :: "64 word"
  messages_sent :: "64 word"
  bytes_received :: "64 word"
  messages_received :: "64 word"
  last_receive_ns :: int
  failed_sends :: "64 word"
  dropped_messages :: "64 word"
  dropped_bytes :: "64 word"
  backpressure_events :: "64 word"
  max_queued_bytes :: nat
  drop_warned :: bool

record runtime_stats =
  rs_bytes_accepted :: "64 word"
  rs_messages_accepted :: "64 word"
  rs_bytes_sent :: "64 word"
  rs_messages_sent :: "64 word"
  rs_bytes_received :: "64 word"
  rs_messages_received :: "64 word"
  rs_failed_sends :: "64 word"
  rs_dropped_messages :: "64 word"
  rs_dropped_bytes :: "64 word"
  rs_backpressure_events :: "64 word"
  rs_queued_bytes :: nat
  rs_pending_bytes :: nat
  rs_max_queued_bytes :: nat
  rs_backpressure_active :: bool
  rs_last_receive_age_ms :: "nat option"
  rs_send_accounting :: "send_accounting option"

definition new_stats :: stats_counters where
  "new_stats =
     \<lparr>bytes_accepted = 0, messages_accepted = 0, bytes_sent = 0, messages_sent = 0, bytes_received = 0,
      messages_received = 0, last_receive_ns = 0, failed_sends = 0, dropped_messages = 0, dropped_bytes = 0,
      backpressure_events = 0, max_queued_bytes = 0, drop_warned = False\<rparr>"

definition record_accepted :: "nat \<Rightarrow> stats_counters \<Rightarrow> stats_counters" where
  "record_accepted bytes st =
     st\<lparr>messages_accepted := messages_accepted st + 1, bytes_accepted := bytes_accepted st + of_nat bytes\<rparr>"

definition record_sent :: "nat \<Rightarrow> stats_counters \<Rightarrow> stats_counters" where
  "record_sent bytes st =
     st\<lparr>messages_sent := messages_sent st + 1, bytes_sent := bytes_sent st + of_nat bytes\<rparr>"

definition record_received :: "nat \<Rightarrow> int \<Rightarrow> stats_counters \<Rightarrow> stats_counters" where
  "record_received bytes now st =
     st\<lparr>messages_received := messages_received st + 1, bytes_received := bytes_received st + of_nat bytes,
        last_receive_ns := now\<rparr>"

definition record_failed_send :: "stats_counters \<Rightarrow> stats_counters" where
  "record_failed_send st = st\<lparr>failed_sends := failed_sends st + 1\<rparr>"

text \<open>The warning is logged when \<open>drop_warned\<close> was not set before.\<close>

definition record_dropped :: "nat \<Rightarrow> nat \<Rightarrow> stats_counters \<Rightarrow> stats_counters" where
  "record_dropped n bytes st =
     st\<lparr>dropped_messages := dropped_messages st + of_nat n, dropped_bytes := dropped_bytes st + of_nat bytes,
        drop_warned := True\<rparr>"

definition record_backpressure_event :: "stats_counters \<Rightarrow> stats_counters" where
  "record_backpressure_event st = st\<lparr>backpressure_events := backpressure_events st + 1\<rparr>"

text \<open>The compare-and-swap loop raises the maximum; without interference it stores in one step.\<close>

definition observe_queue_bytes :: "nat \<Rightarrow> stats_counters \<Rightarrow> stats_counters" where
  "observe_queue_bytes queued st =
     (if queued > max_queued_bytes st then st\<lparr>max_queued_bytes := queued\<rparr> else st)"

definition absorb :: "runtime_stats \<Rightarrow> stats_counters \<Rightarrow> stats_counters" where
  "absorb other st =
     observe_queue_bytes (rs_max_queued_bytes other)
       (st\<lparr>bytes_accepted := bytes_accepted st + rs_bytes_accepted other,
           messages_accepted := messages_accepted st + rs_messages_accepted other,
           bytes_sent := bytes_sent st + rs_bytes_sent other,
           messages_sent := messages_sent st + rs_messages_sent other,
           bytes_received := bytes_received st + rs_bytes_received other,
           messages_received := messages_received st + rs_messages_received other,
           failed_sends := failed_sends st + rs_failed_sends other,
           dropped_messages := dropped_messages st + rs_dropped_messages other,
           dropped_bytes := dropped_bytes st + rs_dropped_bytes other,
           backpressure_events := backpressure_events st + rs_backpressure_events other\<rparr>)"

definition stats_snapshot :: "nat \<Rightarrow> nat \<Rightarrow> bool \<Rightarrow> int \<Rightarrow> stats_counters \<Rightarrow> runtime_stats" where
  "stats_snapshot queued pend active now st =
     \<lparr>rs_bytes_accepted = bytes_accepted st, rs_messages_accepted = messages_accepted st,
      rs_bytes_sent = bytes_sent st, rs_messages_sent = messages_sent st,
      rs_bytes_received = bytes_received st, rs_messages_received = messages_received st,
      rs_failed_sends = failed_sends st, rs_dropped_messages = dropped_messages st,
      rs_dropped_bytes = dropped_bytes st, rs_backpressure_events = backpressure_events st,
      rs_queued_bytes = queued, rs_pending_bytes = pend, rs_max_queued_bytes = max_queued_bytes st,
      rs_backpressure_active = active,
      rs_last_receive_age_ms =
        (if last_receive_ns st \<noteq> 0
         then let age = now - last_receive_ns st in Some (nat (if age > 0 then age div 1000000 else 0))
         else None),
      rs_send_accounting = None\<rparr>"

definition reset_stats :: "nat \<Rightarrow> stats_counters \<Rightarrow> stats_counters" where
  "reset_stats current_queued st =
     st\<lparr>bytes_accepted := 0, messages_accepted := 0, bytes_sent := 0, messages_sent := 0,
        bytes_received := 0, messages_received := 0, last_receive_ns := 0, failed_sends := 0,
        dropped_messages := 0, dropped_bytes := 0, backpressure_events := 0,
        max_queued_bytes := current_queued\<rparr>"

end
