(* ===== verification/Constants.thy ===== *)
theory Constants
  imports Wire_Prelude
begin

text \<open>The limits of \<open>src/wirestead/base/constants.hpp\<close>.\<close>

definition DEFAULT_BACKPRESSURE_THRESHOLD :: nat where "DEFAULT_BACKPRESSURE_THRESHOLD = 1 * 1024 * 1024"
definition DEFAULT_THRESHOLD_BEST_EFFORT :: nat where "DEFAULT_THRESHOLD_BEST_EFFORT = 512 * 1024"
definition MIN_BACKPRESSURE_THRESHOLD :: nat where "MIN_BACKPRESSURE_THRESHOLD = 1024"
definition MAX_BACKPRESSURE_THRESHOLD :: nat where "MAX_BACKPRESSURE_THRESHOLD = 100 * 2 ^ 20"
definition DEFAULT_READ_BUFFER_SIZE :: nat where "DEFAULT_READ_BUFFER_SIZE = 4096"
definition MIN_READ_BUFFER_SIZE :: nat where "MIN_READ_BUFFER_SIZE = 512"
definition MAX_READ_BUFFER_SIZE :: nat where "MAX_READ_BUFFER_SIZE = 1024 * 1024"
definition DEFAULT_RETRY_INTERVAL_MS :: nat where "DEFAULT_RETRY_INTERVAL_MS = 1000"
definition MIN_RETRY_INTERVAL_MS :: nat where "MIN_RETRY_INTERVAL_MS = 100"
definition MAX_RETRY_INTERVAL_MS :: nat where "MAX_RETRY_INTERVAL_MS = 300000"
definition DEFAULT_CONNECTION_TIMEOUT_MS :: nat where "DEFAULT_CONNECTION_TIMEOUT_MS = 5000"
definition MIN_CONNECTION_TIMEOUT_MS :: nat where "MIN_CONNECTION_TIMEOUT_MS = 100"
definition MAX_CONNECTION_TIMEOUT_MS :: nat where "MAX_CONNECTION_TIMEOUT_MS = 300000"
definition DEFAULT_MAX_RETRIES :: int where "DEFAULT_MAX_RETRIES = -1"
definition MAX_RETRIES_LIMIT :: int where "MAX_RETRIES_LIMIT = 1000"
definition MAX_BUFFER_SIZE :: nat where "MAX_BUFFER_SIZE = 64 * 1024 * 1024"
definition MIN_BUFFER_SIZE :: nat where "MIN_BUFFER_SIZE = 1"
definition LARGE_BUFFER_THRESHOLD :: nat where "LARGE_BUFFER_THRESHOLD = 65536"
definition MIN_SOCKET_BUFFER_SIZE :: nat where "MIN_SOCKET_BUFFER_SIZE = 1024"
definition MAX_SOCKET_BUFFER_SIZE :: nat where "MAX_SOCKET_BUFFER_SIZE = 256 * 2 ^ 20"
definition DEFAULT_TCP_NO_DELAY :: bool where "DEFAULT_TCP_NO_DELAY = True"
definition DEFAULT_KEEP_ALIVE :: bool where "DEFAULT_KEEP_ALIVE = False"
definition MAX_MAX_CONNECTIONS :: nat where "MAX_MAX_CONNECTIONS = 10000"
definition DEFAULT_MAX_CONNECTIONS :: nat where "DEFAULT_MAX_CONNECTIONS = 1024"
definition DEFAULT_IDLE_TIMEOUT_MS :: nat where "DEFAULT_IDLE_TIMEOUT_MS = 0"
definition MIN_IDLE_TIMEOUT_MS :: nat where "MIN_IDLE_TIMEOUT_MS = 1"
definition MAX_IDLE_TIMEOUT_MS :: nat where "MAX_IDLE_TIMEOUT_MS = 300000"
definition MAX_HOSTNAME_LENGTH :: nat where "MAX_HOSTNAME_LENGTH = 253"
definition MAX_UDS_PATH_LENGTH :: nat where "MAX_UDS_PATH_LENGTH = 107"
definition MIN_BAUD_RATE :: nat where "MIN_BAUD_RATE = 50"
definition MAX_BAUD_RATE :: nat where "MAX_BAUD_RATE = 4000000"
definition MIN_DATA_BITS :: nat where "MIN_DATA_BITS = 5"
definition MAX_DATA_BITS :: nat where "MAX_DATA_BITS = 8"
definition MIN_STOP_BITS :: nat where "MIN_STOP_BITS = 1"
definition MAX_STOP_BITS :: nat where "MAX_STOP_BITS = 2"

lemmas constant_defs =
  DEFAULT_BACKPRESSURE_THRESHOLD_def DEFAULT_THRESHOLD_BEST_EFFORT_def MIN_BACKPRESSURE_THRESHOLD_def
  MAX_BACKPRESSURE_THRESHOLD_def DEFAULT_READ_BUFFER_SIZE_def MIN_READ_BUFFER_SIZE_def MAX_READ_BUFFER_SIZE_def
  DEFAULT_RETRY_INTERVAL_MS_def MIN_RETRY_INTERVAL_MS_def MAX_RETRY_INTERVAL_MS_def
  DEFAULT_CONNECTION_TIMEOUT_MS_def MIN_CONNECTION_TIMEOUT_MS_def MAX_CONNECTION_TIMEOUT_MS_def
  DEFAULT_MAX_RETRIES_def MAX_RETRIES_LIMIT_def MAX_BUFFER_SIZE_def MIN_BUFFER_SIZE_def
  LARGE_BUFFER_THRESHOLD_def MIN_SOCKET_BUFFER_SIZE_def MAX_SOCKET_BUFFER_SIZE_def MAX_MAX_CONNECTIONS_def
  DEFAULT_MAX_CONNECTIONS_def DEFAULT_IDLE_TIMEOUT_MS_def MIN_IDLE_TIMEOUT_MS_def MAX_IDLE_TIMEOUT_MS_def
  MAX_HOSTNAME_LENGTH_def MAX_UDS_PATH_LENGTH_def MIN_BAUD_RATE_def MAX_BAUD_RATE_def MIN_DATA_BITS_def
  MAX_DATA_BITS_def MIN_STOP_BITS_def MAX_STOP_BITS_def

end
