(* ===== verification/Tcp_Session.thy ===== *)
theory Tcp_Session
  imports Backpressure Runtime_Stats Constants
begin

text \<open>
  \<open>TcpServerSession\<close> (\<open>src/wirestead/transport/tcp_server/tcp_server_session.cc\<close>): the write path of one
  accepted connection, from admission on a sender's thread over the strand to the socket.

  The strand is the queue \<open>posted\<close> of handlers in the order they were posted; \<open>sess_step\<close> is one
  admission call, one handler run on the strand, or one event of the socket or timer. The socket is
  the environment: \<open>io\<close> is the size of the write it has been handed, it may complete it with any
  error flag and any byte count, and initiating a write may throw. \<open>wire\<close> records, in order, the
  buffers handed to the socket, \<open>bp_log\<close> the values \<open>on_backpressure\<close> was called with and
  \<open>close_calls\<close> how often \<open>on_close\<close> was. A sender's admission is atomic here (it holds
  \<open>submission_mtx_\<close>); the accesses it makes to the shared counters are interleaved in \<open>Reservation\<close>.
  \<open>handshaking\<close> and \<open>reading\<close> say that the socket holds a handshake or a read, \<open>connects\<close> counts the
  connection notifications. The steady clock is \<open>clock\<close>; \<open>idle_deadline\<close> is the expiry of the idle
  timer. What the application does inside a callback appears as the step that follows it. Memory
  exhaustion and the contents of the read buffer are not modelled.
\<close>

section \<open>State\<close>

datatype send_rejection =
    NotStarted | Stopping | NotReady | WouldBlock | QueueFull | TooLarge | InvalidArgument
  | CancelledWhileWaiting

datatype send_result = Accept | Reject send_rejection

record tracked =
  tb_data :: bytes
  tb_request :: nat

abbreviation tb_size :: "tracked \<Rightarrow> nat" where
  "tb_size b \<equiv> length (tb_data b)"

datatype handler =
    Route tracked nat
  | Enqueue tracked nat
  | Write_done bool nat nat
  | Stop_posted
  | Start_posted
  | Handshake_done bool

record session = "tracked bp_queue" +
  batch :: "tracked list"
  writing :: bool
  alive :: bool
  closing :: bool
  cleanup_done :: bool
  wait_ended_by :: "send_rejection option"
  accounting :: ledger
  stats :: stats_counters
  posted :: "handler list"
  has_on_bp :: bool
  has_on_close :: bool
  has_on_bytes :: bool
  io :: "nat option"
  wire :: "tracked list"
  bp_log :: "nat list"
  close_calls :: nat
  handshaking :: bool
  reading :: bool
  connects :: nat
  socket_open :: bool
  idle_ms :: int
  idle_deadline :: "int option"
  clock :: int

definition new_session :: "nat \<Rightarrow> int \<Rightarrow> backpressure_strategy \<Rightarrow> session" where
  "new_session threshold idle strategy =
     (let low = (if threshold > 1 then threshold div 2 else threshold)
      in \<lparr>queue_bytes = 0, pending_bytes = 0, inflight_bytes = 0, backpressure_active = False,
          bp_high = threshold, bp_low = (if low = 0 then 1 else low),
          bp_limit = min (max ((threshold * 4) mod 2 ^ 64) DEFAULT_BACKPRESSURE_THRESHOLD) MAX_BUFFER_SIZE,
          bp_strategy = strategy, tx = [], pending = [], batch = [], writing = False, alive = False,
          closing = False, cleanup_done = False, wait_ended_by = None, accounting = fresh_ledger,
          stats = new_stats, posted = [], has_on_bp = False, has_on_close = False, has_on_bytes = False,
          io = None, wire = [], bp_log = [], close_calls = 0, handshaking = False, reading = False,
          connects = 0, socket_open = True, idle_ms = idle, idle_deadline = None, clock = 0\<rparr>)"

section \<open>On the strand\<close>

definition session_observe :: "session \<Rightarrow> session" where
  "session_observe s = s\<lparr>stats := observe_queue_bytes (size_add (queue_bytes s) (pending_bytes s)) (stats s)\<rparr>"

definition end_wait :: "send_rejection \<Rightarrow> session \<Rightarrow> session" where
  "end_wait r s = (if wait_ended_by s = None then s\<lparr>wait_ended_by := Some r\<rparr> else s)"

definition reset_idle_timer :: "session \<Rightarrow> session" where
  "reset_idle_timer s = (if idle_ms s \<le> 0 then s else s\<lparr>idle_deadline := Some (clock s + idle_ms s)\<rparr>)"

definition start_read :: "session \<Rightarrow> session" where
  "start_read s = (if closing s \<or> \<not> alive s then s else s\<lparr>reading := True\<rparr>)"

definition do_close :: "session \<Rightarrow> session" where
  "do_close s =
     (if cleanup_done s then s
      else
        let s1 = end_wait NotReady (s\<lparr>cleanup_done := True, accounting := end_ledger ConnectionLoss (accounting s)\<rparr>);
            s2 = s1\<lparr>alive := False, closing := True, socket_open := False\<rparr>;
            (s3, calls) = drain_and_clear_backpressure s2;
            s4 = s3\<lparr>bp_log := bp_log s3 @ (if has_on_bp s3 then calls else [])\<rparr>
        in s4\<lparr>has_on_bytes := False, has_on_bp := False, has_on_close := False,
              close_calls := close_calls s4 + (if has_on_close s4 then 1 else 0)\<rparr>)"

text \<open>\<open>throws\<close> says that \<open>async_write\<close> throws on initiation.\<close>

definition do_write :: "bool \<Rightarrow> session \<Rightarrow> session" where
  "do_write throws s =
     (if closing s \<or> \<not> alive s \<or> tx s = [] \<or> writing s then s
      else
        let (rest, b, n) = take_gather_batch tb_size (tx s);
            s1 = s\<lparr>writing := True, tx := rest, batch := b,
                   accounting := snd (begin_batch (map tb_request b) (accounting s))\<rparr>
        in if throws then
             do_close (end_wait NotReady
               (s1\<lparr>accounting := end_ledger ConnectionLoss (accounting s1), closing := True\<rparr>))
           else s1\<lparr>io := Some n, wire := wire s1 @ b\<rparr>)"

definition session_report :: "bool \<Rightarrow> nat \<Rightarrow> session \<Rightarrow> session" where
  "session_report throws queued s =
     (if closing s \<or> \<not> alive s then s
      else
        let s1 = session_observe s;
            (s2, calls, kick) = report_backpressure queued s1;
            s3 = s2\<lparr>stats := (record_backpressure_event ^^ length calls) (stats s2),
                    bp_log := bp_log s2 @ (if has_on_bp s2 then calls else [])\<rparr>
        in if kick then
             let s4 = session_observe s3 in if \<not> writing s4 then do_write throws s4 else s4
           else s3)"

definition route_enqueued_buffer :: "bool \<Rightarrow> tracked \<Rightarrow> nat \<Rightarrow> session \<Rightarrow> session" where
  "route_enqueued_buffer throws buf added s =
     (case decide_enqueue added s of
        Rejected \<Rightarrow>
          let s1 = release_reserved_limit_bytes added
                     (s\<lparr>accounting := discard (tb_request buf) QueuePressure (accounting s),
                        stats := record_dropped 1 added (stats s)\<rparr>)
          in session_report throws (size_add (queue_bytes s1) added) s1
      | Pending \<Rightarrow>
          let s1 = commit_to_pending added s
          in session_observe (s1\<lparr>pending := pending s1 @ [buf]\<rparr>)
      | Immediate \<Rightarrow>
          let s1 = commit_to_queue added s;
              s2 = session_observe (s1\<lparr>tx := tx s1 @ [buf]\<rparr>);
              s3 = session_report throws (queue_bytes s2) s2
          in if \<not> writing s3 then do_write throws s3 else s3)"

definition run_handler :: "bool \<Rightarrow> handler \<Rightarrow> session \<Rightarrow> session" where
  "run_handler throws h s =
     (case h of
        Route buf added \<Rightarrow>
          if \<not> alive s \<or> closing s then
            (release_reserved_limit_bytes added s)\<lparr>stats := record_failed_send (stats s)\<rparr>
          else route_enqueued_buffer throws buf added s
      | Enqueue buf added \<Rightarrow>
          if \<not> alive s \<or> closing s then
            (release_reserved_write_bytes added s)\<lparr>stats := record_failed_send (stats s)\<rparr>
          else
            let s1 = session_observe (s\<lparr>tx := tx s @ [buf]\<rparr>);
                s2 = session_report throws (queue_bytes s1) s1
            in if \<not> writing s2 then do_write throws s2 else s2
      | Write_done ec n bytes_to_write \<Rightarrow>
          let failed = (ec \<or> n \<noteq> bytes_to_write)
          in if closing s \<or> \<not> alive s then s\<lparr>batch := []\<rparr>
             else
               let s1 = s\<lparr>accounting := complete_batch (map (\<lambda>b. (tb_request b, tb_size b)) (batch s))
                                         (min n bytes_to_write) (accounting s),
                          batch := []\<rparr>
               in if failed then
                    do_close (end_wait NotReady
                      (s1\<lparr>accounting := end_ledger ConnectionLoss (accounting s1), closing := True\<rparr>))
                  else
                    let s2 = release_reserved_write_bytes bytes_to_write s1;
                        s3 = s2\<lparr>stats := record_sent n (stats s2)\<rparr>;
                        s4 = session_report throws (queue_bytes s3) s3;
                        s5 = s4\<lparr>writing := False\<rparr>
                    in if closing s5 \<or> \<not> alive s5 then s5 else do_write throws (reset_idle_timer s5)
      | Stop_posted \<Rightarrow>
          do_close (s\<lparr>has_on_bytes := False, has_on_bp := False, has_on_close := False\<rparr>)
      | Start_posted \<Rightarrow>
          if closing s \<or> \<not> alive s then s
          else (reset_idle_timer s)\<lparr>handshaking := True, connects := connects s + 1\<rparr>
      | Handshake_done ec \<Rightarrow>
          if closing s \<or> \<not> alive s then s
          else if ec then do_close s
          else start_read (reset_idle_timer s))"

section \<open>Admission\<close>

definition refuse :: "send_rejection \<Rightarrow> session \<Rightarrow> send_result \<times> session" where
  "refuse r s = (Reject r, s\<lparr>stats := record_failed_send (stats s)\<rparr>)"

text \<open>The common end of an admission: ledger, statistics, post.\<close>

definition accept_request :: "bytes \<Rightarrow> (tracked \<Rightarrow> nat \<Rightarrow> handler) \<Rightarrow> session \<Rightarrow> send_result \<times> session" where
  "accept_request data mk s =
     (let (rid, l) = admit (length data) None (accounting s)
      in (Accept, s\<lparr>accounting := l, stats := record_accepted (length data) (stats s),
                    posted := posted s @ [mk \<lparr>tb_data = data, tb_request = rid\<rparr> (length data)]\<rparr>))"

definition write_move :: "bytes \<Rightarrow> session \<Rightarrow> send_result \<times> session" where
  "write_move data s =
     (if \<not> alive s \<or> closing s then refuse NotReady s
      else if length data = 0 then refuse InvalidArgument s
      else if length data > MAX_BUFFER_SIZE then refuse TooLarge s
      else case try_reserve_limit_bytes (length data) s of
             (False, s1) \<Rightarrow> refuse WouldBlock s1
           | (True, s1) \<Rightarrow> accept_request data Route s1)"

text \<open>
  \<open>write_copy\<close> copies into a buffer of the session's pool when there is one of a suitable size, into a
  fresh vector otherwise; both branches reserve, admit and post alike.
\<close>

definition write_copy :: "bool \<Rightarrow> bool \<Rightarrow> bytes \<Rightarrow> session \<Rightarrow> send_result \<times> session" where
  "write_copy enable_memory_pool pooled_valid data s =
     (if \<not> alive s \<or> closing s then refuse NotReady s
      else if length data = 0 then refuse InvalidArgument s
      else if length data > MAX_BUFFER_SIZE then refuse TooLarge s
      else if length data \<le> LARGE_BUFFER_THRESHOLD \<and> enable_memory_pool \<and> pooled_valid then
        (case try_reserve_limit_bytes (length data) s of
           (False, s1) \<Rightarrow> refuse WouldBlock s1
         | (True, s1) \<Rightarrow> accept_request data Route s1)
      else
        (case try_reserve_limit_bytes (length data) s of
           (False, s1) \<Rightarrow> refuse WouldBlock s1
         | (True, s1) \<Rightarrow> accept_request data Route s1))"

definition write_shared :: "bytes option \<Rightarrow> session \<Rightarrow> send_result \<times> session" where
  "write_shared data s =
     (if \<not> alive s \<or> closing s then refuse NotReady s
      else case data of
             None \<Rightarrow> refuse InvalidArgument s
           | Some d \<Rightarrow>
               if d = [] then refuse InvalidArgument s
               else if length d > MAX_BUFFER_SIZE then refuse TooLarge s
               else case try_reserve_limit_bytes (length d) s of
                      (False, s1) \<Rightarrow> refuse WouldBlock s1
                    | (True, s1) \<Rightarrow> accept_request d Route s1)"

definition reject_for_pressure :: "nat \<Rightarrow> session \<Rightarrow> send_result \<times> session" where
  "reject_for_pressure added s =
     (Reject WouldBlock,
      s\<lparr>stats := (if bp_strategy s = BestEffort then record_dropped 1 added (stats s)
                  else record_failed_send (stats s))\<rparr>)"

text \<open>The pressure check and reservation of the \<open>try_write\<close> family.\<close>

definition try_admit :: "bytes \<Rightarrow> session \<Rightarrow> send_result \<times> session" where
  "try_admit data s =
     (let added = length data
      in if backpressure_active s \<or> size_add (queue_bytes s) added > bp_high s \<or>
            size_add (size_add (queue_bytes s) (pending_bytes s)) added > bp_limit s
         then reject_for_pressure added s
         else case try_reserve_write_bytes_locked added s of
                (False, s1) \<Rightarrow> reject_for_pressure added s1
              | (True, s1) \<Rightarrow> accept_request data Enqueue s1)"

definition try_write_move :: "bytes \<Rightarrow> session \<Rightarrow> send_result \<times> session" where
  "try_write_move data s =
     (if \<not> alive s \<or> closing s then refuse NotReady s
      else if length data = 0 \<or> length data > MAX_BUFFER_SIZE
      then refuse (if length data = 0 then InvalidArgument else TooLarge) s
      else try_admit data s)"

definition try_write_copy :: "bytes \<Rightarrow> session \<Rightarrow> send_result \<times> session" where
  "try_write_copy data s =
     (if data = [] \<or> length data > MAX_BUFFER_SIZE
      then refuse (if data = [] then InvalidArgument else TooLarge) s
      else try_write_move data s)"

definition try_write_shared :: "bytes option \<Rightarrow> session \<Rightarrow> send_result \<times> session" where
  "try_write_shared data s =
     (if \<not> alive s \<or> closing s then refuse NotReady s
      else case data of
             None \<Rightarrow> refuse InvalidArgument s
           | Some d \<Rightarrow>
               if d = [] then refuse InvalidArgument s
               else if length d > MAX_BUFFER_SIZE then refuse TooLarge s
               else try_admit d s)"

section \<open>Control\<close>

definition poll_write_wait :: "session \<Rightarrow> send_result option" where
  "poll_write_wait s =
     (case wait_ended_by s of
        Some r \<Rightarrow> Some (Reject r)
      | None \<Rightarrow>
          if \<not> alive s \<or> closing s then Some (Reject NotReady)
          else if \<not> backpressure_active s then Some Accept
          else None)"

definition request_stop :: "session \<Rightarrow> session" where
  "request_stop s =
     end_wait CancelledWhileWaiting
       (s\<lparr>accounting := end_ledger ExplicitStop (accounting s), closing := True\<rparr>)"

definition cancel_write_wait :: "session \<Rightarrow> session" where
  "cancel_write_wait s = end_wait CancelledWhileWaiting s"

definition async_stop :: "session \<Rightarrow> session" where
  "async_stop s =
     (let s1 = end_wait NotReady
                 (s\<lparr>accounting := end_ledger ExplicitStop (accounting s), closing := True\<rparr>)
      in s1\<lparr>posted := posted s1 @ [Stop_posted]\<rparr>)"

definition start_session :: "session \<Rightarrow> session" where
  "start_session s = (if alive s then s else s\<lparr>alive := True, posted := posted s @ [Start_posted]\<rparr>)"

text \<open>\<open>cancel\<close> only closes the socket: its pending operations complete with an error.\<close>

definition cancel_session :: "session \<Rightarrow> session" where
  "cancel_session s = s\<lparr>socket_open := False\<rparr>"

definition session_reset_stats :: "session \<Rightarrow> session" where
  "session_reset_stats s =
     s\<lparr>accounting := reset_ledger (accounting s),
       stats := reset_stats (size_add (queue_bytes s) (pending_bytes s)) (stats s)\<rparr>"

definition session_stats :: "int \<Rightarrow> session \<Rightarrow> runtime_stats" where
  "session_stats now s =
     (stats_snapshot (queue_bytes s) (pending_bytes s) (backpressure_active s) now (stats s))
       \<lparr>rs_send_accounting := Some (totals (accounting s))\<rparr>"

definition read_done :: "bool \<Rightarrow> nat \<Rightarrow> session \<Rightarrow> session" where
  "read_done ec n s =
     (let s0 = s\<lparr>reading := False\<rparr>
      in if closing s0 \<or> \<not> alive s0 then s0
         else if ec then do_close s0
         else let s1 = reset_idle_timer s0;
                  s2 = (if n > 0 then s1\<lparr>stats := record_received n (clock s1) (stats s1)\<rparr> else s1)
              in start_read s2)"

text \<open>An expiry that was overtaken by new activity is stale.\<close>

definition idle_expired :: "session \<Rightarrow> session" where
  "idle_expired s =
     (case idle_deadline s of
        None \<Rightarrow> s
      | Some d \<Rightarrow> if d > clock s then s else if \<not> alive s \<or> closing s then s else do_close s)"

definition set_callbacks :: "bool \<Rightarrow> bool \<Rightarrow> bool \<Rightarrow> session \<Rightarrow> session" where
  "set_callbacks ob obp oc s =
     (if closing s \<or> cleanup_done s then s
      else s\<lparr>has_on_bytes := ob, has_on_bp := obp, has_on_close := oc\<rparr>)"

section \<open>Executions\<close>

datatype session_action =
    Start
  | Write_copy bool bool bytes
  | Write_move bytes
  | Write_shared "bytes option"
  | Try_write_copy bytes
  | Try_write_move bytes
  | Try_write_shared "bytes option"
  | Run_strand bool
  | Io_complete bool nat
  | Handshake_complete bool
  | Read_done bool nat
  | Idle_expired
  | Fail_receive
  | Tick nat
  | Cancel
  | Request_stop
  | Cancel_wait
  | Async_stop
  | Reset_stats
  | Set_callbacks bool bool bool

text \<open>
  \<open>Run_strand\<close> runs the oldest posted handler; \<open>Io_complete\<close> is the socket's completion, which posts the completion handler.
  \<open>Fail_receive\<close> is the handler with which the server closes a session whose received data it cannot keep; the strand
  runs it after the start handler, which was posted before the session could be looked up.
\<close>

fun sess_step :: "session_action \<Rightarrow> session \<Rightarrow> session option" where
  "sess_step Start s = Some (start_session s)"
| "sess_step (Write_copy ena valid d) s = Some (snd (write_copy ena valid d s))"
| "sess_step (Write_move d) s = Some (snd (write_move d s))"
| "sess_step (Write_shared d) s = Some (snd (write_shared d s))"
| "sess_step (Try_write_copy d) s = Some (snd (try_write_copy d s))"
| "sess_step (Try_write_move d) s = Some (snd (try_write_move d s))"
| "sess_step (Try_write_shared d) s = Some (snd (try_write_shared d s))"
| "sess_step (Run_strand throws) s =
     (case posted s of [] \<Rightarrow> None | h # hs \<Rightarrow> Some (run_handler throws h (s\<lparr>posted := hs\<rparr>)))"
| "sess_step (Io_complete ec n) s =
     (case io s of
        None \<Rightarrow> None
      | Some b \<Rightarrow> Some (s\<lparr>io := None, posted := posted s @ [Write_done ec n b]\<rparr>))"
| "sess_step (Handshake_complete ec) s =
     (if handshaking s then Some (s\<lparr>handshaking := False, posted := posted s @ [Handshake_done ec]\<rparr>) else None)"
| "sess_step (Read_done ec n) s = (if reading s then Some (read_done ec n s) else None)"
| "sess_step (Tick n) s = Some (s\<lparr>clock := clock s + int n\<rparr>)"
| "sess_step Cancel s = Some (cancel_session s)"
| "sess_step Idle_expired s = Some (idle_expired s)"
| "sess_step Fail_receive s = (if Start_posted \<in> set (posted s) then None else Some (do_close s))"
| "sess_step Request_stop s = Some (request_stop s)"
| "sess_step Cancel_wait s = Some (cancel_write_wait s)"
| "sess_step Async_stop s = Some (async_stop s)"
| "sess_step Reset_stats s = Some (session_reset_stats s)"
| "sess_step (Set_callbacks a b c) s = Some (set_callbacks a b c s)"

inductive sess_reachable :: "session \<Rightarrow> session \<Rightarrow> bool" for s0 where
  init: "sess_reachable s0 s0"
| step: "sess_reachable s0 s \<Longrightarrow> sess_step a s = Some s' \<Longrightarrow> sess_reachable s0 s'"

section \<open>The ledger in a session\<close>

text \<open>The session keeps its ledger consistent, and empty once it is closing.\<close>

definition books_ok :: "session \<Rightarrow> bool" where
  "books_ok s \<longleftrightarrow> good (accounting s) \<and> (closing s \<longrightarrow> live_mset (accounting s) = {#})"

lemma books_ok_cong: "accounting s' = accounting s \<Longrightarrow> closing s' = closing s \<Longrightarrow> books_ok s' = books_ok s"
  by (simp add: books_ok_def)

lemma end_wait_sel [simp]:
  "accounting (end_wait r s) = accounting s" "closing (end_wait r s) = closing s" "alive (end_wait r s) = alive s"
  "cleanup_done (end_wait r s) = cleanup_done s" "posted (end_wait r s) = posted s" "io (end_wait r s) = io s"
  "wire (end_wait r s) = wire s" "tx (end_wait r s) = tx s" "pending (end_wait r s) = pending s"
  "backpressure_active (end_wait r s) = backpressure_active s" "bp_high (end_wait r s) = bp_high s"
  "bp_limit (end_wait r s) = bp_limit s" "close_calls (end_wait r s) = close_calls s"
  "has_on_close (end_wait r s) = has_on_close s"
  by (simp_all add: end_wait_def)

text \<open>What closing does, whatever the state.\<close>

lemma reset_idle_sel [simp]:
  "queue_bytes (reset_idle_timer s) = queue_bytes s"
  "pending_bytes (reset_idle_timer s) = pending_bytes s"
  "inflight_bytes (reset_idle_timer s) = inflight_bytes s"
  "backpressure_active (reset_idle_timer s) = backpressure_active s"
  "bp_high (reset_idle_timer s) = bp_high s" "bp_low (reset_idle_timer s) = bp_low s"
  "bp_limit (reset_idle_timer s) = bp_limit s" "bp_strategy (reset_idle_timer s) = bp_strategy s"
  "tx (reset_idle_timer s) = tx s" "pending (reset_idle_timer s) = pending s"
  "batch (reset_idle_timer s) = batch s" "writing (reset_idle_timer s) = writing s"
  "alive (reset_idle_timer s) = alive s" "closing (reset_idle_timer s) = closing s"
  "cleanup_done (reset_idle_timer s) = cleanup_done s"
  "wait_ended_by (reset_idle_timer s) = wait_ended_by s" "accounting (reset_idle_timer s) = accounting s"
  "stats (reset_idle_timer s) = stats s" "handshaking (reset_idle_timer s) = handshaking s"
  "posted (reset_idle_timer s) = posted s"
  "has_on_bp (reset_idle_timer s) = has_on_bp s" "has_on_close (reset_idle_timer s) = has_on_close s"
  "has_on_bytes (reset_idle_timer s) = has_on_bytes s" "io (reset_idle_timer s) = io s"
  "wire (reset_idle_timer s) = wire s" "bp_log (reset_idle_timer s) = bp_log s"
  "close_calls (reset_idle_timer s) = close_calls s"
  by (simp_all add: reset_idle_timer_def)

lemma start_read_sel [simp]:
  "queue_bytes (start_read s) = queue_bytes s" "pending_bytes (start_read s) = pending_bytes s"
  "inflight_bytes (start_read s) = inflight_bytes s"
  "backpressure_active (start_read s) = backpressure_active s" "bp_high (start_read s) = bp_high s"
  "bp_low (start_read s) = bp_low s" "bp_limit (start_read s) = bp_limit s"
  "bp_strategy (start_read s) = bp_strategy s" "tx (start_read s) = tx s"
  "pending (start_read s) = pending s" "batch (start_read s) = batch s"
  "writing (start_read s) = writing s" "alive (start_read s) = alive s"
  "closing (start_read s) = closing s" "cleanup_done (start_read s) = cleanup_done s"
  "wait_ended_by (start_read s) = wait_ended_by s" "accounting (start_read s) = accounting s"
  "stats (start_read s) = stats s" "handshaking (start_read s) = handshaking s"
  "posted (start_read s) = posted s"
  "has_on_bp (start_read s) = has_on_bp s" "has_on_close (start_read s) = has_on_close s"
  "has_on_bytes (start_read s) = has_on_bytes s" "io (start_read s) = io s"
  "wire (start_read s) = wire s" "bp_log (start_read s) = bp_log s"
  "close_calls (start_read s) = close_calls s"
  by (simp_all add: start_read_def)

lemma do_close_sel:
  "posted (do_close s) = posted s" "io (do_close s) = io s" "wire (do_close s) = wire s"
  "bp_high (do_close s) = bp_high s" "bp_limit (do_close s) = bp_limit s"
  "cleanup_done (do_close s)"
  "tx (do_close s) = (if cleanup_done s then tx s else [])"
  "pending (do_close s) = (if cleanup_done s then pending s else [])"
  "accounting (do_close s) = (if cleanup_done s then accounting s else end_ledger ConnectionLoss (accounting s))"
  "closing (do_close s) = (if cleanup_done s then closing s else True)"
  "close_calls (do_close s) = close_calls s + (if cleanup_done s \<or> \<not> has_on_close s then 0 else 1)"
  by (simp_all add: do_close_def drain_and_clear_backpressure_def Let_def)

lemma books_ok_end: "good (accounting s) \<Longrightarrow> accounting s' = end_ledger c (accounting s) \<Longrightarrow> books_ok s'"
  using end_spec by (simp add: books_ok_def)

lemma books_ok_do_close: "books_ok s \<Longrightarrow> books_ok (do_close s)"
  using end_spec by (cases "cleanup_done s") (auto simp: books_ok_def do_close_sel)

lemma books_ok_do_write:
  assumes "books_ok s"
  shows "books_ok (do_write throws s)"
proof (cases "closing s \<or> \<not> alive s \<or> tx s = [] \<or> writing s")
  case True
  then show ?thesis using assms by (simp add: do_write_def)
next
  case False
  obtain rest b n where t: "take_gather_batch tb_size (tx s) = (rest, b, n)" using prod_cases3 by blast
  have g: "good (snd (begin_batch (map tb_request b) (accounting s)))"
    using begin_batch_spec assms by (simp add: books_ok_def)
  show ?thesis
  proof (cases throws)
    case True
    let ?s1 = "end_wait NotReady (s\<lparr>writing := True, tx := rest, batch := b,
        accounting := end_ledger ConnectionLoss (snd (begin_batch (map tb_request b) (accounting s))),
        closing := True\<rparr>)"
    have "books_ok ?s1" using end_spec [OF g] by (simp add: books_ok_def)
    from books_ok_do_close [OF this] show ?thesis using False True t by (simp add: do_write_def)
  next
    case no_throw: False
    with False t g show ?thesis by (simp add: do_write_def books_ok_def)
  qed
qed

lemma report_backpressure_accounting:
  assumes "report_backpressure queued s = (s', calls, kick)"
  shows "accounting s' = accounting s" "closing s' = closing s" "alive s' = alive s" "writing s' = writing s"
    "batch s' = batch s" "posted s' = posted s" "io s' = io s" "wire s' = wire s" "cleanup_done s' = cleanup_done s"
    "wait_ended_by s' = wait_ended_by s" "close_calls s' = close_calls s" "has_on_close s' = has_on_close s"
    "bp_high s' = bp_high s" "bp_low s' = bp_low s" "bp_limit s' = bp_limit s" "inflight_bytes s' = inflight_bytes s"
  using assms
  by (auto simp: report_backpressure_def flush_pending_into_tx_def Let_def split: if_splits)

text \<open>The state between the state machine and a kicked write.\<close>

definition report_mid :: "nat \<Rightarrow> session \<Rightarrow> session \<times> bool" where
  "report_mid queued s =
     (let s1 = session_observe s;
          (s2, calls, kick) = report_backpressure queued s1;
          s3 = s2\<lparr>stats := (record_backpressure_event ^^ length calls) (stats s2),
                  bp_log := bp_log s2 @ (if has_on_bp s2 then calls else [])\<rparr>
      in (if kick then session_observe s3 else s3, kick))"

lemma session_report_mid:
  "session_report throws queued s =
     (if closing s \<or> \<not> alive s then s
      else case report_mid queued s of
             (s', kick) \<Rightarrow> if kick \<and> \<not> writing s' then do_write throws s' else s')"
proof -
  obtain s2 calls kick where r: "report_backpressure queued (session_observe s) = (s2, calls, kick)"
    using prod_cases3 by blast
  show ?thesis
    by (cases kick) (simp_all add: session_report_def report_mid_def r Let_def)
qed

lemma report_mid_sel:
  assumes "report_mid queued s = (s', kick)"
  shows "accounting s' = accounting s" "closing s' = closing s" "alive s' = alive s" "writing s' = writing s"
    "batch s' = batch s" "posted s' = posted s" "io s' = io s" "wire s' = wire s" "cleanup_done s' = cleanup_done s"
    "wait_ended_by s' = wait_ended_by s" "close_calls s' = close_calls s" "has_on_close s' = has_on_close s"
    "bp_high s' = bp_high s" "bp_low s' = bp_low s" "bp_limit s' = bp_limit s" "inflight_bytes s' = inflight_bytes s"
proof -
  obtain s2 calls k where r: "report_backpressure queued (session_observe s) = (s2, calls, k)"
    using prod_cases3 by blast
  note f = report_backpressure_accounting [OF r]
  let ?s3 = "s2\<lparr>stats := (record_backpressure_event ^^ length calls) (stats s2),
    bp_log := bp_log s2 @ (if has_on_bp s2 then calls else [])\<rparr>"
  have s': "s' = (if k then session_observe ?s3 else ?s3)" 
    using assms by (auto simp: report_mid_def r Let_def split del: if_split)
  show "accounting s' = accounting s" "closing s' = closing s" "alive s' = alive s"
    "writing s' = writing s" "batch s' = batch s" "posted s' = posted s" "io s' = io s" "wire s' = wire s"
    "cleanup_done s' = cleanup_done s" "wait_ended_by s' = wait_ended_by s" "close_calls s' = close_calls s"
    "has_on_close s' = has_on_close s" "bp_high s' = bp_high s" "bp_low s' = bp_low s" "bp_limit s' = bp_limit s"
    "inflight_bytes s' = inflight_bytes s"
    unfolding s' by (simp_all add: f session_observe_def)
qed

lemma books_ok_report: "books_ok s \<Longrightarrow> books_ok (session_report throws queued s)"
proof -
  assume ok: "books_ok s"
  obtain s' kick where m: "report_mid queued s = (s', kick)" by fastforce
  note f = report_mid_sel [OF m]
  have "books_ok s'" using ok by (simp add: books_ok_def f(1,2))
  then show ?thesis using ok books_ok_do_write by (simp add: session_report_mid m)
qed

lemma books_ok_route:
  assumes "books_ok s"
  shows "books_ok (route_enqueued_buffer throws buf added s)"
proof (cases "decide_enqueue added s")
  case Rejected
  let ?l = "discard (tb_request buf) QueuePressure (accounting s)"
  have "good ?l" using assms discard_spec by (simp add: books_ok_def)
  moreover have "live_mset ?l = {#}" if "closing s"
  proof -
    have "find_entry (accounting s) (tb_request buf) = None"
      using that assms live_mset_split by (cases "find_entry (accounting s) (tb_request buf)")
        (fastforce simp: books_ok_def good_def)+
    then show ?thesis using that assms by (simp add: discard_def books_ok_def)
  qed
  ultimately show ?thesis
    using Rejected by (simp add: route_enqueued_buffer_def release_reserved_limit_bytes_def books_ok_report
        books_ok_def [of "s\<lparr>accounting := ?l, stats := x, inflight_bytes := y\<rparr>" for x y] Let_def)
next
  case Pending
  then show ?thesis
    using assms by (simp add: route_enqueued_buffer_def commit_to_pending_def session_observe_def books_ok_def)
next
  case Immediate
  let ?s2 = "session_observe ((commit_to_queue added s)\<lparr>tx := tx (commit_to_queue added s) @ [buf]\<rparr>)"
  have "books_ok ?s2" using assms by (simp add: commit_to_queue_def session_observe_def books_ok_def)
  then have "books_ok (session_report throws (queue_bytes ?s2) ?s2)" by (rule books_ok_report)
  then show ?thesis
    using Immediate books_ok_do_write by (simp add: route_enqueued_buffer_def Let_def)
qed

lemma books_ok_handler:
  assumes "books_ok s"
  shows "books_ok (run_handler throws h s)"
proof (cases h)
  case (Route buf added)
  with assms books_ok_route show ?thesis
    by (simp add: run_handler_def release_reserved_limit_bytes_def books_ok_def)
next
  case (Enqueue buf added)
  let ?s1 = "session_observe (s\<lparr>tx := tx s @ [buf]\<rparr>)"
  have "books_ok ?s1" using assms by (simp add: session_observe_def books_ok_def)
  then have "books_ok (session_report throws (queue_bytes ?s1) ?s1)" by (rule books_ok_report)
  with Enqueue assms books_ok_do_write show ?thesis
    by (simp add: run_handler_def release_reserved_write_bytes_def books_ok_def [of "s\<lparr>queue_bytes := x, stats := y\<rparr>" for x y]
        Let_def) (simp add: books_ok_def)
next
  case (Write_done ec n b)
  let ?l = "complete_batch (map (\<lambda>b. (tb_request b, tb_size b)) (batch s)) (min n b) (accounting s)"
  have g: "good ?l" using assms complete_batch_spec by (simp add: books_ok_def)
  show ?thesis
  proof (cases "closing s \<or> \<not> alive s")
    case True
    then show ?thesis using assms Write_done by (simp add: run_handler_def books_ok_def)
  next
    case open_: False
    show ?thesis
    proof (cases "ec \<or> n \<noteq> b")
      case True
      let ?s1 = "end_wait NotReady (s\<lparr>batch := [], accounting := end_ledger ConnectionLoss ?l, closing := True\<rparr>)"
      have "books_ok ?s1" using end_spec [OF g] by (simp add: books_ok_def)
      from books_ok_do_close [OF this] show ?thesis
        using True open_ Write_done by (simp add: run_handler_def Let_def)
    next
      case False
      let ?s3 = "(release_reserved_write_bytes b (s\<lparr>accounting := ?l, batch := []\<rparr>))\<lparr>stats := record_sent n (stats s)\<rparr>"
      have "books_ok ?s3" using g open_ by (simp add: release_reserved_write_bytes_def books_ok_def)
      from books_ok_report [OF this, of throws "queue_bytes ?s3"]
      have "books_ok ((session_report throws (queue_bytes ?s3) ?s3)\<lparr>writing := False\<rparr>)"
        "books_ok (reset_idle_timer ((session_report throws (queue_bytes ?s3) ?s3)\<lparr>writing := False\<rparr>))"
        by (simp_all add: books_ok_def)
      from this(1) books_ok_do_write [OF this(2), of throws] show ?thesis
        using False open_ Write_done by (simp add: run_handler_def Let_def release_reserved_write_bytes_def)
    qed
  qed
next
  case Stop_posted
  have "books_ok (s\<lparr>has_on_bytes := False, has_on_bp := False, has_on_close := False\<rparr>)"
    using assms by (simp add: books_ok_def)
  from books_ok_do_close [OF this] Stop_posted show ?thesis by (simp add: run_handler_def)
next
  case Start_posted
  with assms show ?thesis by (simp add: run_handler_def books_ok_def)
next
  case (Handshake_done ec)
  have "books_ok (start_read (reset_idle_timer s))" using assms by (simp add: books_ok_def)
  with Handshake_done assms books_ok_do_close show ?thesis by (simp add: run_handler_def)
qed

section \<open>Byte accounting\<close>

fun route_size :: "handler \<Rightarrow> nat" where
  "route_size (Route b n) = n"
| "route_size h = 0"

fun enqueue_size :: "handler \<Rightarrow> nat" where
  "enqueue_size (Enqueue b n) = n"
| "enqueue_size h = 0"

fun done_size :: "handler \<Rightarrow> nat list" where
  "done_size (Write_done ec n b) = [b]"
| "done_size h = []"

definition completions :: "session \<Rightarrow> nat list" where
  "completions s = (case io s of None \<Rightarrow> [] | Some b \<Rightarrow> [b]) @ concat (map done_size (posted s))"

text \<open>
  The counters against the queues. \<open>r\<close> and \<open>q\<close> are the bytes of the handler that is being run,
  already taken off \<open>posted\<close>, that the in-flight and the queue counter still hold.
\<close>

definition acct :: "nat \<Rightarrow> nat \<Rightarrow> session \<Rightarrow> bool" where
  "acct r q s \<longleftrightarrow>
     queue_bytes s = sum_size tb_size (tx s) + sum_size tb_size (batch s) + sum_size enqueue_size (posted s) + q
     \<and> pending_bytes s = sum_size tb_size (pending s)
     \<and> inflight_bytes s = sum_size route_size (posted s) + r
     \<and> queue_bytes s + pending_bytes s + inflight_bytes s \<le> bp_limit s
     \<and> bp_limit s \<le> SIZE_MAX \<and> 0 < bp_high s
     \<and> (pending s \<noteq> [] \<longrightarrow> backpressure_active s)"

definition conn :: "session \<Rightarrow> bool" where
  "conn s \<longleftrightarrow> completions s = (if writing s then [sum_size tb_size (batch s)] else [])
     \<and> (\<not> writing s \<longrightarrow> batch s = [])"

definition handler_ok :: "handler \<Rightarrow> bool" where
  "handler_ok h = (case h of Route b n \<Rightarrow> n = tb_size b \<and> n > 0 | Enqueue b n \<Rightarrow> n = tb_size b \<and> n > 0 | _ \<Rightarrow> True)"

definition is_open :: "session \<Rightarrow> bool" where
  "is_open s \<longleftrightarrow> alive s \<and> \<not> closing s"

text \<open>Between two steps of an open session.\<close>

definition settled :: "session \<Rightarrow> bool" where
  "settled s \<longleftrightarrow> acct 0 0 s \<and> conn s \<and> (\<not> writing s \<longrightarrow> tx s = [])
     \<and> (backpressure_active s \<longrightarrow> queue_bytes s > 0)"

lemma observe_sel [simp]:
  "queue_bytes (session_observe s) = queue_bytes s" "pending_bytes (session_observe s) = pending_bytes s"
  "inflight_bytes (session_observe s) = inflight_bytes s" "tx (session_observe s) = tx s"
  "pending (session_observe s) = pending s" "batch (session_observe s) = batch s"
  "posted (session_observe s) = posted s" "io (session_observe s) = io s" "writing (session_observe s) = writing s"
  "alive (session_observe s) = alive s" "closing (session_observe s) = closing s"
  "bp_high (session_observe s) = bp_high s" "bp_low (session_observe s) = bp_low s"
  "bp_limit (session_observe s) = bp_limit s" "wire (session_observe s) = wire s"
  "backpressure_active (session_observe s) = backpressure_active s" "accounting (session_observe s) = accounting s"
  "wait_ended_by (session_observe s) = wait_ended_by s" "close_calls (session_observe s) = close_calls s"
  "cleanup_done (session_observe s) = cleanup_done s" "has_on_close (session_observe s) = has_on_close s"
  by (simp_all add: session_observe_def)

lemma acct_observe [simp]: "acct r q (session_observe s) = acct r q s"
  by (simp add: acct_def)

lemma conn_observe [simp]: "conn (session_observe s) = conn s"
  by (simp add: conn_def completions_def)

lemma acct_report_mid:
  assumes a: "acct 0 0 s" and m: "report_mid (queue_bytes s) s = (s', kick)"
  shows "acct 0 0 s'" "backpressure_active s' \<longrightarrow> queue_bytes s' > 0"
    "wire s' @ tx s' @ pending s' = wire s @ tx s @ pending s"
proof -
  let ?o = "session_observe s"
  obtain s2 calls k where r: "report_backpressure (queue_bytes ?o) ?o = (s2, calls, k)"
    using prod_cases3 by blast
  have s: "queue_bytes s + pending_bytes s \<le> SIZE_MAX" using a by (simp add: acct_def)
  note f = report_backpressure_accounting [OF r]
  have "acct 0 0 s2 \<and> (backpressure_active s2 \<longrightarrow> queue_bytes s2 > 0) \<and> tx s2 @ pending s2 = tx s @ pending s"
    using a s r
    by (auto simp: report_backpressure_def flush_pending_into_tx_def acct_def Let_def split: if_splits)
  moreover have "s' = (if k then session_observe else id) (s2\<lparr>stats := (record_backpressure_event ^^ length calls) (stats s2),
      bp_log := bp_log s2 @ (if has_on_bp s2 then calls else [])\<rparr>)"
    using m r by (auto simp: report_mid_def Let_def split del: if_split)
  ultimately show "acct 0 0 s'" "backpressure_active s' \<longrightarrow> queue_bytes s' > 0"
    "wire s' @ tx s' @ pending s' = wire s @ tx s @ pending s"
    by (auto simp: acct_def f split: if_splits)
qed

lemma acct_do_write:
  assumes a: "acct 0 0 s" and c: "conn s" and o: "is_open s"
    and act: "backpressure_active s \<longrightarrow> queue_bytes s > 0"
  shows "closing (do_write throws s) \<or> settled (do_write throws s) \<and> is_open (do_write throws s)"
proof (cases "tx s = [] \<or> writing s")
  case True
  then have "do_write throws s = s" by (auto simp: do_write_def)
  with assms True show ?thesis by (auto simp: settled_def)
next
  case False
  obtain rest b n where t: "take_gather_batch tb_size (tx s) = (rest, b, n)" using prod_cases3 by blast
  have "sum_size tb_size (tx s) \<le> SIZE_MAX" using a by (simp add: acct_def)
  note g = take_gather_batch_spec [OF t this]
  show ?thesis
  proof (cases throws)
    case True
    with False o t show ?thesis
      by (simp add: do_write_def is_open_def do_close_sel)
  next
    case no_throw: False
    let ?s = "s\<lparr>writing := True, tx := rest, batch := b, accounting := snd (begin_batch (map tb_request b) (accounting s)),
      io := Some n, wire := wire s @ b\<rparr>"
    have w: "do_write throws s = ?s" using False o t no_throw by (simp add: do_write_def is_open_def)
    have e: "batch s = []" "completions s = []" using c False by (auto simp: conn_def)
    then have d: "io s = None" "concat (map done_size (posted s)) = []"
      by (auto simp: completions_def split: option.splits)
    have "settled ?s"
      using a act e d g(1,2) by (auto simp: settled_def acct_def conn_def completions_def)
    with w o show ?thesis by (simp add: is_open_def)
  qed
qed

lemma acct_report:
  fixes throws
  assumes a: "acct 0 0 s" and c: "conn s" and o: "is_open s"
  defines "r \<equiv> session_report throws (queue_bytes s) s"
  shows "closing r \<or> acct 0 0 r \<and> conn r \<and> is_open r \<and> (backpressure_active r \<longrightarrow> queue_bytes r > 0)
    \<and> (writing s \<longrightarrow> writing r \<and> batch r = batch s)"
proof -
  obtain s' kick where m: "report_mid (queue_bytes s) s = (s', kick)" by fastforce
  note f = report_mid_sel [OF m] and am = acct_report_mid [OF a m]
  have c': "conn s'" using c by (simp add: conn_def completions_def f)
  have o': "is_open s'" using o by (simp add: is_open_def f)
  have r: "r = (if kick \<and> \<not> writing s' then do_write throws s' else s')"
    using o by (simp add: r_def session_report_mid m is_open_def)
  show ?thesis
  proof (cases "kick \<and> \<not> writing s'")
    case True
    with acct_do_write [OF am(1) c' o' am(2), of throws] r f(4) show ?thesis
      by (auto simp: settled_def)
  next
    case False
    with r am c' o' f(4,5) show ?thesis by auto
  qed
qed

definition push_tail :: "bool \<Rightarrow> session \<Rightarrow> session" where
  "push_tail throws s =
     (let r = session_report throws (queue_bytes s) s in if \<not> writing r then do_write throws r else r)"

lemma settled_push_tail:
  assumes "acct 0 0 s" and "conn s" and "is_open s"
  shows "closing (push_tail throws s) \<or> settled (push_tail throws s) \<and> is_open (push_tail throws s)"
proof -
  let ?r = "session_report throws (queue_bytes s) s"
  consider "closing ?r" | "acct 0 0 ?r" "conn ?r" "is_open ?r" "backpressure_active ?r \<longrightarrow> queue_bytes ?r > 0"
    using acct_report [OF assms, of throws] by blast
  then show ?thesis
  proof cases
    case 1
    then show ?thesis by (simp add: push_tail_def Let_def do_write_def)
  next
    case 2
    from acct_do_write [OF 2, of throws] 2 show ?thesis by (auto simp: push_tail_def Let_def settled_def)
  qed
qed

lemma settled_route:
  assumes s0: "settled s0" "is_open s0" "posted s0 = Route b n # hs" "n = tb_size b"
  defines "s \<equiv> s0\<lparr>posted := hs\<rparr>"
  shows "closing (run_handler throws (Route b n) s)
    \<or> settled (run_handler throws (Route b n) s) \<and> is_open (run_handler throws (Route b n) s)"
proof -
  have a: "acct n 0 s" "conn s" "is_open s" "\<not> writing s \<longrightarrow> tx s = []"
    "backpressure_active s \<longrightarrow> queue_bytes s > 0"
    using s0 by (auto simp: s_def settled_def acct_def conn_def completions_def is_open_def)
  have fit: "queue_bytes s + pending_bytes s + n \<le> bp_limit s" "queue_bytes s + n \<le> SIZE_MAX"
    "pending_bytes s + n \<le> SIZE_MAX" "n \<le> inflight_bytes s"
    using a(1) by (auto simp: acct_def)
  have h: "run_handler throws (Route b n) s = route_enqueued_buffer throws b n s"
    using a(3) by (simp add: run_handler_def is_open_def)
  show ?thesis
  proof (cases "backpressure_active s")
    case True
    let ?s1 = "s\<lparr>pending_bytes := pending_bytes s + n, inflight_bytes := inflight_bytes s - n,
      pending := pending s @ [b]\<rparr>"
    have "route_enqueued_buffer throws b n s = session_observe ?s1"
      using True fit by (simp add: route_enqueued_buffer_def decide_enqueue_eq commit_to_pending_def)
    moreover have "settled ?s1" "is_open ?s1"
      using a fit True s0(4) by (auto simp: settled_def acct_def conn_def completions_def is_open_def)
    ultimately show ?thesis using h by (simp add: settled_def is_open_def)
  next
    case False
    let ?s1 = "s\<lparr>queue_bytes := queue_bytes s + n, inflight_bytes := inflight_bytes s - n, tx := tx s @ [b]\<rparr>"
    have "route_enqueued_buffer throws b n s = push_tail throws (session_observe ?s1)"
      using False fit
      by (simp add: route_enqueued_buffer_def decide_enqueue_eq commit_to_queue_def push_tail_def Let_def)
    moreover have "acct 0 0 ?s1" "conn ?s1" "is_open ?s1"
      using a fit False s0(4) by (auto simp: acct_def conn_def completions_def is_open_def)
    ultimately show ?thesis
      using h settled_push_tail [of "session_observe ?s1" throws] by (simp add: is_open_def)
  qed
qed

lemma settled_enqueue:
  assumes s0: "settled s0" "is_open s0" "posted s0 = Enqueue b n # hs" "n = tb_size b"
  defines "s \<equiv> s0\<lparr>posted := hs\<rparr>"
  shows "closing (run_handler throws (Enqueue b n) s)
    \<or> settled (run_handler throws (Enqueue b n) s) \<and> is_open (run_handler throws (Enqueue b n) s)"
proof -
  let ?s1 = "s\<lparr>tx := tx s @ [b]\<rparr>"
  have a: "acct 0 0 ?s1" "conn ?s1" "is_open ?s1"
    using s0 by (auto simp: s_def settled_def acct_def conn_def completions_def is_open_def)
  have "run_handler throws (Enqueue b n) s = push_tail throws (session_observe ?s1)"
    using a(3) by (simp add: run_handler_def is_open_def push_tail_def Let_def)
  with settled_push_tail [of "session_observe ?s1" throws] a show ?thesis by (simp add: is_open_def)
qed

lemma settled_write_done:
  assumes s0: "settled s0" "is_open s0" "posted s0 = Write_done ec n k # hs"
  defines "s \<equiv> s0\<lparr>posted := hs\<rparr>"
  shows "closing (run_handler throws (Write_done ec n k) s)
    \<or> settled (run_handler throws (Write_done ec n k) s) \<and> is_open (run_handler throws (Write_done ec n k) s)"
proof (cases "ec \<or> n \<noteq> k")
  case True
  with s0(2) show ?thesis
    by (auto simp: run_handler_def s_def is_open_def Let_def do_close_sel)
next
  case False
  have w: "writing s0" "completions s0 = [sum_size tb_size (batch s0)]"
    using s0(1,3) by (auto simp: settled_def conn_def completions_def split: if_splits option.splits)
  then have k: "k = sum_size tb_size (batch s0)" "io s0 = None" "concat (map done_size hs) = []"
    using s0(3) by (auto simp: completions_def split: option.splits)
  let ?l = "complete_batch (map (\<lambda>b. (tb_request b, tb_size b)) (batch s0)) k (accounting s0)"
  define s3 where "s3 = s\<lparr>accounting := ?l, batch := [], queue_bytes := queue_bytes s - k,
    stats := record_sent n (stats s)\<rparr>"
  have a: "acct 0 0 s3" "is_open s3" "writing s3" "completions s3 = []" "batch s3 = []"
    using s0 w k by (auto simp: s3_def s_def settled_def acct_def is_open_def completions_def)
  obtain s' kick where m: "report_mid (queue_bytes s3) s3 = (s', kick)" by fastforce
  note f = report_mid_sel [OF m] and am = acct_report_mid [OF a(1) m]
  have rep: "session_report throws (queue_bytes s3) s3 = s'"
    using a(2,3) f(4) by (simp add: session_report_mid m is_open_def)
  let ?s5 = "s'\<lparr>writing := False\<rparr>"
  have a5: "acct 0 0 ?s5" "conn ?s5" "is_open ?s5" "backpressure_active ?s5 \<longrightarrow> queue_bytes ?s5 > 0"
    using am a f by (auto simp: acct_def conn_def completions_def is_open_def)
  let ?s6 = "reset_idle_timer ?s5"
  have a6: "acct 0 0 ?s6" "conn ?s6" "is_open ?s6" "backpressure_active ?s6 \<longrightarrow> queue_bytes ?s6 > 0"
    using a5 by (simp_all add: acct_def conn_def completions_def is_open_def)
  have "run_handler throws (Write_done ec n k) s = do_write throws ?s6"
    using False s0(2) a5(3) rep
    by (simp add: run_handler_def s_def is_open_def Let_def release_reserved_write_bytes_def s3_def)
  with acct_do_write [OF a6] show ?thesis by simp
qed

section \<open>Terminal events\<close>

text \<open>How a session may change: closing, cleaning up and the cause a waiter sees are final.\<close>

definition evolves :: "session \<Rightarrow> session \<Rightarrow> bool" where
  "evolves s s' \<longleftrightarrow>
     (closing s \<longrightarrow> closing s') \<and> (cleanup_done s \<longrightarrow> cleanup_done s')
     \<and> (cleanup_done s' \<longrightarrow> cleanup_done s \<or> closing s')
     \<and> (\<forall>r. wait_ended_by s = Some r \<longrightarrow> wait_ended_by s' = Some r)
     \<and> (closing s' \<longrightarrow> closing s \<or> wait_ended_by s' \<noteq> None)
     \<and> close_calls s \<le> close_calls s'
     \<and> close_calls s' \<le> close_calls s + (if cleanup_done s' \<and> \<not> cleanup_done s then 1 else 0)
     \<and> prefix (wire s) (wire s')"

lemma evolves_refl [simp]: "evolves s s"
  by (simp add: evolves_def)

lemma evolves_trans [trans]:
  assumes "evolves s t" and "evolves t u"
  shows "evolves s u"
proof -
  note d = assms(1) [unfolded evolves_def] assms(2) [unfolded evolves_def]
  have w: "\<forall>r. wait_ended_by s = Some r \<longrightarrow> wait_ended_by u = Some r" using d by blast
  have c: "closing s \<longrightarrow> closing u" "cleanup_done s \<longrightarrow> cleanup_done u"
    "cleanup_done u \<longrightarrow> cleanup_done s \<or> closing u"
    using d by blast+
  have "wait_ended_by t \<noteq> None \<longrightarrow> wait_ended_by u \<noteq> None" using d by (metis option.exhaust option.distinct(1))
  then have e: "closing u \<longrightarrow> closing s \<or> wait_ended_by u \<noteq> None" using d by blast
  have l: "close_calls s \<le> close_calls u" using d by linarith
  have k: "close_calls u \<le> close_calls s + (if cleanup_done u \<and> \<not> cleanup_done s then 1 else 0)"
  proof -
    have "close_calls t \<le> close_calls s + (if cleanup_done t \<and> \<not> cleanup_done s then 1 else 0)"
      "close_calls u \<le> close_calls t + (if cleanup_done u \<and> \<not> cleanup_done t then 1 else 0)"
      "cleanup_done s \<longrightarrow> cleanup_done t" "cleanup_done t \<longrightarrow> cleanup_done u"
      using d by blast+
    then show ?thesis by (cases "cleanup_done s"; cases "cleanup_done t"; cases "cleanup_done u") simp_all
  qed
  have "prefix (wire s) (wire u)" using d prefix_order.trans by blast
  with w c e l k show ?thesis unfolding evolves_def by blast
qed

lemma evolves_cong:
  assumes "closing s' = closing s" and "cleanup_done s' = cleanup_done s" and "wait_ended_by s' = wait_ended_by s"
    and "close_calls s' = close_calls s" and "wire s' = wire s"
  shows "evolves s s'"
  using assms by (simp add: evolves_def)

lemma evolves_closing: "evolves s (end_wait r (s\<lparr>closing := True, accounting := l\<rparr>))"
  by (simp add: evolves_def end_wait_def)

lemma evolves_do_close: "evolves s (do_close s)"
proof (cases "cleanup_done s")
  case True
  then show ?thesis by (simp add: do_close_def)
next
  case False
  then have "\<exists>r. wait_ended_by (do_close s) = Some r \<and> (\<forall>q. wait_ended_by s = Some q \<longrightarrow> r = q)"
    by (auto simp: do_close_def drain_and_clear_backpressure_def Let_def end_wait_def)
  with False show ?thesis by (auto simp: evolves_def do_close_sel)
qed

lemma evolves_do_write: "evolves s (do_write throws s)"
proof (cases "closing s \<or> \<not> alive s \<or> tx s = [] \<or> writing s")
  case True
  then show ?thesis by (simp add: do_write_def)
next
  case False
  obtain rest b n where t: "take_gather_batch tb_size (tx s) = (rest, b, n)" using prod_cases3 by blast
  let ?s1 = "s\<lparr>writing := True, tx := rest, batch := b,
    accounting := snd (begin_batch (map tb_request b) (accounting s))\<rparr>"
  have 1: "evolves s ?s1" by (rule evolves_cong) simp_all
  show ?thesis
  proof (cases throws)
    case True
    let ?s2 = "end_wait NotReady (?s1\<lparr>accounting := end_ledger ConnectionLoss (accounting ?s1), closing := True\<rparr>)"
    have "evolves ?s1 ?s2" by (simp add: evolves_def end_wait_def)
    with 1 have "evolves s (do_close ?s2)" using evolves_trans evolves_do_close by blast
    then show ?thesis using False True t by (simp add: do_write_def)
  next
    case no_throw: False
    have "evolves s (?s1\<lparr>io := Some n, wire := wire ?s1 @ b\<rparr>)" by (simp add: evolves_def)
    then show ?thesis using False no_throw t by (simp add: do_write_def)
  qed
qed

lemma evolves_report: "evolves s (session_report throws q s)"
proof -
  obtain s' kick where m: "report_mid q s = (s', kick)" by fastforce
  note f = report_mid_sel [OF m]
  have "evolves s s'" by (rule evolves_cong) (simp_all add: f)
  then show ?thesis using evolves_trans evolves_do_write by (simp add: session_report_mid m)
qed

lemma evolves_push_tail: "evolves s (push_tail throws s)"
  using evolves_trans [OF evolves_report evolves_do_write] evolves_report by (simp add: push_tail_def Let_def)

lemma evolves_route: "evolves s (route_enqueued_buffer throws b n s)"
proof (cases "decide_enqueue n s")
  case Rejected
  let ?s1 = "release_reserved_limit_bytes n (s\<lparr>accounting := discard (tb_request b) QueuePressure (accounting s),
    stats := record_dropped 1 n (stats s)\<rparr>)"
  have "evolves s ?s1" by (rule evolves_cong) (simp_all add: release_reserved_limit_bytes_def)
  then show ?thesis using Rejected evolves_trans evolves_report by (simp add: route_enqueued_buffer_def Let_def)
next
  case Pending
  then show ?thesis
    by (intro evolves_cong) (simp_all add: route_enqueued_buffer_def commit_to_pending_def Let_def)
next
  case Immediate
  let ?s2 = "session_observe ((commit_to_queue n s)\<lparr>tx := tx (commit_to_queue n s) @ [b]\<rparr>)"
  have "evolves s ?s2" by (rule evolves_cong) (simp_all add: commit_to_queue_def)
  moreover have "route_enqueued_buffer throws b n s = push_tail throws ?s2"
    using Immediate by (simp add: route_enqueued_buffer_def push_tail_def Let_def)
  ultimately show ?thesis using evolves_trans evolves_push_tail by simp
qed

lemma evolves_handler: "evolves s (run_handler throws h s)"
proof (cases h)
  case (Route b n)
  then show ?thesis
    using evolves_route by (simp add: run_handler_def evolves_cong release_reserved_limit_bytes_def)
next
  case (Enqueue b n)
  let ?s1 = "session_observe (s\<lparr>tx := tx s @ [b]\<rparr>)"
  have "evolves s (push_tail throws ?s1)"
    by (rule evolves_trans [OF _ evolves_push_tail]) (rule evolves_cong; simp)
  then show ?thesis
    using Enqueue by (auto simp: run_handler_def push_tail_def Let_def evolves_cong release_reserved_write_bytes_def)
next
  case (Write_done ec n k)
  let ?l = "complete_batch (map (\<lambda>b. (tb_request b, tb_size b)) (batch s)) (min n k) (accounting s)"
  let ?s2 = "end_wait NotReady (s\<lparr>batch := [], accounting := end_ledger ConnectionLoss ?l, closing := True\<rparr>)"
  let ?s3 = "(release_reserved_write_bytes k (s\<lparr>accounting := ?l, batch := []\<rparr>))\<lparr>stats := record_sent n (stats s)\<rparr>"
  let ?s5 = "(session_report throws (queue_bytes ?s3) ?s3)\<lparr>writing := False\<rparr>"
  have "evolves s ?s2" by (simp add: evolves_def end_wait_def)
  then have fail: "evolves s (do_close ?s2)" using evolves_trans evolves_do_close by blast
  have "evolves s ?s3" by (rule evolves_cong) (simp_all add: release_reserved_write_bytes_def)
  also have "evolves ?s3 (session_report throws (queue_bytes ?s3) ?s3)" by (rule evolves_report)
  also have "evolves (session_report throws (queue_bytes ?s3) ?s3) ?s5" by (rule evolves_cong) simp_all
  finally have ok: "evolves s ?s5" .
  have ok6: "evolves s (reset_idle_timer ?s5)" by (rule evolves_trans [OF ok]) (rule evolves_cong; simp)
  have eq: "run_handler throws h s =
      (if closing s \<or> \<not> alive s then s\<lparr>batch := []\<rparr>
       else if ec \<or> n \<noteq> k then do_close ?s2
       else if closing ?s5 \<or> \<not> alive ?s5 then ?s5 else do_write throws (reset_idle_timer ?s5))"
    using Write_done by (simp add: run_handler_def Let_def release_reserved_write_bytes_def)
  have closed: "evolves s (s\<lparr>batch := []\<rparr>)" by (rule evolves_cong) simp_all
  note fin = evolves_trans [OF ok6 evolves_do_write, of throws]
  show ?thesis unfolding eq
    by (cases "closing s \<or> \<not> alive s"; cases "ec \<or> n \<noteq> k"; cases "closing ?s5 \<or> \<not> alive ?s5")
      (simp_all only: if_True if_False simp_thms closed fail ok fin)
next
  case Stop_posted
  let ?s1 = "s\<lparr>has_on_bytes := False, has_on_bp := False, has_on_close := False\<rparr>"
  have "evolves s (do_close ?s1)"
    by (rule evolves_trans [OF _ evolves_do_close]) (rule evolves_cong; simp)
  then show ?thesis using Stop_posted by (simp add: run_handler_def)
next
  case Start_posted
  then show ?thesis by (intro evolves_cong) (simp_all add: run_handler_def)
next
  case (Handshake_done ec)
  have "evolves s (start_read (reset_idle_timer s))" by (rule evolves_cong) simp_all
  then show ?thesis using Handshake_done evolves_do_close by (simp add: run_handler_def)
qed

section \<open>Every step\<close>

lemma do_write_const [simp]:
  "posted (do_write t s) = posted s" "bp_high (do_write t s) = bp_high s" "bp_limit (do_write t s) = bp_limit s"
  by (simp_all add: do_write_def do_close_sel Let_def split: prod.split)

lemma session_report_const [simp]:
  "posted (session_report t q s) = posted s" "bp_high (session_report t q s) = bp_high s"
  "bp_limit (session_report t q s) = bp_limit s"
proof -
  obtain s' kick where m: "report_mid q s = (s', kick)" by fastforce
  note f = report_mid_sel [OF m]
  show "posted (session_report t q s) = posted s" "bp_high (session_report t q s) = bp_high s"
    "bp_limit (session_report t q s) = bp_limit s"
    by (simp_all add: session_report_mid m f)
qed

lemma run_handler_const [simp]:
  "posted (run_handler t h s) = posted s" "bp_high (run_handler t h s) = bp_high s"
  "bp_limit (run_handler t h s) = bp_limit s"
  by (simp_all add: run_handler_def route_enqueued_buffer_def release_reserved_limit_bytes_def
      release_reserved_write_bytes_def commit_to_queue_def commit_to_pending_def do_close_sel Let_def
      split: handler.split enqueue_decision.split)

text \<open>The three plain and the three \<open>try\<close> admissions coincide on equal payloads.\<close>

lemma write_copy_eq: "write_copy ena valid d s = write_move d s"
  by (simp add: write_copy_def write_move_def)

lemma write_shared_eq: "write_shared (Some d) s = write_move d s"
  by (simp add: write_shared_def write_move_def)

lemma try_write_copy_eq: "snd (try_write_copy d s) = snd (try_write_move d s)"
  by (simp add: try_write_copy_def try_write_move_def refuse_def)

lemma try_write_shared_eq: "snd (try_write_shared (Some d) s) = snd (try_write_move d s)"
  by (simp add: try_write_shared_def try_write_move_def refuse_def)

lemma write_shared_None: "\<exists>st. snd (write_shared None s) = s\<lparr>stats := st\<rparr>"
  "\<exists>st. snd (try_write_shared None s) = s\<lparr>stats := st\<rparr>"
  by (auto simp: write_shared_def try_write_shared_def refuse_def)

lemma refused_forms:
  "\<exists>st. snd (refuse r s) = s\<lparr>stats := st\<rparr> \<and> fst (refuse r s) \<noteq> Accept"
  "\<exists>st. snd (reject_for_pressure n s) = s\<lparr>stats := st\<rparr> \<and> fst (reject_for_pressure n s) \<noteq> Accept"
  by (auto simp: refuse_def reject_for_pressure_def)

lemma reserve_limit_cases:
  "try_reserve_limit_bytes n s =
     (if 0 < n \<and> queue_bytes s + pending_bytes s + inflight_bytes s + n \<le> bp_limit s
      then (True, s\<lparr>inflight_bytes := size_add (inflight_bytes s) n\<rparr>) else (False, s))"
  by (cases "n = 0"; cases "n > bp_limit s") (simp_all add: try_reserve_limit_bytes_def limit_fits_iff)

lemma write_move_cases:
  obtains (refused) st where "snd (write_move d s) = s\<lparr>stats := st\<rparr>" "fst (write_move d s) \<noteq> Accept"
  | (admitted) "is_open s" "0 < length d" "fst (write_move d s) = Accept"
      "queue_bytes s + pending_bytes s + inflight_bytes s + length d \<le> bp_limit s"
      "snd (write_move d s) = snd (accept_request d Route (s\<lparr>inflight_bytes := size_add (inflight_bytes s) (length d)\<rparr>))"
proof -
  let ?ok = "0 < length d \<and> queue_bytes s + pending_bytes s + inflight_bytes s + length d \<le> bp_limit s"
  show ?thesis
  proof (cases "is_open s \<and> length d \<noteq> 0 \<and> length d \<le> MAX_BUFFER_SIZE \<and> ?ok")
    case True
    then have eq: "write_move d s = accept_request d Route (s\<lparr>inflight_bytes := size_add (inflight_bytes s) (length d)\<rparr>)"
      unfolding write_move_def reserve_limit_cases by (simp add: is_open_def)
    moreover have "fst (accept_request d Route s') = Accept" for s'
      by (simp add: accept_request_def split: prod.split)
    ultimately show ?thesis using that(2) True by simp
  next
    case False
    then have "\<exists>r. write_move d s = refuse r s"
      unfolding write_move_def reserve_limit_cases
      by (cases "is_open s"; cases "length d = 0"; cases "length d > MAX_BUFFER_SIZE"; cases ?ok)
        (auto simp: is_open_def)
    then show ?thesis using that(1) refused_forms(1) by metis
  qed
qed

lemma reserve_locked_cases:
  "try_reserve_write_bytes_locked n s =
     (if 0 < n \<and> \<not> backpressure_active s \<and> queue_bytes s + n \<le> bp_high s
         \<and> queue_bytes s + pending_bytes s + n + inflight_bytes s \<le> bp_limit s
      then (True, s\<lparr>queue_bytes := size_add (queue_bytes s) n\<rparr>) else (False, s))"
proof -
  have "reserve_fits (queue_bytes s) (pending_bytes s) n (bp_high s) (bp_limit s - inflight_bytes s)
      \<longleftrightarrow> queue_bytes s + n \<le> bp_high s \<and> queue_bytes s + pending_bytes s + n + inflight_bytes s \<le> bp_limit s"
    if "0 < n" "inflight_bytes s \<le> bp_limit s" using that unfolding reserve_fits_iff by linarith
  then show ?thesis
    by (cases "inflight_bytes s \<le> bp_limit s"; cases "n = 0"; cases "backpressure_active s")
      (auto simp: try_reserve_write_bytes_locked_def try_reserve_write_bytes_def)
qed

lemma try_write_move_cases:
  obtains (refused) st where "snd (try_write_move d s) = s\<lparr>stats := st\<rparr>"
  | (admitted) "is_open s" "0 < length d" "\<not> backpressure_active s" "queue_bytes s + length d \<le> bp_high s"
      "queue_bytes s + pending_bytes s + inflight_bytes s + length d \<le> bp_limit s"
      "snd (try_write_move d s) = snd (accept_request d Enqueue (s\<lparr>queue_bytes := size_add (queue_bytes s) (length d)\<rparr>))"
proof -
  let ?early = "backpressure_active s \<or> size_add (queue_bytes s) (length d) > bp_high s \<or>
    size_add (size_add (queue_bytes s) (pending_bytes s)) (length d) > bp_limit s"
  let ?ok = "0 < length d \<and> \<not> backpressure_active s \<and> queue_bytes s + length d \<le> bp_high s
    \<and> queue_bytes s + pending_bytes s + length d + inflight_bytes s \<le> bp_limit s"
  have admit: "try_admit d s = (if ?early then reject_for_pressure (length d) s
      else if ?ok then accept_request d Enqueue (s\<lparr>queue_bytes := size_add (queue_bytes s) (length d)\<rparr>)
      else reject_for_pressure (length d) s)"
    unfolding try_admit_def Let_def reserve_locked_cases by (cases ?early; cases ?ok) auto
  show ?thesis
  proof (cases "is_open s \<and> length d \<noteq> 0 \<and> length d \<le> MAX_BUFFER_SIZE")
    case False
    then have "try_write_move d s = refuse NotReady s
        \<or> try_write_move d s = refuse (if length d = 0 then InvalidArgument else TooLarge) s"
      by (auto simp: try_write_move_def is_open_def)
    then show ?thesis using that(1) refused_forms(1) by metis
  next
    case True
    then have eq: "try_write_move d s = try_admit d s" by (simp add: try_write_move_def is_open_def)
    show ?thesis
    proof (cases "\<not> ?early \<and> ?ok")
      case ok: True
      have "snd (try_write_move d s) = snd (accept_request d Enqueue (s\<lparr>queue_bytes := size_add (queue_bytes s) (length d)\<rparr>))"
        unfolding eq admit using ok by auto
      with True ok show ?thesis using that(2) by (simp add: add_ac)
    next
      case False
      then have "try_write_move d s = reject_for_pressure (length d) s"
        unfolding eq admit by (cases ?early; cases ?ok) auto
      then show ?thesis using that(1) refused_forms(2) by metis
    qed
  qed
qed

definition sess_inv :: "session \<Rightarrow> bool" where
  "sess_inv s \<longleftrightarrow> books_ok s \<and> list_all handler_ok (posted s) \<and> (cleanup_done s \<longrightarrow> closing s)
     \<and> (\<not> closing s \<longrightarrow> settled s \<and> (\<not> alive s \<longrightarrow> posted s = [] \<and> io s = None \<and> \<not> handshaking s))"

lemma settled_cong:
  assumes "bp_queue.truncate s' = bp_queue.truncate s" and "batch s' = batch s" and "posted s' = posted s"
    and "io s' = io s" and "writing s' = writing s"
  shows "settled s' = settled s"
  using assms by (simp add: settled_def acct_def conn_def completions_def bp_queue.defs)

lemma sess_inv_cong:
  assumes "bp_queue.truncate s' = bp_queue.truncate s" and "batch s' = batch s" and "posted s' = posted s"
    and "io s' = io s" and "writing s' = writing s" and "accounting s' = accounting s" and "closing s' = closing s"
    and "alive s' = alive s" and "cleanup_done s' = cleanup_done s" and "handshaking s' = handshaking s"
  shows "sess_inv s' = sess_inv s"
  using assms settled_cong [OF assms(1-5)] by (simp add: sess_inv_def books_ok_def)

lemma sess_inv_stats: "sess_inv s \<Longrightarrow> sess_inv (s\<lparr>stats := st\<rparr>)"
  by (subst sess_inv_cong [of _ s]) (simp_all add: bp_queue.defs)

text \<open>Accepting a request keeps the session settled.\<close>

lemma sess_inv_accept:
  assumes inv: "sess_inv s" and o: "is_open s" and d: "0 < length d" and mk: "mk = Route \<or> mk = Enqueue"
    and fits: "queue_bytes s + pending_bytes s + inflight_bytes s + length d \<le> bp_limit s"
  shows "sess_inv (snd (accept_request d mk
    (if mk = Route then s\<lparr>inflight_bytes := size_add (inflight_bytes s) (length d)\<rparr>
     else s\<lparr>queue_bytes := size_add (queue_bytes s) (length d)\<rparr>)))"
proof -
  obtain rid l where ad: "admit (length d) None (accounting s) = (rid, l)" by fastforce
  have g: "good l" using inv admit_spec(2) [of "accounting s" "length d" None] ad
    by (simp add: sess_inv_def books_ok_def)
  have st: "settled s" using inv o by (simp add: sess_inv_def is_open_def)
  then have ex: "inflight_bytes s + length d \<le> SIZE_MAX" "queue_bytes s + length d \<le> SIZE_MAX"
    using fits by (auto simp: settled_def acct_def)
  have "mk b n \<noteq> Write_done x y z" "done_size (mk b n) = []" for b n x y z using mk by auto
  moreover have "Route \<noteq> Enqueue" by (metis handler.distinct(1))
  ultimately show ?thesis
    using mk
  proof (elim disjE)
    assume "mk = Route"
    with inv o d fits st ex g ad show ?thesis
      by (auto simp: accept_request_def sess_inv_def books_ok_def is_open_def handler_ok_def settled_def acct_def
          conn_def completions_def)
  next
    assume "mk = Enqueue"
    with inv o d fits st ex g ad \<open>Route \<noteq> Enqueue\<close> show ?thesis
      by (auto simp: accept_request_def sess_inv_def books_ok_def is_open_def handler_ok_def settled_def acct_def
          conn_def completions_def)
  qed
qed

lemma settled_control:
  assumes "settled s" and "posted s = h # hs" and "h = Start_posted \<or> h = Handshake_done ec"
  shows "settled (s\<lparr>posted := hs\<rparr>)"
  using assms by (auto simp: settled_def acct_def conn_def completions_def)

lemma sess_inv_handler:
  assumes inv: "sess_inv s" and p: "posted s = h # hs"
  shows "sess_inv (run_handler throws h (s\<lparr>posted := hs\<rparr>))"
proof -
  let ?s = "s\<lparr>posted := hs\<rparr>" and ?r = "run_handler throws h (s\<lparr>posted := hs\<rparr>)"
  have "books_ok ?s" using inv by (simp add: sess_inv_def books_ok_def)
  then have b: "books_ok ?r" by (rule books_ok_handler)
  have h: "list_all handler_ok (posted ?r)" "handler_ok h" using inv p by (auto simp: sess_inv_def)
  have c: "closing ?r \<or> settled ?r \<and> is_open ?r"
  proof (cases "closing s")
    case True
    have "closing ?r"
      using True inv
      by (cases h) (auto simp: run_handler_def release_reserved_limit_bytes_def release_reserved_write_bytes_def
          do_close_sel sess_inv_def)
    then show ?thesis ..
  next
    case False
    then have o: "settled s" "is_open s" using inv p by (auto simp: sess_inv_def is_open_def)
    show ?thesis
    proof (cases h)
      case (Route b n)
      then show ?thesis using settled_route [OF o, of b n hs throws] p h(2) by (simp add: handler_ok_def)
    next
      case (Enqueue b n)
      then show ?thesis using settled_enqueue [OF o, of b n hs throws] p h(2) by (simp add: handler_ok_def)
    next
      case (Write_done ec n k)
      then show ?thesis using settled_write_done [OF o, of ec n k hs throws] p by simp
    next
      case Stop_posted
      then show ?thesis using inv by (auto simp: run_handler_def do_close_sel sess_inv_def)
    next
      case Start_posted
      then have "settled ?s" using settled_control [OF o(1) p] by blast
      then have "settled ?r"
        using Start_posted settled_cong [of ?r ?s] by (simp add: run_handler_def bp_queue.defs)
      then show ?thesis using o(2) Start_posted by (simp add: run_handler_def is_open_def)
    next
      case (Handshake_done ec)
      then have "settled ?s" using settled_control [OF o(1) p] by blast
      then have "settled (start_read (reset_idle_timer ?s))"
        using settled_cong [of "start_read (reset_idle_timer ?s)" ?s] by (simp add: bp_queue.defs)
      then show ?thesis using o(2) Handshake_done inv by (auto simp: run_handler_def is_open_def do_close_sel sess_inv_def)
    qed
  qed
  have "cleanup_done ?r \<longrightarrow> closing ?r"
    using evolves_handler [of ?s throws h] inv by (auto simp: evolves_def sess_inv_def)
  with b h c show ?thesis by (auto simp: sess_inv_def is_open_def)
qed

lemma sess_inv_plain: "sess_inv s \<Longrightarrow> sess_inv (snd (write_move d s))"
  by (cases rule: write_move_cases [of d s]) (use sess_inv_accept [of s d Route] in \<open>auto intro: sess_inv_stats\<close>)

lemma sess_inv_try: "sess_inv s \<Longrightarrow> sess_inv (snd (try_write_move d s))"
proof (cases rule: try_write_move_cases [of d s])
  case (refused st)
  then show "sess_inv s \<Longrightarrow> ?thesis" by (simp add: sess_inv_stats)
next
  case admitted
  have "Enqueue \<noteq> Route" by (metis handler.distinct(1))
  with admitted show "sess_inv s \<Longrightarrow> ?thesis" using sess_inv_accept [of s d Enqueue] by simp
qed

lemma sess_inv_shared:
  "sess_inv s \<Longrightarrow> sess_inv (snd (write_shared d s))" "sess_inv s \<Longrightarrow> sess_inv (snd (try_write_shared d s))"
  by (cases d; use write_shared_None [of s] sess_inv_plain sess_inv_try in
      \<open>fastforce simp: write_shared_eq try_write_shared_eq intro: sess_inv_stats\<close>)+

lemma sess_inv_end:
  assumes "sess_inv s" and "accounting s' = end_ledger c (accounting s)" and "closing s'"
    and "list_all handler_ok (posted s')"
  shows "sess_inv s'"
  using assms end_spec by (simp add: sess_inv_def books_ok_def)

lemma sess_inv_do_close: "sess_inv s \<Longrightarrow> sess_inv (do_close s)"
  by (cases "cleanup_done s") (auto simp: do_close_sel sess_inv_def books_ok_do_close)

lemma sess_inv_timers:
  "sess_inv (reset_idle_timer s) = sess_inv s" "sess_inv (start_read s) = sess_inv s"
  "sess_inv (s\<lparr>reading := x\<rparr>) = sess_inv s" "sess_inv (s\<lparr>clock := t\<rparr>) = sess_inv s"
  "sess_inv (s\<lparr>socket_open := y\<rparr>) = sess_inv s"
  by (rule sess_inv_cong; simp add: bp_queue.defs)+

lemma sess_inv_post:
  assumes inv: "sess_inv s" and h: "h = Start_posted \<or> h = Handshake_done ec"
    and s': "s' = s\<lparr>alive := b, handshaking := x, posted := posted s @ [h]\<rparr>" and b: "closing s \<or> b"
  shows "sess_inv s'"
proof -
  have h0: "route_size h = 0" "enqueue_size h = 0" "done_size h = []" "handler_ok h"
    using h by (auto simp: handler_ok_def)
  have "settled s'" if "settled s"
    using that h0 by (auto simp: s' settled_def acct_def conn_def completions_def)
  then show ?thesis using inv b h0(4) by (auto simp: s' sess_inv_def books_ok_def)
qed

lemma sess_inv_read:
  assumes "sess_inv s"
  shows "sess_inv (read_done ec n s)"
proof -
  let ?s0 = "s\<lparr>reading := False\<rparr>"
  have i: "sess_inv ?s0" using assms by (simp add: sess_inv_timers)
  show ?thesis
    using i sess_inv_do_close [OF i] sess_inv_stats [of "reset_idle_timer ?s0"]
    by (simp add: read_done_def Let_def sess_inv_timers)
qed

lemma sess_inv_io:
  assumes "sess_inv s" and "io s = Some b"
  shows "sess_inv (s\<lparr>io := None, posted := posted s @ [Write_done ec n b]\<rparr>)"
proof -
  have "alive s" if "\<not> closing s" using assms that by (auto simp: sess_inv_def)
  moreover have "settled (s\<lparr>io := None, posted := posted s @ [Write_done ec n b]\<rparr>)" if "settled s"
    using assms(2) that by (auto simp: settled_def acct_def conn_def completions_def split: if_splits)
  ultimately show ?thesis
    using assms by (auto simp: sess_inv_def books_ok_def handler_ok_def)
qed

lemma sess_step_inv:
  assumes inv: "sess_inv s" and st: "sess_step a s = Some s'"
  shows "sess_inv s'"
proof -
  have hp: "list_all handler_ok (posted s)" using inv by (simp add: sess_inv_def)
  show ?thesis
  proof (cases a)
    case (Run_strand throws)
    then show ?thesis using st sess_inv_handler [OF inv] by (auto split: list.splits)
  next
    case (Io_complete ec n)
    then show ?thesis using st sess_inv_io [OF inv] by (auto split: option.splits)
  next
    case Start
    show ?thesis
    proof (cases "alive s")
      case True
      then show ?thesis using Start st inv by (simp add: start_session_def)
    next
      case False
      then have "s' = s\<lparr>alive := True, handshaking := handshaking s, posted := posted s @ [Start_posted]\<rparr>"
        using Start st by (simp add: start_session_def)
      from sess_inv_post [OF inv _ this] show ?thesis by simp
    qed
  next
    case (Handshake_complete ec)
    then have h: "handshaking s"
      "s' = s\<lparr>alive := alive s, handshaking := False, posted := posted s @ [Handshake_done ec]\<rparr>"
      using st by (cases "handshaking s"; simp)+
    have "closing s \<or> alive s" using inv h(1) by (auto simp: sess_inv_def)
    from sess_inv_post [OF inv _ h(2) this] show ?thesis by simp
  next
    case (Read_done ec n)
    then show ?thesis using st sess_inv_read [OF inv] by (auto split: if_splits)
  next
    case Idle_expired
    then show ?thesis using st inv sess_inv_do_close [OF inv] by (auto simp: idle_expired_def split: if_splits option.splits)
  next
    case Fail_receive
    then show ?thesis using st sess_inv_do_close [OF inv] by (auto split: if_splits)
  next
    case Request_stop
    then have s': "s' = request_stop s" using st by simp
    show ?thesis
      unfolding s' using hp by (intro sess_inv_end [OF inv, where c = ExplicitStop]) (simp_all add: request_stop_def)
  next
    case Async_stop
    then have s': "s' = async_stop s" using st by simp
    show ?thesis
      unfolding s' using hp
      by (intro sess_inv_end [OF inv, where c = ExplicitStop]) (simp_all add: async_stop_def Let_def handler_ok_def)
  next
    case Cancel_wait
    then have "s' = s \<or> s' = s\<lparr>wait_ended_by := Some CancelledWhileWaiting\<rparr>"
      using st by (auto simp: cancel_write_wait_def end_wait_def split: if_splits)
    moreover have "sess_inv (s\<lparr>wait_ended_by := r\<rparr>) = sess_inv s" for r
      by (rule sess_inv_cong) (simp_all add: bp_queue.defs)
    ultimately show ?thesis using inv by auto
  next
    case Reset_stats
    have "sess_inv (s\<lparr>accounting := reset_ledger (accounting s)\<rparr>)"
      using inv reset_spec [of "accounting s"] settled_cong [of "s\<lparr>accounting := reset_ledger (accounting s)\<rparr>" s]
        reset_live [of "accounting s"]
      by (auto simp: sess_inv_def books_ok_def bp_queue.defs)
    then show ?thesis using Reset_stats st sess_inv_stats by (auto simp: session_reset_stats_def)
  next
    case (Set_callbacks x y z)
    moreover have "sess_inv (s\<lparr>has_on_bytes := x, has_on_bp := y, has_on_close := z\<rparr>) = sess_inv s"
      by (rule sess_inv_cong) (simp_all add: bp_queue.defs)
    ultimately show ?thesis using st inv by (auto simp: set_callbacks_def split: if_splits)
  qed (use st inv sess_inv_plain [OF inv] sess_inv_try [OF inv] sess_inv_shared [OF inv]
    in \<open>auto simp: write_copy_eq try_write_copy_eq sess_inv_timers cancel_session_def\<close>)
qed

lemma new_session_inv: "0 < high \<Longrightarrow> sess_inv (new_session high idle strategy)"
  using fresh_ledger_good(1)
  by (auto simp: sess_inv_def new_session_def books_ok_def settled_def acct_def conn_def completions_def
      constant_defs SIZE_MAX_def Let_def)

lemma sess_reachable_inv:
  assumes "sess_reachable (new_session high idle strategy) s" and "0 < high"
  shows "sess_inv s"
  using assms by (induction rule: sess_reachable.induct) (simp_all add: new_session_inv sess_step_inv)

end
