(* ===== verification/Session_Properties.thy ===== *)
theory Session_Properties
  imports Tcp_Session
begin

text \<open>
  What a session promises (\<open>src/wirestead/transport/tcp_server/tcp_server_session.cc\<close>): bounded queues,
  progress, exact accounting, final outcomes, and the order of what it writes.
\<close>

section \<open>Order of requests\<close>

fun route_buf :: "handler \<Rightarrow> tracked list" where
  "route_buf (Route b n) = [b]"
| "route_buf h = []"

fun is_enqueue :: "handler \<Rightarrow> bool" where
  "is_enqueue (Enqueue b n) = True"
| "is_enqueue h = False"

definition seq :: "session \<Rightarrow> tracked list" where
  "seq s = wire s @ tx s @ pending s"

definition in_order :: "nat \<Rightarrow> tracked list \<Rightarrow> bool" where
  "in_order n bs \<longleftrightarrow> sorted_wrt (<) (map tb_request bs) \<and> (\<forall>b\<in>set bs. tb_request b \<le> n)"

lemma in_order_prefix: "in_order n (a @ c) \<Longrightarrow> prefix a' a \<Longrightarrow> in_order n (a' @ c)"
  by (auto simp: in_order_def sorted_wrt_append prefix_def)

lemma in_order_mono: "in_order n bs \<Longrightarrow> n \<le> m \<Longrightarrow> in_order m bs"
  by (auto simp: in_order_def)

lemma in_order_snoc: "in_order n bs \<Longrightarrow> tb_request b = Suc n \<Longrightarrow> in_order (Suc n) (bs @ [b])"
  by (auto simp: in_order_def sorted_wrt_append less_Suc_eq_le intro: le_SucI)

text \<open>
  A step on the strand keeps what it has in order, or loses a tail of it by closing, and does not
  take request ids back.
\<close>

definition keeps :: "session \<Rightarrow> session \<Rightarrow> bool" where
  "keeps s s' \<longleftrightarrow> prefix (seq s') (seq s) \<and> next_id (accounting s) \<le> next_id (accounting s')"

lemma keeps_trans: "keeps s t \<Longrightarrow> keeps t u \<Longrightarrow> keeps s u"
  unfolding keeps_def using prefix_order.trans le_trans by blast

lemma keeps_do_close: "books_ok s \<Longrightarrow> keeps s (do_close s)"
  using end_spec [of "accounting s" ConnectionLoss]
  by (auto simp: keeps_def seq_def do_close_sel books_ok_def)

lemma keeps_do_write:
  assumes b: "books_ok s" and len: "sum_size tb_size (tx s) \<le> SIZE_MAX" and cl: "cleanup_done s \<longrightarrow> closing s"
  shows "keeps s (do_write throws s)"
proof (cases "closing s \<or> \<not> alive s \<or> tx s = [] \<or> writing s")
  case True
  then show ?thesis by (simp add: do_write_def keeps_def)
next
  case False
  obtain rest bt n where t: "take_gather_batch tb_size (tx s) = (rest, bt, n)" using prod_cases3 by blast
  note g = take_gather_batch_spec [OF t len]
  let ?l = "snd (begin_batch (map tb_request bt) (accounting s))"
  have l: "good ?l" "next_id ?l = next_id (accounting s)" using begin_batch_spec b by (auto simp: books_ok_def)
  show ?thesis
  proof (cases throws)
    case True
    let ?s2 = "end_wait NotReady (s\<lparr>writing := True, tx := rest, batch := bt,
      accounting := end_ledger ConnectionLoss ?l, closing := True\<rparr>)"
    have e: "good (end_ledger ConnectionLoss ?l)" "next_id (end_ledger ConnectionLoss ?l) = next_id (accounting s)"
      using end_spec [OF l(1)] l(2) by auto
    have "next_id (accounting (do_close ?s2)) = next_id (accounting s)"
      using end_spec [OF e(1)] e(2) by (simp add: do_close_sel)
    then show ?thesis
      using False True t cl by (auto simp: do_write_def keeps_def seq_def do_close_sel)
  next
    case no_throw: False
    with False t g(1) l show ?thesis by (simp add: do_write_def keeps_def seq_def)
  qed
qed

lemma keeps_report:
  assumes a: "acct 0 0 s" and b: "books_ok s" and cl: "cleanup_done s \<longrightarrow> closing s"
  shows "keeps s (session_report throws (queue_bytes s) s)"
proof -
  obtain s' kick where m: "report_mid (queue_bytes s) s = (s', kick)" by fastforce
  note f = report_mid_sel [OF m] and am = acct_report_mid [OF a m]
  have k: "keeps s s'" using am(3) f(1) by (simp add: keeps_def seq_def)
  have "books_ok s'" using b f(1,2) by (simp add: books_ok_def)
  moreover have "sum_size tb_size (tx s') \<le> SIZE_MAX" using am(1) by (simp add: acct_def)
  ultimately have "keeps s (do_write throws s')"
    using k cl f(2,9) by (intro keeps_trans [OF k] keeps_do_write) simp_all
  with k show ?thesis by (auto simp: session_report_mid m keeps_def)
qed

lemma keeps_push_tail:
  assumes a: "acct 0 0 s" and c: "conn s" and o: "is_open s" and b: "books_ok s" and cl: "cleanup_done s \<longrightarrow> closing s"
  shows "keeps s (push_tail throws s)"
proof -
  let ?r = "session_report throws (queue_bytes s) s"
  have k: "keeps s ?r" using a b cl by (rule keeps_report)
  have br: "books_ok ?r" using b by (rule books_ok_report)
  have clr: "cleanup_done ?r \<longrightarrow> closing ?r"
    using evolves_report [of s throws "queue_bytes s"] cl by (auto simp: evolves_def)
  consider "closing ?r" | "acct 0 0 ?r" using acct_report [OF a c o, of throws] by blast
  then show ?thesis
  proof cases
    case 1
    then show ?thesis using k by (simp add: push_tail_def Let_def do_write_def)
  next
    case 2
    then have "sum_size tb_size (tx ?r) \<le> SIZE_MAX" by (simp add: acct_def)
    with keeps_trans [OF k keeps_do_write [OF br _ clr]] k show ?thesis by (simp add: push_tail_def Let_def)
  qed
qed

definition ordered :: "session \<Rightarrow> bool" where
  "ordered s \<longleftrightarrow> sess_inv s \<and> list_all (\<lambda>h. \<not> is_enqueue h) (posted s)
     \<and> in_order (next_id (accounting s)) (seq s @ concat (map route_buf (posted s)))"

lemma ordered_route:
  assumes s0: "ordered s0" "posted s0 = Route b n # hs" "is_open s0"
  shows "prefix (seq (run_handler throws (Route b n) (s0\<lparr>posted := hs\<rparr>))) (seq s0 @ [b])
    \<and> next_id (accounting s0) \<le> next_id (accounting (run_handler throws (Route b n) (s0\<lparr>posted := hs\<rparr>)))"
proof -
  define s where "s = s0\<lparr>posted := hs\<rparr>"
  have inv: "sess_inv s0" "settled s0" "n = tb_size b"
    using s0 by (auto simp: ordered_def sess_inv_def is_open_def handler_ok_def)
  have a: "acct n 0 s" "conn s" "is_open s" "books_ok s" "cleanup_done s \<longrightarrow> closing s"
    using inv s0 by (auto simp: s_def settled_def acct_def conn_def completions_def is_open_def sess_inv_def books_ok_def)
  have fit: "queue_bytes s + pending_bytes s + n \<le> bp_limit s" "queue_bytes s + n \<le> SIZE_MAX"
    "pending_bytes s + n \<le> SIZE_MAX"
    using a(1) by (auto simp: acct_def)
  have h: "run_handler throws (Route b n) s = route_enqueued_buffer throws b n s"
    using a(3) by (simp add: run_handler_def is_open_def)
  show ?thesis
  proof (cases "backpressure_active s")
    case True
    then have "seq (route_enqueued_buffer throws b n s) = seq s @ [b]"
      "accounting (route_enqueued_buffer throws b n s) = accounting s"
      using fit by (simp_all add: route_enqueued_buffer_def decide_enqueue_eq commit_to_pending_def seq_def)
    then show ?thesis using h by (simp add: s_def [symmetric]) (simp add: s_def seq_def)
  next
    case False
    let ?s1 = "session_observe (s\<lparr>queue_bytes := queue_bytes s + n, inflight_bytes := inflight_bytes s - n,
      tx := tx s @ [b]\<rparr>)"
    have "route_enqueued_buffer throws b n s = push_tail throws ?s1"
      using False fit
      by (simp add: route_enqueued_buffer_def decide_enqueue_eq commit_to_queue_def push_tail_def Let_def)
    moreover have "acct 0 0 ?s1" "conn ?s1" "is_open ?s1" "books_ok ?s1" "cleanup_done ?s1 \<longrightarrow> closing ?s1"
      using a fit False inv(3) by (auto simp: acct_def conn_def completions_def is_open_def books_ok_def)
    then have "keeps ?s1 (push_tail throws ?s1)" by (rule keeps_push_tail)
    moreover have "pending s = []" using a(1) False by (auto simp: acct_def)
    then have "seq ?s1 = seq s0 @ [b]" "accounting ?s1 = accounting s0" by (simp_all add: seq_def s_def)
    ultimately show ?thesis using h by (simp add: keeps_def s_def [symmetric])
  qed
qed

lemma keeps_write_done:
  assumes s0: "sess_inv s0" "posted s0 = Write_done ec n k # hs"
  shows "keeps s0 (run_handler throws (Write_done ec n k) (s0\<lparr>posted := hs\<rparr>))"
proof (cases "closing s0 \<or> \<not> alive s0")
  case True
  then show ?thesis by (auto simp: run_handler_def keeps_def seq_def)
next
  case open_: False
  define s where "s = s0\<lparr>posted := hs\<rparr>"
  let ?l = "complete_batch (map (\<lambda>b. (tb_request b, tb_size b)) (batch s)) (min n k) (accounting s)"
  have b: "books_ok s" "good (accounting s)" "settled s0" "\<not> cleanup_done s"
    using s0 open_ by (auto simp: s_def sess_inv_def books_ok_def)
  note l = complete_batch_spec [OF b(2), of "map (\<lambda>b. (tb_request b, tb_size b)) (batch s)" "min n k"]
  show ?thesis
  proof (cases "ec \<or> n \<noteq> k")
    case True
    let ?s2 = "end_wait NotReady (s\<lparr>batch := [], accounting := end_ledger ConnectionLoss ?l, closing := True\<rparr>)"
    have r: "run_handler throws (Write_done ec n k) s = do_close ?s2"
      using True open_ by (simp add: run_handler_def s_def Let_def)
    have e: "books_ok ?s2" "next_id (accounting ?s2) = next_id (accounting s0)"
      using end_spec [of ?l ConnectionLoss] l by (auto simp: books_ok_def s_def)
    from keeps_do_close [OF e(1)] e(2) r show ?thesis
      by (simp add: keeps_def seq_def s_def [symmetric]) (simp add: s_def)
  next
    case False
    have w: "writing s0" "completions s0 = [sum_size tb_size (batch s0)]"
      using b(3) s0(2) by (auto simp: settled_def conn_def completions_def split: if_splits option.splits)
    then have k: "k = sum_size tb_size (batch s0)" using s0(2) by (auto simp: completions_def split: option.splits)
    define s3 where "s3 = s\<lparr>accounting := ?l, batch := [], queue_bytes := queue_bytes s - k,
      stats := record_sent n (stats s)\<rparr>"
    have a: "acct 0 0 s3" "books_ok s3" "cleanup_done s3 \<longrightarrow> closing s3" "writing s3"
      using b s0 w k l open_ by (auto simp: s3_def s_def settled_def acct_def books_ok_def)
    have k3: "keeps s0 s3" using l by (simp add: keeps_def seq_def s3_def s_def)
    obtain s' kick where m: "report_mid (queue_bytes s3) s3 = (s', kick)" by fastforce
    note f = report_mid_sel [OF m] and am = acct_report_mid [OF a(1) m]
    have rep: "session_report throws (queue_bytes s3) s3 = s'"
      using a(4) f(4) open_ by (simp add: session_report_mid m) (simp add: s3_def s_def)
    have k5: "keeps s0 (s'\<lparr>writing := False\<rparr>)"
      using keeps_trans [OF k3 keeps_report [OF a(1-3), of throws]] rep by (simp add: keeps_def seq_def)
    have "keeps (s'\<lparr>writing := False\<rparr>) (do_write throws (reset_idle_timer (s'\<lparr>writing := False\<rparr>)))"
      using am(1) a(2,3) f(1,2,9) keeps_do_write [of "reset_idle_timer (s'\<lparr>writing := False\<rparr>)" throws]
      by (simp add: acct_def books_ok_def keeps_def seq_def)
    from keeps_trans [OF k5 this] k5 False open_ rep show ?thesis
      by (simp add: run_handler_def Let_def release_reserved_write_bytes_def s3_def s_def)
  qed
qed

fun is_try :: "session_action \<Rightarrow> bool" where
  "is_try (Try_write_copy d) = True"
| "is_try (Try_write_move d) = True"
| "is_try (Try_write_shared d) = True"
| "is_try a = False"

fun run_session :: "session_action list \<Rightarrow> session \<Rightarrow> session option" where
  "run_session [] s = Some s"
| "run_session (a # as) s = (case sess_step a s of None \<Rightarrow> None | Some s' \<Rightarrow> run_session as s')"

lemma run_session_reachable: "sess_reachable s0 s \<Longrightarrow> run_session as s = Some s' \<Longrightarrow> sess_reachable s0 s'"
  by (induction as s rule: run_session.induct) (auto split: option.splits intro: sess_reachable.step)

lemma ordered_keeps:
  assumes o: "ordered s" and inv: "sess_inv s'" and k: "keeps s s'"
    and p: "list_all (\<lambda>h. \<not> is_enqueue h) (posted s')"
      "concat (map route_buf (posted s')) = concat (map route_buf (posted s))"
  shows "ordered s'"
proof -
  have "in_order (next_id (accounting s)) (seq s' @ concat (map route_buf (posted s')))"
    using o k p(2) in_order_prefix by (auto simp: ordered_def keeps_def)
  then show ?thesis using inv p(1) k in_order_mono by (auto simp: ordered_def keeps_def)
qed

lemma ordered_handler:
  assumes o: "ordered s" and p: "posted s = h # hs"
  shows "ordered (run_handler throws h (s\<lparr>posted := hs\<rparr>))"
proof -
  let ?r = "run_handler throws h (s\<lparr>posted := hs\<rparr>)"
  have i0: "sess_inv s" using o by (simp add: ordered_def)
  have inv: "sess_inv ?r" using i0 p by (rule sess_inv_handler)
  have ne: "list_all (\<lambda>h. \<not> is_enqueue h) (posted ?r)" "\<not> is_enqueue h" using o p by (auto simp: ordered_def)
  show ?thesis
  proof (cases h)
    case (Route b n)
    have io: "in_order (next_id (accounting s)) ((seq s @ [b]) @ concat (map route_buf hs))"
      using o p Route by (simp add: ordered_def)
    have "prefix (seq ?r) (seq s @ [b]) \<and> next_id (accounting s) \<le> next_id (accounting ?r)"
    proof (cases "is_open s")
      case True
      then show ?thesis using ordered_route [OF o _ True] p Route by simp
    next
      case False
      then show ?thesis
        using Route by (auto simp: run_handler_def is_open_def seq_def release_reserved_limit_bytes_def)
    qed
    then have "in_order (next_id (accounting ?r)) (seq ?r @ concat (map route_buf hs))"
      using in_order_prefix [OF io] in_order_mono by blast
    with inv ne show ?thesis by (simp add: ordered_def)
  next
    case (Write_done ec n k)
    with keeps_write_done [OF i0, of ec n k hs throws] p have "keeps s ?r" by simp
    from ordered_keeps [OF o inv this ne(1)] p Write_done show ?thesis by simp
  next
    case Stop_posted
    have "books_ok (s\<lparr>posted := hs, has_on_bytes := False, has_on_bp := False, has_on_close := False\<rparr>)"
      using i0 by (simp add: sess_inv_def books_ok_def)
    from keeps_do_close [OF this] Stop_posted have "keeps s ?r" by (simp add: run_handler_def keeps_def seq_def)
    from ordered_keeps [OF o inv this ne(1)] p Stop_posted show ?thesis by simp
  next
    case Start_posted
    have "keeps s ?r" using Start_posted by (simp add: run_handler_def keeps_def seq_def)
    from ordered_keeps [OF o inv this ne(1)] p Start_posted show ?thesis by simp
  next
    case (Handshake_done ec)
    have "books_ok (s\<lparr>posted := hs\<rparr>)" using i0 by (simp add: sess_inv_def books_ok_def)
    from keeps_do_close [OF this] Handshake_done have "keeps s ?r" by (simp add: run_handler_def keeps_def seq_def)
    from ordered_keeps [OF o inv this ne(1)] p Handshake_done show ?thesis by simp
  qed (use ne in simp)
qed

lemma ordered_plain:
  assumes o: "ordered s"
  shows "ordered (snd (write_move d s))"
proof (cases rule: write_move_cases [of d s])
  case (refused st)
  then show ?thesis
    using o sess_inv_plain [of s d] by (simp add: ordered_def seq_def)
next
  case admitted
  obtain rid l where ad: "admit (length d) None (accounting s) = (rid, l)" by fastforce
  have "good (accounting s)" using o by (simp add: ordered_def sess_inv_def books_ok_def)
  from admit_spec [OF this, of "length d" None] ad
  have l: "rid = next_id (accounting s) + 1" "next_id l = next_id (accounting s) + 1" by auto
  let ?b = "\<lparr>tb_data = d, tb_request = rid\<rparr>"
  have r: "seq (snd (write_move d s)) = seq s" "posted (snd (write_move d s)) = posted s @ [Route ?b (length d)]"
    "accounting (snd (write_move d s)) = l"
    using admitted(5) ad by (simp_all add: accept_request_def seq_def)
  have io: "in_order (next_id (accounting s)) (seq s @ concat (map route_buf (posted s)))"
    using o by (simp add: ordered_def)
  have "in_order (next_id l) ((seq s @ concat (map route_buf (posted s))) @ [?b])"
    using in_order_snoc [OF io, of ?b] l by simp
  with o r sess_inv_plain [of s d] show ?thesis by (simp add: ordered_def)
qed

lemma ordered_step:
  assumes o: "ordered s" and st: "sess_step a s = Some s'" and a: "\<not> is_try a"
  shows "ordered s'"
proof -
  have i0: "sess_inv s" using o by (simp add: ordered_def)
  have inv: "sess_inv s'" using i0 st by (rule sess_step_inv)
  have g: "good (accounting s)" "books_ok s" using i0 by (auto simp: sess_inv_def books_ok_def)
  note ok = ordered_keeps [OF o inv]
  have ne: "list_all (\<lambda>h. \<not> is_enqueue h) (posted s)" using o by (simp add: ordered_def)
  show ?thesis
  proof (cases a)
    case (Run_strand throws)
    then show ?thesis using st ordered_handler [OF o] by (auto split: list.splits)
  next
    case (Write_shared d)
    with st write_shared_None(1) [of s] ordered_plain [OF o] o inv show ?thesis
      by (cases d) (auto simp: write_shared_eq ordered_def seq_def)
  next
    case (Read_done ec n)
    have r: "keeps s (read_done ec n s)" "posted (read_done ec n s) = posted s"
      using keeps_do_close [of "s\<lparr>reading := False\<rparr>"] g(2)
      by (simp_all add: read_done_def keeps_def seq_def books_ok_def do_close_sel Let_def)
    have "s' = read_done ec n s" using Read_done st by (simp split: if_splits)
    then show ?thesis using ne r by (intro ok) simp_all
  next
    case Idle_expired
    then show ?thesis
      using st ne keeps_do_close [OF g(2)]
      by (intro ok) (auto simp: idle_expired_def do_close_sel keeps_def seq_def split: if_splits option.splits)
  next
    case Fail_receive
    then show ?thesis
      using st ne keeps_do_close [OF g(2)] by (intro ok) (auto simp: do_close_sel split: if_splits)
  next
    case (Handshake_complete ec)
    then show ?thesis using st ne by (intro ok) (auto simp: keeps_def seq_def split: if_splits)
  next
    case Request_stop
    then have "s' = request_stop s" using st by simp
    then show ?thesis
      using ne end_spec [OF g(1), of ExplicitStop] by (intro ok) (simp_all add: request_stop_def keeps_def seq_def)
  next
    case Async_stop
    then have "s' = async_stop s" using st by simp
    then show ?thesis
      using ne end_spec [OF g(1), of ExplicitStop]
      by (intro ok) (simp_all add: async_stop_def keeps_def seq_def Let_def)
  next
    case Reset_stats
    then show ?thesis
      using st ne reset_spec [OF g(1)] by (intro ok) (auto simp: session_reset_stats_def keeps_def seq_def)
  next
    case Cancel_wait
    then have "s' = cancel_write_wait s" using st by simp
    then show ?thesis using ne by (intro ok) (simp_all add: cancel_write_wait_def keeps_def seq_def)
  next
    case (Set_callbacks x y z)
    then show ?thesis using st ne by (intro ok) (auto simp: set_callbacks_def keeps_def seq_def split: if_splits)
  next
    case (Io_complete ec n)
    then show ?thesis using st ne by (intro ok) (auto simp: keeps_def seq_def split: option.splits)
  next
    case Start
    then show ?thesis using st ne by (intro ok) (auto simp: start_session_def keeps_def seq_def split: if_splits)
  next
    case (Tick n)
    then show ?thesis using st ne by (intro ok) (auto simp: keeps_def seq_def)
  next
    case Cancel
    then show ?thesis using st ne by (intro ok) (auto simp: cancel_session_def keeps_def seq_def)
  qed (use st a ordered_plain [OF o] in \<open>auto simp: write_copy_eq\<close>)
qed

lemma ordered_run:
  "ordered s \<Longrightarrow> \<forall>a\<in>set as. \<not> is_try a \<Longrightarrow> run_session as s = Some s' \<Longrightarrow> ordered s'"
  by (induction as s rule: run_session.induct) (auto split: option.splits dest: ordered_step)

lemma new_session_ordered: "0 < high \<Longrightarrow> ordered (new_session high idle strategy)"
  using new_session_inv [of high idle strategy] by (simp add: ordered_def in_order_def seq_def new_session_def Let_def)

section \<open>Steps and terminal events\<close>

lemma evolves_accept: "evolves s (snd (accept_request d mk s))"
  by (rule evolves_cong) (simp_all add: accept_request_def split: prod.split)

lemma evolves_stats: "evolves s (s\<lparr>stats := st\<rparr>)"
  by (rule evolves_cong) simp_all

lemma evolves_write: "evolves s (snd (write_move d s))"
proof (cases rule: write_move_cases [of d s])
  case (refused st)
  then show ?thesis by (simp add: evolves_stats)
next
  case admitted
  have "evolves s (s\<lparr>inflight_bytes := x\<rparr>)" for x by (rule evolves_cong) simp_all
  from evolves_trans [OF this evolves_accept] admitted show ?thesis by simp
qed

lemma evolves_try: "evolves s (snd (try_write_move d s))"
proof (cases rule: try_write_move_cases [of d s])
  case (refused st)
  then show ?thesis by (simp add: evolves_stats)
next
  case admitted
  have "evolves s (s\<lparr>queue_bytes := x\<rparr>)" for x by (rule evolves_cong) simp_all
  from evolves_trans [OF this evolves_accept] admitted show ?thesis by simp
qed

lemma sess_step_evolves:
  assumes "sess_step a s = Some s'"
  shows "evolves s s'"
proof (cases a)
  case (Run_strand t)
  have "evolves s (s\<lparr>posted := hs\<rparr>)" for hs by (rule evolves_cong) simp_all
  from evolves_trans [OF this evolves_handler] show ?thesis
    using assms Run_strand by (auto split: list.splits)
next
  case (Write_shared d)
  with assms write_shared_None(1) [of s] evolves_write evolves_stats show ?thesis
    by (cases d) (auto simp: write_shared_eq)
next
  case (Try_write_shared d)
  with assms write_shared_None(2) [of s] evolves_try evolves_stats show ?thesis
    by (cases d) (auto simp: try_write_shared_eq)
next
  case (Io_complete ec n)
  with assms show ?thesis by (auto split: option.splits intro: evolves_cong)
next
  case (Read_done ec n)
  let ?s0 = "s\<lparr>reading := False\<rparr>"
  have "evolves s (do_close ?s0)" by (rule evolves_trans [OF _ evolves_do_close]) (rule evolves_cong; simp)
  moreover have "evolves s (read_done False n s)" "evolves s ?s0"
    by (rule evolves_cong; simp add: read_done_def Let_def)+
  ultimately show ?thesis using assms Read_done by (cases ec) (simp_all add: read_done_def Let_def split: if_splits)
next
  case Idle_expired
  with assms evolves_do_close show ?thesis by (auto simp: idle_expired_def split: if_splits option.splits)
next
  case Fail_receive
  with assms evolves_do_close show ?thesis by (auto split: if_splits)
next
  case Request_stop
  then have "s' = request_stop s" using assms by simp
  then show ?thesis by (cases "wait_ended_by s") (simp_all add: request_stop_def evolves_def end_wait_def)
next
  case Async_stop
  then have "s' = async_stop s" using assms by simp
  then show ?thesis by (cases "wait_ended_by s") (simp_all add: async_stop_def evolves_def end_wait_def Let_def)
next
  case Cancel_wait
  then have "s' = cancel_write_wait s" using assms by simp
  then show ?thesis by (cases "wait_ended_by s") (simp_all add: cancel_write_wait_def evolves_def end_wait_def)
qed (use assms evolves_write evolves_try in \<open>auto simp: write_copy_eq try_write_copy_eq start_session_def
    session_reset_stats_def set_callbacks_def cancel_session_def split: if_splits intro: evolves_cong\<close>)

lemma sess_reachable_closed:
  assumes "sess_reachable (new_session high idle strategy) s"
  shows "close_calls s \<le> (if cleanup_done s then 1 else 0)" "closing s \<Longrightarrow> wait_ended_by s \<noteq> None"
proof -
  have "close_calls s \<le> (if cleanup_done s then 1 else 0) \<and> (closing s \<longrightarrow> wait_ended_by s \<noteq> None)"
    using assms
  proof (induction rule: sess_reachable.induct)
    case init
    then show ?case by (simp add: new_session_def Let_def)
  next
    case (step s a s')
    note e = sess_step_evolves [OF step.hyps(2), unfolded evolves_def]
    have "wait_ended_by s \<noteq> None \<longrightarrow> wait_ended_by s' \<noteq> None" using e by (metis option.exhaust option.distinct(1))
    moreover have "close_calls s' \<le> close_calls s + (if cleanup_done s' \<and> \<not> cleanup_done s then 1 else 0)"
      "cleanup_done s \<longrightarrow> cleanup_done s'" "closing s' \<longrightarrow> closing s \<or> wait_ended_by s' \<noteq> None"
      using e by blast+
    ultimately show ?case using step.IH by (cases "cleanup_done s"; cases "cleanup_done s'") auto
  qed
  then show "close_calls s \<le> (if cleanup_done s then 1 else 0)" "closing s \<Longrightarrow> wait_ended_by s \<noteq> None" by auto
qed

section \<open>When backpressure becomes active\<close>

lemma active_do_close: "backpressure_active (do_close s) \<Longrightarrow> backpressure_active s"
  by (auto simp: do_close_def drain_and_clear_backpressure_def Let_def split: if_splits)

lemma active_do_write: "backpressure_active (do_write t s) \<Longrightarrow> backpressure_active s"
  by (auto simp: do_write_def Let_def split: prod.splits if_splits dest!: active_do_close)

lemma active_report:
  assumes "q < bp_high s" and "backpressure_active (session_report t q s)"
  shows "backpressure_active s"
proof (rule ccontr)
  assume n: "\<not> backpressure_active s"
  then have "fst (report_mid q s) = session_observe s"
    using assms(1) by (simp add: report_mid_def report_backpressure_def Let_def session_observe_def)
  with assms(2) n show False
    by (auto simp: session_report_mid split: prod.splits if_splits dest!: active_do_write)
qed

lemma active_handler:
  assumes inv: "sess_inv s0" and p: "posted s0 = h # hs" and lim: "bp_limit s0 < bp_high s0"
    and act: "backpressure_active (run_handler t h (s0\<lparr>posted := hs\<rparr>))"
  shows "backpressure_active s0"
proof (cases "is_open s0")
  case False
  then show ?thesis using act
    by (cases h) (auto simp: run_handler_def is_open_def release_reserved_limit_bytes_def
        release_reserved_write_bytes_def dest!: active_do_close)
next
  case True
  then have a: "acct 0 0 s0" "handler_ok h" using inv p by (auto simp: sess_inv_def settled_def is_open_def)
  have q: "queue_bytes s0 < bp_high s0" using a(1) lim by (simp add: acct_def)
  show ?thesis
  proof (cases h)
    case (Route b n)
    have "queue_bytes s0 + pending_bytes s0 + n \<le> bp_limit s0" using a p Route by (simp add: acct_def)
    then show ?thesis
      using act lim Route True a(1)
      by (auto simp: run_handler_def is_open_def route_enqueued_buffer_def decide_enqueue_eq commit_to_queue_def
          commit_to_pending_def Let_def acct_def split: if_splits dest!: active_do_write active_report [rotated])
  next
    case (Enqueue b n)
    then show ?thesis
      using act q True
      by (auto simp: run_handler_def is_open_def Let_def split: if_splits dest!: active_do_write active_report [rotated])
  next
    case (Write_done ec n k)
    then show ?thesis
      using act q True
      by (auto simp: run_handler_def is_open_def Let_def release_reserved_write_bytes_def
          split: if_splits dest!: active_do_write active_do_close active_report [rotated])
  next
    case Stop_posted
    then show ?thesis using act by (auto simp: run_handler_def dest!: active_do_close)
  next
    case Start_posted
    then show ?thesis using act by (auto simp: run_handler_def split: if_splits)
  next
    case (Handshake_done ec)
    then show ?thesis using act by (auto simp: run_handler_def split: if_splits dest!: active_do_close)
  qed
qed

lemma active_accept: "backpressure_active (snd (accept_request d mk s)) = backpressure_active s"
  by (simp add: accept_request_def split: prod.split)

lemma active_write: "backpressure_active (snd (write_move d s)) = backpressure_active s"
  by (cases rule: write_move_cases [of d s]) (simp_all add: active_accept)

lemma active_try: "backpressure_active (snd (try_write_move d s)) = backpressure_active s"
  by (cases rule: try_write_move_cases [of d s]) (simp_all add: active_accept)

lemma limits_accept:
  "bp_limit (snd (accept_request d mk s)) = bp_limit s" "bp_high (snd (accept_request d mk s)) = bp_high s"
  by (simp_all add: accept_request_def split: prod.split)

lemma limits_write:
  "bp_limit (snd (write_move d s)) = bp_limit s" "bp_high (snd (write_move d s)) = bp_high s"
  by (cases rule: write_move_cases [of d s]; simp add: limits_accept)+

lemma limits_try:
  "bp_limit (snd (try_write_move d s)) = bp_limit s" "bp_high (snd (try_write_move d s)) = bp_high s"
  by (cases rule: try_write_move_cases [of d s]; simp add: limits_accept)+

lemma sess_step_limits:
  assumes "sess_step a s = Some s'"
  shows "bp_limit s' = bp_limit s \<and> bp_high s' = bp_high s"
proof (cases a)
  case (Write_shared d)
  with assms write_shared_None(1) [of s] show ?thesis by (cases d) (auto simp: write_shared_eq limits_write)
next
  case (Try_write_shared d)
  with assms write_shared_None(2) [of s] show ?thesis by (cases d) (auto simp: try_write_shared_eq limits_try)
qed (use assms in \<open>auto simp: limits_write limits_try write_copy_eq try_write_copy_eq start_session_def do_close_sel
    session_reset_stats_def set_callbacks_def request_stop_def async_stop_def cancel_write_wait_def end_wait_def
    read_done_def idle_expired_def cancel_session_def Let_def split: option.splits if_splits list.splits\<close>)

lemma active_step:
  assumes inv: "sess_inv s" and st: "sess_step a s = Some s'" and lim: "bp_limit s < bp_high s"
    and n: "\<not> backpressure_active s"
  shows "\<not> backpressure_active s'"
proof (cases a)
  case (Run_strand t)
  then show ?thesis using st n active_handler [OF inv _ lim] by (auto split: list.splits)
next
  case (Write_shared d)
  with st n write_shared_None(1) [of s] show ?thesis by (cases d) (auto simp: write_shared_eq active_write)
next
  case (Try_write_shared d)
  with st n write_shared_None(2) [of s] show ?thesis by (cases d) (auto simp: try_write_shared_eq active_try)
next
  case (Read_done ec k)
  with st n show ?thesis by (auto simp: read_done_def Let_def split: if_splits dest!: active_do_close)
next
  case Idle_expired
  with st n show ?thesis by (auto simp: idle_expired_def split: if_splits option.splits dest!: active_do_close)
next
  case Fail_receive
  with st n show ?thesis by (auto split: if_splits dest!: active_do_close)
qed (use st n in \<open>auto simp: active_write active_try write_copy_eq try_write_copy_eq start_session_def
    session_reset_stats_def set_callbacks_def request_stop_def async_stop_def cancel_write_wait_def end_wait_def
    cancel_session_def Let_def split: option.splits if_splits\<close>)

section \<open>Properties\<close>

lemmas session_eval =
  new_session_def start_session_def write_move_def try_write_move_def try_admit_def accept_request_def
  reject_for_pressure_def refuse_def try_reserve_limit_bytes_def try_reserve_write_bytes_locked_def
  try_reserve_write_bytes_def limit_fits_def reserve_fits_def run_handler_def route_enqueued_buffer_def
  decide_enqueue_def commit_to_queue_def commit_to_pending_def session_observe_def session_report_def
  report_backpressure_def flush_pending_into_tx_def do_write_def take_gather_batch_def kMaxGatherBuffers_def
  kMaxGatherBytes_def release_reserved_write_bytes_def release_reserved_limit_bytes_def constant_defs SIZE_MAX_def
  size_add_def Let_def case_prod_beta reset_idle_timer_def start_read_def

text \<open>The ids of admitted requests, without evaluating the ring.\<close>

lemma next_id_slots [simp]:
  "next_id (set_slot i e l) = next_id l" "next_id (update_totals e f l) = next_id l"
  "next_id (store_entry rid e l) = next_id l" "next_id (snd (begin_locked rid l)) = next_id l"
  by (auto simp: set_slot_def update_totals_def store_entry_def begin_locked_def Let_def split: option.split)

lemma next_id_admit [simp]: "next_id (snd (admit n g l)) = Suc (next_id l)" "fst (admit n g l) = Suc (next_id l)"
  by (simp_all add: admit_def Let_def)

lemma next_id_begin_each: "next_id (fold (\<lambda>rid l. snd (begin_locked rid l)) ids l) = next_id l"
  by (induction ids arbitrary: l) simp_all

lemma next_id_begin [simp]: "next_id (snd (begin_batch ids l)) = next_id l"
  by (simp add: begin_batch_def next_id_begin_each)

lemma next_id_compact: "next_id (compact l) = next_id l"
  by (induction l rule: compact.induct) (subst compact.simps, simp)

lemma next_id_complete [simp]: "next_id (complete_batch xs n l) = next_id l"
  by (induction xs n l rule: complete_batch.induct)
    (simp_all add: Let_def complete_locked_def erase_entry_def next_id_compact split: option.split)

lemma next_id_fresh [simp]: "next_id (new_ledger gs) = 0"
  by (simp add: new_ledger_def)

text \<open>
  C2: The write path is bounded and its counters are exact. In every reachable state of a session that is
  not closing, queued, pending and not yet routed bytes together stay within the hard limit, and the
  counters equal the bytes actually held in the queues, the current batch and the posted handlers.
\<close>

theorem session_bounded:
  assumes "sess_reachable (new_session high idle strategy) s" and "0 < high" and "\<not> closing s"
  shows "queue_bytes s + pending_bytes s + inflight_bytes s \<le> bp_limit s
    \<and> queue_bytes s = sum_size tb_size (tx s) + sum_size tb_size (batch s) + sum_size enqueue_size (posted s)
    \<and> pending_bytes s = sum_size tb_size (pending s)
    \<and> inflight_bytes s = sum_size route_size (posted s)"
  using sess_reachable_inv [OF assms(1,2)] assms(3) by (simp add: sess_inv_def settled_def acct_def)

theorem session_bounded_witness:
  "\<exists>s. run_session [Start, Run_strand False, Write_move [1, 2, 3, 4]] (new_session 8 0 Reliable) = Some s \<and> \<not> closing s
     \<and> inflight_bytes s = 4 \<and> queue_bytes s + pending_bytes s + inflight_bytes s \<le> bp_limit s"
proof -
  obtain s where r: "run_session [Start, Run_strand False, Write_move [1, 2, 3, 4]] (new_session 8 0 Reliable) = Some s"
    and f: "\<not> closing s" "inflight_bytes s = 4"
    by (simp add: session_eval)
  have "sess_reachable (new_session 8 0 Reliable) s"
    using run_session_reachable [OF sess_reachable.init r] .
  from session_bounded [OF this _ f(1)] r f show ?thesis by auto
qed

text \<open>
  C17: No stall. While an open session holds anything to send, or is under backpressure, a write is in
  progress or the strand still has work, so the session will move again without a new call.
\<close>

theorem session_never_stalls:
  assumes "sess_reachable (new_session high idle strategy) s" and "0 < high" and "is_open s"
    and "tx s \<noteq> [] \<or> pending s \<noteq> [] \<or> backpressure_active s \<or> inflight_bytes s > 0"
  shows "io s \<noteq> None \<or> posted s \<noteq> []"
proof (rule ccontr)
  assume "\<not> ?thesis"
  then have idle: "io s = None" "posted s = []" by auto
  have st: "settled s" using sess_reachable_inv [OF assms(1,2)] assms(3) by (simp add: sess_inv_def is_open_def)
  then have "\<not> writing s" using idle by (auto simp: settled_def conn_def completions_def)
  with st idle assms(4) show False by (auto simp: settled_def conn_def acct_def)
qed

theorem session_never_stalls_witness:
  "\<exists>s. run_session [Start, Run_strand False, Write_move [1, 2, 3, 4], Run_strand False] (new_session 4 0 Reliable) = Some s
     \<and> backpressure_active s \<and> io s = Some 4 \<and> (io s \<noteq> None \<or> posted s \<noteq> [])"
proof -
  obtain s where r: "run_session [Start, Run_strand False, Write_move [1, 2, 3, 4], Run_strand False] (new_session 4 0 Reliable) = Some s"
    and f: "is_open s" "backpressure_active s" "io s = Some 4"
    by (simp add: session_eval is_open_def)
  have t: "sess_reachable (new_session 4 0 Reliable) s"
    using run_session_reachable [OF sess_reachable.init r] .
  from session_never_stalls [OF t _ f(1)] r f show ?thesis by auto
qed

text \<open>
  C28: Exact books. In every reachable state the requests and bytes accepted since the last reset of the
  statistics are those written, those lost and those outstanding, and once the session is closing
  nothing is outstanding any more: every accepted request has been given its outcome.
\<close>

theorem session_accounts_for_every_request:
  assumes "sess_reachable (new_session high idle strategy) s" and "0 < high"
  shows "accepted (totals (accounting s)) = accounted (totals (accounting s))
    \<and> (closing s \<longrightarrow> outstanding (totals (accounting s)) = no_requests)"
proof -
  have "books_ok s" using sess_reachable_inv [OF assms] by (simp add: sess_inv_def)
  then show ?thesis by (auto simp: books_ok_def good_def books_def balanced_def totals_of_def no_requests_def)
qed

theorem session_accounts_for_every_request_witness:
  "\<exists>s. run_session [Start, Run_strand False, Write_move [1, 2, 3, 4], Async_stop] (new_session 8 0 Reliable) = Some s \<and> closing s
     \<and> accepted (totals (accounting s)) = accounted (totals (accounting s))
     \<and> outstanding (totals (accounting s)) = no_requests"
proof -
  obtain s where r: "run_session [Start, Run_strand False, Write_move [1, 2, 3, 4], Async_stop] (new_session 8 0 Reliable) = Some s"
    and f: "closing s"
    by (simp add: session_eval async_stop_def end_wait_def)
  have t: "sess_reachable (new_session 8 0 Reliable) s"
    using run_session_reachable [OF sess_reachable.init r] .
  from session_accounts_for_every_request [OF t] r f show ?thesis by auto
qed

text \<open>
  C30: Terminal events are final. Along every step a closing session stays closing, the verdict of a
  write wait never changes once given, what has been handed to the socket is only extended, and
  \<open>on_close\<close> has been called at most once in any reachable state, and only after cleanup.
\<close>

theorem session_end_is_final:
  assumes "sess_reachable (new_session high idle strategy) s" and "sess_step a s = Some s'"
  shows "(closing s \<longrightarrow> closing s') \<and> (closing s' \<longrightarrow> poll_write_wait s' \<noteq> None)
    \<and> (\<forall>r. wait_ended_by s = Some r \<longrightarrow> poll_write_wait s' = Some (Reject r))
    \<and> prefix (wire s) (wire s') \<and> close_calls s' \<le> (if cleanup_done s' then 1 else 0)"
proof -
  have e: "evolves s s'" using assms(2) by (rule sess_step_evolves)
  have "sess_reachable (new_session high idle strategy) s'" using assms by (rule sess_reachable.step)
  from sess_reachable_closed [OF this] e show ?thesis
    by (auto simp: evolves_def poll_write_wait_def split: option.splits)
qed

theorem session_end_is_final_witness:
  "\<exists>s. run_session [Start, Run_strand False, Handshake_complete False, Run_strand False,
       Set_callbacks True True True, Read_done True 0] (new_session 8 0 Reliable) = Some s
     \<and> close_calls s = 1 \<and> closing (async_stop s) \<and> close_calls (async_stop s) \<le> 1"
proof -
  obtain s where r: "run_session [Start, Run_strand False, Handshake_complete False, Run_strand False,
       Set_callbacks True True True, Read_done True 0] (new_session 8 0 Reliable) = Some s"
    and f: "closing s" "close_calls s = 1" "cleanup_done s"
    by (simp add: session_eval set_callbacks_def read_done_def do_close_def end_wait_def drain_and_clear_backpressure_def)
  have t: "sess_reachable (new_session 8 0 Reliable) s"
    using run_session_reachable [OF sess_reachable.init r] .
  from session_end_is_final [OF t, of Async_stop] have "closing (async_stop s)"
    "close_calls (async_stop s) \<le> (if cleanup_done (async_stop s) then 1 else 0)"
    using f by auto
  then have "close_calls (async_stop s) \<le> 1" by (simp split: if_splits)
  with r f \<open>closing (async_stop s)\<close> show ?thesis by auto
qed

text \<open>
  C29: First in, first out. In any run that uses the plain \<open>write\<close> family only, requests reach the socket in
  the order of their acceptance, whatever the interleaving of calls, completions, backpressure and errors.
\<close>

theorem session_fifo_plain:
  assumes "run_session as (new_session high idle strategy) = Some s" and "0 < high" and "\<forall>a\<in>set as. \<not> is_try a"
  shows "sorted_wrt (<) (map tb_request (wire s @ tx s @ pending s))"
  using ordered_run [OF new_session_ordered [OF assms(2)] assms(3,1)]
  by (auto simp: ordered_def in_order_def seq_def sorted_wrt_append)

theorem session_fifo_plain_witness:
  "\<exists>s. run_session [Start, Run_strand False, Write_move [1, 2, 3, 4], Write_move [5], Run_strand False, Run_strand False] (new_session 4 0 Reliable) = Some s
     \<and> map tb_request (wire s @ tx s @ pending s) = [1, 2]
     \<and> sorted_wrt (<) (map tb_request (wire s @ tx s @ pending s))"
proof -
  let ?as = "[Start, Run_strand False, Write_move [1, 2, 3, 4], Write_move [5], Run_strand False, Run_strand False]"
  obtain s where r: "run_session ?as (new_session 4 0 Reliable) = Some s"
    and f: "map tb_request (wire s @ tx s @ pending s) = [1, 2]"
    by (simp add: session_eval)
  from session_fifo_plain [OF r] r f show ?thesis by auto
qed


text \<open>
  C32: A threshold above the hard limit switches backpressure off. If the configured threshold exceeds
  64 MiB (configurations allow up to 100 MiB), the hard limit is below the threshold, and then no
  reachable open session ever reports backpressure: a writer is refused without ever having been told to wait.
\<close>

theorem session_high_threshold_disables_backpressure:
  assumes "sess_reachable (new_session high idle strategy) s" and "MAX_BUFFER_SIZE < high" and "is_open s"
  shows "\<not> backpressure_active s \<and> poll_write_wait s \<noteq> None"
proof -
  have h: "0 < high" using assms(2) by simp
  have "\<not> backpressure_active s \<and> bp_limit s < bp_high s"
    using assms(1)
  proof (induction rule: sess_reachable.induct)
    case init
    then show ?case using assms(2) by (simp add: new_session_def Let_def)
  next
    case (step s a s')
    have "bp_limit s' = bp_limit s \<and> bp_high s' = bp_high s" using step.hyps(2) by (rule sess_step_limits)
    with active_step [OF sess_reachable_inv [OF step.hyps(1) h] step.hyps(2)] step.IH show ?case by simp
  qed
  then show ?thesis by (simp add: poll_write_wait_def split: option.split)
qed

theorem session_high_threshold_disables_backpressure_witness:
  "\<exists>s. run_session [Start, Run_strand False] (new_session 67108865 0 Reliable) = Some s \<and> \<not> backpressure_active s
     \<and> poll_write_wait s \<noteq> None"
proof -
  obtain s where r: "run_session [Start, Run_strand False] (new_session 67108865 0 Reliable) = Some s" and o: "is_open s"
    by (simp add: session_eval is_open_def)
  have t: "sess_reachable (new_session 67108865 0 Reliable) s"
    using run_session_reachable [OF sess_reachable.init r] .
  have "MAX_BUFFER_SIZE < 67108865" by (simp add: constant_defs)
  from session_high_threshold_disables_backpressure [OF t this o] r show ?thesis by blast
qed

end
