(* ===== verification/Input_Validator.thy ===== *)
theory Input_Validator
  imports Wire_Prelude Constants
begin

text \<open>
  \<open>InputValidator\<close> (\<open>src/wirestead/util/input_validator.hpp\<close>, \<open>.cc\<close>): the predicates on hosts, socket
  paths and device names, and the checks that throw a \<open>ValidationException\<close>.

  Boost.Asio's address parsers are parameters. \<open>v4\<close> is \<open>make_address_v4\<close> followed by \<open>to_string\<close>
  (\<open>None\<close> for an error code), \<open>v6\<close> says whether \<open>make_address_v6\<close> succeeds. Characters are those of the
  C locale: \<open>isalnum\<close> and \<open>isdigit\<close> accept ASCII letters and digits only.
\<close>

section \<open>Characters and searching\<close>

definition char_code :: "char \<Rightarrow> nat" where
  "char_code c = of_char c"

definition isdigit :: "char \<Rightarrow> bool" where
  "isdigit c \<longleftrightarrow> 48 \<le> char_code c \<and> char_code c \<le> 57"

definition isalnum :: "char \<Rightarrow> bool" where
  "isalnum c \<longleftrightarrow> isdigit c \<or> 65 \<le> char_code c \<and> char_code c \<le> 90 \<or> 97 \<le> char_code c \<and> char_code c \<le> 122"

text \<open>\<open>find\<close> of a character from a position, \<open>None\<close> for \<open>npos\<close>.\<close>

fun find_char :: "char \<Rightarrow> string \<Rightarrow> nat option" where
  "find_char c [] = None"
| "find_char c (x # xs) = (if x = c then Some 0 else map_option Suc (find_char c xs))"

definition find_from :: "char \<Rightarrow> string \<Rightarrow> nat \<Rightarrow> nat option" where
  "find_from c s start = map_option ((+) start) (find_char c (drop start s))"

lemma find_char_bound: "find_char c s = Some i \<Longrightarrow> i < length s"
  by (induction s arbitrary: i) (auto split: if_splits)

lemma find_from_bound: "find_from c s start = Some i \<Longrightarrow> start \<le> i \<and> i < length s"
  using find_char_bound [of c "drop start s"] by (fastforce simp: find_from_def)

definition starts_with :: "string \<Rightarrow> string \<Rightarrow> bool" where
  "starts_with s p \<longleftrightarrow> length s \<ge> length p \<and> take (length p) s = p"

section \<open>Hosts\<close>

definition is_valid_ipv4 :: "(string \<Rightarrow> string option) \<Rightarrow> string \<Rightarrow> bool" where
  "is_valid_ipv4 v4 address =
     (if address = [] then False
      else case v4 address of None \<Rightarrow> False | Some printed \<Rightarrow> printed = address)"

definition is_valid_ipv6 :: "(string \<Rightarrow> bool) \<Rightarrow> string \<Rightarrow> bool" where
  "is_valid_ipv6 v6 address =
     (if find_from CHR ''['' address 0 \<noteq> None \<or> find_from CHR '']'' address 0 \<noteq> None then False else v6 address)"

definition valid_label :: "string \<Rightarrow> bool" where
  "valid_label label =
     (if label = [] \<or> length label > 63 then False
      else if hd label = CHR ''-'' \<or> last label = CHR ''-'' then False
      else list_all (\<lambda>c. isalnum c \<or> c = CHR ''-'') label)"

text \<open>The scan over the labels from \<open>start\<close>.\<close>

function hostname_labels :: "string \<Rightarrow> nat \<Rightarrow> bool" where
  "hostname_labels hostname start =
     (case find_from CHR ''.'' hostname start of
        Some end_pos \<Rightarrow>
          if valid_label (take (end_pos - start) (drop start hostname))
          then hostname_labels hostname (end_pos + 1) else False
      | None \<Rightarrow> valid_label (drop start hostname))"
  by pat_completeness auto
termination by (relation "measure (\<lambda>(h, start). length h - start)") (auto dest: find_from_bound)

declare hostname_labels.simps [simp del]

definition is_valid_hostname :: "string \<Rightarrow> bool" where
  "is_valid_hostname hostname =
     (if hostname = [] \<or> length hostname > MAX_HOSTNAME_LENGTH then False
      else if hd hostname = CHR ''-'' \<or> last hostname = CHR ''-'' then False
      else hostname_labels hostname 0)"

definition is_valid_host :: "(string \<Rightarrow> string option) \<Rightarrow> (string \<Rightarrow> bool) \<Rightarrow> string \<Rightarrow> bool" where
  "is_valid_host v4 v6 host =
     (if is_valid_ipv4 v4 host then True
      else if is_valid_ipv6 v6 host then True
      else if is_valid_hostname host then True else False)"

section \<open>Paths and devices\<close>

definition is_valid_uds_path :: "string \<Rightarrow> bool" where
  "is_valid_uds_path path =
     (if path = [] \<or> length path > MAX_UDS_PATH_LENGTH then False
      else find_from (CHR 0x00) path 0 = None)"

text \<open>\<open>std::stoi\<close> on a non-empty string of digits: it throws when the value does not fit an \<open>int\<close>.\<close>

definition digits_value :: "string \<Rightarrow> int" where
  "digits_value ds = foldl (\<lambda>v c. 10 * v + (int (char_code c) - 48)) 0 ds"

definition stoi :: "string \<Rightarrow> int option" where
  "stoi ds = (let v = digits_value ds in if v > 2 ^ 31 - 1 then None else Some v)"

definition is_valid_device_path :: "string \<Rightarrow> bool" where
  "is_valid_device_path device =
     (if device = [] then False
      else if starts_with device ''/dev/'' then
        list_all (\<lambda>c. isalnum c \<or> c = CHR ''/'' \<or> c = CHR ''_'' \<or> c = CHR ''-'') device
      else if length device \<ge> 4 \<and> take 3 device = ''COM'' then
        let port_num = drop 3 device
        in if port_num = [] \<or> \<not> list_all isdigit port_num then False
           else case stoi port_num of None \<Rightarrow> False | Some port \<Rightarrow> port \<ge> 1 \<and> port \<le> 255
      else device \<in> {''NUL'', ''CON'', ''PRN'', ''AUX'', ''LPT1'', ''LPT2'', ''LPT3''})"

section \<open>Checks that throw\<close>

text \<open>\<open>Inl\<close> is the \<open>ValidationException\<close> with the name of the field.\<close>

definition validate_non_empty_string :: "string \<Rightarrow> string \<Rightarrow> string + unit" where
  "validate_non_empty_string s field = (if s = [] then Inl field else Inr ())"

definition validate_string_length :: "string \<Rightarrow> nat \<Rightarrow> string \<Rightarrow> string + unit" where
  "validate_string_length s max_length field = (if length s > max_length then Inl field else Inr ())"

definition validate_positive_number :: "int \<Rightarrow> string \<Rightarrow> string + unit" where
  "validate_positive_number v field = (if v \<le> 0 then Inl field else Inr ())"

definition validate_range :: "int \<Rightarrow> int \<Rightarrow> int \<Rightarrow> string \<Rightarrow> string + unit" where
  "validate_range v lo hi field = (if v < lo \<or> v > hi then Inl field else Inr ())"

definition validate_retry_count :: "int \<Rightarrow> string + unit" where
  "validate_retry_count n =
     (if n = DEFAULT_MAX_RETRIES then Inr ()
      else if n < 0 \<or> n > MAX_RETRIES_LIMIT then Inl ''retry_count'' else Inr ())"

definition validate_port :: "16 word \<Rightarrow> string + unit" where
  "validate_port p = (if p = 0 then Inl ''port'' else Inr ())"

section \<open>Labels of a host name\<close>

text \<open>The reference: cut at every dot.\<close>

fun split_dots :: "string \<Rightarrow> string list" where
  "split_dots [] = [[]]"
| "split_dots (c # cs) =
     (if c = CHR ''.'' then [] # split_dots cs
      else case split_dots cs of [] \<Rightarrow> [[c]] | l # ls \<Rightarrow> (c # l) # ls)"

lemma split_dots_ne: "split_dots s \<noteq> []"
  by (induction s) (auto split: list.splits)

lemma split_dots_none: "find_char CHR ''.'' s = None \<Longrightarrow> split_dots s = [s]"
  by (induction s) (auto split: if_splits)

lemma split_dots_some:
  "find_char CHR ''.'' s = Some i \<Longrightarrow> split_dots s = take i s # split_dots (drop (i + 1) s)"
  by (induction s arbitrary: i) (auto split: if_splits list.splits simp: split_dots_ne)

lemma hostname_labels_split: "hostname_labels h start = list_all valid_label (split_dots (drop start h))"
proof (induction h start rule: hostname_labels.induct)
  case (1 h start)
  show ?case
  proof (cases "find_char CHR ''.'' (drop start h)")
    case None
    then show ?thesis by (simp add: hostname_labels.simps find_from_def split_dots_none)
  next
    case (Some i)
    then have f: "find_from CHR ''.'' h start = Some (start + i)" by (simp add: find_from_def)
    from 1 [OF f] split_dots_some [OF Some] show ?thesis
      by (simp add: hostname_labels.simps [of h start] f ac_simps)
  qed
qed

definition rfc1123_label :: "string \<Rightarrow> bool" where
  "rfc1123_label l \<longleftrightarrow> 1 \<le> length l \<and> length l \<le> 63 \<and> hd l \<noteq> CHR ''-'' \<and> last l \<noteq> CHR ''-''
     \<and> (\<forall>c\<in>set l. isalnum c \<or> c = CHR ''-'')"

lemma valid_label_rfc: "valid_label l = rfc1123_label l"
  by (cases l) (auto simp: valid_label_def rfc1123_label_def list_all_iff)

lemma split_dots_hd: "hd (split_dots s) = takeWhile (\<lambda>c. c \<noteq> CHR ''.'') s"
  by (induction s) (auto split: list.splits simp: split_dots_ne)

lemma hd_hyphen: "s \<noteq> [] \<Longrightarrow> hd s = CHR ''-'' \<Longrightarrow> hd (hd (split_dots s)) = CHR ''-'' \<and> hd (split_dots s) \<noteq> []"
  by (cases s) (auto split: list.splits)

lemma last_hyphen:
  "s \<noteq> [] \<Longrightarrow> last s = CHR ''-'' \<Longrightarrow> last (split_dots s) \<noteq> [] \<and> last (last (split_dots s)) = CHR ''-''"
proof (induction s)
  case (Cons c cs)
  then show ?case
  proof (cases "cs = []")
    case False
    obtain l ls where s: "split_dots cs = l # ls" using split_dots_ne [of cs] by (cases "split_dots cs") auto
    from Cons False have "last (split_dots cs) \<noteq> []" "last (last (split_dots cs)) = CHR ''-''" by auto
    with s show ?thesis by (auto split: if_splits)
  qed auto
qed simp

section \<open>Properties\<close>

text \<open>
  C35: Host names are exactly those of RFC 1123: one to 253 characters, and every label between dots has
  one to 63 letters, digits and hyphens and neither starts nor ends with a hyphen. The index scan and
  the extra checks on the ends of the whole name accept and reject nothing else.
\<close>

theorem is_valid_hostname_rfc1123:
  "is_valid_hostname h \<longleftrightarrow>
     1 \<le> length h \<and> length h \<le> 253 \<and> list_all rfc1123_label (split_dots h)"
proof (cases "h = []")
  case False
  have "\<not> list_all valid_label (split_dots h)" if ends: "hd h = CHR ''-'' \<or> last h = CHR ''-''"
  proof -
    consider "hd h = CHR ''-''" | "last h = CHR ''-''" using ends by blast
    then obtain l where "l \<in> set (split_dots h)" "hd l = CHR ''-'' \<or> last l = CHR ''-''"
    proof cases
      case 1
      then show ?thesis using that hd_hyphen [OF False] split_dots_ne hd_in_set by blast
    next
      case 2
      then show ?thesis using that last_hyphen [OF False] split_dots_ne last_in_set by blast
    qed
    then show ?thesis by (auto simp: list_all_iff valid_label_rfc rfc1123_label_def)
  qed
  moreover have "1 \<le> length h" using False by (cases h) auto
  ultimately show ?thesis
    using False
    by (auto simp: is_valid_hostname_def hostname_labels_split valid_label_rfc [abs_def] MAX_HOSTNAME_LENGTH_def)
qed (simp add: is_valid_hostname_def)

text \<open>
  A device name that passes validation cannot leave \<open>/dev\<close>: it contains no dot, no NUL and no space,
  and a \<open>COM\<close> name is a decimal port between 1 and 255.
\<close>

lemma device_path_safe:
  assumes "is_valid_device_path d"
  shows "CHR ''.'' \<notin> set d \<and> CHR 0x00 \<notin> set d \<and> CHR '' '' \<notin> set d
    \<and> (starts_with d ''/dev/'' \<or> (\<exists>n. d = ''COM'' @ n \<and> 1 \<le> digits_value n \<and> digits_value n \<le> 255)
       \<or> length d \<le> 4)"
proof -
  have plain: "\<not> isalnum CHR ''.''" "\<not> isalnum CHR 0x00" "\<not> isalnum CHR '' ''"
    "\<not> isdigit CHR ''.''" "\<not> isdigit CHR 0x00" "\<not> isdigit CHR '' ''"
    by (simp_all add: isalnum_def isdigit_def char_code_def)
  show ?thesis
  proof (cases "starts_with d ''/dev/''")
    case True
    with assms plain show ?thesis by (auto simp: is_valid_device_path_def list_all_iff split: if_splits)
  next
    case dev: False
    show ?thesis
    proof (cases "length d \<ge> 4 \<and> take 3 d = ''COM''")
      case True
      define n where "n = drop 3 d"
      have d: "d = ''COM'' @ n" using True by (metis n_def append_take_drop_id)
      have "list_all isdigit n" "\<exists>p. stoi n = Some p \<and> 1 \<le> p \<and> p \<le> 255"
        using assms dev True
        by (auto simp: is_valid_device_path_def n_def Let_def split: if_splits option.splits)
      then show ?thesis using d plain by (auto simp: list_all_iff stoi_def Let_def split: if_splits)
    next
      case False
      with assms dev show ?thesis by (auto simp: is_valid_device_path_def split: if_splits)
    qed
  qed
qed

end
