(* ===== verification/Transport_Config.thy ===== *)
theory Transport_Config
  imports Input_Validator Backpressure
begin

text \<open>
  The configuration structs of the transports (\<open>src/wirestead/config/\<close>): \<open>is_valid\<close>,
  \<open>validate_and_clamp\<close> and the checks of \<open>config::detail::validate\<close> that every transport runs when it is
  started. Unsigned fields are \<open>nat\<close>, \<open>int\<close> fields \<open>int\<close>, ports 16-bit words. Each record has the fields of
  its struct in order, and \<open>default_*\<close> has the member initialisers (on Linux). Boost.Asio's address parsers are
  the parameters \<open>v4\<close> and \<open>v6\<close> of \<open>Input_Validator\<close>; \<open>mcast\<close> says whether an address literal parses to a
  multicast address.
\<close>

section \<open>Ranges\<close>

definition within :: "'a::linorder \<Rightarrow> 'a \<Rightarrow> 'a \<Rightarrow> bool" where
  "within lo hi v \<longleftrightarrow> v \<ge> lo \<and> v \<le> hi"

definition clamp :: "'a::linorder \<Rightarrow> 'a \<Rightarrow> 'a \<Rightarrow> 'a" where
  "clamp lo hi v = (if v < lo then lo else if v > hi then hi else v)"

text \<open>Socket buffer sizes: zero leaves the kernel's default.\<close>

definition socket_buffer_ok :: "nat \<Rightarrow> bool" where
  "socket_buffer_ok n \<longleftrightarrow> n = 0 \<or> within MIN_SOCKET_BUFFER_SIZE MAX_SOCKET_BUFFER_SIZE n"

definition clamp_socket_buffer :: "nat \<Rightarrow> nat" where
  "clamp_socket_buffer n =
     (if n \<noteq> 0 \<and> n < MIN_SOCKET_BUFFER_SIZE then MIN_SOCKET_BUFFER_SIZE
      else if n > MAX_SOCKET_BUFFER_SIZE then MAX_SOCKET_BUFFER_SIZE else n)"

definition retries_ok :: "int \<Rightarrow> bool" where
  "retries_ok n \<longleftrightarrow> n = -1 \<or> n \<ge> 0 \<and> n \<le> MAX_RETRIES_LIMIT"

definition clamp_retries :: "int \<Rightarrow> int" where
  "clamp_retries n = (if n \<noteq> -1 \<and> n > MAX_RETRIES_LIMIT then MAX_RETRIES_LIMIT else n)"

definition threshold_ok :: "nat \<Rightarrow> bool" where
  "threshold_ok n \<longleftrightarrow> within MIN_BACKPRESSURE_THRESHOLD MAX_BACKPRESSURE_THRESHOLD n"

text \<open>The idle timeout of a server is an \<open>int\<close>; a negative one is reset to zero.\<close>

definition server_idle_ok :: "int \<Rightarrow> bool" where
  "server_idle_ok n \<longleftrightarrow> n = 0 \<or> within (int MIN_IDLE_TIMEOUT_MS) (int MAX_IDLE_TIMEOUT_MS) n"

definition clamp_server_idle :: "int \<Rightarrow> int" where
  "clamp_server_idle n =
     (if n < 0 then 0
      else if n \<noteq> 0 then clamp (int MIN_IDLE_TIMEOUT_MS) (int MAX_IDLE_TIMEOUT_MS) n else n)"

definition clamp_connections :: "int \<Rightarrow> int" where
  "clamp_connections n = clamp 0 (int MAX_MAX_CONNECTIONS) n"

section \<open>Serial\<close>

datatype parity = Parity_none | Parity_even | Parity_odd

datatype flow = Flow_none | Flow_software | Flow_hardware

record rs485 =
  rs_enabled :: bool
  rts_on_send :: bool
  rx_during_tx :: bool
  delay_rts_before_send_ms :: nat
  delay_rts_after_send_ms :: nat

record serial_config =
  device :: string
  baud_rate :: nat
  char_size :: nat
  ser_parity :: parity
  stop_bits :: nat
  ser_flow :: flow
  read_chunk :: nat
  low_latency :: bool
  ser_rs485 :: rs485
  dtr :: "bool option"
  rts :: "bool option"
  reopen_on_error :: bool
  rx_idle_timeout_ms :: nat
  ser_backpressure_threshold :: nat
  ser_backpressure_strategy :: backpressure_strategy
  ser_enable_memory_pool :: bool
  ser_stop_on_callback_exception :: bool
  ser_retry_interval_ms :: nat
  ser_max_retries :: int
  ser_use_shared_context :: bool
  keep_dtr_on_close :: bool

definition default_serial :: serial_config where
  "default_serial =
     \<lparr>device = ''/dev/ttyUSB0'', baud_rate = 115200, char_size = 8, ser_parity = Parity_none, stop_bits = 1,
      ser_flow = Flow_none, read_chunk = DEFAULT_READ_BUFFER_SIZE, low_latency = True,
      ser_rs485 = \<lparr>rs_enabled = False, rts_on_send = True, rx_during_tx = False, delay_rts_before_send_ms = 0,
                   delay_rts_after_send_ms = 0\<rparr>,
      dtr = None, rts = None, reopen_on_error = True, rx_idle_timeout_ms = 0,
      ser_backpressure_threshold = DEFAULT_BACKPRESSURE_THRESHOLD, ser_backpressure_strategy = Reliable,
      ser_enable_memory_pool = True, ser_stop_on_callback_exception = False,
      ser_retry_interval_ms = DEFAULT_RETRY_INTERVAL_MS, ser_max_retries = DEFAULT_MAX_RETRIES,
      ser_use_shared_context = False, keep_dtr_on_close = False\<rparr>"

definition serial_is_valid :: "serial_config \<Rightarrow> bool" where
  "serial_is_valid c \<longleftrightarrow>
     (\<not> keep_dtr_on_close c \<or> dtr c \<noteq> Some False)
     \<and> within MIN_READ_BUFFER_SIZE MAX_READ_BUFFER_SIZE (read_chunk c)
     \<and> is_valid_device_path (device c)
     \<and> within MIN_BAUD_RATE MAX_BAUD_RATE (baud_rate c)
     \<and> within 5 8 (char_size c) \<and> (stop_bits c = 1 \<or> stop_bits c = 2)
     \<and> within MIN_RETRY_INTERVAL_MS MAX_RETRY_INTERVAL_MS (ser_retry_interval_ms c)
     \<and> threshold_ok (ser_backpressure_threshold c)
     \<and> (rx_idle_timeout_ms c = 0 \<or> within MIN_IDLE_TIMEOUT_MS MAX_IDLE_TIMEOUT_MS (rx_idle_timeout_ms c))
     \<and> retries_ok (ser_max_retries c)"

definition serial_validate_and_clamp :: "serial_config \<Rightarrow> serial_config" where
  "serial_validate_and_clamp c =
     c\<lparr>read_chunk := clamp MIN_READ_BUFFER_SIZE MAX_READ_BUFFER_SIZE (read_chunk c),
       baud_rate := clamp MIN_BAUD_RATE MAX_BAUD_RATE (baud_rate c),
       char_size := clamp 5 8 (char_size c),
       stop_bits := (if stop_bits c \<noteq> 1 \<and> stop_bits c \<noteq> 2 then 1 else stop_bits c),
       ser_retry_interval_ms := clamp MIN_RETRY_INTERVAL_MS MAX_RETRY_INTERVAL_MS (ser_retry_interval_ms c),
       ser_backpressure_threshold :=
         clamp MIN_BACKPRESSURE_THRESHOLD MAX_BACKPRESSURE_THRESHOLD (ser_backpressure_threshold c),
       rx_idle_timeout_ms :=
         (if rx_idle_timeout_ms c \<noteq> 0 \<and> rx_idle_timeout_ms c > MAX_IDLE_TIMEOUT_MS then MAX_IDLE_TIMEOUT_MS
          else rx_idle_timeout_ms c),
       ser_max_retries := clamp_retries (ser_max_retries c)\<rparr>"

section \<open>TCP client\<close>

datatype idle_timeout_action = Idle_reconnect | Idle_close

record tcp_client_config =
  host :: string
  cli_port :: "16 word"
  retry_interval_ms :: nat
  connection_timeout_ms :: nat
  idle_timeout_ms :: nat
  idle_action :: idle_timeout_action
  max_retries :: int
  cli_backpressure_threshold :: nat
  cli_backpressure_strategy :: backpressure_strategy
  cli_enable_memory_pool :: bool
  cli_tcp_no_delay :: bool
  cli_keep_alive :: bool
  send_buffer_size :: nat
  receive_buffer_size :: nat
  read_buffer_size :: nat
  cli_tls_enabled :: bool
  tls_ca_file :: string

definition default_tcp_client :: tcp_client_config where
  "default_tcp_client =
     \<lparr>host = ''127.0.0.1'', cli_port = 9000, retry_interval_ms = DEFAULT_RETRY_INTERVAL_MS,
      connection_timeout_ms = DEFAULT_CONNECTION_TIMEOUT_MS, idle_timeout_ms = DEFAULT_IDLE_TIMEOUT_MS,
      idle_action = Idle_reconnect, max_retries = DEFAULT_MAX_RETRIES,
      cli_backpressure_threshold = DEFAULT_BACKPRESSURE_THRESHOLD, cli_backpressure_strategy = Reliable,
      cli_enable_memory_pool = True, cli_tcp_no_delay = DEFAULT_TCP_NO_DELAY, cli_keep_alive = DEFAULT_KEEP_ALIVE,
      send_buffer_size = 0, receive_buffer_size = 0, read_buffer_size = DEFAULT_READ_BUFFER_SIZE,
      cli_tls_enabled = False, tls_ca_file = []\<rparr>"

definition tcp_client_is_valid ::
    "(string \<Rightarrow> string option) \<Rightarrow> (string \<Rightarrow> bool) \<Rightarrow> tcp_client_config \<Rightarrow> bool" where
  "tcp_client_is_valid v4 v6 c \<longleftrightarrow>
     within MIN_READ_BUFFER_SIZE MAX_READ_BUFFER_SIZE (read_buffer_size c)
     \<and> is_valid_host v4 v6 (host c) \<and> cli_port c > 0
     \<and> within MIN_RETRY_INTERVAL_MS MAX_RETRY_INTERVAL_MS (retry_interval_ms c)
     \<and> within MIN_CONNECTION_TIMEOUT_MS MAX_CONNECTION_TIMEOUT_MS (connection_timeout_ms c)
     \<and> (idle_timeout_ms c = 0 \<or> within MIN_IDLE_TIMEOUT_MS MAX_IDLE_TIMEOUT_MS (idle_timeout_ms c))
     \<and> threshold_ok (cli_backpressure_threshold c)
     \<and> socket_buffer_ok (send_buffer_size c) \<and> socket_buffer_ok (receive_buffer_size c)
     \<and> retries_ok (max_retries c)"

definition tcp_client_validate_and_clamp :: "tcp_client_config \<Rightarrow> tcp_client_config" where
  "tcp_client_validate_and_clamp c =
     c\<lparr>read_buffer_size := clamp MIN_READ_BUFFER_SIZE MAX_READ_BUFFER_SIZE (read_buffer_size c),
       retry_interval_ms := clamp MIN_RETRY_INTERVAL_MS MAX_RETRY_INTERVAL_MS (retry_interval_ms c),
       connection_timeout_ms := clamp MIN_CONNECTION_TIMEOUT_MS MAX_CONNECTION_TIMEOUT_MS (connection_timeout_ms c),
       idle_timeout_ms :=
         (if idle_timeout_ms c \<noteq> 0 then clamp MIN_IDLE_TIMEOUT_MS MAX_IDLE_TIMEOUT_MS (idle_timeout_ms c)
          else idle_timeout_ms c),
       cli_backpressure_threshold :=
         clamp MIN_BACKPRESSURE_THRESHOLD MAX_BACKPRESSURE_THRESHOLD (cli_backpressure_threshold c),
       max_retries := clamp_retries (max_retries c),
       send_buffer_size := clamp_socket_buffer (send_buffer_size c),
       receive_buffer_size := clamp_socket_buffer (receive_buffer_size c)\<rparr>"

section \<open>TCP server\<close>

record tcp_server_config =
  bind_address :: string
  srv_port :: "16 word"
  srv_backpressure_threshold :: nat
  srv_backpressure_strategy :: backpressure_strategy
  srv_enable_memory_pool :: bool
  max_connections :: int
  enable_port_retry :: bool
  max_port_retries :: int
  port_retry_interval_ms :: int
  tls_certificate_file :: string
  tls_private_key_file :: string
  srv_idle_timeout_ms :: int
  srv_tcp_no_delay :: bool
  srv_keep_alive :: bool
  srv_send_buffer_size :: nat
  srv_receive_buffer_size :: nat
  srv_read_buffer_size :: nat
  srv_use_shared_context :: bool

definition default_tcp_server :: tcp_server_config where
  "default_tcp_server =
     \<lparr>bind_address = ''0.0.0.0'', srv_port = 9000, srv_backpressure_threshold = DEFAULT_BACKPRESSURE_THRESHOLD,
      srv_backpressure_strategy = Reliable, srv_enable_memory_pool = True,
      max_connections = int DEFAULT_MAX_CONNECTIONS, enable_port_retry = False, max_port_retries = 3,
      port_retry_interval_ms = 1000, tls_certificate_file = [], tls_private_key_file = [],
      srv_idle_timeout_ms = int DEFAULT_IDLE_TIMEOUT_MS, srv_tcp_no_delay = DEFAULT_TCP_NO_DELAY,
      srv_keep_alive = DEFAULT_KEEP_ALIVE, srv_send_buffer_size = 0, srv_receive_buffer_size = 0,
      srv_read_buffer_size = DEFAULT_READ_BUFFER_SIZE, srv_use_shared_context = False\<rparr>"

definition tls_enabled :: "tcp_server_config \<Rightarrow> bool" where
  "tls_enabled c \<longleftrightarrow> tls_certificate_file c \<noteq> [] \<and> tls_private_key_file c \<noteq> []"

definition is_ip_literal :: "(string \<Rightarrow> string option) \<Rightarrow> (string \<Rightarrow> bool) \<Rightarrow> string \<Rightarrow> bool" where
  "is_ip_literal v4 v6 a \<longleftrightarrow> is_valid_ipv4 v4 a \<or> is_valid_ipv6 v6 a"

definition tcp_server_is_valid ::
    "(string \<Rightarrow> string option) \<Rightarrow> (string \<Rightarrow> bool) \<Rightarrow> tcp_server_config \<Rightarrow> bool" where
  "tcp_server_is_valid v4 v6 c \<longleftrightarrow>
     within MIN_READ_BUFFER_SIZE MAX_READ_BUFFER_SIZE (srv_read_buffer_size c)
     \<and> is_ip_literal v4 v6 (bind_address c)
     \<and> threshold_ok (srv_backpressure_threshold c) \<and> max_connections c \<ge> 0
     \<and> server_idle_ok (srv_idle_timeout_ms c)
     \<and> socket_buffer_ok (srv_send_buffer_size c) \<and> socket_buffer_ok (srv_receive_buffer_size c)"

definition tcp_server_validate_and_clamp :: "tcp_server_config \<Rightarrow> tcp_server_config" where
  "tcp_server_validate_and_clamp c =
     c\<lparr>srv_read_buffer_size := clamp MIN_READ_BUFFER_SIZE MAX_READ_BUFFER_SIZE (srv_read_buffer_size c),
       srv_backpressure_threshold :=
         clamp MIN_BACKPRESSURE_THRESHOLD MAX_BACKPRESSURE_THRESHOLD (srv_backpressure_threshold c),
       max_connections := clamp_connections (max_connections c),
       srv_idle_timeout_ms := clamp_server_idle (srv_idle_timeout_ms c),
       srv_send_buffer_size := clamp_socket_buffer (srv_send_buffer_size c),
       srv_receive_buffer_size := clamp_socket_buffer (srv_receive_buffer_size c)\<rparr>"

section \<open>UDP\<close>

record udp_config =
  udp_bind_address :: string
  local_port :: "16 word"
  remote_address :: "string option"
  remote_port :: "16 word option"
  udp_backpressure_threshold :: nat
  udp_backpressure_strategy :: backpressure_strategy
  enable_broadcast :: bool
  reuse_address :: bool
  multicast_group :: "string option"
  multicast_interface :: "string option"
  udp_enable_memory_pool :: bool
  udp_stop_on_callback_exception :: bool
  udp_send_buffer_size :: nat
  udp_receive_buffer_size :: nat

definition default_udp :: udp_config where
  "default_udp =
     \<lparr>udp_bind_address = ''0.0.0.0'', local_port = 0, remote_address = None, remote_port = None,
      udp_backpressure_threshold = DEFAULT_BACKPRESSURE_THRESHOLD, udp_backpressure_strategy = Reliable,
      enable_broadcast = False, reuse_address = False, multicast_group = None, multicast_interface = None,
      udp_enable_memory_pool = True, udp_stop_on_callback_exception = False, udp_send_buffer_size = 0,
      udp_receive_buffer_size = 0\<rparr>"

definition udp_addresses_ok ::
    "(string \<Rightarrow> string option) \<Rightarrow> (string \<Rightarrow> bool) \<Rightarrow> (string \<Rightarrow> bool) \<Rightarrow> udp_config \<Rightarrow> bool" where
  "udp_addresses_ok v4 v6 mcast c =
     (if (remote_address c \<noteq> None) \<noteq> (remote_port c \<noteq> None) then False
      else if \<exists>a. remote_address c = Some a \<and> \<not> is_valid_ipv4 v4 a \<and> \<not> is_valid_ipv6 v6 a then False
      else if remote_port c = Some 0 then False
      else if \<exists>g. multicast_group c = Some g \<and> \<not> mcast g then False
      else if \<exists>i. multicast_interface c = Some i \<and> \<not> is_valid_ipv4 v4 i then False
      else True)"

definition udp_is_valid ::
    "(string \<Rightarrow> string option) \<Rightarrow> (string \<Rightarrow> bool) \<Rightarrow> (string \<Rightarrow> bool) \<Rightarrow> udp_config \<Rightarrow> bool" where
  "udp_is_valid v4 v6 mcast c =
     (if \<not> is_ip_literal v4 v6 (udp_bind_address c) then False
      else if \<not> threshold_ok (udp_backpressure_threshold c) then False
      else if \<not> udp_addresses_ok v4 v6 mcast c then False
      else if \<not> socket_buffer_ok (udp_send_buffer_size c) then False
      else if \<not> socket_buffer_ok (udp_receive_buffer_size c) then False
      else True)"

definition udp_validate_and_clamp :: "udp_config \<Rightarrow> udp_config" where
  "udp_validate_and_clamp c =
     c\<lparr>udp_backpressure_threshold :=
         clamp MIN_BACKPRESSURE_THRESHOLD MAX_BACKPRESSURE_THRESHOLD (udp_backpressure_threshold c),
       udp_send_buffer_size := clamp_socket_buffer (udp_send_buffer_size c),
       udp_receive_buffer_size := clamp_socket_buffer (udp_receive_buffer_size c)\<rparr>"

section \<open>Unix domain sockets\<close>

record uds_client_config =
  socket_path :: string
  uc_retry_interval_ms :: nat
  uc_connection_timeout_ms :: nat
  uc_max_retries :: int
  uc_backpressure_threshold :: nat
  uc_backpressure_strategy :: backpressure_strategy
  uc_enable_memory_pool :: bool
  uc_read_buffer_size :: nat

definition default_uds_client :: uds_client_config where
  "default_uds_client =
     \<lparr>socket_path = ''/tmp/wirestead.sock'', uc_retry_interval_ms = DEFAULT_RETRY_INTERVAL_MS,
      uc_connection_timeout_ms = DEFAULT_CONNECTION_TIMEOUT_MS, uc_max_retries = DEFAULT_MAX_RETRIES,
      uc_backpressure_threshold = DEFAULT_BACKPRESSURE_THRESHOLD, uc_backpressure_strategy = Reliable,
      uc_enable_memory_pool = True, uc_read_buffer_size = DEFAULT_READ_BUFFER_SIZE\<rparr>"

definition uds_client_is_valid :: "uds_client_config \<Rightarrow> bool" where
  "uds_client_is_valid c \<longleftrightarrow>
     within MIN_READ_BUFFER_SIZE MAX_READ_BUFFER_SIZE (uc_read_buffer_size c)
     \<and> is_valid_uds_path (socket_path c)
     \<and> within MIN_RETRY_INTERVAL_MS MAX_RETRY_INTERVAL_MS (uc_retry_interval_ms c)
     \<and> within MIN_CONNECTION_TIMEOUT_MS MAX_CONNECTION_TIMEOUT_MS (uc_connection_timeout_ms c)
     \<and> threshold_ok (uc_backpressure_threshold c) \<and> retries_ok (uc_max_retries c)"

definition uds_client_validate_and_clamp :: "uds_client_config \<Rightarrow> uds_client_config" where
  "uds_client_validate_and_clamp c =
     c\<lparr>uc_read_buffer_size := clamp MIN_READ_BUFFER_SIZE MAX_READ_BUFFER_SIZE (uc_read_buffer_size c),
       uc_retry_interval_ms := clamp MIN_RETRY_INTERVAL_MS MAX_RETRY_INTERVAL_MS (uc_retry_interval_ms c),
       uc_connection_timeout_ms :=
         clamp MIN_CONNECTION_TIMEOUT_MS MAX_CONNECTION_TIMEOUT_MS (uc_connection_timeout_ms c),
       uc_backpressure_threshold :=
         clamp MIN_BACKPRESSURE_THRESHOLD MAX_BACKPRESSURE_THRESHOLD (uc_backpressure_threshold c),
       uc_max_retries := clamp_retries (uc_max_retries c)\<rparr>"

record uds_server_config =
  us_socket_path :: string
  us_backpressure_threshold :: nat
  us_backpressure_strategy :: backpressure_strategy
  us_enable_memory_pool :: bool
  us_read_buffer_size :: nat
  us_max_connections :: int
  us_idle_timeout_ms :: int
  socket_permissions :: int

definition default_uds_server :: uds_server_config where
  "default_uds_server =
     \<lparr>us_socket_path = ''/tmp/wirestead.sock'', us_backpressure_threshold = DEFAULT_BACKPRESSURE_THRESHOLD,
      us_backpressure_strategy = Reliable, us_enable_memory_pool = True,
      us_read_buffer_size = DEFAULT_READ_BUFFER_SIZE, us_max_connections = int DEFAULT_MAX_CONNECTIONS,
      us_idle_timeout_ms = int DEFAULT_IDLE_TIMEOUT_MS, socket_permissions = -1\<rparr>"

definition permissions_ok :: "int \<Rightarrow> bool" where
  "permissions_ok p \<longleftrightarrow> p = -1 \<or> p \<ge> 0 \<and> p \<le> 511"

definition uds_server_is_valid :: "uds_server_config \<Rightarrow> bool" where
  "uds_server_is_valid c \<longleftrightarrow>
     within MIN_READ_BUFFER_SIZE MAX_READ_BUFFER_SIZE (us_read_buffer_size c)
     \<and> is_valid_uds_path (us_socket_path c)
     \<and> threshold_ok (us_backpressure_threshold c) \<and> us_max_connections c \<ge> 0
     \<and> server_idle_ok (us_idle_timeout_ms c) \<and> permissions_ok (socket_permissions c)"

definition uds_server_validate_and_clamp :: "uds_server_config \<Rightarrow> uds_server_config" where
  "uds_server_validate_and_clamp c =
     c\<lparr>us_read_buffer_size := clamp MIN_READ_BUFFER_SIZE MAX_READ_BUFFER_SIZE (us_read_buffer_size c),
       us_backpressure_threshold :=
         clamp MIN_BACKPRESSURE_THRESHOLD MAX_BACKPRESSURE_THRESHOLD (us_backpressure_threshold c),
       us_max_connections := clamp_connections (us_max_connections c),
       us_idle_timeout_ms := clamp_server_idle (us_idle_timeout_ms c),
       socket_permissions :=
         (if socket_permissions c \<noteq> -1 \<and> (socket_permissions c < 0 \<or> socket_permissions c > 511) then -1
          else socket_permissions c)\<rparr>"

section \<open>The checks of a starting transport\<close>

text \<open>\<open>Inl\<close> is the \<open>invalid_argument\<close> with its message.\<close>

definition require :: "bool \<Rightarrow> string \<Rightarrow> string + unit" where
  "require valid message = (if \<not> valid then Inl message else Inr ())"

fun all_of :: "(string + unit) list \<Rightarrow> string + unit" where
  "all_of [] = Inr ()"
| "all_of (Inl e # cs) = Inl e"
| "all_of (Inr _ # cs) = all_of cs"

definition tcp_server_validate ::
    "(string \<Rightarrow> string option) \<Rightarrow> (string \<Rightarrow> bool) \<Rightarrow> tcp_server_config \<Rightarrow> string + unit" where
  "tcp_server_validate v4 v6 c =
     all_of
       [require (tcp_server_is_valid v4 v6 c) ''invalid transport configuration'',
        require (within 0 (int MAX_MAX_CONNECTIONS) (max_connections c)) ''invalid connection limit'',
        require (within 0 MAX_RETRIES_LIMIT (max_port_retries c)) ''invalid port retry count'',
        require (within (int MIN_RETRY_INTERVAL_MS) (int MAX_RETRY_INTERVAL_MS) (port_retry_interval_ms c))
          ''invalid port retry interval'',
        require ((tls_certificate_file c = []) = (tls_private_key_file c = [])) ''TLS requires certificate and key'']"

definition uds_server_validate :: "uds_server_config \<Rightarrow> string + unit" where
  "uds_server_validate c =
     all_of
       [require (uds_server_is_valid c) ''invalid transport configuration'',
        require (within 0 (int MAX_MAX_CONNECTIONS) (us_max_connections c)) ''invalid connection limit'']"

section \<open>The contract of clamping\<close>

text \<open>
  Clamping never touches a valid configuration, and what it makes valid is described by \<open>fixable\<close>, the
  settings it has no range for.
\<close>

locale clamped_config =
  fixes valid :: "'c \<Rightarrow> bool" and fix_up :: "'c \<Rightarrow> 'c" and fixable :: "'c \<Rightarrow> bool"
  assumes keeps_valid: "valid c \<Longrightarrow> fix_up c = c"
    and repairs: "valid (fix_up c) \<longleftrightarrow> fixable c"
begin

lemma valid_fixable: "valid c \<Longrightarrow> fixable c"
  using repairs [of c] keeps_valid [of c] by simp

lemma fix_up_twice: "fixable c \<Longrightarrow> fix_up (fix_up c) = fix_up c"
  using keeps_valid repairs by blast

lemma fixable_stable: "fixable c \<Longrightarrow> fixable (fix_up c)"
  using repairs valid_fixable by blast

end

lemma clamp_within [simp]: "lo \<le> hi \<Longrightarrow> within lo hi (clamp lo hi v)"
  by (auto simp: within_def clamp_def)

lemma clamp_id [simp]: "within lo hi v \<Longrightarrow> clamp lo hi v = v"
  by (auto simp: within_def clamp_def)

lemma range_orders [simp]:
  "MIN_READ_BUFFER_SIZE \<le> MAX_READ_BUFFER_SIZE" "MIN_BAUD_RATE \<le> MAX_BAUD_RATE"
  "MIN_RETRY_INTERVAL_MS \<le> MAX_RETRY_INTERVAL_MS" "MIN_CONNECTION_TIMEOUT_MS \<le> MAX_CONNECTION_TIMEOUT_MS"
  "MIN_IDLE_TIMEOUT_MS \<le> MAX_IDLE_TIMEOUT_MS" "MIN_BACKPRESSURE_THRESHOLD \<le> MAX_BACKPRESSURE_THRESHOLD"
  by (simp_all add: constant_defs)

lemma socket_buffer_clamp [simp]:
  "socket_buffer_ok (clamp_socket_buffer n)" "socket_buffer_ok n \<Longrightarrow> clamp_socket_buffer n = n"
  by (auto simp: socket_buffer_ok_def clamp_socket_buffer_def within_def constant_defs)

lemma retries_clamp [simp]:
  "retries_ok (clamp_retries n) \<longleftrightarrow> n \<ge> -1" "retries_ok n \<Longrightarrow> clamp_retries n = n"
  by (auto simp: retries_ok_def clamp_retries_def constant_defs)

lemma threshold_clamp [simp]:
  "threshold_ok (clamp MIN_BACKPRESSURE_THRESHOLD MAX_BACKPRESSURE_THRESHOLD n)"
  "threshold_ok n \<Longrightarrow> clamp MIN_BACKPRESSURE_THRESHOLD MAX_BACKPRESSURE_THRESHOLD n = n"
  by (simp_all add: threshold_ok_def)

lemma server_idle_clamp [simp]:
  "server_idle_ok (clamp_server_idle n)" "server_idle_ok n \<Longrightarrow> clamp_server_idle n = n"
  by (auto simp: server_idle_ok_def clamp_server_idle_def within_def clamp_def constant_defs)

lemma connections_clamp [simp]: "0 \<le> clamp_connections n" "within 0 (int MAX_MAX_CONNECTIONS) (clamp_connections n)"
  by (auto simp: clamp_connections_def within_def clamp_def)

lemma connections_clamp_id [simp]: "within 0 (int MAX_MAX_CONNECTIONS) n \<Longrightarrow> clamp_connections n = n"
  by (simp add: clamp_connections_def)

lemma client_idle_ok: "n = 0 \<or> within MIN_IDLE_TIMEOUT_MS MAX_IDLE_TIMEOUT_MS n \<longleftrightarrow> n \<le> MAX_IDLE_TIMEOUT_MS"
  by (auto simp: within_def constant_defs)

definition serial_fixable :: "serial_config \<Rightarrow> bool" where
  "serial_fixable c \<longleftrightarrow> (\<not> keep_dtr_on_close c \<or> dtr c \<noteq> Some False) \<and> is_valid_device_path (device c)
     \<and> ser_max_retries c \<ge> -1"

definition tcp_client_fixable ::
    "(string \<Rightarrow> string option) \<Rightarrow> (string \<Rightarrow> bool) \<Rightarrow> tcp_client_config \<Rightarrow> bool" where
  "tcp_client_fixable v4 v6 c \<longleftrightarrow> is_valid_host v4 v6 (host c) \<and> cli_port c > 0 \<and> max_retries c \<ge> -1"

definition udp_fixable ::
    "(string \<Rightarrow> string option) \<Rightarrow> (string \<Rightarrow> bool) \<Rightarrow> (string \<Rightarrow> bool) \<Rightarrow> udp_config \<Rightarrow> bool" where
  "udp_fixable v4 v6 mcast c \<longleftrightarrow> is_ip_literal v4 v6 (udp_bind_address c) \<and> udp_addresses_ok v4 v6 mcast c"

definition uds_client_fixable :: "uds_client_config \<Rightarrow> bool" where
  "uds_client_fixable c \<longleftrightarrow> is_valid_uds_path (socket_path c) \<and> uc_max_retries c \<ge> -1"

text \<open>A server accepts any non-negative connection count in \<open>is_valid\<close>; its full check also bounds it.\<close>

definition tcp_server_accepted ::
    "(string \<Rightarrow> string option) \<Rightarrow> (string \<Rightarrow> bool) \<Rightarrow> tcp_server_config \<Rightarrow> bool" where
  "tcp_server_accepted v4 v6 c \<longleftrightarrow> tcp_server_validate v4 v6 c = Inr ()"

definition tcp_server_fixable ::
    "(string \<Rightarrow> string option) \<Rightarrow> (string \<Rightarrow> bool) \<Rightarrow> tcp_server_config \<Rightarrow> bool" where
  "tcp_server_fixable v4 v6 c \<longleftrightarrow> is_ip_literal v4 v6 (bind_address c)
     \<and> within 0 MAX_RETRIES_LIMIT (max_port_retries c)
     \<and> within (int MIN_RETRY_INTERVAL_MS) (int MAX_RETRY_INTERVAL_MS) (port_retry_interval_ms c)
     \<and> (tls_certificate_file c = []) = (tls_private_key_file c = [])"

definition uds_server_accepted :: "uds_server_config \<Rightarrow> bool" where
  "uds_server_accepted c \<longleftrightarrow> uds_server_validate c = Inr ()"

definition uds_server_fixable :: "uds_server_config \<Rightarrow> bool" where
  "uds_server_fixable c \<longleftrightarrow> is_valid_uds_path (us_socket_path c)"

lemma all_of_require: "all_of (require p m # cs) = Inr () \<longleftrightarrow> p \<and> all_of cs = Inr ()"
  by (simp add: require_def)

lemma tcp_server_accepted_iff:
  "tcp_server_accepted v4 v6 c \<longleftrightarrow> tcp_server_is_valid v4 v6 c \<and> within 0 (int MAX_MAX_CONNECTIONS) (max_connections c)
     \<and> within 0 MAX_RETRIES_LIMIT (max_port_retries c)
     \<and> within (int MIN_RETRY_INTERVAL_MS) (int MAX_RETRY_INTERVAL_MS) (port_retry_interval_ms c)
     \<and> (tls_certificate_file c = []) = (tls_private_key_file c = [])"
  by (simp only: tcp_server_accepted_def tcp_server_validate_def all_of_require all_of.simps simp_thms)

lemma uds_server_accepted_iff:
  "uds_server_accepted c \<longleftrightarrow> uds_server_is_valid c \<and> within 0 (int MAX_MAX_CONNECTIONS) (us_max_connections c)"
  by (simp only: uds_server_accepted_def uds_server_validate_def all_of_require all_of.simps simp_thms)

interpretation ser: clamped_config serial_is_valid serial_validate_and_clamp serial_fixable
  by unfold_locales
    (auto simp: serial_is_valid_def serial_validate_and_clamp_def serial_fixable_def client_idle_ok)

interpretation cli: clamped_config "tcp_client_is_valid v4 v6" tcp_client_validate_and_clamp "tcp_client_fixable v4 v6"
  for v4 v6
  by unfold_locales
    (auto simp: tcp_client_is_valid_def tcp_client_validate_and_clamp_def tcp_client_fixable_def)

interpretation srv: clamped_config "tcp_server_accepted v4 v6" tcp_server_validate_and_clamp "tcp_server_fixable v4 v6"
  for v4 v6
  by unfold_locales
    (auto simp: tcp_server_accepted_iff tcp_server_is_valid_def tcp_server_validate_and_clamp_def tcp_server_fixable_def)

interpretation udp: clamped_config "udp_is_valid v4 v6 mcast" udp_validate_and_clamp "udp_fixable v4 v6 mcast"
  for v4 v6 mcast
  by unfold_locales
    (auto simp: udp_is_valid_def udp_addresses_ok_def udp_validate_and_clamp_def udp_fixable_def split: if_splits)

interpretation udsc: clamped_config uds_client_is_valid uds_client_validate_and_clamp uds_client_fixable
  by unfold_locales
    (auto simp: uds_client_is_valid_def uds_client_validate_and_clamp_def uds_client_fixable_def)

interpretation udss: clamped_config uds_server_accepted uds_server_validate_and_clamp uds_server_fixable
  by unfold_locales
    (auto simp: uds_server_accepted_iff uds_server_is_valid_def uds_server_validate_and_clamp_def
      uds_server_fixable_def permissions_ok_def)

text \<open>The default configurations are accepted as soon as the parser prints the two literals they use unchanged.\<close>

lemma defaults_accepted:
  assumes "v4 ''127.0.0.1'' = Some ''127.0.0.1''" and "v4 ''0.0.0.0'' = Some ''0.0.0.0''"
  shows "serial_is_valid default_serial \<and> tcp_client_is_valid v4 v6 default_tcp_client
    \<and> tcp_server_validate v4 v6 default_tcp_server = Inr () \<and> udp_is_valid v4 v6 mcast default_udp
    \<and> uds_client_is_valid default_uds_client \<and> uds_server_validate default_uds_server = Inr ()"
proof (intro conjI)
  note evals = constant_defs within_def threshold_ok_def retries_ok_def socket_buffer_ok_def server_idle_ok_def
    permissions_ok_def is_valid_uds_path_def find_from_def require_def is_ip_literal_def is_valid_ipv4_def
    is_valid_host_def
  show "serial_is_valid default_serial"
    by (simp add: serial_is_valid_def default_serial_def is_valid_device_path_def starts_with_def isalnum_def
        isdigit_def char_code_def evals)
  show "tcp_client_is_valid v4 v6 default_tcp_client"
    using assms by (simp add: tcp_client_is_valid_def default_tcp_client_def evals)
  show "tcp_server_validate v4 v6 default_tcp_server = Inr ()"
    using assms by (simp add: tcp_server_validate_def tcp_server_is_valid_def default_tcp_server_def evals)
  show "udp_is_valid v4 v6 mcast default_udp"
    using assms by (simp add: udp_is_valid_def udp_addresses_ok_def default_udp_def evals)
  show "uds_client_is_valid default_uds_client" by (simp add: uds_client_is_valid_def default_uds_client_def evals)
  show "uds_server_validate default_uds_server = Inr ()"
    by (simp add: uds_server_validate_def uds_server_is_valid_def default_uds_server_def evals)
qed

section \<open>Properties\<close>


text \<open>
  Clamping changes nothing in a configuration that a transport accepts, and is idempotent on every
  configuration that it repairs.
\<close>

lemma clamping_keeps_valid:
  "(serial_is_valid sc \<longrightarrow> serial_validate_and_clamp sc = sc)
   \<and> (tcp_client_is_valid v4 v6 cc \<longrightarrow> tcp_client_validate_and_clamp cc = cc)
   \<and> (tcp_server_validate v4 v6 vc = Inr () \<longrightarrow> tcp_server_validate_and_clamp vc = vc)
   \<and> (udp_is_valid v4 v6 mcast uc \<longrightarrow> udp_validate_and_clamp uc = uc)
   \<and> (uds_client_is_valid xc \<longrightarrow> uds_client_validate_and_clamp xc = xc)
   \<and> (uds_server_validate yc = Inr () \<longrightarrow> uds_server_validate_and_clamp yc = yc)"
  using srv.keeps_valid [of v4 v6 vc] udss.keeps_valid [of yc]
  by (simp add: ser.keeps_valid cli.keeps_valid udp.keeps_valid udsc.keeps_valid tcp_server_accepted_def
      uds_server_accepted_def)

end
