(* ===== verification/Error_Model.thy ===== *)
theory Error_Model
  imports Wire_Prelude "HOL-Library.Sublist"
begin

text \<open>
  Errors (\<open>src/wirestead/base/error_codes.hpp\<close>, \<open>src/wirestead/diagnostics/\<close>): error codes, the mapping from
  Boost error codes, \<open>ErrorInfo\<close>, the holder of the last error of a transport and the process-wide
  \<open>ErrorHandler\<close>. A Boost error code is one of the conditions the code distinguishes or \<open>Other_error\<close>;
  \<open>No_error\<close> is the code that converts to false. Time points are integers, zero the epoch. Registered
  callbacks are known by number; what they were called with is recorded in \<open>notified\<close>, and
  \<open>callback_failures\<close> counts the exceptions that were caught and logged.
\<close>

section \<open>Codes\<close>

datatype error_code =
    Success | Unknown | InvalidConfiguration | InternalError | IoError
  | ConnectionRefused | ConnectionReset | ConnectionAborted | TimedOut | NotConnected | AlreadyConnected
  | PortInUse | AccessDenied | Stopped | StartFailed

definition error_code_string :: "error_code \<Rightarrow> string" where
  "error_code_string code =
     (case code of
        Success \<Rightarrow> ''Success''
      | Unknown \<Rightarrow> ''Unknown Error''
      | InvalidConfiguration \<Rightarrow> ''Invalid Configuration''
      | InternalError \<Rightarrow> ''Internal Error''
      | IoError \<Rightarrow> ''I/O Error''
      | ConnectionRefused \<Rightarrow> ''Connection Refused''
      | ConnectionReset \<Rightarrow> ''Connection Reset''
      | ConnectionAborted \<Rightarrow> ''Connection Aborted''
      | TimedOut \<Rightarrow> ''Operation Timed Out''
      | NotConnected \<Rightarrow> ''Not Connected''
      | AlreadyConnected \<Rightarrow> ''Already Connected''
      | PortInUse \<Rightarrow> ''Port Already In Use''
      | AccessDenied \<Rightarrow> ''Access Denied''
      | Stopped \<Rightarrow> ''Stopped''
      | StartFailed \<Rightarrow> ''Failed to Start'')"

datatype boost_error =
    No_error | Connection_refused | Timed_out | Connection_reset | Connection_aborted
  | Network_unreachable | Host_unreachable | Already_connected | Address_in_use | Access_denied
  | Try_again | Operation_aborted | No_such_file | Not_connected | No_buffer_space | Other_error int

definition to_wirestead_error_code :: "boost_error \<Rightarrow> error_code" where
  "to_wirestead_error_code ec =
     (if ec = No_error then Success
      else if ec = Connection_refused then ConnectionRefused
      else if ec = Timed_out then TimedOut
      else if ec = Connection_reset then ConnectionReset
      else if ec = Connection_aborted then ConnectionAborted
      else if ec = Network_unreachable \<or> ec = Host_unreachable then NotConnected
      else if ec = Already_connected then AlreadyConnected
      else if ec = Address_in_use then PortInUse
      else if ec = Access_denied then AccessDenied
      else IoError)"

definition is_retryable_tcp_connect_error :: "boost_error \<Rightarrow> bool" where
  "is_retryable_tcp_connect_error ec =
     (if ec = No_error then False
      else if ec = Connection_refused then True
      else if ec = Timed_out then True
      else if ec = Connection_reset then True
      else if ec = Network_unreachable \<or> ec = Host_unreachable then True
      else if ec = Try_again then True
      else if ec = Operation_aborted then False
      else True)"

definition is_retryable_uds_connect_error :: "boost_error \<Rightarrow> bool" where
  "is_retryable_uds_connect_error ec =
     (if ec = No_error then False
      else if ec = Connection_refused then True
      else if ec = No_such_file then True
      else if ec = Timed_out then True
      else if ec = Try_again then True
      else if ec = Operation_aborted then False
      else True)"

lemma retryable_errors:
  "is_retryable_tcp_connect_error ec \<longleftrightarrow> ec \<noteq> No_error \<and> ec \<noteq> Operation_aborted"
  "is_retryable_uds_connect_error ec \<longleftrightarrow> ec \<noteq> No_error \<and> ec \<noteq> Operation_aborted"
  by (cases ec; simp add: is_retryable_tcp_connect_error_def is_retryable_uds_connect_error_def)+

section \<open>Error information\<close>

datatype error_level = Level_info | Level_warning | Level_error | Level_critical

fun level_nat :: "error_level \<Rightarrow> nat" where
  "level_nat Level_info = 0"
| "level_nat Level_warning = 1"
| "level_nat Level_error = 2"
| "level_nat Level_critical = 3"

instantiation error_level :: linorder
begin

definition less_eq_error_level :: "error_level \<Rightarrow> error_level \<Rightarrow> bool" where
  "a \<le> b \<longleftrightarrow> level_nat a \<le> level_nat b"

definition less_error_level :: "error_level \<Rightarrow> error_level \<Rightarrow> bool" where
  "a < b \<longleftrightarrow> level_nat a < level_nat b"

instance
proof
  fix a b :: error_level
  show "a \<le> b \<Longrightarrow> b \<le> a \<Longrightarrow> a = b"
    by (cases a; cases b) (simp_all add: less_eq_error_level_def)
qed (auto simp: less_eq_error_level_def less_error_level_def)

end

datatype error_category = Connection | Communication | Configuration | Memory | System | Unknown_category

fun category_nat :: "error_category \<Rightarrow> nat" where
  "category_nat Connection = 0"
| "category_nat Communication = 1"
| "category_nat Configuration = 2"
| "category_nat Memory = 3"
| "category_nat System = 4"
| "category_nat Unknown_category = 5"

record error_info =
  level :: error_level
  category :: error_category
  component :: string
  operation :: string
  message :: string
  boost_error :: boost_error
  timestamp :: int
  retryable :: bool
  retry_count :: "32 word"

definition basic_error ::
    "error_level \<Rightarrow> error_category \<Rightarrow> string \<Rightarrow> string \<Rightarrow> string \<Rightarrow> int \<Rightarrow> error_info" where
  "basic_error l c cmp op msg now =
     \<lparr>level = l, category = c, component = cmp, operation = op, message = msg, boost_error = No_error,
      timestamp = now, retryable = False, retry_count = 0\<rparr>"

definition boost_error_info ::
    "error_level \<Rightarrow> error_category \<Rightarrow> string \<Rightarrow> string \<Rightarrow> string \<Rightarrow> boost_error \<Rightarrow> bool \<Rightarrow> int \<Rightarrow> error_info" where
  "boost_error_info l c cmp op msg ec retry now =
     \<lparr>level = l, category = c, component = cmp, operation = op, message = msg, boost_error = ec,
      timestamp = now, retryable = retry, retry_count = 0\<rparr>"

definition to_error_context :: "error_info \<Rightarrow> nat option \<Rightarrow> error_code \<times> string \<times> nat option" where
  "to_error_context info client =
     (let code =
        (if boost_error info \<noteq> No_error then to_wirestead_error_code (boost_error info)
         else case category info of
                Connection \<Rightarrow> NotConnected
              | Configuration \<Rightarrow> InvalidConfiguration
              | System \<Rightarrow> InternalError
              | _ \<Rightarrow> IoError)
      in (code, message info, client))"

section \<open>The last error of a transport\<close>

record error_info_holder =
  holder_component :: string
  holder_last :: "error_info option"

definition record_error ::
    "error_level \<Rightarrow> error_category \<Rightarrow> string \<Rightarrow> boost_error \<Rightarrow> string \<Rightarrow> bool \<Rightarrow> 32 word \<Rightarrow> int
      \<Rightarrow> error_info_holder \<Rightarrow> error_info_holder" where
  "record_error lvl cat op ec msg retry attempts now h =
     h\<lparr>holder_last :=
         Some ((boost_error_info lvl cat (holder_component h) op msg ec retry now)\<lparr>retry_count := attempts\<rparr>)\<rparr>"

definition last_error_info :: "error_info_holder \<Rightarrow> error_info option" where
  "last_error_info h = holder_last h"

section \<open>The error handler\<close>

record error_stats =
  total_errors :: nat
  errors_by_level :: "nat list"
  errors_by_category :: "nat list"
  retryable_errors :: nat
  first_error :: int
  last_error :: int

definition no_error_stats :: error_stats where
  "no_error_stats = \<lparr>total_errors = 0, errors_by_level = replicate 4 0, errors_by_category = replicate 6 0,
     retryable_errors = 0, first_error = 0, last_error = 0\<rparr>"

record error_handler =
  callbacks :: "nat list"
  min_level :: error_level
  enabled :: bool
  err_stats :: error_stats
  recent :: "error_info list"
  by_component :: "string \<rightharpoonup> error_info list"
  notified :: "(nat \<times> error_info) list"
  callback_failures :: nat

definition new_handler :: error_handler where
  "new_handler = \<lparr>callbacks = [], min_level = Level_info, enabled = True, err_stats = no_error_stats,
     recent = [], by_component = Map.empty, notified = [], callback_failures = 0\<rparr>"

definition MAX_RECENT_ERRORS :: nat where "MAX_RECENT_ERRORS = 1000"
definition MAX_COMPONENT_ERRORS :: nat where "MAX_COMPONENT_ERRORS = 100"

definition bump :: "nat \<Rightarrow> nat list \<Rightarrow> nat list" where
  "bump i xs = xs[i := xs ! i + 1]"

definition update_stats :: "error_info \<Rightarrow> error_handler \<Rightarrow> error_handler" where
  "update_stats e h =
     (let st = err_stats h;
          st1 = st\<lparr>total_errors := total_errors st + 1,
                   errors_by_level := bump (level_nat (level e)) (errors_by_level st),
                   errors_by_category := bump (category_nat (category e)) (errors_by_category st)\<rparr>;
          st2 = (if retryable e then st1\<lparr>retryable_errors := retryable_errors st1 + 1\<rparr> else st1);
          st3 = (if first_error st2 = 0 then st2\<lparr>first_error := timestamp e\<rparr> else st2)
      in h\<lparr>err_stats := st3\<lparr>last_error := timestamp e\<rparr>\<rparr>)"

text \<open>\<open>push_back\<close>, then erase from the front down to the limit.\<close>

definition push_limited :: "nat \<Rightarrow> 'a \<Rightarrow> 'a list \<Rightarrow> 'a list" where
  "push_limited limit x xs =
     (let ys = xs @ [x] in if length ys > limit then drop (length ys - limit) ys else ys)"

definition add_to_recent_errors :: "error_info \<Rightarrow> error_handler \<Rightarrow> error_handler" where
  "add_to_recent_errors e h = h\<lparr>recent := push_limited MAX_RECENT_ERRORS e (recent h)\<rparr>"

definition component_errors :: "string \<Rightarrow> error_handler \<Rightarrow> error_info list" where
  "component_errors c h = (case by_component h c of None \<Rightarrow> [] | Some es \<Rightarrow> es)"

definition add_to_component_errors :: "error_info \<Rightarrow> error_handler \<Rightarrow> error_handler" where
  "add_to_component_errors e h =
     h\<lparr>by_component := (by_component h)
         (component e \<mapsto> push_limited MAX_COMPONENT_ERRORS e (component_errors (component e) h))\<rparr>"

text \<open>\<open>throws\<close> says which callbacks throw; an exception does not keep the later ones from being called.\<close>

fun notify_callbacks :: "(nat \<Rightarrow> bool) \<Rightarrow> nat list \<Rightarrow> error_info \<Rightarrow> error_handler \<Rightarrow> error_handler" where
  "notify_callbacks throws [] e h = h"
| "notify_callbacks throws (cb # cbs) e h =
     notify_callbacks throws cbs e
       (h\<lparr>notified := notified h @ [(cb, e)],
          callback_failures := callback_failures h + (if throws cb then 1 else 0)\<rparr>)"

definition report_error :: "(nat \<Rightarrow> bool) \<Rightarrow> error_info \<Rightarrow> error_handler \<Rightarrow> error_handler" where
  "report_error throws e h =
     (if \<not> enabled h then h
      else if level e < min_level h then h
      else
        let h1 = add_to_component_errors e (add_to_recent_errors e (update_stats e h))
        in notify_callbacks throws (callbacks h1) e h1)"

definition register_callback :: "nat \<Rightarrow> error_handler \<Rightarrow> error_handler" where
  "register_callback cb h = h\<lparr>callbacks := callbacks h @ [cb]\<rparr>"

definition clear_callbacks :: "error_handler \<Rightarrow> error_handler" where
  "clear_callbacks h = h\<lparr>callbacks := []\<rparr>"

definition set_min_error_level :: "error_level \<Rightarrow> error_handler \<Rightarrow> error_handler" where
  "set_min_error_level l h = h\<lparr>min_level := l\<rparr>"

definition set_enabled :: "bool \<Rightarrow> error_handler \<Rightarrow> error_handler" where
  "set_enabled b h = h\<lparr>enabled := b\<rparr>"

definition handler_reset_stats :: "error_handler \<Rightarrow> error_handler" where
  "handler_reset_stats h = h\<lparr>err_stats := no_error_stats\<rparr>"

definition errors_by_component :: "string \<Rightarrow> error_handler \<Rightarrow> error_info list" where
  "errors_by_component c h = component_errors c h"

definition recent_errors :: "nat \<Rightarrow> error_handler \<Rightarrow> error_info list" where
  "recent_errors n h =
     (let start = (if length (recent h) > n then length (recent h) - n else 0) in drop start (recent h))"

definition has_errors :: "string \<Rightarrow> error_handler \<Rightarrow> bool" where
  "has_errors c h = (case by_component h c of None \<Rightarrow> False | Some es \<Rightarrow> es \<noteq> [])"

definition error_count :: "string \<Rightarrow> error_level \<Rightarrow> error_handler \<Rightarrow> nat" where
  "error_count c l h =
     (case by_component h c of None \<Rightarrow> 0 | Some es \<Rightarrow> length (filter (\<lambda>e. level e = l) es))"

section \<open>Histories\<close>

datatype handler_op =
    Report error_info | Register nat | Clear | Set_min error_level | Enable bool | Reset

fun run_handler_op :: "(nat \<Rightarrow> bool) \<Rightarrow> handler_op \<Rightarrow> error_handler \<Rightarrow> error_handler" where
  "run_handler_op throws (Report e) h = report_error throws e h"
| "run_handler_op throws (Register cb) h = register_callback cb h"
| "run_handler_op throws Clear h = clear_callbacks h"
| "run_handler_op throws (Set_min l) h = set_min_error_level l h"
| "run_handler_op throws (Enable b) h = set_enabled b h"
| "run_handler_op throws Reset h = handler_reset_stats h"

text \<open>
  The specification of the handler: the reports it took in, in full, the ones since the last reset, and
  the calls owed to the callbacks.
\<close>

record handler_spec =
  sp_callbacks :: "nat list"
  sp_min :: error_level
  sp_enabled :: bool
  taken :: "error_info list"
  since_reset :: "error_info list"
  owed :: "(nat \<times> error_info) list"

definition spec_start :: handler_spec where
  "spec_start = \<lparr>sp_callbacks = [], sp_min = Level_info, sp_enabled = True, taken = [], since_reset = [], owed = []\<rparr>"

fun spec_handler_op :: "handler_op \<Rightarrow> handler_spec \<Rightarrow> handler_spec" where
  "spec_handler_op (Report e) p =
     (if sp_enabled p \<and> sp_min p \<le> level e
      then p\<lparr>taken := taken p @ [e], since_reset := since_reset p @ [e],
             owed := owed p @ map (\<lambda>cb. (cb, e)) (sp_callbacks p)\<rparr>
      else p)"
| "spec_handler_op (Register cb) p = p\<lparr>sp_callbacks := sp_callbacks p @ [cb]\<rparr>"
| "spec_handler_op Clear p = p\<lparr>sp_callbacks := []\<rparr>"
| "spec_handler_op (Set_min l) p = p\<lparr>sp_min := l\<rparr>"
| "spec_handler_op (Enable b) p = p\<lparr>sp_enabled := b\<rparr>"
| "spec_handler_op Reset p = p\<lparr>since_reset := []\<rparr>"

definition last_n :: "nat \<Rightarrow> 'a list \<Rightarrow> 'a list" where
  "last_n n xs = drop (length xs - n) xs"

definition handler_matches :: "error_handler \<Rightarrow> handler_spec \<Rightarrow> bool" where
  "handler_matches h p \<longleftrightarrow>
     callbacks h = sp_callbacks p \<and> min_level h = sp_min p \<and> enabled h = sp_enabled p
     \<and> recent h = last_n MAX_RECENT_ERRORS (taken p)
     \<and> (\<forall>c. component_errors c h = last_n MAX_COMPONENT_ERRORS (filter (\<lambda>e. component e = c) (taken p)))
     \<and> total_errors (err_stats h) = length (since_reset p)
     \<and> retryable_errors (err_stats h) = length (filter retryable (since_reset p))
     \<and> length (errors_by_level (err_stats h)) = 4 \<and> length (errors_by_category (err_stats h)) = 6
     \<and> (\<forall>l. errors_by_level (err_stats h) ! level_nat l = length (filter (\<lambda>e. level e = l) (since_reset p)))
     \<and> (\<forall>c. errors_by_category (err_stats h) ! category_nat c = length (filter (\<lambda>e. category e = c) (since_reset p)))
     \<and> notified h = owed p"

lemma push_limited_last_n: "push_limited n x (last_n n xs) = last_n n (xs @ [x])"
  by (auto simp: push_limited_def last_n_def Let_def Suc_diff_le)

lemma notify_callbacks_eq:
  "notify_callbacks throws cbs e h =
     h\<lparr>notified := notified h @ map (\<lambda>cb. (cb, e)) cbs,
       callback_failures := callback_failures h + length (filter throws cbs)\<rparr>"
  by (induction cbs arbitrary: h) auto

lemma level_nat_less: "level_nat l < 4"
  by (cases l) simp_all

lemma level_nat_inj: "level_nat a = level_nat b \<longleftrightarrow> a = b"
  by (cases a; cases b) simp_all

lemma category_nat_less: "category_nat c < 6"
  by (cases c) simp_all

lemma category_nat_inj: "category_nat a = category_nat b \<longleftrightarrow> a = b"
  by (cases a; cases b) simp_all

lemma nth_bump: "i < length xs \<Longrightarrow> bump i xs ! j = (if i = j then xs ! i + 1 else xs ! j)"
  by (simp add: bump_def nth_list_update)

lemma length_bump [simp]: "length (bump i xs) = length xs"
  by (simp add: bump_def)

lemma update_stats_fields [simp]:
  "callbacks (update_stats e h) = callbacks h" "min_level (update_stats e h) = min_level h"
  "enabled (update_stats e h) = enabled h" "recent (update_stats e h) = recent h"
  "by_component (update_stats e h) = by_component h" "notified (update_stats e h) = notified h"
  "callback_failures (update_stats e h) = callback_failures h"
  by (simp_all add: update_stats_def Let_def)

lemma update_stats_stats:
  "total_errors (err_stats (update_stats e h)) = total_errors (err_stats h) + 1"
  "retryable_errors (err_stats (update_stats e h)) = retryable_errors (err_stats h) + (if retryable e then 1 else 0)"
  "errors_by_level (err_stats (update_stats e h)) = bump (level_nat (level e)) (errors_by_level (err_stats h))"
  "errors_by_category (err_stats (update_stats e h)) = bump (category_nat (category e)) (errors_by_category (err_stats h))"
  by (simp_all add: update_stats_def Let_def)

lemma report_matches:
  assumes m: "handler_matches h p"
  shows "handler_matches (report_error throws e h) (spec_handler_op (Report e) p)"
proof (cases "sp_enabled p \<and> sp_min p \<le> level e")
  case False
  then show ?thesis using m by (auto simp: report_error_def handler_matches_def not_le)
next
  case True
  let ?h = "add_to_component_errors e (add_to_recent_errors e (update_stats e h))"
  have r: "report_error throws e h = notify_callbacks throws (callbacks ?h) e ?h"
    using True m by (auto simp: report_error_def handler_matches_def Let_def dest: leD)
  have len: "length (errors_by_level (err_stats h)) = 4" "length (errors_by_category (err_stats h)) = 6"
    using m by (simp_all add: handler_matches_def)
  have recent: "recent ?h = last_n MAX_RECENT_ERRORS (taken p @ [e])"
    using m push_limited_last_n [of MAX_RECENT_ERRORS e "taken p"]
    by (simp add: add_to_component_errors_def add_to_recent_errors_def handler_matches_def)
  have comps: "component_errors c ?h = last_n MAX_COMPONENT_ERRORS (filter (\<lambda>e. component e = c) (taken p @ [e]))" for c
    using m push_limited_last_n [of MAX_COMPONENT_ERRORS e "filter (\<lambda>x. component x = component e) (taken p)"]
    by (simp add: add_to_component_errors_def add_to_recent_errors_def handler_matches_def component_errors_def)
  have lv: "errors_by_level (err_stats ?h) ! level_nat l
      = length (filter (\<lambda>e. level e = l) (since_reset p @ [e]))" for l
    using m len level_nat_less [of "level e"]
    by (simp add: add_to_component_errors_def add_to_recent_errors_def update_stats_stats nth_bump level_nat_inj
        handler_matches_def)
  have ct: "errors_by_category (err_stats ?h) ! category_nat c
      = length (filter (\<lambda>e. category e = c) (since_reset p @ [e]))" for c
    using m len category_nat_less [of "category e"]
    by (simp add: add_to_component_errors_def add_to_recent_errors_def update_stats_stats nth_bump category_nat_inj
        handler_matches_def)
  have rest: "callbacks ?h = sp_callbacks p" "min_level ?h = sp_min p" "enabled ?h = sp_enabled p"
    "total_errors (err_stats ?h) = length (since_reset p @ [e])"
    "retryable_errors (err_stats ?h) = length (filter retryable (since_reset p @ [e]))"
    "length (errors_by_level (err_stats ?h)) = 4" "length (errors_by_category (err_stats ?h)) = 6"
    "notified ?h = owed p"
    using m by (simp_all add: add_to_component_errors_def add_to_recent_errors_def update_stats_stats handler_matches_def)
  have same: "component_errors c (notify_callbacks throws cbs e h') = component_errors c h'" for c cbs h'
    by (simp add: notify_callbacks_eq component_errors_def)
  show ?thesis
    unfolding handler_matches_def r
    using True recent comps lv ct rest by (simp add: same) (simp add: notify_callbacks_eq)
qed

lemma run_handler_op_matches:
  assumes "handler_matches h p"
  shows "handler_matches (run_handler_op throws op h) (spec_handler_op op p)"
proof (cases op)
  case (Report e)
  then show ?thesis using report_matches [OF assms] by simp
next
  case Reset
  have "replicate 4 (0::nat) ! level_nat l = 0" "replicate 6 (0::nat) ! category_nat c = 0" for l c
    using level_nat_less [of l] category_nat_less [of c] by simp_all
  then show ?thesis
    using assms Reset
    by (simp add: handler_matches_def handler_reset_stats_def no_error_stats_def component_errors_def)
qed (use assms in \<open>simp_all add: handler_matches_def register_callback_def clear_callbacks_def
    set_min_error_level_def set_enabled_def component_errors_def\<close>)

lemma new_handler_matches: "handler_matches new_handler spec_start"
  using level_nat_less category_nat_less
  by (simp add: handler_matches_def new_handler_def spec_start_def no_error_stats_def component_errors_def last_n_def)

lemma history_matches:
  "handler_matches h p \<Longrightarrow> handler_matches (fold (run_handler_op throws) ops h) (fold spec_handler_op ops p)"
  by (induction ops arbitrary: h p) (simp_all add: run_handler_op_matches)

section \<open>Properties\<close>

text \<open>
  C37: The error handler keeps exactly what it should after any history of reports, registrations and
  settings: the last 1000 reports it took in, the last 100 of every component, statistics that count
  each report since the last reset once by level, category and retryability, and one call per
  registered callback and report, in order, even when callbacks throw.
\<close>

theorem error_handler_refines:
  "handler_matches (fold (run_handler_op throws) ops new_handler) (fold spec_handler_op ops spec_start)"
  by (rule history_matches [OF new_handler_matches])

end
