(* ===== verification/Reconnect.thy ===== *)
theory Reconnect
  imports Error_Model Transport_Config
begin

text \<open>
  The reconnect decision shared by the connecting transports
  (\<open>src/wirestead/transport/base/reconnect_decider.hpp\<close>, \<open>reconnect_policy.hpp\<close>). Delays are milliseconds.
  A policy is any function of the last error and the attempt count; \<open>ExponentialBackoff\<close>, whose delays are
  random and computed in floating point, is one such function and is not given a definition of its own.
\<close>

section \<open>Decisions\<close>

record reconnect_decision =
  dec_retry :: bool
  dec_delay :: int

type_synonym reconnect_policy = "error_info \<Rightarrow> 32 word \<Rightarrow> reconnect_decision"

definition fixed_interval :: "int \<Rightarrow> reconnect_policy" where
  "fixed_interval delay e attempts =
     (if \<not> retryable e then \<lparr>dec_retry = False, dec_delay = 0\<rparr> else \<lparr>dec_retry = True, dec_delay = delay\<rparr>)"

definition MAX_RECONNECT_DELAY :: int where "MAX_RECONNECT_DELAY = 30000"

definition clamp_reconnect_delay :: "int \<Rightarrow> int" where
  "clamp_reconnect_delay delay = (if delay < 0 then 0 else min delay MAX_RECONNECT_DELAY)"

text \<open>\<open>None\<close>: do not retry; \<open>Some d\<close>: retry after \<open>d\<close>.\<close>

definition decide_reconnect_common ::
    "int \<Rightarrow> nat \<Rightarrow> error_info \<Rightarrow> 32 word \<Rightarrow> reconnect_policy option \<Rightarrow> int option" where
  "decide_reconnect_common retries interval e attempts policy =
     (if \<not> retryable e then None
      else if retries = 0 then None
      else if retries > 0 \<and> attempts \<ge> word_of_int retries then None
      else case policy of
             Some p \<Rightarrow>
               let d = p e attempts
               in if \<not> dec_retry d then None else Some (clamp_reconnect_delay (dec_delay d))
           | None \<Rightarrow> Some (clamp_reconnect_delay (int interval)))"

definition decide_reconnect ::
    "tcp_client_config \<Rightarrow> error_info \<Rightarrow> 32 word \<Rightarrow> reconnect_policy option \<Rightarrow> int option" where
  "decide_reconnect cfg e attempts policy =
     decide_reconnect_common (max_retries cfg) (retry_interval_ms cfg) e attempts policy"

definition decide_reconnect_uds ::
    "uds_client_config \<Rightarrow> error_info \<Rightarrow> 32 word \<Rightarrow> reconnect_policy option \<Rightarrow> int option" where
  "decide_reconnect_uds cfg e attempts policy =
     decide_reconnect_common (uc_max_retries cfg) (uc_retry_interval_ms cfg) e attempts policy"

section \<open>Facts\<close>

lemma clamp_reconnect_delay_range: "0 \<le> clamp_reconnect_delay d \<and> clamp_reconnect_delay d \<le> MAX_RECONNECT_DELAY"
  by (simp add: clamp_reconnect_delay_def MAX_RECONNECT_DELAY_def)

lemma decide_reconnect_delay:
  "decide_reconnect_common n i e k p = Some d \<Longrightarrow> 0 \<le> d \<and> d \<le> MAX_RECONNECT_DELAY"
  by (auto simp: decide_reconnect_common_def Let_def clamp_reconnect_delay_range
      split: if_splits option.splits)

text \<open>For a valid retry count the comparison in 32 bits is the one of integers.\<close>

lemma decide_reconnect_budget:
  assumes "decide_reconnect_common n i e (word_of_int k) p = Some d" and "0 \<le> k" "k < 2 ^ 32"
    and "0 \<le> n" "n < 2 ^ 31"
  shows "k < n"
proof -
  have "0 < n" "\<not> (word_of_int n :: 32 word) \<le> word_of_int k"
    using assms by (auto simp: decide_reconnect_common_def split: if_splits)
  moreover have "uint (word_of_int n :: 32 word) = n" "uint (word_of_int k :: 32 word) = k"
    using assms by (simp_all add: uint_word_of_int)
  ultimately show ?thesis by (simp add: word_le_def)
qed

lemma decide_reconnect_retryable: "decide_reconnect_common n i e k p = Some d \<Longrightarrow> retryable e \<and> n \<noteq> 0"
  by (auto simp: decide_reconnect_common_def split: if_splits)

section \<open>Properties\<close>

text \<open>
  What the decider decides. Without a policy a retry happens exactly if the error is retryable and the
  budget is infinite (negative) or not used up, and the delay is the configured interval capped at 30 s;
  a policy can only refuse further retries or choose another delay, never exceed the cap or the budget.
\<close>

lemma decide_reconnect_exact:
  assumes "0 \<le> k" and "k < 2 ^ 32" and "n < 2 ^ 31"
  shows "decide_reconnect_common n i e (word_of_int k) None =
      (if retryable e \<and> (n < 0 \<or> k < n) then Some (min (int i) MAX_RECONNECT_DELAY) else None)
    \<and> (\<forall>p d. decide_reconnect_common n i e (word_of_int k) (Some p) = Some d \<longrightarrow>
         retryable e \<and> (n < 0 \<or> k < n) \<and> dec_retry (p e (word_of_int k)) \<and> 0 \<le> d \<and> d \<le> MAX_RECONNECT_DELAY)"
proof -
  have cmp: "n > 0 \<Longrightarrow> (word_of_int n \<le> (word_of_int k :: 32 word)) \<longleftrightarrow> n \<le> k"
    using assms by (simp add: word_le_def uint_word_of_int)
  have d: "clamp_reconnect_delay (int i) = min (int i) MAX_RECONNECT_DELAY"
    by (simp add: clamp_reconnect_delay_def)
  show ?thesis
    using cmp assms d clamp_reconnect_delay_range
    by (auto simp: decide_reconnect_common_def Let_def split: if_splits)
qed

end
