(* ===== verification/Tcp_Client.thy ===== *)
theory Tcp_Client
  imports Tcp_Session Reconnect
begin

text \<open>
  \<open>TcpClient\<close> (\<open>src/wirestead/transport/tcp_client/tcp_client.cc\<close>): the connection life cycle (start,
  resolve, connect, time out, retry, idle, close, stop) and the write path of one client, built
  without TLS.

  The executor is explicit. \<open>c_tasks\<close> is the strand's queue. \<open>c_ops\<close> holds the asynchronous operations the
  client has started and not yet seen complete (its number is \<open>pending_io_\<close>), each with the run and
  connection it captured and a flag that says it has been cancelled; a step completes one of them, in any
  order and with any error code. Asio promises \<open>operation_aborted\<close> to a cancelled operation, unless
  its completion was already queued when it was cancelled: both are steps, and \<open>prompt\<close> selects the
  runs without such late completions. Each call of a member function and each handler is one step; the
  interleaving of the single accesses to the byte counters is in \<open>Reservation\<close>.

  The objects that waiting writers share are the list \<open>c_waits\<close>, \<open>c_wait\<close> the current one. \<open>c_states\<close> and
  \<open>c_bp_log\<close> record the calls of \<open>on_state\<close> and \<open>on_backpressure\<close>, \<open>c_delays\<close> the delays of the retry timer,
  \<open>c_wire\<close> the buffers handed to the socket. Error messages are kept without the system's description.
\<close>

section \<open>State\<close>

datatype io_op =
    Resolve nat
  | Connect_op nat
  | Connect_timer nat
  | Retry_timer nat
  | Idle_timer nat nat nat
  | Read_op nat nat
  | Write_op nat nat "tracked list" nat

datatype task =
    Start_task nat
  | Cleanup_task
  | Kick_task nat nat
  | Route_task tracked nat nat nat
  | Enqueue_task tracked nat nat nat
  | Fail_receive_task nat nat

record tcp_client = "tracked bp_queue" +
  c_cfg :: tcp_client_config
  c_policy :: "reconnect_policy option"
  c_first_retry :: nat
  c_active_write :: "(tracked list \<times> nat) option"
  c_writing :: bool
  c_ledger :: ledger
  c_stats :: stats_counters
  c_connected :: bool
  c_link :: link_state
  c_retry_attempts :: int
  c_reconnect_count :: "32 word"
  c_errors :: error_info_holder
  c_stop_requested :: bool
  c_stopping :: bool
  c_terminal :: bool
  c_reconnect_pending :: bool
  c_cleanup_started :: bool
  c_cleanup_finished :: bool
  c_cleanup_done :: bool
  c_lifecycle_seq :: nat
  c_current_seq :: nat
  c_stop_seq :: nat
  c_connection_seq :: nat
  c_idle_arm :: nat
  c_waits :: "(nat \<times> send_rejection option) list"
  c_wait :: "nat option"
  c_has_on_state :: bool
  c_has_on_bp :: bool
  c_ops :: "(io_op \<times> bool) list"
  c_tasks :: "task list"
  c_states :: "link_state list"
  c_bp_log :: "nat list"
  c_delays :: "int list"
  c_wire :: "tracked list"
  c_clock :: int

definition recalculate_backpressure_bounds :: "tcp_client \<Rightarrow> tcp_client" where
  "recalculate_backpressure_bounds c =
     (let high = cli_backpressure_threshold (c_cfg c);
          low = (if high > 1 then high div 2 else high);
          limit = min (max ((high * 4) mod 2 ^ 64) DEFAULT_BACKPRESSURE_THRESHOLD) MAX_BUFFER_SIZE
      in c\<lparr>bp_high := high, bp_low := (if low = 0 then 1 else low),
           bp_limit := (if limit < high then high else limit), backpressure_active := False\<rparr>)"

text \<open>The constructor, for a configuration that passed \<open>validate\<close>.\<close>

definition new_client :: "tcp_client_config \<Rightarrow> tcp_client" where
  "new_client cfg =
     recalculate_backpressure_bounds
       \<lparr>queue_bytes = 0, pending_bytes = 0, inflight_bytes = 0, backpressure_active = False,
        bp_high = cli_backpressure_threshold cfg, bp_low = 0, bp_limit = 0,
        bp_strategy = cli_backpressure_strategy cfg, tx = [], pending = [],
        c_cfg = cfg, c_policy = None, c_first_retry = min 100 (retry_interval_ms cfg), c_active_write = None,
        c_writing = False, c_ledger = fresh_ledger, c_stats = new_stats, c_connected = False,
        c_link = LinkIdle, c_retry_attempts = 0, c_reconnect_count = 0,
        c_errors = \<lparr>holder_component = ''tcp_client'', holder_last = None\<rparr>,
        c_stop_requested = False, c_stopping = False, c_terminal = False, c_reconnect_pending = False,
        c_cleanup_started = False, c_cleanup_finished = False, c_cleanup_done = False,
        c_lifecycle_seq = 0, c_current_seq = 0, c_stop_seq = 0, c_connection_seq = 0, c_idle_arm = 0,
        c_waits = [], c_wait = None, c_has_on_state = False, c_has_on_bp = False, c_ops = [], c_tasks = [],
        c_states = [], c_bp_log = [], c_delays = [], c_wire = [], c_clock = 0\<rparr>"

section \<open>Building blocks\<close>

definition start_op :: "io_op \<Rightarrow> tcp_client \<Rightarrow> tcp_client" where
  "start_op op c = c\<lparr>c_ops := c_ops c @ [(op, False)]\<rparr>"

definition cancel_ops :: "(io_op \<Rightarrow> bool) \<Rightarrow> tcp_client \<Rightarrow> tcp_client" where
  "cancel_ops p c = c\<lparr>c_ops := map (\<lambda>(op, x). (op, x \<or> p op)) (c_ops c)\<rparr>"

definition post_task :: "task \<Rightarrow> tcp_client \<Rightarrow> tcp_client" where
  "post_task t c = c\<lparr>c_tasks := c_tasks c @ [t]\<rparr>"

fun is_connect_timer :: "io_op \<Rightarrow> bool" where
  "is_connect_timer (Connect_timer s) = True"
| "is_connect_timer op = False"

fun is_retry_timer :: "io_op \<Rightarrow> bool" where
  "is_retry_timer (Retry_timer s) = True"
| "is_retry_timer op = False"

fun is_idle_timer :: "io_op \<Rightarrow> bool" where
  "is_idle_timer (Idle_timer s n a) = True"
| "is_idle_timer op = False"

fun on_socket :: "io_op \<Rightarrow> bool" where
  "on_socket (Connect_op s) = True"
| "on_socket (Read_op s n) = True"
| "on_socket (Write_op s n b k) = True"
| "on_socket op = False"

text \<open>\<open>TcpWriteWait::end\<close> on the current wait object.\<close>

definition end_current_wait :: "send_rejection \<Rightarrow> tcp_client \<Rightarrow> tcp_client" where
  "end_current_wait r c =
     (case c_wait c of
        None \<Rightarrow> c
      | Some i \<Rightarrow>
          case snd (c_waits c ! i) of
            Some _ \<Rightarrow> c
          | None \<Rightarrow> c\<lparr>c_waits := (c_waits c)[i := (fst (c_waits c ! i), Some r)]\<rparr>)"

definition mark_disconnected :: "tcp_client \<Rightarrow> tcp_client" where
  "mark_disconnected c =
     (if c_connected c then
        let c1 = end_current_wait NotReady (c\<lparr>c_connected := False, c_ledger := end_ledger ConnectionLoss (c_ledger c)\<rparr>)
        in c1\<lparr>c_connection_seq := c_connection_seq c1 + 1\<rparr>
      else c)"

definition notify_state :: "tcp_client \<Rightarrow> tcp_client" where
  "notify_state c =
     (if c_stop_requested c \<or> c_stopping c then c
      else if \<not> c_has_on_state c then c
      else c\<lparr>c_states := c_states c @ [c_link c]\<rparr>)"

definition is_terminal :: "link_state \<Rightarrow> bool" where
  "is_terminal l \<longleftrightarrow> l = LinkClosed \<or> l = LinkError"

definition transition_to :: "link_state \<Rightarrow> boost_error \<Rightarrow> tcp_client \<Rightarrow> tcp_client" where
  "transition_to next_state ec c =
     (if ec = Operation_aborted then c
      else
        let current = c_link c;
            retrying_same_state = (next_state = LinkConnecting \<and> current = LinkConnecting)
        in if is_terminal current \<and> is_terminal next_state then c
           else if is_terminal next_state then
             (if c_terminal c then c
              else notify_state (c\<lparr>c_terminal := True, c_link := next_state\<rparr>))
           else if current = next_state \<and> \<not> retrying_same_state then c
           else notify_state (c\<lparr>c_link := next_state\<rparr>))"

definition c_record_error :: "error_category \<Rightarrow> string \<Rightarrow> boost_error \<Rightarrow> string \<Rightarrow> bool \<Rightarrow> 32 word \<Rightarrow> tcp_client \<Rightarrow> tcp_client" where
  "c_record_error cat op ec msg retry attempts c =
     c\<lparr>c_errors := record_error Level_error cat op ec msg retry attempts (c_clock c) (c_errors c)\<rparr>"

definition current_attempts :: "tcp_client \<Rightarrow> 32 word" where
  "current_attempts c = (if c_policy c \<noteq> None then c_reconnect_count c else word_of_int (c_retry_attempts c))"

definition do_resolve_connect :: "nat \<Rightarrow> tcp_client \<Rightarrow> tcp_client" where
  "do_resolve_connect seq c = start_op (Resolve seq) c"

definition close_socket :: "tcp_client \<Rightarrow> tcp_client" where
  "close_socket c = cancel_ops on_socket c"

definition discard_connection_writes :: "tcp_client \<Rightarrow> tcp_client" where
  "discard_connection_writes c =
     (let messages = length (tx c) + length (pending c);
          bytes = sum_size tb_size (tx c) + sum_size tb_size (pending c);
          (messages, bytes) =
            (case c_active_write c of
               None \<Rightarrow> (messages, bytes)
             | Some (bufs, n) \<Rightarrow> (messages + length bufs, bytes + n));
          c1 = c\<lparr>c_active_write := None, tx := [], pending := [], queue_bytes := 0, pending_bytes := 0,
                 c_writing := False, backpressure_active := False\<rparr>
      in if messages > 0 then c1\<lparr>c_stats := record_dropped messages bytes (c_stats c1)\<rparr> else c1)"

section \<open>Retrying\<close>

definition unknown_error :: "tcp_client \<Rightarrow> error_info" where
  "unknown_error c =
     boost_error_info Level_error Connection ''tcp_client'' ''schedule_retry'' ''Unknown error'' Not_connected True (c_clock c)"

definition schedule_retry :: "nat \<Rightarrow> tcp_client \<Rightarrow> tcp_client" where
  "schedule_retry seq c =
     (let c1 = mark_disconnected c
      in if c_stop_requested c1 \<or> c_stopping c1 then c1
         else if c_reconnect_pending c1 then c1
         else
           let c2 = c1\<lparr>c_reconnect_pending := True\<rparr>;
               last_err = (case last_error_info (c_errors c2) of None \<Rightarrow> unknown_error c2 | Some e \<Rightarrow> e)
           in case decide_reconnect (c_cfg c2) last_err (current_attempts c2) (c_policy c2) of
                None \<Rightarrow> (transition_to LinkError No_error c2)\<lparr>c_reconnect_pending := False\<rparr>
              | Some decided \<Rightarrow>
                  let (c3, delay) =
                        (if c_policy c2 \<noteq> None then (c2\<lparr>c_reconnect_count := c_reconnect_count c2 + 1\<rparr>, decided)
                         else (c2\<lparr>c_retry_attempts := c_retry_attempts c2 + 1\<rparr>,
                               if c_retry_attempts c2 + 1 = 1 then int (c_first_retry c2) else decided));
                      c4 = transition_to LinkConnecting No_error c3;
                      c5 = (cancel_ops is_retry_timer c4)\<lparr>c_delays := c_delays c4 @ [delay]\<rparr>
                  in start_op (Retry_timer seq) c5)"

definition cancel_idle_timer :: "tcp_client \<Rightarrow> tcp_client" where
  "cancel_idle_timer c = cancel_ops is_idle_timer c"

definition c_reset_idle_timer :: "nat \<Rightarrow> tcp_client \<Rightarrow> tcp_client" where
  "c_reset_idle_timer seq c =
     (if idle_timeout_ms (c_cfg c) = 0 \<or> \<not> c_connected c \<or> c_stop_requested c \<or> c_stopping c then c
      else
        let c1 = cancel_idle_timer c;
            c2 = c1\<lparr>c_idle_arm := c_idle_arm c1 + 1\<rparr>
        in start_op (Idle_timer seq (c_connection_seq c2) (c_idle_arm c2)) c2)"

definition handle_close :: "nat \<Rightarrow> boost_error \<Rightarrow> tcp_client \<Rightarrow> tcp_client" where
  "handle_close seq ec c =
     (if ec = Operation_aborted \<or> seq \<noteq> c_current_seq c then c
      else
        let c1 = discard_connection_writes (mark_disconnected c);
            c2 = (if ec \<noteq> No_error
                  then c_record_error Connection ''handle_close'' ec ''Connection closed with error''
                         (is_retryable_tcp_connect_error ec) (current_attempts c1) c1
                  else c1);
            c3 = close_socket (cancel_ops is_connect_timer (cancel_idle_timer (c2\<lparr>c_writing := False\<rparr>)))
        in if c_stop_requested c3 \<or> c_stopping c3 \<or> c_link c3 = LinkClosed then transition_to LinkClosed ec c3
           else schedule_retry seq (transition_to LinkConnecting ec c3))"

definition handle_idle_timeout :: "nat \<Rightarrow> tcp_client \<Rightarrow> tcp_client" where
  "handle_idle_timeout seq c =
     (if seq \<noteq> c_current_seq c \<or> c_stop_requested c \<or> c_stopping c \<or> \<not> c_connected c then c
      else
        let c1 = discard_connection_writes (mark_disconnected c);
            should_reconnect = (idle_action (c_cfg c1) = Idle_reconnect);
            c2 = c_record_error Connection ''idle_timeout'' Timed_out ''Idle timeout expired'' should_reconnect
                   (current_attempts c1) c1;
            c3 = close_socket (cancel_ops is_connect_timer (cancel_idle_timer (c2\<lparr>c_writing := False\<rparr>)))
        in if \<not> should_reconnect then transition_to LinkClosed Timed_out c3
           else schedule_retry seq (transition_to LinkConnecting Timed_out c3))"

section \<open>Writing\<close>

definition c_observe_queue :: "tcp_client \<Rightarrow> tcp_client" where
  "c_observe_queue c = c\<lparr>c_stats := observe_queue_bytes (size_add (queue_bytes c) (pending_bytes c)) (c_stats c)\<rparr>"

text \<open>\<open>throws\<close>: initiating the socket write throws. Under a requested stop \<open>report_backpressure\<close> is void.\<close>

definition c_do_write :: "bool \<Rightarrow> nat \<Rightarrow> tcp_client \<Rightarrow> tcp_client" where
  "c_do_write throws seq c =
     (if c_stop_requested c
      then c\<lparr>tx := [], queue_bytes := 0, pending := [], pending_bytes := 0, c_writing := False\<rparr>
      else if \<not> c_connected c then c\<lparr>c_writing := False\<rparr>
      else if tx c = [] \<or> is_terminal (c_link c) then c\<lparr>c_writing := False\<rparr>
      else
        let (rest, b, n) = take_gather_batch tb_size (tx c);
            (ok, l) = begin_batch (map tb_request b) (c_ledger c)
        in if \<not> ok then c\<lparr>tx := return_gather_batch rest b, c_writing := False\<rparr>
           else
             let c1 = c\<lparr>c_writing := True, tx := rest, c_ledger := l, c_active_write := Some (b, n)\<rparr>
             in if throws then handle_close seq No_buffer_space (mark_disconnected c1)
                else start_op (Write_op seq (c_connection_seq c1) b n) (c1\<lparr>c_wire := c_wire c1 @ b\<rparr>))"

definition c_report_backpressure :: "bool \<Rightarrow> nat \<Rightarrow> tcp_client \<Rightarrow> tcp_client" where
  "c_report_backpressure throws queued c =
     (if c_stop_requested c \<or> c_stopping c then c
      else
        let c1 = c_observe_queue c;
            (c2, calls, kick) = report_backpressure queued c1;
            c3 = c2\<lparr>c_stats := (record_backpressure_event ^^ length calls) (c_stats c2),
                    c_bp_log := c_bp_log c2 @ (if c_has_on_bp c2 then calls else [])\<rparr>
        in if kick then
             let c4 = c_observe_queue c3
             in if \<not> c_writing c4 then c_do_write throws (c_current_seq c4) c4 else c4
           else c3)"

definition c_route_enqueued_buffer :: "bool \<Rightarrow> tracked \<Rightarrow> nat \<Rightarrow> tcp_client \<Rightarrow> tcp_client" where
  "c_route_enqueued_buffer throws buf added c =
     (if c_stop_requested c \<or> is_terminal (c_link c)
      then (release_reserved_limit_bytes added c)\<lparr>c_stats := record_failed_send (c_stats c)\<rparr>
      else case decide_enqueue added c of
        Rejected \<Rightarrow>
          let c1 = c_record_error Communication ''write'' No_buffer_space ''Queue limit exceeded'' False 0
                     (c\<lparr>c_ledger := discard (tb_request buf) QueuePressure (c_ledger c)\<rparr>);
              c2 = release_reserved_limit_bytes added (c1\<lparr>c_stats := record_dropped 1 added (c_stats c1)\<rparr>)
          in c_report_backpressure throws (size_add (queue_bytes c2) added) c2
      | Pending \<Rightarrow>
          let c1 = commit_to_pending added c in c_observe_queue (c1\<lparr>pending := pending c1 @ [buf]\<rparr>)
      | Immediate \<Rightarrow>
          let c1 = commit_to_queue added c;
              c2 = c_observe_queue (c1\<lparr>tx := tx c1 @ [buf]\<rparr>);
              c3 = c_report_backpressure throws (queue_bytes c2) c2
          in if \<not> c_writing c3 then c_do_write throws (c_current_seq c3) c3 else c3)"

definition write_succeeded :: "bool \<Rightarrow> nat \<Rightarrow> nat \<Rightarrow> nat \<Rightarrow> tcp_client \<Rightarrow> tcp_client" where
  "write_succeeded throws seq queued bytes_written c =
     (let c1 = c\<lparr>c_stats := record_sent bytes_written (c_stats c)\<rparr>;
          c2 = (if bytes_written > 0 then c_reset_idle_timer seq c1 else c1);
          c3 = release_reserved_write_bytes queued c2;
          c4 = c_report_backpressure throws (queue_bytes c3) c3
      in if c_stop_requested c4 \<or> is_terminal (c_link c4) then c4\<lparr>c_writing := False\<rparr>
         else c_do_write throws seq c4)"

definition on_write :: "bool \<Rightarrow> nat \<Rightarrow> nat \<Rightarrow> tracked list \<Rightarrow> nat \<Rightarrow> boost_error \<Rightarrow> nat \<Rightarrow> tcp_client \<Rightarrow> tcp_client" where
  "on_write throws seq connection bufs queued ec bytes_written c =
     (let current_connection = (connection = c_connection_seq c);
          c1 = c\<lparr>c_ledger := complete_batch (map (\<lambda>b. (tb_request b, tb_size b)) bufs) bytes_written (c_ledger c)\<rparr>;
          c2 = (if current_connection \<and> ec \<noteq> No_error \<and> ec \<noteq> Operation_aborted \<and> seq = c_current_seq c1
                then mark_disconnected c1 else c1)
      in if \<not> current_connection then c2
         else
           let c3 = c2\<lparr>c_active_write := None\<rparr>
           in if ec = Operation_aborted \<or> seq \<noteq> c_current_seq c3 then
                let c4 = release_reserved_write_bytes queued c3
                in (c_report_backpressure throws (queue_bytes c4) c4)\<lparr>c_writing := False\<rparr>
              else if ec \<noteq> No_error then
                let c4 = c_record_error Communication ''write'' ec ''Write failed'' False 0
                           (c3\<lparr>tx := return_gather_batch (tx c3) bufs\<rparr>)
                in handle_close seq ec (c4\<lparr>c_writing := False\<rparr>)
              else write_succeeded throws seq queued bytes_written c3)"

section \<open>Connecting\<close>

definition c_start_read :: "nat \<Rightarrow> tcp_client \<Rightarrow> tcp_client" where
  "c_start_read seq c = start_op (Read_op seq (c_connection_seq c)) c"

definition finish_connect :: "nat \<Rightarrow> tcp_client \<Rightarrow> tcp_client" where
  "finish_connect seq c =
     (if seq \<noteq> c_current_seq c \<or> c_stop_requested c \<or> c_stopping c then c
      else
        let c1 = c\<lparr>c_waits := c_waits c @ [(c_connection_seq c, None)], c_wait := Some (length (c_waits c)),
                   c_connected := True\<rparr>;
            connection = c_connection_seq c1;
            c2 = transition_to LinkConnected No_error c1;
            c3 = c_reset_idle_timer seq (c_start_read seq c2)
        in post_task (Kick_task seq connection) c3)"

definition on_resolve :: "nat \<Rightarrow> boost_error \<Rightarrow> tcp_client \<Rightarrow> tcp_client" where
  "on_resolve seq ec c =
     (if ec = Operation_aborted \<or> seq \<noteq> c_current_seq c then c
      else if c_stop_requested c \<or> c_stopping c then c
      else if ec \<noteq> No_error then
        schedule_retry seq
          (c_record_error Connection ''resolve'' ec ''Resolution failed'' (is_retryable_tcp_connect_error ec)
             (current_attempts c) c)
      else start_op (Connect_op seq) (start_op (Connect_timer seq) (cancel_ops is_connect_timer c)))"

definition on_connect_timer :: "nat \<Rightarrow> boost_error \<Rightarrow> tcp_client \<Rightarrow> tcp_client" where
  "on_connect_timer seq ec c =
     (if ec = Operation_aborted \<or> seq \<noteq> c_current_seq c then c
      else if ec = No_error \<and> \<not> c_stop_requested c \<and> \<not> c_stopping c then
        handle_close seq Timed_out
          (c_record_error Connection ''connect'' Timed_out ''Connection timed out''
             (is_retryable_tcp_connect_error Timed_out) (current_attempts c) c)
      else c)"

definition on_connect :: "nat \<Rightarrow> boost_error \<Rightarrow> tcp_client \<Rightarrow> tcp_client" where
  "on_connect seq ec c =
     (if ec = Operation_aborted \<or> seq \<noteq> c_current_seq c then c
      else if c_stop_requested c \<or> c_stopping c then cancel_ops is_connect_timer (close_socket c)
      else if ec \<noteq> No_error then
        let c1 = cancel_ops is_connect_timer c
        in schedule_retry seq
             (c_record_error Connection ''connect'' ec ''Connection failed'' (is_retryable_tcp_connect_error ec)
                (current_attempts c1) c1)
      else
        finish_connect seq
          ((cancel_ops is_connect_timer c)\<lparr>c_retry_attempts := 0, c_reconnect_count := 0\<rparr>))"

definition on_retry_timer :: "nat \<Rightarrow> boost_error \<Rightarrow> tcp_client \<Rightarrow> tcp_client" where
  "on_retry_timer seq ec c =
     (let c1 = c\<lparr>c_reconnect_pending := False\<rparr>
      in if ec = Operation_aborted \<or> seq \<noteq> c_current_seq c1 then c1
         else if ec = No_error \<and> \<not> c_stop_requested c1 \<and> \<not> c_stopping c1 then do_resolve_connect seq c1
         else c1)"

definition on_idle_timer :: "nat \<Rightarrow> nat \<Rightarrow> nat \<Rightarrow> boost_error \<Rightarrow> tcp_client \<Rightarrow> tcp_client" where
  "on_idle_timer seq connection arm ec c =
     (if ec = Operation_aborted \<or> seq \<noteq> c_current_seq c \<or> connection \<noteq> c_connection_seq c \<or> arm \<noteq> c_idle_arm c
      then c
      else if ec = No_error then handle_idle_timeout seq c else c)"

definition on_read :: "nat \<Rightarrow> nat \<Rightarrow> boost_error \<Rightarrow> nat \<Rightarrow> tcp_client \<Rightarrow> tcp_client" where
  "on_read seq connection ec n c =
     (if ec = Operation_aborted \<or> seq \<noteq> c_current_seq c \<or> connection \<noteq> c_connection_seq c then c
      else if c_stop_requested c then c
      else if ec \<noteq> No_error then handle_close seq ec c
      else
        let c1 = (if n > 0 then c_reset_idle_timer seq c else c);
            c2 = c1\<lparr>c_stats := record_received n (c_clock c1) (c_stats c1)\<rparr>
        in c_start_read seq c2)"

section \<open>Starting and stopping\<close>

definition perform_stop_cleanup :: "tcp_client \<Rightarrow> tcp_client" where
  "perform_stop_cleanup c =
     (if c_cleanup_started c then c
      else
        let c1 = cancel_ops (\<lambda>_. True) (c\<lparr>c_cleanup_started := True\<rparr>);
            c2 = c1\<lparr>tx := [], queue_bytes := 0, pending := [], pending_bytes := 0, c_writing := False,
                    c_active_write := None\<rparr>;
            c3 = (mark_disconnected c2)\<lparr>backpressure_active := False\<rparr>;
            c4 = (transition_to LinkClosed No_error c3)\<lparr>c_cleanup_finished := True\<rparr>
        in if c_ops c4 = [] then c4\<lparr>c_cleanup_done := True\<rparr> else c4)"

definition reset_start_state :: "tcp_client \<Rightarrow> tcp_client" where
  "reset_start_state c =
     (let c1 = mark_disconnected
                 (c\<lparr>c_cleanup_started := False, c_cleanup_finished := False, inflight_bytes := 0, c_cleanup_done := False,
                    c_stop_requested := False, c_stopping := False, c_terminal := False, c_reconnect_pending := False,
                    c_retry_attempts := 0, c_reconnect_count := 0\<rparr>)
      in c1\<lparr>c_writing := False, queue_bytes := 0, pending := [], pending_bytes := 0, backpressure_active := False,
            c_link := LinkIdle\<rparr>)"

definition reset_io_objects :: "tcp_client \<Rightarrow> tcp_client" where
  "reset_io_objects c =
     (cancel_ops (\<lambda>_. True) c)\<lparr>tx := [], queue_bytes := 0, pending := [], pending_bytes := 0, c_writing := False,
        backpressure_active := False\<rparr>"

definition c_start :: "tcp_client \<Rightarrow> tcp_client" where
  "c_start c =
     (if c_link c = LinkConnecting \<or> c_link c = LinkConnected then c
      else
        let c1 = recalculate_backpressure_bounds c;
            seq = c_lifecycle_seq c1 + 1;
            c2 = reset_start_state (c1\<lparr>c_lifecycle_seq := seq, c_current_seq := seq\<rparr>)
        in post_task (Start_task seq) c2)"

definition c_stop :: "tcp_client \<Rightarrow> tcp_client" where
  "c_stop c =
     (if c_stop_requested c then c
      else
        let c1 = end_current_wait CancelledWhileWaiting
                   (c\<lparr>c_stop_requested := True, c_ledger := end_ledger ExplicitStop (c_ledger c)\<rparr>);
            c2 = c1\<lparr>c_stopping := True, c_stop_seq := c_current_seq c1\<rparr>
        in if c_current_seq c2 = 0 then perform_stop_cleanup c2 else post_task Cleanup_task c2)"

section \<open>Admission\<close>

definition admission_rejection :: "nat option \<Rightarrow> tcp_client \<Rightarrow> send_rejection option" where
  "admission_rejection expected c =
     (if c_stop_requested c then Some (if c_cleanup_done c then NotStarted else Stopping)
      else if c_current_seq c = 0 then Some NotStarted
      else if (\<exists>k. expected = Some k \<and> k \<noteq> c_connection_seq c) \<or> c_link c = LinkClosed \<or> c_link c = LinkError
              \<or> \<not> c_connected c
      then Some NotReady else None)"

definition c_refuse :: "send_rejection \<Rightarrow> tcp_client \<Rightarrow> send_result \<times> tcp_client" where
  "c_refuse r c = (Reject r, c\<lparr>c_stats := record_failed_send (c_stats c)\<rparr>)"

definition c_accept :: "bytes \<Rightarrow> (tracked \<Rightarrow> nat \<Rightarrow> nat \<Rightarrow> nat \<Rightarrow> task) \<Rightarrow> tcp_client \<Rightarrow> send_result \<times> tcp_client" where
  "c_accept data mk c =
     (let (rid, l) = admit (length data) None (c_ledger c)
      in (Accept, post_task (mk \<lparr>tb_data = data, tb_request = rid\<rparr> (length data) (c_current_seq c) (c_connection_seq c))
                    (c\<lparr>c_ledger := l, c_stats := record_accepted (length data) (c_stats c)\<rparr>)))"

definition c_reserve_and_post :: "bytes \<Rightarrow> tcp_client \<Rightarrow> send_result \<times> tcp_client" where
  "c_reserve_and_post data c =
     (case try_reserve_limit_bytes (length data) c of
        (False, c1) \<Rightarrow> c_refuse WouldBlock c1
      | (True, c1) \<Rightarrow> c_accept data Route_task c1)"

definition c_write_move :: "bytes \<Rightarrow> nat option \<Rightarrow> tcp_client \<Rightarrow> send_result \<times> tcp_client" where
  "c_write_move data expected c =
     (case admission_rejection expected c of
        Some r \<Rightarrow> c_refuse r c
      | None \<Rightarrow>
          if length data = 0 then c_refuse InvalidArgument c
          else if length data > MAX_BUFFER_SIZE then c_refuse TooLarge c
          else c_reserve_and_post data c)"

text \<open>\<open>pooled_valid\<close>: the client's pool delivered a buffer.\<close>

definition c_write_copy :: "bool \<Rightarrow> bytes \<Rightarrow> nat option \<Rightarrow> tcp_client \<Rightarrow> send_result \<times> tcp_client" where
  "c_write_copy pooled_valid data expected c =
     (case admission_rejection expected c of
        Some r \<Rightarrow> c_refuse r c
      | None \<Rightarrow>
          if length data = 0 then c_refuse InvalidArgument c
          else if length data > MAX_BUFFER_SIZE then c_refuse TooLarge c
          else if length data \<le> 65536 \<and> cli_enable_memory_pool (c_cfg c) \<and> pooled_valid
          then c_reserve_and_post data c
          else c_reserve_and_post data c)"

definition c_write_shared :: "bytes option \<Rightarrow> nat option \<Rightarrow> tcp_client \<Rightarrow> send_result \<times> tcp_client" where
  "c_write_shared data expected c =
     (case admission_rejection expected c of
        Some r \<Rightarrow> c_refuse r c
      | None \<Rightarrow>
          case data of
            None \<Rightarrow> c_refuse InvalidArgument c
          | Some d \<Rightarrow>
              if d = [] then c_refuse InvalidArgument c
              else if length d > MAX_BUFFER_SIZE then c_refuse TooLarge c
              else c_reserve_and_post d c)"

definition c_reject_for_pressure :: "nat \<Rightarrow> tcp_client \<Rightarrow> send_result \<times> tcp_client" where
  "c_reject_for_pressure added c =
     (Reject WouldBlock,
      c\<lparr>c_stats := (if bp_strategy c = BestEffort then record_dropped 1 added (c_stats c)
                    else record_failed_send (c_stats c))\<rparr>)"

definition c_try_admit :: "bytes \<Rightarrow> tcp_client \<Rightarrow> send_result \<times> tcp_client" where
  "c_try_admit data c =
     (let added = length data
      in if backpressure_active c \<or> size_add (queue_bytes c) added > bp_high c \<or>
            size_add (size_add (queue_bytes c) (pending_bytes c)) added > bp_limit c
         then c_reject_for_pressure added c
         else case try_reserve_write_bytes_locked added c of
                (False, c1) \<Rightarrow> c_reject_for_pressure added c1
              | (True, c1) \<Rightarrow> c_accept data Enqueue_task c1)"

definition c_try_write_move :: "bytes \<Rightarrow> tcp_client \<Rightarrow> send_result \<times> tcp_client" where
  "c_try_write_move data c =
     (case admission_rejection None c of
        Some r \<Rightarrow> c_refuse r c
      | None \<Rightarrow>
          if length data = 0 \<or> length data > MAX_BUFFER_SIZE
          then c_refuse (if length data = 0 then InvalidArgument else TooLarge) c
          else c_try_admit data c)"

definition c_try_write_copy :: "bytes \<Rightarrow> tcp_client \<Rightarrow> send_result \<times> tcp_client" where
  "c_try_write_copy data c =
     (if data = [] then c_refuse InvalidArgument c
      else if length data > MAX_BUFFER_SIZE then c_refuse TooLarge c
      else c_try_write_move data c)"

definition c_try_write_shared :: "bytes option \<Rightarrow> tcp_client \<Rightarrow> send_result \<times> tcp_client" where
  "c_try_write_shared data c =
     (case data of
        None \<Rightarrow> c_refuse InvalidArgument c
      | Some d \<Rightarrow>
          if d = [] then c_refuse InvalidArgument c
          else if length d > MAX_BUFFER_SIZE then c_refuse TooLarge c
          else case admission_rejection None c of
                 Some r \<Rightarrow> c_refuse r c
               | None \<Rightarrow> c_try_admit d c)"

section \<open>Waiting writers\<close>

definition capture_write_wait :: "tcp_client \<Rightarrow> nat option" where
  "capture_write_wait c = (if c_stop_requested c \<or> \<not> c_connected c then None else c_wait c)"

definition c_poll_write_wait :: "nat option \<Rightarrow> tcp_client \<Rightarrow> send_result option" where
  "c_poll_write_wait wait c =
     (case wait of
        None \<Rightarrow> Some (Reject NotReady)
      | Some i \<Rightarrow>
          case snd (c_waits c ! i) of
            Some r \<Rightarrow> Some (Reject r)
          | None \<Rightarrow>
              if fst (c_waits c ! i) \<noteq> c_connection_seq c \<or> \<not> c_connected c then Some (Reject NotReady)
              else if \<not> backpressure_active c then Some Accept
              else None)"

definition cancel_write_waits :: "tcp_client \<Rightarrow> tcp_client" where
  "cancel_write_waits c = end_current_wait CancelledWhileWaiting c"

definition write_connection :: "tcp_client \<Rightarrow> nat option" where
  "write_connection c = (if c_stop_requested c \<or> \<not> c_connected c then None else Some (c_connection_seq c))"

definition c_write_state :: "tcp_client \<Rightarrow> send_result" where
  "c_write_state c = (case admission_rejection None c of Some r \<Rightarrow> Reject r | None \<Rightarrow> Accept)"

definition fail_receive :: "tcp_client \<Rightarrow> tcp_client" where
  "fail_receive c =
     (case write_connection c of
        None \<Rightarrow> c
      | Some connection \<Rightarrow> post_task (Fail_receive_task (c_current_seq c) connection) c)"

section \<open>Statistics and settings\<close>

definition c_stats_snapshot :: "tcp_client \<Rightarrow> runtime_stats" where
  "c_stats_snapshot c =
     (stats_snapshot (queue_bytes c) (pending_bytes c) (backpressure_active c) (c_clock c) (c_stats c))
       \<lparr>rs_send_accounting := Some (totals (c_ledger c))\<rparr>"

definition c_reset_stats :: "tcp_client \<Rightarrow> tcp_client" where
  "c_reset_stats c =
     c\<lparr>c_ledger := reset_ledger (c_ledger c),
       c_stats := reset_stats (size_add (queue_bytes c) (pending_bytes c)) (c_stats c)\<rparr>"

text \<open>A setter that checks the changed configuration first; the parameters are those of \<open>tcp_client_is_valid\<close>.\<close>

definition c_reconfigure ::
    "(string \<Rightarrow> string option) \<Rightarrow> (string \<Rightarrow> bool) \<Rightarrow> tcp_client_config \<Rightarrow> tcp_client \<Rightarrow> string + tcp_client" where
  "c_reconfigure v4 v6 candidate c =
     (case require (tcp_client_is_valid v4 v6 candidate) ''invalid transport configuration'' of
        Inl e \<Rightarrow> Inl e
      | Inr _ \<Rightarrow> Inr (c\<lparr>c_cfg := candidate\<rparr>))"

definition set_retry_interval ::
    "(string \<Rightarrow> string option) \<Rightarrow> (string \<Rightarrow> bool) \<Rightarrow> nat \<Rightarrow> tcp_client \<Rightarrow> string + tcp_client" where
  "set_retry_interval v4 v6 ms c = c_reconfigure v4 v6 ((c_cfg c)\<lparr>retry_interval_ms := ms\<rparr>) c"

definition set_max_retries ::
    "(string \<Rightarrow> string option) \<Rightarrow> (string \<Rightarrow> bool) \<Rightarrow> int \<Rightarrow> tcp_client \<Rightarrow> string + tcp_client" where
  "set_max_retries v4 v6 n c = c_reconfigure v4 v6 ((c_cfg c)\<lparr>max_retries := n\<rparr>) c"

definition set_connection_timeout ::
    "(string \<Rightarrow> string option) \<Rightarrow> (string \<Rightarrow> bool) \<Rightarrow> nat \<Rightarrow> tcp_client \<Rightarrow> string + tcp_client" where
  "set_connection_timeout v4 v6 ms c = c_reconfigure v4 v6 ((c_cfg c)\<lparr>connection_timeout_ms := ms\<rparr>) c"

definition set_idle_timeout ::
    "(string \<Rightarrow> string option) \<Rightarrow> (string \<Rightarrow> bool) \<Rightarrow> nat \<Rightarrow> tcp_client \<Rightarrow> string + tcp_client" where
  "set_idle_timeout v4 v6 ms c = c_reconfigure v4 v6 ((c_cfg c)\<lparr>idle_timeout_ms := ms\<rparr>) c"

definition set_idle_timeout_action :: "idle_timeout_action \<Rightarrow> tcp_client \<Rightarrow> tcp_client" where
  "set_idle_timeout_action a c = c\<lparr>c_cfg := (c_cfg c)\<lparr>idle_action := a\<rparr>\<rparr>"

definition set_reconnect_policy :: "reconnect_policy option \<Rightarrow> tcp_client \<Rightarrow> tcp_client" where
  "set_reconnect_policy p c = c\<lparr>c_policy := p\<rparr>"

definition set_backpressure_strategy :: "backpressure_strategy \<Rightarrow> tcp_client \<Rightarrow> tcp_client" where
  "set_backpressure_strategy st c = c\<lparr>bp_strategy := st\<rparr>"

definition set_on_state :: "bool \<Rightarrow> tcp_client \<Rightarrow> tcp_client" where
  "set_on_state b c = c\<lparr>c_has_on_state := b\<rparr>"

definition set_on_backpressure :: "bool \<Rightarrow> tcp_client \<Rightarrow> tcp_client" where
  "set_on_backpressure b c = c\<lparr>c_has_on_bp := b\<rparr>"

section \<open>Executions\<close>

definition complete_op :: "bool \<Rightarrow> io_op \<Rightarrow> boost_error \<Rightarrow> nat \<Rightarrow> tcp_client \<Rightarrow> tcp_client" where
  "complete_op throws op ec n c =
     (case op of
        Resolve seq \<Rightarrow> on_resolve seq ec c
      | Connect_op seq \<Rightarrow> on_connect seq ec c
      | Connect_timer seq \<Rightarrow> on_connect_timer seq ec c
      | Retry_timer seq \<Rightarrow> on_retry_timer seq ec c
      | Idle_timer seq connection arm \<Rightarrow> on_idle_timer seq connection arm ec c
      | Read_op seq connection \<Rightarrow> on_read seq connection ec n c
      | Write_op seq connection bufs queued \<Rightarrow> on_write throws seq connection bufs queued ec n c)"

text \<open>The destructor of \<open>IoCompletion\<close>.\<close>

definition io_completed :: "tcp_client \<Rightarrow> tcp_client" where
  "io_completed c = (if c_ops c = [] \<and> c_cleanup_finished c then c\<lparr>c_cleanup_done := True\<rparr> else c)"

definition run_task :: "bool \<Rightarrow> task \<Rightarrow> tcp_client \<Rightarrow> tcp_client" where
  "run_task throws t c =
     (case t of
        Start_task seq \<Rightarrow>
          if seq \<le> c_stop_seq c then c
          else do_resolve_connect seq
                 (transition_to LinkConnecting No_error (reset_io_objects (mark_disconnected c)))
      | Cleanup_task \<Rightarrow> perform_stop_cleanup c
      | Kick_task seq connection \<Rightarrow>
          if seq \<noteq> c_current_seq c \<or> connection \<noteq> c_connection_seq c then c
          else if \<not> c_writing c then c_do_write throws seq c else c
      | Route_task buf added seq connection \<Rightarrow>
          if seq \<noteq> c_current_seq c then c
          else if connection \<noteq> c_connection_seq c
          then release_reserved_limit_bytes added (c\<lparr>c_stats := record_dropped 1 added (c_stats c)\<rparr>)
          else c_route_enqueued_buffer throws buf added c
      | Enqueue_task buf added seq connection \<Rightarrow>
          if seq \<noteq> c_current_seq c then c
          else if connection \<noteq> c_connection_seq c then c\<lparr>c_stats := record_dropped 1 added (c_stats c)\<rparr>
          else if c_stop_requested c \<or> is_terminal (c_link c)
          then (release_reserved_write_bytes added c)\<lparr>c_stats := record_failed_send (c_stats c)\<rparr>
          else
            let c1 = c_observe_queue (c\<lparr>tx := tx c @ [buf]\<rparr>);
                c2 = c_report_backpressure throws (queue_bytes c1) c1
            in if \<not> c_writing c2 then c_do_write throws (c_current_seq c2) c2 else c2
      | Fail_receive_task run connection \<Rightarrow>
          if run \<noteq> c_current_seq c \<or> write_connection c \<noteq> Some connection then c
          else handle_close run No_buffer_space c)"

datatype client_action =
    Do_start
  | Do_stop
  | Run_task bool
  | Complete nat boost_error nat bool
  | Do_write_move bytes "nat option"
  | Do_write_copy bool bytes "nat option"
  | Do_write_shared "bytes option" "nat option"
  | Do_try_write_move bytes
  | Do_try_write_copy bytes
  | Do_try_write_shared "bytes option"
  | Do_cancel_waits
  | Do_fail_receive
  | Do_reset_stats
  | Do_set_policy "reconnect_policy option"
  | Do_set_strategy backpressure_strategy
  | Do_set_idle_action idle_timeout_action
  | Do_callbacks bool bool
  | Do_tick nat

text \<open>
  The setters that change a validated configuration are left out: the runs considered have a fixed
  retry budget. A write completes with at most the bytes that were handed over.
\<close>

fun client_step :: "client_action \<Rightarrow> tcp_client \<Rightarrow> tcp_client option" where
  "client_step Do_start c = Some (c_start c)"
| "client_step Do_stop c = Some (c_stop c)"
| "client_step (Run_task throws) c =
     (case c_tasks c of [] \<Rightarrow> None | t # ts \<Rightarrow> Some (run_task throws t (c\<lparr>c_tasks := ts\<rparr>)))"
| "client_step (Complete i ec n throws) c =
     (if i < length (c_ops c)
      then Some (io_completed (complete_op throws (fst (c_ops c ! i)) ec n
                   (c\<lparr>c_ops := take i (c_ops c) @ drop (Suc i) (c_ops c)\<rparr>)))
      else None)"
| "client_step (Do_write_move d k) c = Some (snd (c_write_move d k c))"
| "client_step (Do_write_copy v d k) c = Some (snd (c_write_copy v d k c))"
| "client_step (Do_write_shared d k) c = Some (snd (c_write_shared d k c))"
| "client_step (Do_try_write_move d) c = Some (snd (c_try_write_move d c))"
| "client_step (Do_try_write_copy d) c = Some (snd (c_try_write_copy d c))"
| "client_step (Do_try_write_shared d) c = Some (snd (c_try_write_shared d c))"
| "client_step Do_cancel_waits c = Some (cancel_write_waits c)"
| "client_step Do_fail_receive c = Some (fail_receive c)"
| "client_step Do_reset_stats c = Some (c_reset_stats c)"
| "client_step (Do_set_policy p) c = Some (set_reconnect_policy p c)"
| "client_step (Do_set_strategy st) c = Some (set_backpressure_strategy st c)"
| "client_step (Do_set_idle_action a) c = Some (set_idle_timeout_action a c)"
| "client_step (Do_callbacks x y) c = Some (set_on_backpressure y (set_on_state x c))"
| "client_step (Do_tick n) c = Some (c\<lparr>c_clock := c_clock c + int n\<rparr>)"

end
