(* ===== verification/Client_Forms.thy ===== *)
theory Client_Forms
  imports Tcp_Client
begin

text \<open>
  The operations of a \<open>TcpClient\<close> in the shape its proofs use: one record update per building block, frame
  lemmas, and the three outcomes of an admission.
\<close>

section \<open>Normal forms\<close>

text \<open>
  Each building block of the client as one record update, so that the fields it leaves alone are found by
  simplification.
\<close>

definition ended_waits :: "send_rejection \<Rightarrow> tcp_client \<Rightarrow> (nat \<times> send_rejection option) list" where
  "ended_waits r c = c_waits (end_current_wait r c)"

lemma end_current_wait_eq: "end_current_wait r c = c\<lparr>c_waits := ended_waits r c\<rparr>"
  by (simp add: ended_waits_def end_current_wait_def split: option.splits)

definition left_ledger :: "tcp_client \<Rightarrow> ledger" where
  "left_ledger c = (if c_connected c then end_ledger ConnectionLoss (c_ledger c) else c_ledger c)"

definition left_waits :: "tcp_client \<Rightarrow> (nat \<times> send_rejection option) list" where
  "left_waits c = (if c_connected c then ended_waits NotReady c else c_waits c)"

definition left_connection :: "tcp_client \<Rightarrow> nat" where
  "left_connection c = c_connection_seq c + (if c_connected c then 1 else 0)"

lemma mark_disconnected_eq:
  "mark_disconnected c =
     c\<lparr>c_connected := False, c_ledger := left_ledger c, c_waits := left_waits c,
       c_connection_seq := left_connection c\<rparr>"
proof -
  have "ended_waits NotReady (c\<lparr>c_connected := a, c_ledger := b\<rparr>) = ended_waits NotReady c" for a b
    by (simp add: ended_waits_def end_current_wait_def split: option.splits)
  then show ?thesis
    by (simp add: mark_disconnected_def left_ledger_def left_waits_def left_connection_def end_current_wait_eq)
qed

lemma left_ledger_frame [simp]:
  "left_ledger (c\<lparr>queue_bytes := x0\<rparr>) = left_ledger c"
  "left_ledger (c\<lparr>pending_bytes := x1\<rparr>) = left_ledger c"
  "left_ledger (c\<lparr>inflight_bytes := x2\<rparr>) = left_ledger c"
  "left_ledger (c\<lparr>backpressure_active := x3\<rparr>) = left_ledger c"
  "left_ledger (c\<lparr>bp_high := x4\<rparr>) = left_ledger c"
  "left_ledger (c\<lparr>bp_low := x5\<rparr>) = left_ledger c"
  "left_ledger (c\<lparr>bp_limit := x6\<rparr>) = left_ledger c"
  "left_ledger (c\<lparr>bp_strategy := x7\<rparr>) = left_ledger c"
  "left_ledger (c\<lparr>tx := x8\<rparr>) = left_ledger c" "left_ledger (c\<lparr>pending := x9\<rparr>) = left_ledger c"
  "left_ledger (c\<lparr>c_cfg := x10\<rparr>) = left_ledger c"
  "left_ledger (c\<lparr>c_policy := x11\<rparr>) = left_ledger c"
  "left_ledger (c\<lparr>c_first_retry := x12\<rparr>) = left_ledger c"
  "left_ledger (c\<lparr>c_active_write := x13\<rparr>) = left_ledger c"
  "left_ledger (c\<lparr>c_writing := x14\<rparr>) = left_ledger c"
  "left_ledger (c\<lparr>c_stats := x16\<rparr>) = left_ledger c"
  "left_ledger (c\<lparr>c_link := x18\<rparr>) = left_ledger c"
  "left_ledger (c\<lparr>c_retry_attempts := x19\<rparr>) = left_ledger c"
  "left_ledger (c\<lparr>c_reconnect_count := x20\<rparr>) = left_ledger c"
  "left_ledger (c\<lparr>c_errors := x21\<rparr>) = left_ledger c"
  "left_ledger (c\<lparr>c_stop_requested := x22\<rparr>) = left_ledger c"
  "left_ledger (c\<lparr>c_stopping := x23\<rparr>) = left_ledger c"
  "left_ledger (c\<lparr>c_terminal := x24\<rparr>) = left_ledger c"
  "left_ledger (c\<lparr>c_reconnect_pending := x25\<rparr>) = left_ledger c"
  "left_ledger (c\<lparr>c_cleanup_started := x26\<rparr>) = left_ledger c"
  "left_ledger (c\<lparr>c_cleanup_finished := x27\<rparr>) = left_ledger c"
  "left_ledger (c\<lparr>c_cleanup_done := x28\<rparr>) = left_ledger c"
  "left_ledger (c\<lparr>c_lifecycle_seq := x29\<rparr>) = left_ledger c"
  "left_ledger (c\<lparr>c_current_seq := x30\<rparr>) = left_ledger c"
  "left_ledger (c\<lparr>c_stop_seq := x31\<rparr>) = left_ledger c"
  "left_ledger (c\<lparr>c_connection_seq := x32\<rparr>) = left_ledger c"
  "left_ledger (c\<lparr>c_idle_arm := x33\<rparr>) = left_ledger c"
  "left_ledger (c\<lparr>c_waits := x34\<rparr>) = left_ledger c"
  "left_ledger (c\<lparr>c_wait := x35\<rparr>) = left_ledger c"
  "left_ledger (c\<lparr>c_has_on_state := x36\<rparr>) = left_ledger c"
  "left_ledger (c\<lparr>c_has_on_bp := x37\<rparr>) = left_ledger c"
  "left_ledger (c\<lparr>c_ops := x38\<rparr>) = left_ledger c"
  "left_ledger (c\<lparr>c_tasks := x39\<rparr>) = left_ledger c"
  "left_ledger (c\<lparr>c_states := x40\<rparr>) = left_ledger c"
  "left_ledger (c\<lparr>c_bp_log := x41\<rparr>) = left_ledger c"
  "left_ledger (c\<lparr>c_delays := x42\<rparr>) = left_ledger c"
  "left_ledger (c\<lparr>c_wire := x43\<rparr>) = left_ledger c"
  "left_ledger (c\<lparr>c_clock := x44\<rparr>) = left_ledger c"
  by (simp_all add: left_ledger_def)


lemma left_connection_frame [simp]:
  "left_connection (c\<lparr>queue_bytes := x0\<rparr>) = left_connection c"
  "left_connection (c\<lparr>pending_bytes := x1\<rparr>) = left_connection c"
  "left_connection (c\<lparr>inflight_bytes := x2\<rparr>) = left_connection c"
  "left_connection (c\<lparr>backpressure_active := x3\<rparr>) = left_connection c"
  "left_connection (c\<lparr>bp_high := x4\<rparr>) = left_connection c"
  "left_connection (c\<lparr>bp_low := x5\<rparr>) = left_connection c"
  "left_connection (c\<lparr>bp_limit := x6\<rparr>) = left_connection c"
  "left_connection (c\<lparr>bp_strategy := x7\<rparr>) = left_connection c"
  "left_connection (c\<lparr>tx := x8\<rparr>) = left_connection c"
  "left_connection (c\<lparr>pending := x9\<rparr>) = left_connection c"
  "left_connection (c\<lparr>c_cfg := x10\<rparr>) = left_connection c"
  "left_connection (c\<lparr>c_policy := x11\<rparr>) = left_connection c"
  "left_connection (c\<lparr>c_first_retry := x12\<rparr>) = left_connection c"
  "left_connection (c\<lparr>c_active_write := x13\<rparr>) = left_connection c"
  "left_connection (c\<lparr>c_writing := x14\<rparr>) = left_connection c"
  "left_connection (c\<lparr>c_ledger := x15\<rparr>) = left_connection c"
  "left_connection (c\<lparr>c_stats := x16\<rparr>) = left_connection c"
  "left_connection (c\<lparr>c_link := x18\<rparr>) = left_connection c"
  "left_connection (c\<lparr>c_retry_attempts := x19\<rparr>) = left_connection c"
  "left_connection (c\<lparr>c_reconnect_count := x20\<rparr>) = left_connection c"
  "left_connection (c\<lparr>c_errors := x21\<rparr>) = left_connection c"
  "left_connection (c\<lparr>c_stop_requested := x22\<rparr>) = left_connection c"
  "left_connection (c\<lparr>c_stopping := x23\<rparr>) = left_connection c"
  "left_connection (c\<lparr>c_terminal := x24\<rparr>) = left_connection c"
  "left_connection (c\<lparr>c_reconnect_pending := x25\<rparr>) = left_connection c"
  "left_connection (c\<lparr>c_cleanup_started := x26\<rparr>) = left_connection c"
  "left_connection (c\<lparr>c_cleanup_finished := x27\<rparr>) = left_connection c"
  "left_connection (c\<lparr>c_cleanup_done := x28\<rparr>) = left_connection c"
  "left_connection (c\<lparr>c_lifecycle_seq := x29\<rparr>) = left_connection c"
  "left_connection (c\<lparr>c_current_seq := x30\<rparr>) = left_connection c"
  "left_connection (c\<lparr>c_stop_seq := x31\<rparr>) = left_connection c"
  "left_connection (c\<lparr>c_idle_arm := x33\<rparr>) = left_connection c"
  "left_connection (c\<lparr>c_waits := x34\<rparr>) = left_connection c"
  "left_connection (c\<lparr>c_wait := x35\<rparr>) = left_connection c"
  "left_connection (c\<lparr>c_has_on_state := x36\<rparr>) = left_connection c"
  "left_connection (c\<lparr>c_has_on_bp := x37\<rparr>) = left_connection c"
  "left_connection (c\<lparr>c_ops := x38\<rparr>) = left_connection c"
  "left_connection (c\<lparr>c_tasks := x39\<rparr>) = left_connection c"
  "left_connection (c\<lparr>c_states := x40\<rparr>) = left_connection c"
  "left_connection (c\<lparr>c_bp_log := x41\<rparr>) = left_connection c"
  "left_connection (c\<lparr>c_delays := x42\<rparr>) = left_connection c"
  "left_connection (c\<lparr>c_wire := x43\<rparr>) = left_connection c"
  "left_connection (c\<lparr>c_clock := x44\<rparr>) = left_connection c"
  by (simp_all add: left_connection_def)


definition moves :: "link_state \<Rightarrow> boost_error \<Rightarrow> link_state \<Rightarrow> bool \<Rightarrow> bool" where
  "moves l ec current told \<longleftrightarrow> ec \<noteq> Operation_aborted \<and> \<not> (is_terminal current \<and> is_terminal l)
     \<and> (if is_terminal l then \<not> told else current \<noteq> l \<or> l = LinkConnecting)"

abbreviation moved :: "link_state \<Rightarrow> boost_error \<Rightarrow> tcp_client \<Rightarrow> bool" where
  "moved l ec c \<equiv> moves l ec (c_link c) (c_terminal c)"

abbreviation heard :: "tcp_client \<Rightarrow> bool" where
  "heard c \<equiv> c_has_on_state c \<and> \<not> c_stop_requested c \<and> \<not> c_stopping c"

lemma notify_state_eq: "notify_state c = c\<lparr>c_states := c_states c @ (if heard c then [c_link c] else [])\<rparr>"
  by (simp add: notify_state_def)

lemma transition_to_moves:
  "transition_to l ec c =
     (if moved l ec c then notify_state (c\<lparr>c_terminal := c_terminal c \<or> is_terminal l, c_link := l\<rparr>) else c)"
proof (cases "is_terminal l")
  case True
  then show ?thesis by (simp add: transition_to_def moves_def Let_def)
next
  case False
  have "c\<lparr>c_terminal := c_terminal c, c_link := l\<rparr> = c\<lparr>c_link := l\<rparr>" by simp
  with False show ?thesis by (auto simp: transition_to_def moves_def Let_def)
qed

lemma transition_to_eq:
  "transition_to l ec c =
     c\<lparr>c_terminal := c_terminal c \<or> moved l ec c \<and> is_terminal l,
       c_link := (if moved l ec c then l else c_link c),
       c_states := c_states c @ (if moved l ec c \<and> heard c then [l] else [])\<rparr>"
  by (cases "moved l ec c") (simp_all add: transition_to_moves notify_state_eq)

definition dropped_stats :: "tcp_client \<Rightarrow> stats_counters" where
  "dropped_stats c = c_stats (discard_connection_writes c)"

lemma discard_connection_writes_eq:
  "discard_connection_writes c =
     c\<lparr>c_active_write := None, tx := [], pending := [], queue_bytes := 0, pending_bytes := 0, c_writing := False,
       backpressure_active := False, c_stats := dropped_stats c\<rparr>"
  by (simp add: dropped_stats_def discard_connection_writes_def Let_def split: option.splits prod.splits)

definition idle_arms :: "nat \<Rightarrow> tcp_client \<Rightarrow> bool" where
  "idle_arms seq c \<longleftrightarrow> idle_timeout_ms (c_cfg c) \<noteq> 0 \<and> c_connected c \<and> \<not> c_stop_requested c \<and> \<not> c_stopping c"

lemmas op_defs = start_op_def cancel_ops_def post_task_def close_socket_def cancel_idle_timer_def

lemmas block_eqs = end_current_wait_eq mark_disconnected_eq transition_to_eq discard_connection_writes_eq

text \<open>The outcome of \<open>schedule_retry\<close>: nothing to do, give up, or wait for the next attempt.\<close>

definition retry_choice :: "tcp_client \<Rightarrow> int option" where
  "retry_choice c =
     decide_reconnect (c_cfg c) (case last_error_info (c_errors c) of None \<Rightarrow> unknown_error c | Some e \<Rightarrow> e)
       (current_attempts c) (c_policy c)"

definition retry_delay :: "tcp_client \<Rightarrow> int \<Rightarrow> int" where
  "retry_delay c decided =
     (if c_policy c = None \<and> c_retry_attempts c = 0 then int (c_first_retry c) else decided)"

lemma schedule_retry_eq:
  "schedule_retry seq c =
     (if c_stop_requested c \<or> c_stopping c \<or> c_reconnect_pending c then mark_disconnected c
      else case retry_choice c of
        None \<Rightarrow> transition_to LinkError No_error (mark_disconnected c)
      | Some decided \<Rightarrow>
          (transition_to LinkConnecting No_error (mark_disconnected c))
            \<lparr>c_reconnect_pending := True,
             c_retry_attempts := c_retry_attempts c + (if c_policy c = None then 1 else 0),
             c_reconnect_count := c_reconnect_count c + (if c_policy c = None then 0 else 1),
             c_delays := c_delays c @ [retry_delay c decided],
             c_ops := map (\<lambda>(op, x). (op, x \<or> is_retry_timer op)) (c_ops c) @ [(Retry_timer seq, False)]\<rparr>)"
proof (cases "c_stop_requested c \<or> c_stopping c \<or> c_reconnect_pending c")
  case True
  have "schedule_retry seq c = mark_disconnected c" if "c_stop_requested c \<or> c_stopping c"
    using that by (simp add: schedule_retry_def mark_disconnected_eq Let_def)
  moreover have "schedule_retry seq c = mark_disconnected c"
    if "c_reconnect_pending c" "\<not> c_stop_requested c" "\<not> c_stopping c"
    using that by (simp add: schedule_retry_def mark_disconnected_eq Let_def)
  ultimately show ?thesis using True by auto
next
  case False
  then have r: "\<not> c_stop_requested c" "\<not> c_stopping c" "\<not> c_reconnect_pending c" by auto
  have f: "schedule_retry seq c =
     (let c2 = (mark_disconnected c)\<lparr>c_reconnect_pending := True\<rparr>
      in case retry_choice c2 of
           None \<Rightarrow> (transition_to LinkError No_error c2)\<lparr>c_reconnect_pending := False\<rparr>
         | Some decided \<Rightarrow>
             let (c3, delay) =
                   (if c_policy c2 \<noteq> None then (c2\<lparr>c_reconnect_count := c_reconnect_count c2 + 1\<rparr>, decided)
                    else (c2\<lparr>c_retry_attempts := c_retry_attempts c2 + 1\<rparr>,
                          if c_retry_attempts c2 + 1 = 1 then int (c_first_retry c2) else decided));
                 c4 = transition_to LinkConnecting No_error c3;
                 c5 = (cancel_ops is_retry_timer c4)\<lparr>c_delays := c_delays c4 @ [delay]\<rparr>
             in start_op (Retry_timer seq) c5)"
    using r by (simp only: schedule_retry_def retry_choice_def Let_def mark_disconnected_eq) simp
  have e: "retry_choice (c\<lparr>c_connected := b, c_ledger := l, c_waits := w, c_connection_seq := n, c_reconnect_pending := p\<rparr>)
      = retry_choice c" for b l w n p
    by (cases "last_error_info (c_errors c)") (simp_all add: retry_choice_def unknown_error_def current_attempts_def)
  show ?thesis
  proof (cases "retry_choice c")
    case None
    then show ?thesis
      using r by (simp add: f e mark_disconnected_eq transition_to_eq)
  next
    case (Some d)
    then show ?thesis
      using r
      by (cases "c_policy c") (simp_all add: f e mark_disconnected_eq transition_to_eq retry_delay_def op_defs)
  qed
qed

text \<open>\<open>handle_close\<close> and \<open>handle_idle_timeout\<close> share the teardown of a connection.\<close>

definition teardown :: "tcp_client \<Rightarrow> tcp_client" where
  "teardown c =
     c\<lparr>c_connected := False, c_ledger := left_ledger c, c_waits := left_waits c, c_connection_seq := left_connection c,
       c_active_write := None, tx := [], pending := [], queue_bytes := 0, pending_bytes := 0, c_writing := False,
       backpressure_active := False, c_stats := dropped_stats (mark_disconnected c),
       c_ops := map (\<lambda>(op, x). (op, x \<or> is_idle_timer op \<or> is_connect_timer op \<or> on_socket op)) (c_ops c)\<rparr>"

definition closing_error :: "boost_error \<Rightarrow> tcp_client \<Rightarrow> error_info_holder" where
  "closing_error ec c =
     (if ec = No_error then c_errors c
      else record_error Level_error Connection ''handle_close'' ec ''Connection closed with error''
             (is_retryable_tcp_connect_error ec) (current_attempts c) (c_clock c) (c_errors c))"

definition idle_error :: "tcp_client \<Rightarrow> error_info_holder" where
  "idle_error c =
     record_error Level_error Connection ''idle_timeout'' Timed_out ''Idle timeout expired''
       (idle_action (c_cfg c) = Idle_reconnect) (current_attempts c) (c_clock c) (c_errors c)"

lemma handle_close_eq:
  "handle_close seq ec c =
     (if ec = Operation_aborted \<or> seq \<noteq> c_current_seq c then c
      else
        let d = (teardown c)\<lparr>c_errors := closing_error ec c\<rparr>
        in if c_stop_requested c \<or> c_stopping c \<or> c_link c = LinkClosed then transition_to LinkClosed ec d
           else schedule_retry seq (transition_to LinkConnecting ec d))"
proof (cases "ec = Operation_aborted \<or> seq \<noteq> c_current_seq c")
  case True
  then show ?thesis by (simp add: handle_close_def)
next
  case False
  let ?c3 = "close_socket (cancel_ops is_connect_timer (cancel_idle_timer
      ((if ec \<noteq> No_error
        then c_record_error Connection ''handle_close'' ec ''Connection closed with error''
               (is_retryable_tcp_connect_error ec) (current_attempts (discard_connection_writes (mark_disconnected c)))
               (discard_connection_writes (mark_disconnected c))
        else discard_connection_writes (mark_disconnected c))\<lparr>c_writing := False\<rparr>)))"
  have a: "current_attempts (discard_connection_writes (mark_disconnected c)) = current_attempts c"
    by (simp add: block_eqs current_attempts_def)
  have "?c3 = (teardown c)\<lparr>c_errors := closing_error ec c\<rparr>"
    unfolding a
    by (cases "ec = No_error")
      (simp_all add: block_eqs op_defs c_record_error_def teardown_def closing_error_def comp_def case_prod_unfold disj_assoc)
  with False show ?thesis
    unfolding handle_close_def Let_def by (simp add: teardown_def)
qed

lemma handle_idle_timeout_eq:
  "handle_idle_timeout seq c =
     (if seq \<noteq> c_current_seq c \<or> c_stop_requested c \<or> c_stopping c \<or> \<not> c_connected c then c
      else
        let d = (teardown c)\<lparr>c_errors := idle_error c\<rparr>
        in if idle_action (c_cfg c) = Idle_reconnect then schedule_retry seq (transition_to LinkConnecting Timed_out d)
           else transition_to LinkClosed Timed_out d)"
proof (cases "seq \<noteq> c_current_seq c \<or> c_stop_requested c \<or> c_stopping c \<or> \<not> c_connected c")
  case True
  then show ?thesis by (simp add: handle_idle_timeout_def)
next
  case False
  let ?d = "discard_connection_writes (mark_disconnected c)"
  let ?c3 = "close_socket (cancel_ops is_connect_timer (cancel_idle_timer
      ((c_record_error Connection ''idle_timeout'' Timed_out ''Idle timeout expired''
         (idle_action (c_cfg ?d) = Idle_reconnect) (current_attempts ?d) ?d)\<lparr>c_writing := False\<rparr>)))"
  have a: "current_attempts ?d = current_attempts c" "c_cfg ?d = c_cfg c"
    by (simp_all add: block_eqs current_attempts_def)
  have c3: "?c3 = (teardown c)\<lparr>c_errors := idle_error c\<rparr>"
    unfolding a
    by (simp add: block_eqs op_defs c_record_error_def teardown_def idle_error_def comp_def case_prod_unfold disj_assoc)
  show ?thesis
    using False unfolding handle_idle_timeout_def Let_def c3 by (simp add: a(2))
qed

text \<open>The four ways a write completes.\<close>

definition written_ledger :: "tracked list \<Rightarrow> nat \<Rightarrow> tcp_client \<Rightarrow> ledger" where
  "written_ledger bufs n c = complete_batch (map (\<lambda>b. (tb_request b, tb_size b)) bufs) n (c_ledger c)"

lemma on_write_stale:
  "connection \<noteq> c_connection_seq c \<Longrightarrow>
   on_write throws seq connection bufs queued ec n c = c\<lparr>c_ledger := written_ledger bufs n c\<rparr>"
  by (simp add: on_write_def written_ledger_def)

lemma on_write_aborted:
  fixes bufs n queued
  assumes "connection = c_connection_seq c" and "ec = Operation_aborted \<or> seq \<noteq> c_current_seq c"
  defines "d \<equiv> c\<lparr>c_ledger := written_ledger bufs n c, c_active_write := None, queue_bytes := queue_bytes c - queued\<rparr>"
  shows "on_write throws seq connection bufs queued ec n c =
    (c_report_backpressure throws (queue_bytes d) d)\<lparr>c_writing := False\<rparr>"
  using assms(1,2) unfolding d_def on_write_def written_ledger_def Let_def release_reserved_write_bytes_def
  by (cases "ec = Operation_aborted") simp_all

lemma on_write_failed:
  assumes "connection = c_connection_seq c" "ec \<noteq> Operation_aborted" "seq = c_current_seq c" "ec \<noteq> No_error"
  shows "on_write throws seq connection bufs queued ec n c =
    handle_close seq ec ((c_record_error Communication ''write'' ec ''Write failed'' False 0
       ((mark_disconnected (c\<lparr>c_ledger := written_ledger bufs n c\<rparr>))\<lparr>c_active_write := None, tx := bufs @ tx c\<rparr>))
       \<lparr>c_writing := False\<rparr>)"
  using assms unfolding on_write_def written_ledger_def Let_def by (simp add: mark_disconnected_eq)

lemma on_write_fine:
  assumes "connection = c_connection_seq c" "seq = c_current_seq c" "ec = No_error"
  shows "on_write throws seq connection bufs queued ec n c =
    write_succeeded throws seq queued n (c\<lparr>c_ledger := written_ledger bufs n c, c_active_write := None\<rparr>)"
  using assms unfolding on_write_def written_ledger_def Let_def by simp

text \<open>The connection \<open>finish_connect\<close> sets up, before it posts the first write.\<close>

definition connected_client :: "nat \<Rightarrow> tcp_client \<Rightarrow> tcp_client" where
  "connected_client seq c =
     c_reset_idle_timer seq (c_start_read seq (transition_to LinkConnected No_error
       (c\<lparr>c_waits := c_waits c @ [(c_connection_seq c, None)], c_wait := Some (length (c_waits c)),
          c_connected := True\<rparr>)))"

lemma finish_connect_eq:
  "finish_connect seq c =
     (if seq \<noteq> c_current_seq c \<or> c_stop_requested c \<or> c_stopping c then c
      else post_task (Kick_task seq (c_connection_seq c)) (connected_client seq c))"
  by (simp add: finish_connect_def connected_client_def Let_def)

section \<open>Admission\<close>

lemma admission_open: "admission_rejection k c = None \<Longrightarrow> c_connected c \<and> \<not> c_stop_requested c \<and> c_current_seq c \<noteq> 0"
  by (auto simp: admission_rejection_def split: if_splits)

text \<open>A rejected request changes statistics only; an accepted one is reserved, entered in the ledger and posted.\<close>

definition accepted_from :: "bytes \<Rightarrow> (tracked \<Rightarrow> nat \<Rightarrow> nat \<Rightarrow> nat \<Rightarrow> task) \<Rightarrow> tcp_client \<Rightarrow> tcp_client" where
  "accepted_from data mk c = snd (c_accept data mk c)"

inductive admitted :: "tcp_client \<Rightarrow> tcp_client \<Rightarrow> bool" for c where
  refused: "admitted c (c\<lparr>c_stats := st\<rparr>)"
| plain: "admission_rejection k c = None \<Longrightarrow> 0 < length d \<Longrightarrow>
    queue_bytes c + pending_bytes c + inflight_bytes c + length d \<le> bp_limit c \<Longrightarrow>
    admitted c (accepted_from d Route_task (c\<lparr>inflight_bytes := size_add (inflight_bytes c) (length d)\<rparr>))"
| tried: "admission_rejection None c = None \<Longrightarrow> 0 < length d \<Longrightarrow>
    queue_bytes c + length d \<le> bp_high c \<Longrightarrow>
    queue_bytes c + pending_bytes c + inflight_bytes c + length d \<le> bp_limit c \<Longrightarrow>
    admitted c (accepted_from d Enqueue_task (c\<lparr>queue_bytes := size_add (queue_bytes c) (length d)\<rparr>))"

lemma admitted_refuse: "admitted c (snd (c_refuse r c))" "admitted c (snd (c_reject_for_pressure n c))"
  by (simp_all add: c_refuse_def c_reject_for_pressure_def admitted.refused)

lemma admitted_reserve: "admission_rejection k c = None \<Longrightarrow> admitted c (snd (c_reserve_and_post d c))"
  using admitted.plain [of k c d] admitted_refuse
  by (auto simp: c_reserve_and_post_def try_reserve_limit_bytes_def limit_fits_iff accepted_from_def)

lemma admitted_try:
  assumes "admission_rejection None c = None"
  shows "admitted c (snd (c_try_admit d c))"
  using admitted.tried [OF assms, of d] admitted_refuse
  by (auto simp: c_try_admit_def try_reserve_write_bytes_locked_def try_reserve_write_bytes_def reserve_fits_iff
      accepted_from_def Let_def)

lemma admitted_writes:
  "admitted c (snd (c_write_move d k c))" "admitted c (snd (c_write_copy v d k c))"
  "admitted c (snd (c_write_shared s k c))" "admitted c (snd (c_try_write_move d c))"
  "admitted c (snd (c_try_write_copy d c))" "admitted c (snd (c_try_write_shared s c))"
  by (auto simp: c_write_move_def c_write_copy_def c_write_shared_def c_try_write_move_def c_try_write_copy_def
      c_try_write_shared_def admitted_refuse split: option.split intro: admitted_reserve admitted_try)

section \<open>Running a client\<close>

lemmas client_eval =
  new_client_def recalculate_backpressure_bounds_def start_op_def cancel_ops_def post_task_def end_current_wait_def
  mark_disconnected_def notify_state_def is_terminal_def transition_to_def c_record_error_def current_attempts_def
  do_resolve_connect_def close_socket_def discard_connection_writes_def unknown_error_def schedule_retry_def
  cancel_idle_timer_def c_reset_idle_timer_def handle_close_def handle_idle_timeout_def c_observe_queue_def
  c_do_write_def c_report_backpressure_def c_route_enqueued_buffer_def write_succeeded_def on_write_def c_start_read_def
  finish_connect_def on_resolve_def on_connect_timer_def on_connect_def on_retry_timer_def on_idle_timer_def on_read_def
  perform_stop_cleanup_def reset_start_state_def reset_io_objects_def c_start_def c_stop_def admission_rejection_def
  c_refuse_def c_accept_def c_reserve_and_post_def c_write_move_def c_reject_for_pressure_def c_try_admit_def
  c_try_write_move_def fail_receive_def write_connection_def complete_op_def io_completed_def run_task_def
  set_on_state_def set_on_backpressure_def decide_reconnect_def decide_reconnect_common_def clamp_reconnect_delay_def
  MAX_RECONNECT_DELAY_def record_error_def last_error_info_def boost_error_info_def is_retryable_tcp_connect_error_def
  try_reserve_limit_bytes_def try_reserve_write_bytes_locked_def try_reserve_write_bytes_def limit_fits_def
  reserve_fits_def decide_enqueue_def commit_to_queue_def commit_to_pending_def report_backpressure_def
  flush_pending_into_tx_def take_gather_batch_def kMaxGatherBuffers_def kMaxGatherBytes_def
  release_reserved_write_bytes_def release_reserved_limit_bytes_def default_tcp_client_def constant_defs SIZE_MAX_def
  size_add_def Let_def case_prod_beta

text \<open>A client that has just connected: callbacks set, started, resolved, connected.\<close>

definition connecting_run :: "client_action list" where
  "connecting_run =
     [Do_callbacks True True, Do_start, Run_task False, Complete 0 No_error 0 False, Complete 1 No_error 0 False]"

end
