(* ===== verification/Client_Accounting.thy ===== *)
theory Client_Accounting
  imports Client_Forms
begin

text \<open>
  The send ledger of a \<open>TcpClient\<close> over whole executions: every accepted request is accounted for, and a
  client without a connection owes nothing.
\<close>

section \<open>The ledger of a client\<close>

text \<open>
  The ledger is consistent; a connection is only reported up in state \<open>Connected\<close>; without a connection, or once
  a stop is requested, no request is outstanding.
\<close>

definition client_life :: "tcp_client \<Rightarrow> bool" where
  "client_life c \<longleftrightarrow>
     good (c_ledger c) \<and> (c_connected c \<longrightarrow> c_link c = LinkConnected)
     \<and> (\<not> c_connected c \<or> c_stop_requested c \<longrightarrow> live_mset (c_ledger c) = {#})"

lemma client_life_frame [simp]:
  "client_life (c\<lparr>queue_bytes := x0\<rparr>) = client_life c"
  "client_life (c\<lparr>pending_bytes := x1\<rparr>) = client_life c"
  "client_life (c\<lparr>inflight_bytes := x2\<rparr>) = client_life c"
  "client_life (c\<lparr>backpressure_active := x3\<rparr>) = client_life c"
  "client_life (c\<lparr>bp_high := x4\<rparr>) = client_life c"
  "client_life (c\<lparr>bp_low := x5\<rparr>) = client_life c"
  "client_life (c\<lparr>bp_limit := x6\<rparr>) = client_life c"
  "client_life (c\<lparr>bp_strategy := x7\<rparr>) = client_life c"
  "client_life (c\<lparr>tx := x8\<rparr>) = client_life c" "client_life (c\<lparr>pending := x9\<rparr>) = client_life c"
  "client_life (c\<lparr>c_cfg := x10\<rparr>) = client_life c"
  "client_life (c\<lparr>c_policy := x11\<rparr>) = client_life c"
  "client_life (c\<lparr>c_first_retry := x12\<rparr>) = client_life c"
  "client_life (c\<lparr>c_active_write := x13\<rparr>) = client_life c"
  "client_life (c\<lparr>c_writing := x14\<rparr>) = client_life c"
  "client_life (c\<lparr>c_stats := x16\<rparr>) = client_life c"
  "client_life (c\<lparr>c_retry_attempts := x19\<rparr>) = client_life c"
  "client_life (c\<lparr>c_reconnect_count := x20\<rparr>) = client_life c"
  "client_life (c\<lparr>c_errors := x21\<rparr>) = client_life c"
  "client_life (c\<lparr>c_stopping := x23\<rparr>) = client_life c"
  "client_life (c\<lparr>c_terminal := x24\<rparr>) = client_life c"
  "client_life (c\<lparr>c_reconnect_pending := x25\<rparr>) = client_life c"
  "client_life (c\<lparr>c_cleanup_started := x26\<rparr>) = client_life c"
  "client_life (c\<lparr>c_cleanup_finished := x27\<rparr>) = client_life c"
  "client_life (c\<lparr>c_cleanup_done := x28\<rparr>) = client_life c"
  "client_life (c\<lparr>c_lifecycle_seq := x29\<rparr>) = client_life c"
  "client_life (c\<lparr>c_current_seq := x30\<rparr>) = client_life c"
  "client_life (c\<lparr>c_stop_seq := x31\<rparr>) = client_life c"
  "client_life (c\<lparr>c_connection_seq := x32\<rparr>) = client_life c"
  "client_life (c\<lparr>c_idle_arm := x33\<rparr>) = client_life c"
  "client_life (c\<lparr>c_waits := x34\<rparr>) = client_life c"
  "client_life (c\<lparr>c_wait := x35\<rparr>) = client_life c"
  "client_life (c\<lparr>c_has_on_state := x36\<rparr>) = client_life c"
  "client_life (c\<lparr>c_has_on_bp := x37\<rparr>) = client_life c"
  "client_life (c\<lparr>c_ops := x38\<rparr>) = client_life c"
  "client_life (c\<lparr>c_tasks := x39\<rparr>) = client_life c"
  "client_life (c\<lparr>c_states := x40\<rparr>) = client_life c"
  "client_life (c\<lparr>c_bp_log := x41\<rparr>) = client_life c"
  "client_life (c\<lparr>c_delays := x42\<rparr>) = client_life c"
  "client_life (c\<lparr>c_wire := x43\<rparr>) = client_life c"
  "client_life (c\<lparr>c_clock := x44\<rparr>) = client_life c"
  by (simp_all add: client_life_def)


lemma no_live_find: "good l \<Longrightarrow> live_mset l = {#} \<Longrightarrow> find_entry l rid = None"
  using live_mset_split by (cases "find_entry l rid") (fastforce simp: good_def)+

lemma complete_batch_idle: "good l \<Longrightarrow> live_mset l = {#} \<Longrightarrow> complete_batch xs n l = l"
  by (induction xs n l rule: complete_batch.induct) (simp_all add: complete_locked_def no_live_find Let_def)

lemma discard_idle: "good l \<Longrightarrow> live_mset l = {#} \<Longrightarrow> discard rid r l = l"
  by (simp add: discard_def no_live_find)

lemma life_down: "\<not> c_connected c \<Longrightarrow> client_life c \<longleftrightarrow> good (c_ledger c) \<and> live_mset (c_ledger c) = {#}"
  by (simp add: client_life_def)

lemma left_life: "client_life c \<Longrightarrow> good (left_ledger c)" "client_life c \<Longrightarrow> live_mset (left_ledger c) = {#}"
  using end_spec by (auto simp: client_life_def left_ledger_def)

lemma life_good: "client_life c \<Longrightarrow> good (c_ledger c)"
  by (simp add: client_life_def)

lemma left_ledger_down [simp]: "\<not> c_connected c \<Longrightarrow> left_ledger c = c_ledger c"
  by (simp add: left_ledger_def)

lemma life_left: "client_life c \<Longrightarrow> \<not> c_connected d \<Longrightarrow> c_ledger d = left_ledger c \<Longrightarrow> client_life d"
  using left_life [of c] by (simp add: life_down)

lemma life_mark: "client_life c \<Longrightarrow> client_life (mark_disconnected c)"
  by (erule life_left) (simp_all add: mark_disconnected_eq)

lemma schedule_retry_down: "c_connected (schedule_retry seq c) = False" "c_ledger (schedule_retry seq c) = left_ledger c"
  by (cases "retry_choice c"; cases "c_stop_requested c \<or> c_stopping c \<or> c_reconnect_pending c";
      simp add: schedule_retry_eq mark_disconnected_eq transition_to_eq)+

lemma life_retry: "client_life c \<Longrightarrow> client_life (schedule_retry seq c)"
  by (erule life_left) (simp_all add: schedule_retry_down)

lemma life_torn:
  assumes "client_life c"
  shows "client_life (transition_to l ec ((teardown c)\<lparr>c_errors := e\<rparr>))"
  using assms by (rule life_left) (simp_all add: transition_to_eq teardown_def)

lemma life_close: "client_life c \<Longrightarrow> client_life (handle_close seq ec c)"
  by (simp add: handle_close_eq life_torn life_retry Let_def)

lemma life_idle: "client_life c \<Longrightarrow> client_life (handle_idle_timeout seq c)"
  by (simp add: handle_idle_timeout_eq life_torn life_retry Let_def)

lemma life_do_write:
  assumes "client_life c"
  shows "client_life (c_do_write throws seq c)"
proof -
  obtain rest b n where t: "take_gather_batch tb_size (tx c) = (rest, b, n)" using prod_cases3 by blast
  obtain ok l where g: "begin_batch (map tb_request b) (c_ledger c) = (ok, l)" by fastforce
  have "good l" using begin_batch_spec [OF life_good [OF assms]] g by (metis snd_conv)
  show ?thesis
  proof (cases "c_connected c \<and> \<not> c_stop_requested c \<and> ok \<and> tx c \<noteq> [] \<and> \<not> is_terminal (c_link c)")
    case True
    let ?c1 = "c\<lparr>c_writing := True, tx := rest, c_ledger := l, c_active_write := Some (b, n)\<rparr>"
    have "client_life ?c1" using True assms \<open>good l\<close> by (simp add: client_life_def)
    with life_close [OF life_mark [OF this]] True show ?thesis
      by (simp add: c_do_write_def t g start_op_def Let_def)
  next
    case False
    then have "c_ledger (c_do_write throws seq c) = c_ledger c \<and> c_connected (c_do_write throws seq c) = c_connected c
        \<and> c_link (c_do_write throws seq c) = c_link c \<and> c_stop_requested (c_do_write throws seq c) = c_stop_requested c"
      by (auto simp: c_do_write_def t g)
    with assms show ?thesis by (simp add: client_life_def)
  qed
qed

lemma c_report_sel:
  assumes "report_backpressure queued (c_observe_queue c) = (c2, calls, kick)"
  shows "c_ledger c2 = c_ledger c" "c_connected c2 = c_connected c" "c_link c2 = c_link c"
    "c_stop_requested c2 = c_stop_requested c"
  using assms
  by (auto simp: report_backpressure_def flush_pending_into_tx_def c_observe_queue_def Let_def split: if_splits)

lemma life_report:
  assumes "client_life c"
  shows "client_life (c_report_backpressure throws queued c)"
proof -
  obtain c2 calls kick where r: "report_backpressure queued (c_observe_queue c) = (c2, calls, kick)"
    using prod_cases3 by blast
  note f = c_report_sel [OF r]
  let ?c3 = "c2\<lparr>c_stats := (record_backpressure_event ^^ length calls) (c_stats c2),
      c_bp_log := c_bp_log c2 @ (if c_has_on_bp c2 then calls else [])\<rparr>"
  have "client_life ?c3" "client_life (c_observe_queue ?c3)"
    using assms by (simp_all add: client_life_def f c_observe_queue_def)
  then show ?thesis using assms life_do_write by (simp add: c_report_backpressure_def r Let_def)
qed

lemma life_push:
  assumes "client_life c"
  shows "client_life (let d = c_report_backpressure throws queued c in if \<not> c_writing d then c_do_write throws (c_current_seq d) d else d)"
  using life_report [OF assms] life_do_write by (simp add: Let_def)

lemma life_route:
  assumes "client_life c"
  shows "client_life (c_route_enqueued_buffer throws buf added c)"
proof (cases "c_stop_requested c \<or> is_terminal (c_link c)")
  case True
  then show ?thesis using assms by (simp add: c_route_enqueued_buffer_def release_reserved_limit_bytes_def)
next
  case False
  let ?l = "discard (tb_request buf) QueuePressure (c_ledger c)"
  have l: "client_life (c\<lparr>c_ledger := ?l\<rparr>)"
    using assms discard_spec discard_idle by (auto simp: client_life_def)
  show ?thesis
  proof (cases "decide_enqueue added c")
    case Rejected
    with False l life_report show ?thesis
      by (simp add: c_route_enqueued_buffer_def c_record_error_def release_reserved_limit_bytes_def Let_def)
  next
    case Pending
    with False assms show ?thesis
      by (simp add: c_route_enqueued_buffer_def commit_to_pending_def c_observe_queue_def)
  next
    case Immediate
    let ?c2 = "c_observe_queue ((commit_to_queue added c)\<lparr>tx := tx (commit_to_queue added c) @ [buf]\<rparr>)"
    have "client_life ?c2" using assms by (simp add: commit_to_queue_def c_observe_queue_def)
    from life_push [OF this] False Immediate show ?thesis
      by (simp add: c_route_enqueued_buffer_def Let_def)
  qed
qed

lemma life_reset_idle: "client_life (c_reset_idle_timer seq c) = client_life c"
  by (simp add: c_reset_idle_timer_def op_defs Let_def)

lemma life_written: "client_life c \<Longrightarrow> client_life (c\<lparr>c_ledger := written_ledger bufs n c\<rparr>)"
  using complete_batch_spec complete_batch_idle by (auto simp: client_life_def written_ledger_def)

lemma life_succeeded:
  assumes "client_life c"
  shows "client_life (write_succeeded throws seq queued n c)"
proof -
  let ?c1 = "c\<lparr>c_stats := record_sent n (c_stats c)\<rparr>"
  let ?c3 = "release_reserved_write_bytes queued (if n > 0 then c_reset_idle_timer seq ?c1 else ?c1)"
  have "client_life ?c3"
    using assms by (cases "n > 0") (simp_all add: release_reserved_write_bytes_def life_reset_idle)
  then have "client_life (c_report_backpressure throws (queue_bytes ?c3) ?c3)" by (rule life_report)
  then show ?thesis
    unfolding write_succeeded_def Let_def using life_do_write by (auto split: if_split)
qed

lemma life_on_write:
  assumes "client_life c"
  shows "client_life (on_write throws seq connection bufs queued ec n c)"
proof -
  consider (stale) "connection \<noteq> c_connection_seq c"
    | (aborted) "connection = c_connection_seq c" "ec = Operation_aborted \<or> seq \<noteq> c_current_seq c"
    | (failed) "connection = c_connection_seq c" "ec \<noteq> Operation_aborted" "seq = c_current_seq c" "ec \<noteq> No_error"
    | (fine) "connection = c_connection_seq c" "seq = c_current_seq c" "ec = No_error"
    by blast
  then show ?thesis
  proof cases
    case stale
    with life_written [OF assms] show ?thesis by (simp add: on_write_stale)
  next
    case aborted
    with life_written [OF assms] life_report show ?thesis by (simp add: on_write_aborted)
  next
    case failed
    with life_close [of "_\<lparr>c_writing := False\<rparr>"] life_mark [OF life_written [OF assms]] show ?thesis
      by (simp add: on_write_failed c_record_error_def)
  next
    case fine
    with life_succeeded life_written [OF assms] show ?thesis by (simp add: on_write_fine)
  qed
qed

lemma life_finish: "client_life c \<Longrightarrow> client_life (finish_connect seq c)"
  by (simp add: finish_connect_def c_reset_idle_timer_def c_start_read_def op_defs transition_to_eq moves_def
      is_terminal_def client_life_def Let_def)

lemma life_complete:
  assumes "client_life c"
  shows "client_life (io_completed (complete_op throws op ec n c))"
proof -
  have io: "client_life (io_completed d) = client_life d" for d by (simp add: io_completed_def)
  have "client_life (complete_op throws op ec n c)"
  proof (cases op)
    case (Resolve seq)
    with assms life_retry show ?thesis
      by (simp add: complete_op_def on_resolve_def c_record_error_def op_defs)
  next
    case (Connect_op seq)
    with assms life_retry life_finish show ?thesis
      by (simp add: complete_op_def on_connect_def c_record_error_def op_defs Let_def)
  next
    case (Connect_timer seq)
    with assms life_close show ?thesis
      by (simp add: complete_op_def on_connect_timer_def c_record_error_def)
  next
    case (Retry_timer seq)
    with assms show ?thesis
      by (simp add: complete_op_def on_retry_timer_def do_resolve_connect_def op_defs Let_def)
  next
    case (Idle_timer seq connection arm)
    with assms life_idle show ?thesis by (simp add: complete_op_def on_idle_timer_def)
  next
    case (Read_op seq connection)
    with assms life_close show ?thesis
      by (simp add: complete_op_def on_read_def c_start_read_def start_op_def life_reset_idle Let_def)
  next
    case (Write_op seq connection bufs queued)
    with assms life_on_write show ?thesis by (simp add: complete_op_def)
  qed
  then show ?thesis by (simp add: io)
qed

lemma life_cleanup:
  assumes "client_life c"
  shows "client_life (perform_stop_cleanup c)"
proof (cases "c_cleanup_started c")
  case True
  with assms show ?thesis by (simp add: perform_stop_cleanup_def)
next
  case False
  show ?thesis
    using assms
    by (rule life_left)
      (simp_all add: False perform_stop_cleanup_def op_defs mark_disconnected_eq transition_to_eq Let_def)
qed

lemma life_task:
  assumes "client_life c"
  shows "client_life (run_task throws t c)"
proof (cases t)
  case (Start_task seq)
  show ?thesis
  proof (cases "seq \<le> c_stop_seq c")
    case False
    show ?thesis
      using assms
      by (rule life_left)
        (simp_all add: Start_task False run_task_def do_resolve_connect_def reset_io_objects_def op_defs block_eqs)
  qed (simp add: Start_task run_task_def assms)
next
  case Cleanup_task
  with assms life_cleanup show ?thesis by (simp add: run_task_def)
next
  case (Kick_task seq connection)
  with assms life_do_write show ?thesis by (simp add: run_task_def)
next
  case (Route_task buf added seq connection)
  with assms life_route show ?thesis by (simp add: run_task_def release_reserved_limit_bytes_def)
next
  case (Enqueue_task buf added seq connection)
  let ?c1 = "c_observe_queue (c\<lparr>tx := tx c @ [buf]\<rparr>)"
  have "client_life ?c1" using assms by (simp add: c_observe_queue_def)
  from life_push [OF this, of throws "queue_bytes ?c1"] assms Enqueue_task show ?thesis
    by (simp add: run_task_def release_reserved_write_bytes_def Let_def)
next
  case (Fail_receive_task run connection)
  with assms life_close show ?thesis by (simp add: run_task_def)
qed

lemma life_start:
  assumes "client_life c"
  shows "client_life (c_start c)"
proof (cases "c_link c = LinkConnecting \<or> c_link c = LinkConnected")
  case False
  show ?thesis
    using assms
    by (rule life_left)
      (simp_all add: False c_start_def reset_start_state_def recalculate_backpressure_bounds_def post_task_def
        block_eqs Let_def)
qed (simp add: c_start_def assms)

lemma life_stop:
  assumes "client_life c"
  shows "client_life (c_stop c)"
proof -
  let ?c2 = "(end_current_wait CancelledWhileWaiting
      (c\<lparr>c_stop_requested := True, c_ledger := end_ledger ExplicitStop (c_ledger c)\<rparr>))
      \<lparr>c_stopping := True, c_stop_seq := c_current_seq c\<rparr>"
  have "client_life ?c2"
    using end_spec [OF life_good [OF assms]] assms by (simp add: end_current_wait_eq client_life_def)
  from this life_cleanup [OF this] assms show ?thesis
    by (cases "c_current_seq c = 0") (simp_all add: c_stop_def end_current_wait_eq post_task_def Let_def)
qed

lemma life_accept:
  assumes "client_life c" and "c_connected c" and "\<not> c_stop_requested c"
  shows "client_life (accepted_from d mk c)"
proof -
  obtain rid l where a: "admit (length d) None (c_ledger c) = (rid, l)" by fastforce
  have "good l" using admit_spec(2) [OF life_good [OF assms(1)], of "length d" None] a by simp
  with assms a show ?thesis by (simp add: accepted_from_def c_accept_def post_task_def client_life_def)
qed

lemma life_admitted: "admitted c c' \<Longrightarrow> client_life c \<Longrightarrow> client_life c'"
  by (induction rule: admitted.induct) (auto dest: admission_open intro!: life_accept)

lemma life_step: "client_life c \<Longrightarrow> client_step a c = Some c' \<Longrightarrow> client_life c'"
proof (cases a)
  case (Run_task throws)
  then show "client_life c \<Longrightarrow> client_step a c = Some c' \<Longrightarrow> ?thesis"
    using life_task by (auto split: list.splits)
next
  case (Complete i ec n throws)
  then show "client_life c \<Longrightarrow> client_step a c = Some c' \<Longrightarrow> ?thesis"
    using life_complete by (auto split: if_splits)
next
  case Do_reset_stats
  then show "client_life c \<Longrightarrow> client_step a c = Some c' \<Longrightarrow> ?thesis"
    using reset_spec reset_live by (auto simp: c_reset_stats_def client_life_def)
qed (auto intro: life_start life_stop life_admitted [OF admitted_writes(1)] life_admitted [OF admitted_writes(2)]
    life_admitted [OF admitted_writes(3)] life_admitted [OF admitted_writes(4)] life_admitted [OF admitted_writes(5)]
    life_admitted [OF admitted_writes(6)]
    simp: cancel_write_waits_def end_current_wait_eq fail_receive_def post_task_def set_reconnect_policy_def
      set_backpressure_strategy_def set_idle_timeout_action_def set_on_state_def set_on_backpressure_def
    split: option.splits)

interpretation client_life: machine_invariant client_step client_life
  by unfold_locales (rule life_step)

lemma life_new: "client_life (new_client cfg)"
  using fresh_ledger_good
  by (simp add: new_client_def recalculate_backpressure_bounds_def client_life_def live_mset_def ring_def new_ledger_def
      Let_def)

section \<open>Properties\<close>

text \<open>
  C14: Every accepted request is accounted for. In every state a client can reach, over any number of connections,
  stops and restarts, accepted requests and bytes are exactly the written, lost and outstanding ones; the
  client only reports a connection in state \<open>Connected\<close>; and when it has none, or a stop was requested,
  nothing is outstanding: whatever a connection could not finish has been counted as lost.
\<close>

theorem client_accounts_for_every_request:
  assumes "reaches client_step (new_client cfg) c"
  shows "accepted (totals (c_ledger c)) = accounted (totals (c_ledger c))
    \<and> (c_connected c \<longrightarrow> c_link c = LinkConnected)
    \<and> (\<not> c_connected c \<or> c_stop_requested c \<longrightarrow> outstanding (totals (c_ledger c)) = no_requests)"
proof -
  have "client_life c" using client_life.reaches_inv [OF assms life_new] .
  then show ?thesis
    by (auto simp: client_life_def good_def books_def balanced_def totals_of_def no_requests_def Let_def)
qed

theorem client_accounts_for_every_request_witness:
  "\<exists>c. run_steps client_step (connecting_run @ [Do_write_move [1, 2, 3] None, Complete 1 Connection_reset 0 False])
       (new_client default_tcp_client) = Some c
     \<and> c_link c = LinkConnecting \<and> \<not> c_connected c \<and> c_tasks c \<noteq> []
     \<and> outstanding (totals (c_ledger c)) = no_requests"
proof -
  obtain c where
    r: "run_steps client_step (connecting_run @ [Do_write_move [1, 2, 3] None, Complete 1 Connection_reset 0 False])
         (new_client default_tcp_client) = Some c"
    and f: "c_link c = LinkConnecting" "\<not> c_connected c" "c_tasks c \<noteq> []"
    by (simp add: client_eval connecting_run_def)
  from client_accounts_for_every_request [OF reaches_run [OF r]] r f show ?thesis by auto
qed

end
