(* ===== verification/Client_Memory.thy ===== *)
theory Client_Memory
  imports Client_Forms
begin

text \<open>
  The memory a \<open>TcpClient\<close> can hold for its writers, over whole executions: the byte counters stay within the hard
  limit, and the in-flight counter is exactly what the posted handlers of the current run will release.
\<close>

section \<open>The byte counters of a client\<close>

definition client_limit :: "tcp_client_config \<Rightarrow> nat" where
  "client_limit cfg = bp_limit (recalculate_backpressure_bounds (new_client cfg))"

lemma client_limit_eq:
  "client_limit cfg = max (cli_backpressure_threshold cfg)
     (min (max (cli_backpressure_threshold cfg * 4 mod 2 ^ 64) DEFAULT_BACKPRESSURE_THRESHOLD) MAX_BUFFER_SIZE)"
proof -
  have m: "(if y < x then x else y) = max x y" for x y :: nat by (simp add: max_def)
  show ?thesis by (simp add: client_limit_def new_client_def recalculate_backpressure_bounds_def Let_def m)
qed

fun task_run :: "task \<Rightarrow> nat" where
  "task_run (Start_task s) = s"
| "task_run Cleanup_task = 0"
| "task_run (Kick_task s k) = s"
| "task_run (Route_task b n s k) = s"
| "task_run (Enqueue_task b n s k) = s"
| "task_run (Fail_receive_task s k) = s"

fun route_bytes :: "nat \<Rightarrow> task \<Rightarrow> nat" where
  "route_bytes run (Route_task b n s k) = (if s = run then n else 0)"
| "route_bytes run t = 0"

text \<open>\<open>ts\<close>: the handler that is being run, already taken off the queue.\<close>

definition bounded :: "task list \<Rightarrow> tcp_client \<Rightarrow> bool" where
  "bounded ts c \<longleftrightarrow>
     inflight_bytes c = sum_list (map (route_bytes (c_current_seq c)) (ts @ c_tasks c))
     \<and> queue_bytes c + pending_bytes c + inflight_bytes c \<le> bp_limit c
     \<and> bp_limit c = client_limit (c_cfg c) \<and> bp_limit c \<le> SIZE_MAX
     \<and> c_lifecycle_seq c = c_current_seq c \<and> (\<forall>t\<in>set (c_tasks c). task_run t \<le> c_current_seq c)"

lemma bounded_frame [simp]:
  "bounded ts (c\<lparr>backpressure_active := x3\<rparr>) = bounded ts c"
  "bounded ts (c\<lparr>bp_high := x4\<rparr>) = bounded ts c" "bounded ts (c\<lparr>bp_low := x5\<rparr>) = bounded ts c"
  "bounded ts (c\<lparr>bp_strategy := x7\<rparr>) = bounded ts c" "bounded ts (c\<lparr>tx := x8\<rparr>) = bounded ts c"
  "bounded ts (c\<lparr>pending := x9\<rparr>) = bounded ts c" "bounded ts (c\<lparr>c_policy := x11\<rparr>) = bounded ts c"
  "bounded ts (c\<lparr>c_first_retry := x12\<rparr>) = bounded ts c"
  "bounded ts (c\<lparr>c_active_write := x13\<rparr>) = bounded ts c"
  "bounded ts (c\<lparr>c_writing := x14\<rparr>) = bounded ts c"
  "bounded ts (c\<lparr>c_ledger := x15\<rparr>) = bounded ts c"
  "bounded ts (c\<lparr>c_stats := x16\<rparr>) = bounded ts c"
  "bounded ts (c\<lparr>c_connected := x17\<rparr>) = bounded ts c"
  "bounded ts (c\<lparr>c_link := x18\<rparr>) = bounded ts c"
  "bounded ts (c\<lparr>c_retry_attempts := x19\<rparr>) = bounded ts c"
  "bounded ts (c\<lparr>c_reconnect_count := x20\<rparr>) = bounded ts c"
  "bounded ts (c\<lparr>c_errors := x21\<rparr>) = bounded ts c"
  "bounded ts (c\<lparr>c_stop_requested := x22\<rparr>) = bounded ts c"
  "bounded ts (c\<lparr>c_stopping := x23\<rparr>) = bounded ts c"
  "bounded ts (c\<lparr>c_terminal := x24\<rparr>) = bounded ts c"
  "bounded ts (c\<lparr>c_reconnect_pending := x25\<rparr>) = bounded ts c"
  "bounded ts (c\<lparr>c_cleanup_started := x26\<rparr>) = bounded ts c"
  "bounded ts (c\<lparr>c_cleanup_finished := x27\<rparr>) = bounded ts c"
  "bounded ts (c\<lparr>c_cleanup_done := x28\<rparr>) = bounded ts c"
  "bounded ts (c\<lparr>c_stop_seq := x31\<rparr>) = bounded ts c"
  "bounded ts (c\<lparr>c_connection_seq := x32\<rparr>) = bounded ts c"
  "bounded ts (c\<lparr>c_idle_arm := x33\<rparr>) = bounded ts c"
  "bounded ts (c\<lparr>c_waits := x34\<rparr>) = bounded ts c" "bounded ts (c\<lparr>c_wait := x35\<rparr>) = bounded ts c"
  "bounded ts (c\<lparr>c_has_on_state := x36\<rparr>) = bounded ts c"
  "bounded ts (c\<lparr>c_has_on_bp := x37\<rparr>) = bounded ts c"
  "bounded ts (c\<lparr>c_ops := x38\<rparr>) = bounded ts c" "bounded ts (c\<lparr>c_states := x40\<rparr>) = bounded ts c"
  "bounded ts (c\<lparr>c_bp_log := x41\<rparr>) = bounded ts c"
  "bounded ts (c\<lparr>c_delays := x42\<rparr>) = bounded ts c" "bounded ts (c\<lparr>c_wire := x43\<rparr>) = bounded ts c"
  "bounded ts (c\<lparr>c_clock := x44\<rparr>) = bounded ts c"
  by (simp_all add: bounded_def)


text \<open>What the handlers do apart from releasing or committing a reservation.\<close>

definition shrinks :: "tcp_client \<Rightarrow> tcp_client \<Rightarrow> bool" where
  "shrinks c d \<longleftrightarrow>
     inflight_bytes d = inflight_bytes c \<and> bp_limit d = bp_limit c \<and> c_cfg d = c_cfg c
     \<and> c_current_seq d = c_current_seq c \<and> c_lifecycle_seq d = c_lifecycle_seq c \<and> c_tasks d = c_tasks c
     \<and> queue_bytes d + pending_bytes d \<le> queue_bytes c + pending_bytes c"

lemma bounded_shrinks: "bounded ts c \<Longrightarrow> shrinks c d \<Longrightarrow> bounded ts d"
  by (auto simp: bounded_def shrinks_def)

lemma shrinks_trans: "shrinks a b \<Longrightarrow> shrinks b c \<Longrightarrow> shrinks a c"
  by (auto simp: shrinks_def)

lemma shrinks_refl [simp]: "shrinks c c"
  by (simp add: shrinks_def)

lemma shrinks_mark: "shrinks c (mark_disconnected c)"
  by (simp add: shrinks_def mark_disconnected_eq)

lemma shrinks_transition: "shrinks c (transition_to l ec c)"
  by (simp add: shrinks_def transition_to_eq)

lemma shrinks_retry: "shrinks c (schedule_retry seq c)"
proof -
  have "shrinks c (transition_to l e (mark_disconnected c))" for l e
    using shrinks_trans [OF shrinks_mark shrinks_transition] .
  then show ?thesis
    by (cases "retry_choice c"; cases "c_stop_requested c \<or> c_stopping c \<or> c_reconnect_pending c";
        simp add: schedule_retry_eq shrinks_mark; simp add: shrinks_def)
qed

lemma shrinks_torn: "shrinks c (transition_to l ec ((teardown c)\<lparr>c_errors := e\<rparr>))"
  by (rule shrinks_trans [OF _ shrinks_transition]) (simp add: shrinks_def teardown_def)

lemma shrinks_close: "shrinks c (handle_close seq ec c)"
  using shrinks_torn shrinks_trans [OF shrinks_torn shrinks_retry] by (simp add: handle_close_eq Let_def)

lemma shrinks_idle: "shrinks c (handle_idle_timeout seq c)"
  using shrinks_torn shrinks_trans [OF shrinks_torn shrinks_retry] by (simp add: handle_idle_timeout_eq Let_def)

lemma shrinks_reset_idle: "shrinks c (c_reset_idle_timer seq c)"
  by (simp add: shrinks_def c_reset_idle_timer_def op_defs Let_def)

lemma shrinks_do_write: "shrinks c (c_do_write throws seq c)"
proof -
  obtain rest b n where t: "take_gather_batch tb_size (tx c) = (rest, b, n)" using prod_cases3 by blast
  obtain ok l where g: "begin_batch (map tb_request b) (c_ledger c) = (ok, l)" by fastforce
  let ?c1 = "c\<lparr>c_writing := True, tx := rest, c_ledger := l, c_active_write := Some (b, n)\<rparr>"
  have "shrinks c (handle_close seq No_buffer_space (mark_disconnected ?c1))"
    by (rule shrinks_trans [OF _ shrinks_close], rule shrinks_trans [OF _ shrinks_mark]) (simp add: shrinks_def)
  then show ?thesis
    by (simp add: c_do_write_def t g Let_def start_op_def) (simp add: shrinks_def)
qed

lemma shrinks_report:
  assumes "queue_bytes c + pending_bytes c \<le> SIZE_MAX"
  shows "shrinks c (c_report_backpressure throws queued c)"
proof -
  obtain c2 calls kick where r: "report_backpressure queued (c_observe_queue c) = (c2, calls, kick)"
    using prod_cases3 by blast
  have s: "shrinks c c2"
    using r assms
    by (auto simp: report_backpressure_def flush_pending_into_tx_def c_observe_queue_def shrinks_def Let_def
        split: if_splits)
  let ?c3 = "c2\<lparr>c_stats := (record_backpressure_event ^^ length calls) (c_stats c2),
      c_bp_log := c_bp_log c2 @ (if c_has_on_bp c2 then calls else [])\<rparr>"
  have o: "shrinks c ?c3" "shrinks c (c_observe_queue ?c3)"
    using s by (simp_all add: shrinks_def c_observe_queue_def)
  from shrinks_trans [OF o(2) shrinks_do_write] o show ?thesis
    by (simp add: c_report_backpressure_def r Let_def)
qed

lemma bounded_sum: "bounded ts c \<Longrightarrow> queue_bytes c + pending_bytes c \<le> SIZE_MAX"
  by (simp add: bounded_def)

lemma bounded_report: "bounded ts c \<Longrightarrow> bounded ts (c_report_backpressure throws queued c)"
  using bounded_shrinks shrinks_report bounded_sum by blast

lemma bounded_push:
  assumes "bounded ts c"
  shows "bounded ts (let d = c_report_backpressure throws queued c
                     in if \<not> c_writing d then c_do_write throws (c_current_seq d) d else d)"
  using bounded_report [OF assms, of throws queued] bounded_shrinks shrinks_do_write by (simp add: Let_def)

text \<open>Routing a buffer turns its reservation into queued or pending bytes; the guard never rejects.\<close>

lemma bounded_route:
  assumes b: "bounded [Route_task buf added (c_current_seq c) k] c"
  shows "bounded [] (c_route_enqueued_buffer throws buf added c)"
proof (cases "c_stop_requested c \<or> is_terminal (c_link c)")
  case True
  then show ?thesis
    using b by (simp add: c_route_enqueued_buffer_def release_reserved_limit_bytes_def) (auto simp: bounded_def)
next
  case False
  have fit: "queue_bytes c + pending_bytes c + added \<le> bp_limit c" "queue_bytes c + added \<le> SIZE_MAX"
    "pending_bytes c + added \<le> SIZE_MAX"
    using b by (auto simp: bounded_def)
  show ?thesis
  proof (cases "backpressure_active c")
    case True
    have "bounded [] (commit_to_pending added c)"
      using b fit by (auto simp: commit_to_pending_def bounded_def)
    then show ?thesis
      using False True fit by (simp add: c_route_enqueued_buffer_def decide_enqueue_eq c_observe_queue_def Let_def)
  next
    case inactive: False
    let ?c2 = "c_observe_queue ((commit_to_queue added c)\<lparr>tx := tx (commit_to_queue added c) @ [buf]\<rparr>)"
    have "bounded [] (commit_to_queue added c)"
      using b fit by (auto simp: commit_to_queue_def bounded_def)
    then have "bounded [] ?c2" by (simp add: c_observe_queue_def)
    from bounded_push [OF this] False inactive fit show ?thesis
      by (simp add: c_route_enqueued_buffer_def decide_enqueue_eq Let_def)
  qed
qed

lemma bounded_skip: "bounded (t # ts) c \<Longrightarrow> route_bytes (c_current_seq c) t = 0 \<Longrightarrow> bounded ts c"
  by (simp add: bounded_def)

lemma bounded_post: "bounded ts c \<Longrightarrow> task_run t \<le> c_current_seq c \<Longrightarrow> route_bytes (c_current_seq c) t = 0 \<Longrightarrow>
    bounded ts (c\<lparr>c_tasks := c_tasks c @ [t]\<rparr>)"
  by (auto simp: bounded_def)

lemma shrinks_cleanup: "shrinks c (perform_stop_cleanup c)"
proof (cases "c_cleanup_started c")
  case False
  show ?thesis
    by (simp add: shrinks_def False perform_stop_cleanup_def op_defs mark_disconnected_eq transition_to_eq Let_def)
qed (simp add: perform_stop_cleanup_def)

lemma bounded_task:
  assumes "bounded [t] c"
  shows "bounded [] (run_task throws t c)"
proof (cases t)
  case (Start_task seq)
  have "shrinks c (transition_to LinkConnecting No_error (reset_io_objects (mark_disconnected c)))"
    by (rule shrinks_trans [OF _ shrinks_transition])
      (simp add: shrinks_def reset_io_objects_def cancel_ops_def mark_disconnected_eq)
  then have "bounded [] (transition_to LinkConnecting No_error (reset_io_objects (mark_disconnected c)))"
    using bounded_shrinks bounded_skip [OF assms] Start_task by simp
  with Start_task bounded_skip [OF assms] show ?thesis
    by (simp add: run_task_def do_resolve_connect_def start_op_def)
next
  case Cleanup_task
  with bounded_shrinks [OF bounded_skip [OF assms] shrinks_cleanup] show ?thesis by (simp add: run_task_def)
next
  case (Kick_task seq connection)
  with bounded_skip [OF assms] bounded_shrinks [OF bounded_skip [OF assms] shrinks_do_write] show ?thesis
    by (simp add: run_task_def)
next
  case (Route_task buf added seq connection)
  show ?thesis
  proof (cases "seq = c_current_seq c")
    case True
    have "bounded [] (release_reserved_limit_bytes added (c\<lparr>c_stats := st\<rparr>))" for st
      using assms Route_task True by (auto simp: release_reserved_limit_bytes_def bounded_def)
    then show ?thesis
      using bounded_route [of buf added c connection] assms Route_task True
      by (simp add: run_task_def release_reserved_limit_bytes_def)
  next
    case False
    with bounded_skip [OF assms] Route_task show ?thesis by (simp add: run_task_def)
  qed
next
  case (Enqueue_task buf added seq connection)
  have b: "bounded [] c" using bounded_skip [OF assms] Enqueue_task by simp
  let ?c1 = "c_observe_queue (c\<lparr>tx := tx c @ [buf]\<rparr>)"
  have "bounded [] ?c1" using b by (simp add: c_observe_queue_def)
  note push = bounded_push [OF this, of throws "queue_bytes ?c1"]
  have "bounded [] (release_reserved_write_bytes added c)"
    by (rule bounded_shrinks [OF b]) (simp add: shrinks_def release_reserved_write_bytes_def)
  with push b Enqueue_task show ?thesis by (simp add: run_task_def Let_def)
next
  case (Fail_receive_task run connection)
  with bounded_skip [OF assms] bounded_shrinks [OF bounded_skip [OF assms] shrinks_close] show ?thesis
    by (simp add: run_task_def)
qed

lemma bounded_write_succeeded:
  assumes "bounded [] c"
  shows "bounded [] (write_succeeded throws seq queued n c)"
proof -
  let ?c1 = "c\<lparr>c_stats := record_sent n (c_stats c)\<rparr>"
  let ?c2 = "if n > 0 then c_reset_idle_timer seq ?c1 else ?c1"
  have "bounded [] ?c1" using assms by simp
  then have "bounded [] ?c2" using bounded_shrinks [OF _ shrinks_reset_idle] by simp
  then have "bounded [] (release_reserved_write_bytes queued ?c2)"
    by (rule bounded_shrinks) (simp add: shrinks_def release_reserved_write_bytes_def)
  note r = bounded_report [OF this, of throws "queue_bytes (release_reserved_write_bytes queued ?c2)"]
  from r bounded_shrinks [OF r shrinks_do_write [where throws = throws and seq = seq]] show ?thesis
    unfolding write_succeeded_def Let_def by simp
qed

lemma bounded_on_write:
  assumes "bounded [] c"
  shows "bounded [] (on_write throws seq connection bufs queued ec n c)"
proof -
  have l: "bounded [] (c\<lparr>c_ledger := l\<rparr>)" for l using assms by simp
  consider (stale) "connection \<noteq> c_connection_seq c"
    | (aborted) "connection = c_connection_seq c" "ec = Operation_aborted \<or> seq \<noteq> c_current_seq c"
    | (failed) "connection = c_connection_seq c" "ec \<noteq> Operation_aborted" "seq = c_current_seq c" "ec \<noteq> No_error"
    | (fine) "connection = c_connection_seq c" "seq = c_current_seq c" "ec = No_error"
    by blast
  then show ?thesis
  proof cases
    case stale
    with l show ?thesis by (simp add: on_write_stale)
  next
    case aborted
    let ?d = "c\<lparr>c_ledger := written_ledger bufs n c, c_active_write := None, queue_bytes := queue_bytes c - queued\<rparr>"
    have "bounded [] ?d" by (rule bounded_shrinks [OF assms]) (simp add: shrinks_def)
    from bounded_report [OF this] aborted show ?thesis by (simp add: on_write_aborted)
  next
    case failed
    have "bounded [] (mark_disconnected (c\<lparr>c_ledger := written_ledger bufs n c\<rparr>))"
      using bounded_shrinks [OF l shrinks_mark] .
    then show ?thesis
      using failed bounded_shrinks [OF _ shrinks_close, of "[]" "_\<lparr>c_writing := False\<rparr>"]
      by (simp add: on_write_failed c_record_error_def)
  next
    case fine
    with bounded_write_succeeded assms show ?thesis by (simp add: on_write_fine)
  qed
qed

lemma shrinks_connected: "shrinks c (connected_client seq c)"
  unfolding connected_client_def
  by (rule shrinks_trans [OF _ shrinks_reset_idle], unfold c_start_read_def start_op_def)
    (simp add: shrinks_def transition_to_eq)

lemma bounded_finish:
  assumes "bounded [] c"
  shows "bounded [] (finish_connect seq c)"
proof -
  have "c_current_seq (connected_client seq c) = c_current_seq c" using shrinks_connected by (simp add: shrinks_def)
  with bounded_post [OF bounded_shrinks [OF assms shrinks_connected [of _ seq]], of "Kick_task seq (c_connection_seq c)"] assms
  show ?thesis by (auto simp: finish_connect_eq post_task_def)
qed

lemma bounded_complete:
  assumes "bounded [] c"
  shows "bounded [] (io_completed (complete_op throws op ec n c))"
proof -
  have retry: "bounded [] d \<Longrightarrow> bounded [] (schedule_retry seq d)"
    and closes: "bounded [] d \<Longrightarrow> bounded [] (handle_close seq ec' d)"
    and idle: "bounded [] d \<Longrightarrow> bounded [] (handle_idle_timeout seq d)"
    and reset: "bounded [] d \<Longrightarrow> bounded [] (c_reset_idle_timer seq d)" for seq ec' d
    using bounded_shrinks shrinks_retry shrinks_close shrinks_idle shrinks_reset_idle by blast+
  have "bounded [] (complete_op throws op ec n c)"
    using assms
    by (cases op)
      (simp_all add: complete_op_def on_resolve_def on_connect_def on_connect_timer_def on_retry_timer_def
        on_idle_timer_def on_read_def c_start_read_def do_resolve_connect_def c_record_error_def op_defs
        retry closes idle reset bounded_finish bounded_on_write Let_def)
  then show ?thesis by (simp add: io_completed_def)
qed

lemma recalculate_limit: "bp_limit (recalculate_backpressure_bounds c) = client_limit (c_cfg c)"
  by (simp add: client_limit_def recalculate_backpressure_bounds_def new_client_def Let_def)

lemma recalculate_sel:
  "c_cfg (recalculate_backpressure_bounds c) = c_cfg c" "c_tasks (recalculate_backpressure_bounds c) = c_tasks c"
  "c_lifecycle_seq (recalculate_backpressure_bounds c) = c_lifecycle_seq c"
  by (simp_all add: recalculate_backpressure_bounds_def Let_def)

lemma reset_start_sel:
  "queue_bytes (reset_start_state c) = 0" "pending_bytes (reset_start_state c) = 0"
  "inflight_bytes (reset_start_state c) = 0" "bp_limit (reset_start_state c) = bp_limit c"
  "c_cfg (reset_start_state c) = c_cfg c" "c_tasks (reset_start_state c) = c_tasks c"
  "c_current_seq (reset_start_state c) = c_current_seq c" "c_lifecycle_seq (reset_start_state c) = c_lifecycle_seq c"
  by (simp_all add: reset_start_state_def mark_disconnected_eq Let_def)

lemma bounded_start:
  assumes "bounded [] c"
  shows "bounded [] (c_start c)"
proof (cases "c_link c = LinkConnecting \<or> c_link c = LinkConnected")
  case False
  let ?seq = "Suc (c_lifecycle_seq c)"
  let ?d = "reset_start_state
      ((recalculate_backpressure_bounds c)\<lparr>c_lifecycle_seq := ?seq, c_current_seq := ?seq\<rparr>)"
  have "route_bytes ?seq t = 0" if "t \<in> set (c_tasks c)" for t
    using assms that by (cases t) (force simp: bounded_def)+
  then have "bounded [] ?d"
    using assms by (auto simp: bounded_def reset_start_sel recalculate_sel recalculate_limit)
  from bounded_post [OF this, of "Start_task ?seq"] False show ?thesis
    by (simp add: c_start_def post_task_def reset_start_sel recalculate_sel Let_def)
qed (simp add: c_start_def assms)

lemma bounded_stop:
  assumes "bounded [] c"
  shows "bounded [] (c_stop c)"
proof -
  let ?c2 = "(end_current_wait CancelledWhileWaiting
      (c\<lparr>c_stop_requested := True, c_ledger := end_ledger ExplicitStop (c_ledger c)\<rparr>))
      \<lparr>c_stopping := True, c_stop_seq := c_current_seq c\<rparr>"
  have b: "bounded [] ?c2" using assms by (simp add: end_current_wait_eq)
  from bounded_shrinks [OF this shrinks_cleanup] bounded_post [OF this, of Cleanup_task] assms show ?thesis
    by (cases "c_current_seq c = 0") (simp_all add: c_stop_def end_current_wait_eq post_task_def Let_def)
qed

lemma bounded_admitted: "admitted c c' \<Longrightarrow> bounded [] c \<Longrightarrow> bounded [] c'"
proof (induction rule: admitted.induct)
  case (plain k d)
  then show ?case
    by (auto simp: accepted_from_def c_accept_def post_task_def bounded_def split: prod.split)
next
  case (tried d)
  then show ?case
    by (auto simp: accepted_from_def c_accept_def post_task_def bounded_def split: prod.split)
qed simp

lemma bounded_pop: "bounded [] c \<Longrightarrow> c_tasks c = t # ts \<Longrightarrow> bounded [t] (c\<lparr>c_tasks := ts\<rparr>)"
  by (simp add: bounded_def)

lemma bounded_fail_receive: "bounded [] c \<Longrightarrow> bounded [] (fail_receive c)"
  by (cases "write_connection c") (simp_all add: fail_receive_def post_task_def bounded_post)

lemma bounded_idle_action: "bounded [] c \<Longrightarrow> bounded [] (set_idle_timeout_action act c)"
  by (simp add: set_idle_timeout_action_def bounded_def client_limit_def new_client_def
      recalculate_backpressure_bounds_def Let_def)

lemma bounded_step: "bounded [] c \<Longrightarrow> client_step a c = Some c' \<Longrightarrow> bounded [] c'"
proof (cases a)
  case (Run_task throws)
  then show "bounded [] c \<Longrightarrow> client_step a c = Some c' \<Longrightarrow> ?thesis"
    using bounded_task bounded_pop by (auto split: list.splits)
next
  case (Complete i ec n throws)
  then show "bounded [] c \<Longrightarrow> client_step a c = Some c' \<Longrightarrow> ?thesis"
    using bounded_complete by (auto split: if_splits)
qed (auto intro: bounded_start bounded_stop bounded_fail_receive bounded_idle_action bounded_admitted [OF admitted_writes(1)]
    bounded_admitted [OF admitted_writes(2)] bounded_admitted [OF admitted_writes(3)]
    bounded_admitted [OF admitted_writes(4)] bounded_admitted [OF admitted_writes(5)]
    bounded_admitted [OF admitted_writes(6)]
    simp: cancel_write_waits_def end_current_wait_eq c_reset_stats_def set_reconnect_policy_def
      set_backpressure_strategy_def set_on_state_def set_on_backpressure_def)

interpretation client_memory: machine_invariant client_step "bounded []"
  by unfold_locales (rule bounded_step)

lemma bounded_new:
  assumes "cli_backpressure_threshold cfg \<le> SIZE_MAX"
  shows "bounded [] (new_client cfg)"
proof -
  have "client_limit cfg \<le> SIZE_MAX"
    using assms by (auto simp: client_limit_eq SIZE_MAX_def constant_defs intro: min.coboundedI2)
  then show ?thesis
    using recalculate_limit by (simp add: bounded_def new_client_def recalculate_sel) (simp add: recalculate_backpressure_bounds_def Let_def)
qed

section \<open>Properties\<close>



end
