(* ===== verification/Client_Core.thy ===== *)
theory Client_Core
  imports Client_Forms
begin

text \<open>
  Invariants of a \<open>TcpClient\<close> that do not depend on its queues and pending operations: the states it reports, the
  retries it counts and what it tells its callbacks. A locale states what such an invariant must survive; the
  walk through all handlers is done once.
\<close>

section \<open>The observable core\<close>

definition core :: "tcp_client \<Rightarrow> link_state \<times> bool \<times> link_state list \<times> nat list \<times> tracked list \<times> int list \<times> int \<times> 32 word
    \<times> nat \<times> int \<times> bool \<times> bool \<times> nat" where
  "core c = (c_link c, c_terminal c, c_states c, c_bp_log c, c_wire c, c_delays c, c_retry_attempts c, c_reconnect_count c,
     c_first_retry c, max_retries (c_cfg c), c_stop_requested c, c_stopping c, c_lifecycle_seq c)"

locale client_core =
  fixes P :: "tcp_client \<Rightarrow> bool"
  assumes core_cong: "P c \<Longrightarrow> core d = core c \<Longrightarrow> P d"
    and transition: "P c \<Longrightarrow> P (transition_to l ec c)"
    and retried: "P c \<Longrightarrow> \<not> c_stop_requested c \<Longrightarrow> retry_choice c = Some k \<Longrightarrow>
      P (c\<lparr>c_retry_attempts := c_retry_attempts c + (if c_policy c = None then 1 else 0),
           c_reconnect_count := c_reconnect_count c + (if c_policy c = None then 0 else 1),
           c_delays := c_delays c @ [retry_delay c k]\<rparr>)"
    and connected: "P c \<Longrightarrow> P (c\<lparr>c_retry_attempts := 0, c_reconnect_count := 0\<rparr>)"
    and notified: "P c \<Longrightarrow> \<not> c_stop_requested c \<Longrightarrow> P (c\<lparr>c_bp_log := l'\<rparr>)"
    and sent: "P c \<Longrightarrow> \<not> c_stop_requested c \<Longrightarrow> P (c\<lparr>c_wire := w\<rparr>)"
    and stopped: "P c \<Longrightarrow> \<not> c_stop_requested c \<Longrightarrow> P (c\<lparr>c_stop_requested := True, c_stopping := True\<rparr>)"
begin

lemma P_mark: "P c \<Longrightarrow> P (mark_disconnected c)"
  by (erule core_cong) (simp add: core_def mark_disconnected_eq)

lemma P_retry:
  assumes "P c"
  shows "P (schedule_retry seq c)"
proof (cases "c_stop_requested c \<or> c_stopping c \<or> c_reconnect_pending c")
  case True
  with P_mark [OF assms] show ?thesis by (simp add: schedule_retry_eq)
next
  case False
  show ?thesis
  proof (cases "retry_choice c")
    case None
    with False transition [OF P_mark [OF assms]] show ?thesis by (simp add: schedule_retry_eq)
  next
    case (Some k)
    let ?d = "c\<lparr>c_retry_attempts := c_retry_attempts c + (if c_policy c = None then 1 else 0),
        c_reconnect_count := c_reconnect_count c + (if c_policy c = None then 0 else 1),
        c_delays := c_delays c @ [retry_delay c k]\<rparr>"
    have "P (transition_to LinkConnecting No_error ?d)"
      using transition retried [OF assms _ Some] False by blast
    then show ?thesis
      by (rule core_cong) (use False Some in \<open>simp add: schedule_retry_eq core_def transition_to_eq mark_disconnected_eq\<close>)
  qed
qed

lemma P_torn: "P c \<Longrightarrow> P (transition_to l ec ((teardown c)\<lparr>c_errors := e\<rparr>))"
  by (rule transition, erule core_cong) (simp add: core_def teardown_def)

lemma P_close: "P c \<Longrightarrow> P (handle_close seq ec c)"
  by (simp add: handle_close_eq P_torn P_retry Let_def)

lemma P_idle: "P c \<Longrightarrow> P (handle_idle_timeout seq c)"
  by (simp add: handle_idle_timeout_eq P_torn P_retry Let_def)

lemma P_reset_idle: "P c \<Longrightarrow> P (c_reset_idle_timer seq c)"
  by (erule core_cong) (simp add: core_def c_reset_idle_timer_def op_defs Let_def)

lemma P_do_write:
  assumes "P c"
  shows "P (c_do_write throws seq c)"
proof -
  obtain rest b n where t: "take_gather_batch tb_size (tx c) = (rest, b, n)" using prod_cases3 by blast
  obtain ok l where g: "begin_batch (map tb_request b) (c_ledger c) = (ok, l)" by fastforce
  show ?thesis
  proof (cases "c_connected c \<and> \<not> c_stop_requested c \<and> ok \<and> tx c \<noteq> [] \<and> \<not> is_terminal (c_link c)")
    case True
    let ?c1 = "c\<lparr>c_writing := True, tx := rest, c_ledger := l, c_active_write := Some (b, n)\<rparr>"
    have c1: "P ?c1" using assms by (rule core_cong) (simp add: core_def)
    have "P (?c1\<lparr>c_wire := c_wire c @ b\<rparr>)" using sent [OF c1] True by simp
    then have "P (start_op (Write_op seq (c_connection_seq c) b n) (?c1\<lparr>c_wire := c_wire c @ b\<rparr>))"
      by (rule core_cong) (simp add: core_def start_op_def)
    with P_close [OF P_mark [OF c1]] True show ?thesis by (simp add: c_do_write_def t g Let_def)
  next
    case False
    show ?thesis using assms by (rule core_cong) (use False in \<open>auto simp: core_def c_do_write_def t g\<close>)
  qed
qed

lemma P_report:
  assumes "P c"
  shows "P (c_report_backpressure throws queued c)"
proof (cases "c_stop_requested c \<or> c_stopping c")
  case False
  obtain c2 calls kick where r: "report_backpressure queued (c_observe_queue c) = (c2, calls, kick)"
    using prod_cases3 by blast
  let ?c3 = "c2\<lparr>c_stats := (record_backpressure_event ^^ length calls) (c_stats c2),
      c_bp_log := c_bp_log c2 @ (if c_has_on_bp c2 then calls else [])\<rparr>"
  have s: "core c2 = core c" "c_stop_requested c2 = c_stop_requested c"
    using r by (auto simp: report_backpressure_def flush_pending_into_tx_def c_observe_queue_def core_def Let_def
        split: if_splits)
  have "P c2" using assms s(1) by (rule core_cong)
  from notified [OF this] have "P (c2\<lparr>c_bp_log := c_bp_log c2 @ (if c_has_on_bp c2 then calls else [])\<rparr>)"
    using False s(2) by simp
  then have "P ?c3" by (rule core_cong) (simp add: core_def)
  moreover from this have "P (c_observe_queue ?c3)" by (rule core_cong) (simp add: core_def c_observe_queue_def)
  ultimately show ?thesis using P_do_write False by (simp add: c_report_backpressure_def r Let_def)
qed (simp add: c_report_backpressure_def assms)

lemma P_push: "P c \<Longrightarrow> P (let d = c_report_backpressure throws queued c
    in if \<not> c_writing d then c_do_write throws (c_current_seq d) d else d)"
  using P_report P_do_write by (simp add: Let_def)

lemma P_route:
  assumes "P c"
  shows "P (c_route_enqueued_buffer throws buf added c)"
proof (cases "c_stop_requested c \<or> is_terminal (c_link c)")
  case True
  show ?thesis
    using assms
    by (rule core_cong) (use True in \<open>simp add: c_route_enqueued_buffer_def release_reserved_limit_bytes_def core_def\<close>)
next
  case open_: False
  show ?thesis
  proof (cases "decide_enqueue added c")
    case Rejected
    let ?c1 = "c_record_error Communication ''write'' No_buffer_space ''Queue limit exceeded'' False 0
        (c\<lparr>c_ledger := discard (tb_request buf) QueuePressure (c_ledger c)\<rparr>)"
    let ?c2 = "release_reserved_limit_bytes added (?c1\<lparr>c_stats := record_dropped 1 added (c_stats ?c1)\<rparr>)"
    have "P ?c2"
      using assms by (rule core_cong) (simp add: core_def c_record_error_def release_reserved_limit_bytes_def)
    from P_report [OF this] open_ Rejected show ?thesis by (simp add: c_route_enqueued_buffer_def Let_def)
  next
    case Pending
    show ?thesis
      using assms
      by (rule core_cong)
        (use open_ Pending in \<open>simp add: c_route_enqueued_buffer_def commit_to_pending_def c_observe_queue_def core_def\<close>)
  next
    case Immediate
    let ?c2 = "c_observe_queue ((commit_to_queue added c)\<lparr>tx := tx (commit_to_queue added c) @ [buf]\<rparr>)"
    have "P ?c2" using assms by (rule core_cong) (simp add: core_def commit_to_queue_def c_observe_queue_def)
    from P_push [OF this] open_ Immediate show ?thesis by (simp add: c_route_enqueued_buffer_def Let_def)
  qed
qed

lemma P_succeeded:
  assumes "P c"
  shows "P (write_succeeded throws seq queued n c)"
proof -
  let ?c1 = "c\<lparr>c_stats := record_sent n (c_stats c)\<rparr>"
  let ?c3 = "release_reserved_write_bytes queued (if n > 0 then c_reset_idle_timer seq ?c1 else ?c1)"
  have "P ?c1" using assms by (rule core_cong) (simp add: core_def)
  then have "P (if n > 0 then c_reset_idle_timer seq ?c1 else ?c1)" using P_reset_idle by auto
  then have "P ?c3" by (rule core_cong) (simp add: core_def release_reserved_write_bytes_def)
  note r = P_report [OF this, of throws "queue_bytes ?c3"]
  have "P ((c_report_backpressure throws (queue_bytes ?c3) ?c3)\<lparr>c_writing := False\<rparr>)"
    using r by (rule core_cong) (simp add: core_def)
  with P_do_write [OF r] show ?thesis unfolding write_succeeded_def Let_def by simp
qed

lemma P_on_write:
  assumes "P c"
  shows "P (on_write throws seq connection bufs queued ec n c)"
proof -
  have l: "P (c\<lparr>c_ledger := l\<rparr>)" for l using assms by (rule core_cong) (simp add: core_def)
  consider (stale) "connection \<noteq> c_connection_seq c"
    | (aborted) "connection = c_connection_seq c" "ec = Operation_aborted \<or> seq \<noteq> c_current_seq c"
    | (failed) "connection = c_connection_seq c" "ec \<noteq> Operation_aborted" "seq = c_current_seq c" "ec \<noteq> No_error"
    | (fine) "connection = c_connection_seq c" "seq = c_current_seq c" "ec = No_error"
    by blast
  then show ?thesis
  proof cases
    case stale
    with l show ?thesis by (simp add: on_write_stale)
  next
    case aborted
    let ?d = "c\<lparr>c_ledger := written_ledger bufs n c, c_active_write := None, queue_bytes := queue_bytes c - queued\<rparr>"
    have "P ?d" using assms by (rule core_cong) (simp add: core_def)
    from P_report [OF this, of throws "queue_bytes ?d"] have "P ((c_report_backpressure throws (queue_bytes ?d) ?d)\<lparr>c_writing := False\<rparr>)"
      by (rule core_cong) (simp add: core_def)
    with aborted show ?thesis by (simp add: on_write_aborted)
  next
    case failed
    let ?m = "mark_disconnected (c\<lparr>c_ledger := written_ledger bufs n c\<rparr>)"
    have "P ((c_record_error Communication ''write'' ec ''Write failed'' False 0
       (?m\<lparr>c_active_write := None, tx := bufs @ tx c\<rparr>))\<lparr>c_writing := False\<rparr>)"
      using P_mark [OF l] by (rule core_cong) (simp add: core_def c_record_error_def)
    with P_close failed show ?thesis by (simp add: on_write_failed)
  next
    case fine
    have "P (c\<lparr>c_ledger := written_ledger bufs n c, c_active_write := None\<rparr>)"
      using assms by (rule core_cong) (simp add: core_def)
    with P_succeeded fine show ?thesis by (simp add: on_write_fine)
  qed
qed

lemma P_finish:
  assumes "P c"
  shows "P (finish_connect seq c)"
proof -
  let ?c1 = "c\<lparr>c_waits := c_waits c @ [(c_connection_seq c, None)], c_wait := Some (length (c_waits c)), c_connected := True\<rparr>"
  have "P ?c1" using assms by (rule core_cong) (simp add: core_def)
  from transition [OF this] have "P (c_start_read seq (transition_to LinkConnected No_error ?c1))"
    by (rule core_cong) (simp add: core_def c_start_read_def start_op_def)
  from P_reset_idle [OF this] have "P (connected_client seq c)" by (simp add: connected_client_def)
  then have "P (post_task (Kick_task seq (c_connection_seq c)) (connected_client seq c))"
    by (rule core_cong) (simp add: core_def post_task_def)
  with assms show ?thesis by (auto simp: finish_connect_eq)
qed

lemma P_error: "P c \<Longrightarrow> P (c_record_error cat op ec msg retry k c)"
  by (erule core_cong) (simp add: core_def c_record_error_def)

lemma P_ops: "P c \<Longrightarrow> P (c\<lparr>c_ops := os\<rparr>)" "P c \<Longrightarrow> P (c\<lparr>c_tasks := ts\<rparr>)" "P c \<Longrightarrow> P (c\<lparr>c_reconnect_pending := b\<rparr>)"
  by (erule core_cong; simp add: core_def)+

lemma P_complete:
  assumes "P c"
  shows "P (io_completed (complete_op throws op ec n c))"
proof -
  have read: "P (c_start_read seq (d\<lparr>c_stats := st\<rparr>))" if "P d" for seq d st
    using that by (rule core_cong) (simp add: core_def c_start_read_def start_op_def)
  note rules = P_retry P_error P_close P_idle P_finish P_reset_idle P_on_write P_ops connected read
  have "P (complete_op throws op ec n c)"
    using assms
    by (cases op)
      (simp_all add: complete_op_def on_resolve_def on_connect_def on_connect_timer_def on_retry_timer_def
        on_idle_timer_def on_read_def do_resolve_connect_def op_defs rules Let_def)
  then show ?thesis by (rule core_cong) (simp add: core_def io_completed_def)
qed

lemma P_cleanup:
  assumes "P c"
  shows "P (perform_stop_cleanup c)"
proof (cases "c_cleanup_started c")
  case False
  show ?thesis
    using transition [OF assms, of LinkClosed No_error]
    by (rule core_cong)
      (use False in \<open>simp add: core_def perform_stop_cleanup_def op_defs mark_disconnected_eq transition_to_eq Let_def\<close>)
qed (simp add: perform_stop_cleanup_def assms)

lemma P_task:
  assumes "P c"
  shows "P (run_task throws t c)"
proof (cases t)
  case (Start_task seq)
  have "P (reset_io_objects (mark_disconnected c))"
    using P_mark [OF assms] by (rule core_cong) (simp add: core_def reset_io_objects_def cancel_ops_def)
  from P_ops(1) [OF transition [OF this]] Start_task assms show ?thesis
    by (simp add: run_task_def do_resolve_connect_def start_op_def)
next
  case (Route_task buf added seq connection)
  have "P (release_reserved_limit_bytes added (c\<lparr>c_stats := st\<rparr>))" for st
    using assms by (rule core_cong) (simp add: core_def release_reserved_limit_bytes_def)
  with Route_task P_route assms show ?thesis by (simp add: run_task_def)
next
  case (Enqueue_task buf added seq connection)
  let ?c1 = "c_observe_queue (c\<lparr>tx := tx c @ [buf]\<rparr>)"
  have "P ?c1" using assms by (rule core_cong) (simp add: core_def c_observe_queue_def)
  note push = P_push [OF this, of throws "queue_bytes ?c1"]
  have "P (c\<lparr>c_stats := st\<rparr>)" "P ((release_reserved_write_bytes added c)\<lparr>c_stats := st\<rparr>)" for st
    using assms by (auto intro: core_cong simp: core_def release_reserved_write_bytes_def)
  with push assms Enqueue_task show ?thesis by (simp add: run_task_def Let_def)
qed (simp_all add: run_task_def assms P_cleanup P_do_write P_close)

lemma P_stop:
  assumes "P c"
  shows "P (c_stop c)"
proof (cases "c_stop_requested c")
  case False
  let ?c2 = "(end_current_wait CancelledWhileWaiting
      (c\<lparr>c_stop_requested := True, c_ledger := end_ledger ExplicitStop (c_ledger c)\<rparr>))
      \<lparr>c_stopping := True, c_stop_seq := c_current_seq c\<rparr>"
  have "P ?c2" using stopped [OF assms False] by (rule core_cong) (simp add: core_def end_current_wait_eq)
  with P_cleanup [OF this] P_ops(2) False show ?thesis
    by (cases "c_current_seq c = 0") (simp_all add: c_stop_def end_current_wait_eq post_task_def Let_def)
qed (simp add: c_stop_def assms)

lemma P_admitted:
  assumes "P c" and "admitted c c'"
  shows "P c'"
  using assms(1)
proof (rule core_cong)
  show "core c' = core c"
    using assms(2)
    by cases (auto simp: accepted_from_def c_accept_def post_task_def core_def split: prod.split)
qed

lemma P_step:
  assumes "P c" and "client_step a c = Some c'" and "a \<noteq> Do_start"
  shows "P c'"
proof (cases a)
  case (Run_task throws)
  with assms P_task P_ops(2) show ?thesis by (auto split: list.splits)
next
  case (Complete i ec n throws)
  with assms P_complete P_ops(1) show ?thesis by (auto split: if_splits)
next
  case Do_stop
  with assms P_stop show ?thesis by auto
next
  case Do_start
  with assms show ?thesis by simp
next
  case Do_cancel_waits
  with assms(2) have "core c' = core c" by (auto simp: cancel_write_waits_def end_current_wait_eq core_def)
  with assms(1) core_cong show ?thesis by blast
next
  case Do_fail_receive
  with assms(2) have "core c' = core c" by (auto simp: fail_receive_def post_task_def core_def split: option.splits)
  with assms(1) core_cong show ?thesis by blast
qed (use assms(2) in \<open>auto intro: P_admitted [OF assms(1)] admitted_writes core_cong [OF assms(1)]
    simp: c_reset_stats_def set_reconnect_policy_def set_backpressure_strategy_def set_idle_timeout_action_def
      set_on_state_def set_on_backpressure_def core_def\<close>)

lemma P_run: "run_steps client_step as c = Some d \<Longrightarrow> Do_start \<notin> set as \<Longrightarrow> P c \<Longrightarrow> P d"
  by (induction as arbitrary: c) (auto split: option.splits dest: P_step)

end

text \<open>An invariant that also survives a restart holds in all reachable states.\<close>

locale client_restartable = client_core +
  assumes started: "P c \<Longrightarrow> P (c_start c)"
begin

lemma P_any_step: "P c \<Longrightarrow> client_step a c = Some c' \<Longrightarrow> P c'"
  using P_step started by (cases "a = Do_start") auto

end

end
