(* ===== verification/Client_Lifecycle.thy ===== *)
theory Client_Lifecycle
  imports Client_Core
begin

text \<open>
  What a \<open>TcpClient\<close> tells its user over a run, and how often it retries.
\<close>

section \<open>After a stop\<close>

definition silent :: "tcp_client \<Rightarrow> tcp_client \<Rightarrow> bool" where
  "silent c d \<longleftrightarrow> c_stop_requested d \<and> c_states d = c_states c \<and> c_bp_log d = c_bp_log c \<and> c_wire d = c_wire c"

interpretation silence: client_core "silent c0" for c0
  by unfold_locales (simp_all add: silent_def core_def transition_to_eq)

section \<open>Terminal states\<close>

abbreviation endings :: "tcp_client \<Rightarrow> nat" where
  "endings c \<equiv> length (filter is_terminal (c_states c))"

definition ends_once :: "tcp_client \<Rightarrow> tcp_client \<Rightarrow> bool" where
  "ends_once c d \<longleftrightarrow> (c_terminal c \<longrightarrow> c_terminal d) \<and> endings d \<le> endings c + (if c_terminal d \<and> \<not> c_terminal c then 1 else 0)"

interpretation ending: client_core "ends_once c0" for c0
  by unfold_locales (auto simp: ends_once_def core_def transition_to_eq moves_def)

section \<open>The retry budget\<close>

definition retry_ok :: "int \<Rightarrow> tcp_client \<Rightarrow> bool" where
  "retry_ok m c \<longleftrightarrow>
     max_retries (c_cfg c) = m \<and> c_first_retry c \<le> 100
     \<and> (\<forall>d\<in>set (c_delays c). 0 \<le> d \<and> d \<le> MAX_RECONNECT_DELAY)
     \<and> 0 \<le> c_retry_attempts c
     \<and> (0 \<le> m \<and> m < 2 ^ 31 \<longrightarrow> c_retry_attempts c \<le> m \<and> uint (c_reconnect_count c) \<le> m)"

lemma retry_ok_retried:
  assumes ok: "retry_ok m c" and k: "retry_choice c = Some k"
  shows "retry_ok m (c\<lparr>c_retry_attempts := c_retry_attempts c + (if c_policy c = None then 1 else 0),
           c_reconnect_count := c_reconnect_count c + (if c_policy c = None then 0 else 1),
           c_delays := c_delays c @ [retry_delay c k]\<rparr>)"
proof -
  obtain e where d: "decide_reconnect_common (max_retries (c_cfg c)) (retry_interval_ms (c_cfg c)) e (current_attempts c) (c_policy c) = Some k"
    using k by (auto simp: retry_choice_def decide_reconnect_def)
  have delay: "0 \<le> retry_delay c k \<and> retry_delay c k \<le> MAX_RECONNECT_DELAY"
    using decide_reconnect_delay [OF d] ok by (auto simp: retry_delay_def retry_ok_def MAX_RECONNECT_DELAY_def)
  have m: "max_retries (c_cfg c) = m" using ok by (simp add: retry_ok_def)
  have budget: "c_retry_attempts c + 1 \<le> m" if "c_policy c = None" "0 \<le> m" "m < 2 ^ 31"
  proof -
    have "0 \<le> c_retry_attempts c" "c_retry_attempts c \<le> m" using ok that by (auto simp: retry_ok_def)
    with decide_reconnect_budget [of m "retry_interval_ms (c_cfg c)" e "c_retry_attempts c" None k] d that m show ?thesis
      by (simp add: current_attempts_def)
  qed
  have counted: "uint (c_reconnect_count c + 1) \<le> m" if "c_policy c \<noteq> None" "0 \<le> m" "m < 2 ^ 31"
  proof -
    have "uint (c_reconnect_count c) < m"
      using decide_reconnect_budget [of m _ e "uint (c_reconnect_count c)"] d that m
      by (simp add: current_attempts_def uint_lt2p [where 'a = 32, simplified])
    moreover have "uint (c_reconnect_count c + 1) \<le> uint (c_reconnect_count c) + 1"
      by (simp add: uint_word_ariths zmod_le_nonneg_dividend)
    ultimately show ?thesis by simp
  qed
  show ?thesis using ok delay budget counted by (auto simp: retry_ok_def)
qed

lemma retry_ok_start: "retry_ok m c \<Longrightarrow> retry_ok m (c_start c)"
  by (simp add: c_start_def reset_start_state_def recalculate_backpressure_bounds_def post_task_def mark_disconnected_eq
      retry_ok_def Let_def)

interpretation retrying: client_restartable "retry_ok m" for m
proof unfold_locales
  show "retry_ok m (c\<lparr>c_retry_attempts := c_retry_attempts c + (if c_policy c = None then 1 else 0),
      c_reconnect_count := c_reconnect_count c + (if c_policy c = None then 0 else 1),
      c_delays := c_delays c @ [retry_delay c k]\<rparr>)"
    if "retry_ok m c" "\<not> c_stop_requested c" "retry_choice c = Some k" for c k
    using retry_ok_retried that by blast
  show "retry_ok m (c_start c)" if "retry_ok m c" for c using retry_ok_start that .
qed (auto simp: retry_ok_def core_def transition_to_eq)

interpretation client_retries: machine_invariant client_step "retry_ok m" for m
  by unfold_locales (rule retrying.P_any_step)

lemma retry_ok_new: "retry_ok (max_retries cfg) (new_client cfg)"
  by (simp add: retry_ok_def new_client_def recalculate_backpressure_bounds_def Let_def)

section \<open>Properties\<close>



text \<open>
  C19: A run ends at most once. Between two starts a client reports at most one terminal state, \<open>Closed\<close> or
  \<open>Error\<close>, to its user.
\<close>

theorem client_ends_once:
  assumes "run_steps client_step as c = Some d" and "Do_start \<notin> set as"
  shows "endings d \<le> endings c + (if c_terminal c then 0 else 1)"
  using ending.P_run [OF assms, of c] by (auto simp: ends_once_def split: if_splits)

theorem client_ends_once_witness:
  "\<exists>c. run_steps client_step [Run_task False, Complete 0 Connection_refused 0 False] 
       (c_start (set_on_state True (new_client (default_tcp_client\<lparr>max_retries := 0\<rparr>)))) = Some c
     \<and> c_states c = [LinkConnecting, LinkError] \<and> endings c \<le> 1"
proof -
  let ?s = "c_start (set_on_state True (new_client (default_tcp_client\<lparr>max_retries := 0\<rparr>)))"
  obtain c where c: "run_steps client_step [Run_task False, Complete 0 Connection_refused 0 False] ?s = Some c"
    and f: "c_states c = [LinkConnecting, LinkError]"
    by (simp add: client_eval)
  have "endings ?s = 0" "\<not> c_terminal ?s" by (simp_all add: client_eval)
  with client_ends_once [OF c] c f show ?thesis by auto
qed

text \<open>
  C20: Retries respect the configured budget. Every delay the client waits before a retry lies between zero and
  30 seconds, and with a finite budget neither of the two attempt counters (with and without a reconnect
  policy), which a successful connection sets back to zero, ever exceeds it.
\<close>

theorem client_retry_budget:
  assumes "reaches client_step (new_client cfg) c"
  shows "(\<forall>d\<in>set (c_delays c). 0 \<le> d \<and> d \<le> 30000)
    \<and> (0 \<le> max_retries cfg \<and> max_retries cfg < 2 ^ 31 \<longrightarrow>
         c_retry_attempts c \<le> max_retries cfg \<and> uint (c_reconnect_count c) \<le> max_retries cfg)"
  using client_retries.reaches_inv [OF assms retry_ok_new] by (simp add: retry_ok_def MAX_RECONNECT_DELAY_def)

theorem client_retry_budget_witness:
  "\<exists>c. run_steps client_step [Do_start, Run_task False, Complete 0 Connection_refused 0 False]
       (new_client (default_tcp_client\<lparr>max_retries := 3\<rparr>)) = Some c
     \<and> c_delays c = [100] \<and> c_retry_attempts c = 1 \<and> c_retry_attempts c \<le> 3"
proof -
  obtain c where c: "run_steps client_step [Do_start, Run_task False, Complete 0 Connection_refused 0 False]
       (new_client (default_tcp_client\<lparr>max_retries := 3\<rparr>)) = Some c"
    and f: "c_delays c = [100]" "c_retry_attempts c = 1"
    by (simp add: client_eval)
  from client_retry_budget [OF reaches_run [OF c]] c f show ?thesis by auto
qed

end
