(* ===== verification/Client_Phases.thy ===== *)
theory Client_Phases
  imports Client_Forms
begin

text \<open>
  The phases of a connection attempt of a \<open>TcpClient\<close> (resolve, connect under a timer, wait to retry), and that
  the completion handlers keep them.
\<close>

section \<open>Prompt executions\<close>

fun is_timer :: "io_op \<Rightarrow> bool" where
  "is_timer (Connect_timer s) = True"
| "is_timer (Retry_timer s) = True"
| "is_timer (Idle_timer s n a) = True"
| "is_timer op = False"

text \<open>
  A cancelled operation, and no other, completes with \<open>operation_aborted\<close>; a timer has no other error; and \<open>start\<close>
  is not called while a \<open>stop\<close> is still waiting for its cleanup.
\<close>

definition prompt :: "client_action \<Rightarrow> tcp_client \<Rightarrow> bool" where
  "prompt a c =
     (case a of
        Complete i ec n throws \<Rightarrow>
          i < length (c_ops c) \<longrightarrow>
            (snd (c_ops c ! i) \<longleftrightarrow> ec = Operation_aborted)
            \<and> (is_timer (fst (c_ops c ! i)) \<longrightarrow> ec = No_error \<or> ec = Operation_aborted)
      | Do_start \<Rightarrow> c_stop_requested c \<longrightarrow> c_cleanup_done c
      | _ \<Rightarrow> True)"

definition prompt_step :: "client_action \<Rightarrow> tcp_client \<Rightarrow> tcp_client option" where
  "prompt_step a c = (if prompt a c then client_step a c else None)"

section \<open>The phases of a connection attempt\<close>

fun attempt_of :: "nat \<Rightarrow> io_op \<Rightarrow> bool" where
  "attempt_of run (Resolve s) = (s = run)"
| "attempt_of run (Connect_op s) = (s = run)"
| "attempt_of run (Connect_timer s) = (s = run)"
| "attempt_of run (Retry_timer s) = (s = run)"
| "attempt_of run op = False"

definition live_ops :: "(io_op \<Rightarrow> bool) \<Rightarrow> (io_op \<times> bool) list \<Rightarrow> io_op list" where
  "live_ops p ops = map fst (filter (\<lambda>(op, x). p op \<and> \<not> x) ops)"

abbreviation phase :: "tcp_client \<Rightarrow> io_op list" where
  "phase c \<equiv> live_ops (attempt_of (c_current_seq c)) (c_ops c)"

fun start_run :: "task \<Rightarrow> nat list" where
  "start_run (Start_task s) = [s]"
| "start_run t = []"

abbreviation starts :: "task list \<Rightarrow> nat list" where
  "starts ts \<equiv> concat (map start_run ts)"

fun op_ok :: "nat \<Rightarrow> nat \<Rightarrow> bool \<Rightarrow> io_op \<Rightarrow> bool" where
  "op_ok run k up (Read_op s n) = (n < k \<or> n = k \<and> up)"
| "op_ok run k up (Write_op s n b q) = (n < k \<or> n = k \<and> up)"
| "op_ok run k up (Idle_timer s n a) = True"
| "op_ok run k up (Resolve s) = (s \<le> run)"
| "op_ok run k up (Connect_op s) = (s \<le> run)"
| "op_ok run k up (Connect_timer s) = (s \<le> run)"
| "op_ok run k up (Retry_timer s) = (s \<le> run)"

definition grounded :: "tcp_client \<Rightarrow> bool" where
  "grounded c \<longleftrightarrow>
     (c_connected c \<longrightarrow> c_link c = LinkConnected)
     \<and> c_lifecycle_seq c = c_current_seq c
     \<and> (c_stopping c \<longleftrightarrow> c_stop_requested c)
     \<and> count_list (c_tasks c) Cleanup_task = (if c_stop_requested c \<and> \<not> c_cleanup_started c then 1 else 0)
     \<and> (c_cleanup_started c \<longrightarrow> c_stop_requested c) \<and> (c_cleanup_done c \<longrightarrow> c_cleanup_started c)
     \<and> (c_cleanup_finished c \<longrightarrow> c_cleanup_started c)
     \<and> (\<not> c_stop_requested c \<longrightarrow> c_stop_seq c < c_current_seq c \<or> c_current_seq c = 0)
     \<and> c_stop_seq c \<le> c_current_seq c
     \<and> sorted_wrt (<) (starts (c_tasks c)) \<and> (c_current_seq c = 0 \<longrightarrow> starts (c_tasks c) = [])
     \<and> (starts (c_tasks c) \<noteq> [] \<longrightarrow> last (starts (c_tasks c)) = c_current_seq c)
     \<and> (\<forall>(op, x)\<in>set (c_ops c). op_ok (c_current_seq c) (c_connection_seq c) (c_connected c) op)"

definition steady :: "tcp_client \<Rightarrow> bool" where
  "steady c \<longleftrightarrow>
     (c_terminal c \<longrightarrow> is_terminal (c_link c))
     \<and> (starts (c_tasks c) \<noteq> [] \<longrightarrow> phase c = [] \<and> c_link c \<in> {LinkIdle, LinkConnecting})
     \<and> (c_link c \<noteq> LinkConnecting \<longrightarrow> phase c = [])
     \<and> (starts (c_tasks c) = [] \<and> c_link c = LinkConnecting \<longrightarrow>
          phase c = [Resolve (c_current_seq c)]
          \<or> phase c = [Connect_timer (c_current_seq c), Connect_op (c_current_seq c)]
          \<or> phase c = [Retry_timer (c_current_seq c)])
     \<and> (c_reconnect_pending c \<longrightarrow> phase c = [Retry_timer (c_current_seq c)])
     \<and> (c_link c = LinkConnected \<longrightarrow>
          c_connected c \<and> (Read_op (c_current_seq c) (c_connection_seq c), False) \<in> set (c_ops c))"

definition phased :: "tcp_client \<Rightarrow> bool" where
  "phased c \<longleftrightarrow> grounded c \<and> (\<not> c_stop_requested c \<longrightarrow> steady c)"

lemma grounded_frame [simp]:
  "grounded (c\<lparr>queue_bytes := x0\<rparr>) = grounded c" "grounded (c\<lparr>pending_bytes := x1\<rparr>) = grounded c"
  "grounded (c\<lparr>inflight_bytes := x2\<rparr>) = grounded c"
  "grounded (c\<lparr>backpressure_active := x3\<rparr>) = grounded c"
  "grounded (c\<lparr>bp_high := x4\<rparr>) = grounded c" "grounded (c\<lparr>bp_low := x5\<rparr>) = grounded c"
  "grounded (c\<lparr>bp_limit := x6\<rparr>) = grounded c" "grounded (c\<lparr>bp_strategy := x7\<rparr>) = grounded c"
  "grounded (c\<lparr>tx := x8\<rparr>) = grounded c" "grounded (c\<lparr>pending := x9\<rparr>) = grounded c"
  "grounded (c\<lparr>c_cfg := x10\<rparr>) = grounded c" "grounded (c\<lparr>c_policy := x11\<rparr>) = grounded c"
  "grounded (c\<lparr>c_first_retry := x12\<rparr>) = grounded c"
  "grounded (c\<lparr>c_active_write := x13\<rparr>) = grounded c"
  "grounded (c\<lparr>c_writing := x14\<rparr>) = grounded c" "grounded (c\<lparr>c_ledger := x15\<rparr>) = grounded c"
  "grounded (c\<lparr>c_stats := x16\<rparr>) = grounded c"
  "grounded (c\<lparr>c_retry_attempts := x19\<rparr>) = grounded c"
  "grounded (c\<lparr>c_reconnect_count := x20\<rparr>) = grounded c"
  "grounded (c\<lparr>c_errors := x21\<rparr>) = grounded c" "grounded (c\<lparr>c_terminal := x24\<rparr>) = grounded c"
  "grounded (c\<lparr>c_reconnect_pending := x25\<rparr>) = grounded c"
 
  "grounded (c\<lparr>c_idle_arm := x33\<rparr>) = grounded c" "grounded (c\<lparr>c_waits := x34\<rparr>) = grounded c"
  "grounded (c\<lparr>c_wait := x35\<rparr>) = grounded c" "grounded (c\<lparr>c_has_on_state := x36\<rparr>) = grounded c"
  "grounded (c\<lparr>c_has_on_bp := x37\<rparr>) = grounded c" "grounded (c\<lparr>c_states := x40\<rparr>) = grounded c"
  "grounded (c\<lparr>c_bp_log := x41\<rparr>) = grounded c" "grounded (c\<lparr>c_delays := x42\<rparr>) = grounded c"
  "grounded (c\<lparr>c_wire := x43\<rparr>) = grounded c" "grounded (c\<lparr>c_clock := x44\<rparr>) = grounded c"
  by (simp_all add: grounded_def)


lemma steady_frame [simp]:
  "steady (c\<lparr>queue_bytes := x0\<rparr>) = steady c" "steady (c\<lparr>pending_bytes := x1\<rparr>) = steady c"
  "steady (c\<lparr>inflight_bytes := x2\<rparr>) = steady c"
  "steady (c\<lparr>backpressure_active := x3\<rparr>) = steady c" "steady (c\<lparr>bp_high := x4\<rparr>) = steady c"
  "steady (c\<lparr>bp_low := x5\<rparr>) = steady c" "steady (c\<lparr>bp_limit := x6\<rparr>) = steady c"
  "steady (c\<lparr>bp_strategy := x7\<rparr>) = steady c" "steady (c\<lparr>tx := x8\<rparr>) = steady c"
  "steady (c\<lparr>pending := x9\<rparr>) = steady c" "steady (c\<lparr>c_cfg := x10\<rparr>) = steady c"
  "steady (c\<lparr>c_policy := x11\<rparr>) = steady c" "steady (c\<lparr>c_first_retry := x12\<rparr>) = steady c"
  "steady (c\<lparr>c_active_write := x13\<rparr>) = steady c" "steady (c\<lparr>c_writing := x14\<rparr>) = steady c"
  "steady (c\<lparr>c_ledger := x15\<rparr>) = steady c" "steady (c\<lparr>c_stats := x16\<rparr>) = steady c"
  "steady (c\<lparr>c_retry_attempts := x19\<rparr>) = steady c"
  "steady (c\<lparr>c_reconnect_count := x20\<rparr>) = steady c" "steady (c\<lparr>c_errors := x21\<rparr>) = steady c"
  "steady (c\<lparr>c_stopping := x23\<rparr>) = steady c" "steady (c\<lparr>c_cleanup_started := x26\<rparr>) = steady c"
  "steady (c\<lparr>c_cleanup_finished := x27\<rparr>) = steady c"
  "steady (c\<lparr>c_cleanup_done := x28\<rparr>) = steady c" "steady (c\<lparr>c_lifecycle_seq := x29\<rparr>) = steady c"
  "steady (c\<lparr>c_stop_seq := x31\<rparr>) = steady c" "steady (c\<lparr>c_idle_arm := x33\<rparr>) = steady c"
  "steady (c\<lparr>c_waits := x34\<rparr>) = steady c" "steady (c\<lparr>c_wait := x35\<rparr>) = steady c"
  "steady (c\<lparr>c_has_on_state := x36\<rparr>) = steady c" "steady (c\<lparr>c_has_on_bp := x37\<rparr>) = steady c"
  "steady (c\<lparr>c_states := x40\<rparr>) = steady c" "steady (c\<lparr>c_bp_log := x41\<rparr>) = steady c"
  "steady (c\<lparr>c_delays := x42\<rparr>) = steady c" "steady (c\<lparr>c_wire := x43\<rparr>) = steady c"
  "steady (c\<lparr>c_clock := x44\<rparr>) = steady c"
  by (simp_all add: steady_def)


lemma phased_frame [simp]:
  "phased (c\<lparr>queue_bytes := x0\<rparr>) = phased c" "phased (c\<lparr>pending_bytes := x1\<rparr>) = phased c"
  "phased (c\<lparr>inflight_bytes := x2\<rparr>) = phased c"
  "phased (c\<lparr>backpressure_active := x3\<rparr>) = phased c" "phased (c\<lparr>bp_high := x4\<rparr>) = phased c"
  "phased (c\<lparr>bp_low := x5\<rparr>) = phased c" "phased (c\<lparr>bp_limit := x6\<rparr>) = phased c"
  "phased (c\<lparr>bp_strategy := x7\<rparr>) = phased c" "phased (c\<lparr>tx := x8\<rparr>) = phased c"
  "phased (c\<lparr>pending := x9\<rparr>) = phased c" "phased (c\<lparr>c_cfg := x10\<rparr>) = phased c"
  "phased (c\<lparr>c_policy := x11\<rparr>) = phased c" "phased (c\<lparr>c_first_retry := x12\<rparr>) = phased c"
  "phased (c\<lparr>c_active_write := x13\<rparr>) = phased c" "phased (c\<lparr>c_writing := x14\<rparr>) = phased c"
  "phased (c\<lparr>c_ledger := x15\<rparr>) = phased c" "phased (c\<lparr>c_stats := x16\<rparr>) = phased c"
  "phased (c\<lparr>c_retry_attempts := x19\<rparr>) = phased c"
  "phased (c\<lparr>c_reconnect_count := x20\<rparr>) = phased c" "phased (c\<lparr>c_errors := x21\<rparr>) = phased c"
  "phased (c\<lparr>c_idle_arm := x33\<rparr>) = phased c"
  "phased (c\<lparr>c_waits := x34\<rparr>) = phased c" "phased (c\<lparr>c_wait := x35\<rparr>) = phased c"
  "phased (c\<lparr>c_has_on_state := x36\<rparr>) = phased c" "phased (c\<lparr>c_has_on_bp := x37\<rparr>) = phased c"
  "phased (c\<lparr>c_states := x40\<rparr>) = phased c" "phased (c\<lparr>c_bp_log := x41\<rparr>) = phased c"
  "phased (c\<lparr>c_delays := x42\<rparr>) = phased c" "phased (c\<lparr>c_wire := x43\<rparr>) = phased c"
  "phased (c\<lparr>c_clock := x44\<rparr>) = phased c"
  by (simp_all add: phased_def)

lemma live_ops_append [simp]: "live_ops p (xs @ ys) = live_ops p xs @ live_ops p ys"
  by (simp add: live_ops_def)

lemma live_ops_simps [simp]:
  "live_ops p [] = []"
  "live_ops p ((op, x) # ops) = (if p op \<and> \<not> x then op # live_ops p ops else live_ops p ops)"
  by (simp_all add: live_ops_def)

lemma live_ops_cancel:
  "live_ops p (map (\<lambda>(op, x). (op, x \<or> q op)) ops) = filter (\<lambda>op. \<not> q op) (live_ops p ops)"
  by (induction ops) auto

lemma live_ops_cancel_all: "live_ops p (map (\<lambda>(op, x). (op, True)) ops) = []"
  by (induction ops) auto

lemma live_ops_remove:
  assumes "i < length ops" and "ops ! i = (op, x)"
  shows "p op \<and> \<not> x \<Longrightarrow> mset (live_ops p ops) = add_mset op (mset (live_ops p (take i ops @ drop (Suc i) ops)))"
    and "\<not> (p op \<and> \<not> x) \<Longrightarrow> live_ops p (take i ops @ drop (Suc i) ops) = live_ops p ops"
proof -
  have s: "ops = take i ops @ (op, x) # drop (Suc i) ops" using assms by (metis id_take_nth_drop)
  show "p op \<and> \<not> x \<Longrightarrow> mset (live_ops p ops) = add_mset op (mset (live_ops p (take i ops @ drop (Suc i) ops)))"
    by (subst s) simp
  show "\<not> (p op \<and> \<not> x) \<Longrightarrow> live_ops p (take i ops @ drop (Suc i) ops) = live_ops p ops"
    by (subst (3) s) auto
qed

lemma live_ops_empty: "(\<And>op x. (op, x) \<in> set ops \<Longrightarrow> \<not> p op) \<Longrightarrow> live_ops p ops = []"
  by (auto simp: live_ops_def filter_empty_conv)

lemma mset_singleton: "add_mset a (mset xs) = mset [a] \<Longrightarrow> xs = []"
  by simp

lemma mset_pair: "add_mset a (mset xs) = mset [a, b] \<Longrightarrow> xs = [b]" "add_mset b (mset xs) = mset [a, b] \<Longrightarrow> xs = [a]"
  by simp_all

section \<open>Losing a connection\<close>

lemma op_ok_left: "op_ok run k up op \<Longrightarrow> op_ok run (k + (if up then 1 else 0)) False op"
  by (cases op) auto

lemma grounded_mark: "grounded c \<Longrightarrow> grounded (mark_disconnected c)"
  using op_ok_left [where up = "c_connected c" and k = "c_connection_seq c"]
  by (fastforce simp: grounded_def mark_disconnected_eq left_connection_def)

lemma grounded_transition: "grounded c \<Longrightarrow> \<not> c_connected c \<or> l = LinkConnected \<Longrightarrow> grounded (transition_to l ec c)"
  by (auto simp: grounded_def transition_to_eq)

lemma grounded_cancel: "grounded c \<Longrightarrow> grounded (c\<lparr>c_ops := map (\<lambda>(op, x). (op, f op x)) (c_ops c)\<rparr>)"
  by (force simp: grounded_def)

lemma grounded_start_op:
  "grounded c \<Longrightarrow> op_ok (c_current_seq c) (c_connection_seq c) (c_connected c) op \<Longrightarrow>
   grounded (c\<lparr>c_ops := c_ops c @ [(op, x)]\<rparr>)"
  by (auto simp: grounded_def)

lemma down_mark [simp]: "\<not> c_connected (mark_disconnected c)"
  by (simp add: mark_disconnected_eq)

lemma grounded_counted:
  "grounded (c\<lparr>c_reconnect_pending := a, c_retry_attempts := b, c_reconnect_count := n, c_delays := d, c_ops := os\<rparr>) =
   grounded (c\<lparr>c_ops := os\<rparr>)"
  by (simp add: grounded_def)

lemma grounded_retry:
  assumes "grounded c" and "seq \<le> c_current_seq c"
  shows "grounded (schedule_retry seq c)"
proof -
  have t: "grounded (transition_to l ec (mark_disconnected c))" for l ec
    using grounded_transition [OF grounded_mark [OF assms(1)]] by simp
  let ?t = "transition_to LinkConnecting No_error (mark_disconnected c)"
  have o: "c_ops ?t = c_ops c" "c_current_seq ?t = c_current_seq c" by (simp_all add: transition_to_eq mark_disconnected_eq)
  have "grounded (?t\<lparr>c_ops := map (\<lambda>(op, x). (op, x \<or> is_retry_timer op)) (c_ops c) @ [(Retry_timer seq, False)]\<rparr>)"
    using grounded_start_op [OF grounded_cancel [OF t [of LinkConnecting No_error], of "\<lambda>op x. x \<or> is_retry_timer op"],
        of "Retry_timer seq" False]
      assms(2) o by simp
  then show ?thesis
    using t grounded_mark [OF assms(1)]
    by (cases "retry_choice c"; cases "c_stop_requested c \<or> c_stopping c \<or> c_reconnect_pending c")
      (simp_all add: schedule_retry_eq grounded_counted)
qed

definition closable :: "tcp_client \<Rightarrow> bool" where
  "closable c \<longleftrightarrow>
     (\<not> c_stop_requested c \<longrightarrow>
        \<not> c_terminal c \<and> \<not> is_terminal (c_link c) \<and> \<not> c_reconnect_pending c \<and> starts (c_tasks c) = []
        \<and> (\<forall>op\<in>set (phase c). is_connect_timer op \<or> on_socket op))"

lemma closable_frame [simp]:
  "closable (c\<lparr>queue_bytes := x0\<rparr>) = closable c" "closable (c\<lparr>pending_bytes := x1\<rparr>) = closable c"
  "closable (c\<lparr>inflight_bytes := x2\<rparr>) = closable c"
  "closable (c\<lparr>backpressure_active := x3\<rparr>) = closable c"
  "closable (c\<lparr>bp_high := x4\<rparr>) = closable c" "closable (c\<lparr>bp_low := x5\<rparr>) = closable c"
  "closable (c\<lparr>bp_limit := x6\<rparr>) = closable c" "closable (c\<lparr>bp_strategy := x7\<rparr>) = closable c"
  "closable (c\<lparr>tx := x8\<rparr>) = closable c" "closable (c\<lparr>pending := x9\<rparr>) = closable c"
  "closable (c\<lparr>c_cfg := x10\<rparr>) = closable c" "closable (c\<lparr>c_policy := x11\<rparr>) = closable c"
  "closable (c\<lparr>c_first_retry := x12\<rparr>) = closable c"
  "closable (c\<lparr>c_active_write := x13\<rparr>) = closable c"
  "closable (c\<lparr>c_writing := x14\<rparr>) = closable c" "closable (c\<lparr>c_ledger := x15\<rparr>) = closable c"
  "closable (c\<lparr>c_stats := x16\<rparr>) = closable c" "closable (c\<lparr>c_connected := x17\<rparr>) = closable c"
  "closable (c\<lparr>c_retry_attempts := x19\<rparr>) = closable c"
  "closable (c\<lparr>c_reconnect_count := x20\<rparr>) = closable c"
  "closable (c\<lparr>c_errors := x21\<rparr>) = closable c" "closable (c\<lparr>c_stopping := x23\<rparr>) = closable c"
  "closable (c\<lparr>c_cleanup_started := x26\<rparr>) = closable c"
  "closable (c\<lparr>c_cleanup_finished := x27\<rparr>) = closable c"
  "closable (c\<lparr>c_cleanup_done := x28\<rparr>) = closable c"
  "closable (c\<lparr>c_lifecycle_seq := x29\<rparr>) = closable c"
  "closable (c\<lparr>c_stop_seq := x31\<rparr>) = closable c"
  "closable (c\<lparr>c_connection_seq := x32\<rparr>) = closable c"
  "closable (c\<lparr>c_idle_arm := x33\<rparr>) = closable c" "closable (c\<lparr>c_waits := x34\<rparr>) = closable c"
  "closable (c\<lparr>c_wait := x35\<rparr>) = closable c" "closable (c\<lparr>c_has_on_state := x36\<rparr>) = closable c"
  "closable (c\<lparr>c_has_on_bp := x37\<rparr>) = closable c" "closable (c\<lparr>c_states := x40\<rparr>) = closable c"
  "closable (c\<lparr>c_bp_log := x41\<rparr>) = closable c" "closable (c\<lparr>c_delays := x42\<rparr>) = closable c"
  "closable (c\<lparr>c_wire := x43\<rparr>) = closable c" "closable (c\<lparr>c_clock := x44\<rparr>) = closable c"
  by (simp_all add: closable_def)


lemma phased_retry:
  assumes g: "grounded c" and c: "closable c" and p: "phase c = []" and s: "\<not> c_stop_requested c"
  shows "phased (schedule_retry (c_current_seq c) c)"
proof -
  have st: "\<not> c_stopping c" using g s by (simp add: grounded_def)
  have f: "\<not> c_terminal c" "\<not> is_terminal (c_link c)" "\<not> c_reconnect_pending c" "starts (c_tasks c) = []"
    using c s by (auto simp: closable_def)
  have m: "moved LinkError No_error c" "moved LinkConnecting No_error c"
    using f by (auto simp: moves_def is_terminal_def)
  have "steady (schedule_retry (c_current_seq c) c)" "\<not> c_stop_requested (schedule_retry (c_current_seq c) c)"
    using f p s st m
    by (cases "retry_choice c";
        simp add: schedule_retry_eq transition_to_eq mark_disconnected_eq steady_def live_ops_cancel is_terminal_def)+
  with grounded_retry [OF g] show ?thesis by (simp add: phased_def)
qed

lemma grounded_teardown: "grounded c \<Longrightarrow> grounded ((teardown c)\<lparr>c_errors := e\<rparr>)"
  using op_ok_left [where up = "c_connected c" and k = "c_connection_seq c"]
  by (fastforce simp: grounded_def teardown_def left_connection_def)

lemma phased_close:
  assumes g: "grounded c" and c: "closable c" and a: "seq = c_current_seq c" "ec \<noteq> Operation_aborted"
  shows "phased (handle_close seq ec c)"
proof -
  let ?d = "(teardown c)\<lparr>c_errors := closing_error ec c\<rparr>"
  have d: "grounded (transition_to l ec ?d)" for l
    using grounded_transition [OF grounded_teardown [OF g]] by (simp add: teardown_def)
  show ?thesis
  proof (cases "c_stop_requested c")
    case True
    then have "handle_close seq ec c = transition_to LinkClosed ec ?d" using a by (simp add: handle_close_eq)
    moreover have "c_stop_requested (transition_to LinkClosed ec ?d)" using True by (simp add: transition_to_eq teardown_def)
    ultimately show ?thesis using d by (simp add: phased_def)
  next
    case False
    let ?e = "transition_to LinkConnecting ec ?d"
    have st: "\<not> c_stopping c" "c_link c \<noteq> LinkClosed"
      using g c False by (auto simp: grounded_def closable_def is_terminal_def)
    have e: "c_current_seq ?e = c_current_seq c" "\<not> c_stop_requested ?e"
      using False by (simp_all add: transition_to_eq teardown_def)
    have p: "phase ?e = []"
      using c False by (auto simp: transition_to_eq teardown_def live_ops_cancel closable_def filter_empty_conv)
    have "closable ?e"
      using c False p a(2) by (auto simp: closable_def transition_to_eq teardown_def is_terminal_def)
    from phased_retry [OF d this p e(2)] False st a e show ?thesis by (simp add: handle_close_eq Let_def)
  qed
qed

lemma steady_up:
  assumes "steady c" and "c_link c = LinkConnected"
  shows "phase c = []" "\<not> c_terminal c" "starts (c_tasks c) = []" "\<not> c_reconnect_pending c"
proof -
  show "starts (c_tasks c) = []" using assms unfolding steady_def by fastforce
  show p: "phase c = []" using assms by (simp add: steady_def)
  show "\<not> c_terminal c" using assms by (simp add: steady_def is_terminal_def)
  show "\<not> c_reconnect_pending c" using assms(1) p unfolding steady_def by (metis list.distinct(1))
qed

lemma phased_up: "phased c \<Longrightarrow> c_connected c \<Longrightarrow> closable c"
  using steady_up [of c] by (simp add: phased_def grounded_def closable_def is_terminal_def)

lemma phased_grounded: "phased c \<Longrightarrow> grounded c"
  by (simp add: phased_def)

lemma phased_connected: "phased c \<Longrightarrow> c_connected c \<Longrightarrow> c_link c = LinkConnected"
  by (simp add: phased_def grounded_def)

lemma live_kept: "(op, False) \<in> set ops \<Longrightarrow> \<not> q op \<Longrightarrow> (op, False) \<in> set (map (\<lambda>(op, x). (op, x \<or> q op)) ops)"
  by force

lemma phased_idle:
  assumes "phased c"
  shows "phased (handle_idle_timeout seq c)"
proof (cases "seq \<noteq> c_current_seq c \<or> c_stop_requested c \<or> c_stopping c \<or> \<not> c_connected c")
  case False
  let ?d = "(teardown c)\<lparr>c_errors := idle_error c\<rparr>"
  have up: "closable c" "phase c = []" "c_link c = LinkConnected" "\<not> c_terminal c" "starts (c_tasks c) = []"
    "\<not> c_reconnect_pending c"
    using phased_up [OF assms] phased_connected [OF assms] False assms steady_up [of c] by (simp_all add: phased_def)
  have d: "grounded (transition_to l Timed_out ?d)" for l
    using grounded_transition [OF grounded_teardown [OF phased_grounded [OF assms]]] by (simp add: teardown_def)
  have e: "c_current_seq (transition_to l Timed_out ?d) = c_current_seq c" "\<not> c_stop_requested (transition_to l Timed_out ?d)"
    "phase (transition_to l Timed_out ?d) = []" for l
    using False up by (simp_all add: transition_to_eq teardown_def live_ops_cancel)
  have "closable (transition_to LinkConnecting Timed_out ?d)"
    using up False by (auto simp: closable_def transition_to_eq teardown_def is_terminal_def live_ops_cancel)
  note r = phased_retry [OF d this e(3,2)]
  have "steady (transition_to LinkClosed Timed_out ?d)"
    using up by (auto simp: steady_def transition_to_eq teardown_def is_terminal_def moves_def live_ops_cancel)
  with d e(2) have "phased (transition_to LinkClosed Timed_out ?d)" by (simp add: phased_def)
  with r e(1) False show ?thesis by (simp add: handle_idle_timeout_eq Let_def)
qed (simp add: handle_idle_timeout_eq assms)

section \<open>Writing\<close>

lemma phased_write_op: "phased c \<Longrightarrow> c_connected c \<Longrightarrow> phased (c\<lparr>c_ops := c_ops c @ [(Write_op s (c_connection_seq c) b n, False)]\<rparr>)"
  by (auto simp: phased_def steady_def intro: grounded_start_op)

lemma phased_do_write:
  assumes "phased c" and "seq = c_current_seq c"
  shows "phased (c_do_write throws seq c)"
proof -
  obtain rest b n where t: "take_gather_batch tb_size (tx c) = (rest, b, n)" using prod_cases3 by blast
  obtain ok l where g: "begin_batch (map tb_request b) (c_ledger c) = (ok, l)" by fastforce
  let ?c1 = "c\<lparr>c_writing := True, tx := rest, c_ledger := l, c_active_write := Some (b, n)\<rparr>"
  have c1: "phased ?c1" using assms(1) by simp
  have "phased (handle_close seq No_buffer_space (mark_disconnected ?c1))" if "c_connected c"
  proof (rule phased_close)
    show "grounded (mark_disconnected ?c1)" using grounded_mark [OF phased_grounded [OF c1]] .
    show "closable (mark_disconnected ?c1)" using phased_up [OF c1] that by (simp add: mark_disconnected_eq)
    show "seq = c_current_seq (mark_disconnected ?c1)" using assms(2) by (simp add: mark_disconnected_eq)
  qed simp
  moreover have "phased (start_op (Write_op seq (c_connection_seq c) b n) (?c1\<lparr>c_wire := w\<rparr>))" if "c_connected c" for w
    using phased_write_op [of "?c1\<lparr>c_wire := w\<rparr>" seq b n] assms(1) that by (simp add: start_op_def)
  ultimately show ?thesis using assms(1) by (simp add: c_do_write_def t g Let_def)
qed

lemma phased_report:
  assumes "phased c"
  shows "phased (c_report_backpressure throws queued c)"
proof -
  obtain c2 calls kick where r: "report_backpressure queued (c_observe_queue c) = (c2, calls, kick)"
    using prod_cases3 by blast
  let ?c3 = "c2\<lparr>c_stats := (record_backpressure_event ^^ length calls) (c_stats c2),
      c_bp_log := c_bp_log c2 @ (if c_has_on_bp c2 then calls else [])\<rparr>"
  have "phased c2"
    using r assms by (auto simp: report_backpressure_def flush_pending_into_tx_def c_observe_queue_def Let_def split: if_splits)
  then have "phased ?c3" "phased (c_observe_queue ?c3)" by (simp_all add: c_observe_queue_def)
  then show ?thesis using assms phased_do_write by (simp add: c_report_backpressure_def r Let_def)
qed

lemma do_write_seq: "c_current_seq (c_do_write throws seq c) = c_current_seq c"
proof -
  have r: "c_current_seq (schedule_retry s d) = c_current_seq d" for s d
    by (cases "retry_choice d"; cases "c_stop_requested d \<or> c_stopping d \<or> c_reconnect_pending d")
      (simp_all add: schedule_retry_eq transition_to_eq mark_disconnected_eq)
  have "c_current_seq (handle_close s ec d) = c_current_seq d" for s ec d
    by (simp add: handle_close_eq r transition_to_eq teardown_def Let_def)
  then show ?thesis
    by (simp add: c_do_write_def start_op_def mark_disconnected_eq Let_def split: prod.split)
qed

lemma c_report_seq: "c_current_seq (c_report_backpressure throws queued c) = c_current_seq c"
proof -
  obtain c2 calls kick where r: "report_backpressure queued (c_observe_queue c) = (c2, calls, kick)"
    using prod_cases3 by blast
  have "c_current_seq c2 = c_current_seq c"
    using r by (auto simp: report_backpressure_def flush_pending_into_tx_def c_observe_queue_def Let_def split: if_splits)
  moreover have "c_current_seq (c_observe_queue d) = c_current_seq d" for d by (simp add: c_observe_queue_def)
  ultimately show ?thesis by (simp add: c_report_backpressure_def r do_write_seq Let_def)
qed

lemma phased_push: "phased c \<Longrightarrow> phased (let d = c_report_backpressure throws queued c
    in if \<not> c_writing d then c_do_write throws (c_current_seq d) d else d)"
  using phased_report phased_do_write by (simp add: Let_def)

lemma phased_route:
  assumes "phased c"
  shows "phased (c_route_enqueued_buffer throws buf added c)"
proof -
  let ?c2 = "c_observe_queue ((commit_to_queue added c)\<lparr>tx := tx (commit_to_queue added c) @ [buf]\<rparr>)"
  have "phased ?c2" using assms by (simp add: commit_to_queue_def c_observe_queue_def)
  note push = phased_push [OF this]
  show ?thesis
  proof (cases "decide_enqueue added c")
    case Immediate
    with push assms show ?thesis by (simp add: c_route_enqueued_buffer_def release_reserved_limit_bytes_def Let_def)
  qed (use assms in \<open>simp_all add: c_route_enqueued_buffer_def c_record_error_def release_reserved_limit_bytes_def
      commit_to_pending_def c_observe_queue_def phased_report Let_def\<close>)
qed

lemma reset_idle_phase:
  "c_link (c_reset_idle_timer seq c) = c_link c" "c_terminal (c_reset_idle_timer seq c) = c_terminal c"
  "c_tasks (c_reset_idle_timer seq c) = c_tasks c" "c_current_seq (c_reset_idle_timer seq c) = c_current_seq c"
  "c_reconnect_pending (c_reset_idle_timer seq c) = c_reconnect_pending c"
  "c_connected (c_reset_idle_timer seq c) = c_connected c"
  "c_connection_seq (c_reset_idle_timer seq c) = c_connection_seq c"
  "c_stop_requested (c_reset_idle_timer seq c) = c_stop_requested c"
  "live_ops (attempt_of run) (c_ops (c_reset_idle_timer seq c)) = live_ops (attempt_of run) (c_ops c)"
  "(Read_op s k, False) \<in> set (c_ops c) \<Longrightarrow> (Read_op s k, False) \<in> set (c_ops (c_reset_idle_timer seq c))"
proof -
  have "attempt_of r op \<Longrightarrow> \<not> is_idle_timer op" for r op by (cases op) simp_all
  then have f: "filter (\<lambda>op. \<not> is_idle_timer op) (live_ops (attempt_of r) os) = live_ops (attempt_of r) os" for r os
    by (auto simp: live_ops_def filter_id_conv)
  show "live_ops (attempt_of run) (c_ops (c_reset_idle_timer seq c)) = live_ops (attempt_of run) (c_ops c)"
    by (simp add: c_reset_idle_timer_def op_defs live_ops_cancel f Let_def)
  show "(Read_op s k, False) \<in> set (c_ops (c_reset_idle_timer seq c))" if "(Read_op s k, False) \<in> set (c_ops c)"
    using that live_kept [of "Read_op s k" "c_ops c" is_idle_timer] by (simp add: c_reset_idle_timer_def op_defs Let_def)
qed (simp_all add: c_reset_idle_timer_def op_defs Let_def)

lemma grounded_reset_idle:
  assumes "grounded c"
  shows "grounded (c_reset_idle_timer seq c)"
proof -
  let ?o = "map (\<lambda>(op, x). (op, x \<or> is_idle_timer op)) (c_ops c)"
  have "grounded (c\<lparr>c_ops := ?o @ [(Idle_timer s k a, False)]\<rparr>)" for s k a
    using grounded_start_op [OF grounded_cancel [OF assms, of "\<lambda>op x. x \<or> is_idle_timer op"], of "Idle_timer s k a"] by simp
  then have "grounded (c\<lparr>c_idle_arm := i, c_ops := ?o @ [(Idle_timer s k a, False)]\<rparr>)" for i s k a
    by (simp add: grounded_def)
  with assms show ?thesis by (simp add: c_reset_idle_timer_def op_defs Let_def)
qed

lemma phased_reset_idle: "phased c \<Longrightarrow> phased (c_reset_idle_timer seq c)"
  using grounded_reset_idle by (simp add: phased_def steady_def reset_idle_phase)

lemma phased_if: "phased a \<Longrightarrow> phased b \<Longrightarrow> phased (if q then a else b)"
  by simp

lemma phased_succeeded:
  assumes "phased c" and "seq = c_current_seq c"
  shows "phased (write_succeeded throws seq queued n c)"
proof -
  let ?c1 = "c\<lparr>c_stats := record_sent n (c_stats c)\<rparr>"
  let ?c2 = "if n > 0 then c_reset_idle_timer seq ?c1 else ?c1"
  let ?c3 = "release_reserved_write_bytes queued ?c2"
  let ?r = "c_report_backpressure throws (queue_bytes ?c3) ?c3"
  have "phased ?c1" using assms by simp
  then have "phased ?c2" using phased_reset_idle by auto
  then have c3: "phased ?c3" by (simp add: release_reserved_write_bytes_def)
  have "c_current_seq ?c3 = c_current_seq c"
    by (simp add: release_reserved_write_bytes_def c_reset_idle_timer_def op_defs Let_def)
  then have "seq = c_current_seq ?r" using assms(2) by (simp only: c_report_seq)
  then have "phased (c_do_write throws seq ?r)" by (rule phased_do_write [OF phased_report [OF c3]])
  moreover have "phased (?r\<lparr>c_writing := False\<rparr>)" using phased_report [OF c3] by (simp only: phased_frame)
  ultimately show ?thesis unfolding write_succeeded_def Let_def by (intro phased_if)
qed

lemma phased_on_write:
  assumes "phased c" and ok: "op_ok (c_current_seq c) (c_connection_seq c) (c_connected c) (Write_op seq connection bufs queued)"
  shows "phased (on_write throws seq connection bufs queued ec n c)"
proof -
  consider (stale) "connection \<noteq> c_connection_seq c"
    | (aborted) "connection = c_connection_seq c" "ec = Operation_aborted \<or> seq \<noteq> c_current_seq c"
    | (failed) "connection = c_connection_seq c" "ec \<noteq> Operation_aborted" "seq = c_current_seq c" "ec \<noteq> No_error"
    | (fine) "connection = c_connection_seq c" "seq = c_current_seq c" "ec = No_error"
    by blast
  then show ?thesis
  proof cases
    case stale
    with assms(1) show ?thesis by (simp add: on_write_stale)
  next
    case aborted
    with assms(1) phased_report show ?thesis by (simp add: on_write_aborted)
  next
    case failed
    let ?c1 = "c\<lparr>c_ledger := written_ledger bufs n c\<rparr>"
    let ?d = "(c_record_error Communication ''write'' ec ''Write failed'' False 0
       ((mark_disconnected ?c1)\<lparr>c_active_write := None, tx := bufs @ tx c\<rparr>))\<lparr>c_writing := False\<rparr>"
    have up: "c_connected c" using ok failed by simp
    have "phased (handle_close seq ec ?d)"
    proof (rule phased_close)
      show "grounded ?d" using grounded_mark [OF phased_grounded, of ?c1] assms(1) by (simp add: c_record_error_def)
      show "closable ?d" using phased_up [OF assms(1) up] by (simp add: c_record_error_def mark_disconnected_eq)
      show "seq = c_current_seq ?d" using failed by (simp add: c_record_error_def mark_disconnected_eq)
    qed fact
    then show ?thesis using failed by (simp add: on_write_failed)
  next
    case fine
    with phased_succeeded [of "c\<lparr>c_ledger := written_ledger bufs n c, c_active_write := None\<rparr>" seq] assms(1)
    show ?thesis by (simp add: on_write_fine)
  qed
qed

section \<open>Connecting\<close>

lemma phased_finish:
  assumes g: "grounded c" and c: "closable c" and p: "phase c = []" and s: "\<not> c_stop_requested c"
    and d: "\<not> c_connected c"
  shows "phased (finish_connect (c_current_seq c) c)"
proof -
  let ?c1 = "c\<lparr>c_waits := c_waits c @ [(c_connection_seq c, None)], c_wait := Some (length (c_waits c)), c_connected := True\<rparr>"
  let ?t = "transition_to LinkConnected No_error ?c1"
  let ?r = "c_start_read (c_current_seq c) ?t"
  have f: "\<not> c_terminal c" "\<not> c_reconnect_pending c" "starts (c_tasks c) = []" using c s by (simp_all add: closable_def)
  have up: "op_ok k n False op \<Longrightarrow> op_ok k n True op" for k n op by (cases op) auto
  have "grounded ?t"
    using g up d by (fastforce simp: grounded_def transition_to_eq moves_def is_terminal_def)
  then have "grounded ?r"
    using grounded_start_op [of ?t "Read_op (c_current_seq c) (c_connection_seq c)" False]
    by (simp add: c_start_read_def start_op_def transition_to_eq)
  moreover have "steady ?r"
    using f p by (auto simp: steady_def c_start_read_def start_op_def transition_to_eq moves_def is_terminal_def)
  ultimately have "phased ?r" by (simp add: phased_def)
  from phased_reset_idle [OF this, of "c_current_seq c"] have k: "phased (connected_client (c_current_seq c) c)"
    by (simp add: connected_client_def)
  have post: "phased e \<Longrightarrow> phased (e\<lparr>c_tasks := c_tasks e @ [Kick_task a b]\<rparr>)" for e a b
    by (simp add: phased_def grounded_def steady_def)
  have "\<not> c_stopping c" using g s by (simp add: grounded_def)
  then show ?thesis using post [OF k] s by (simp add: finish_connect_eq post_task_def)
qed

text \<open>The operation at position \<open>i\<close> is taken off to be completed.\<close>

definition without :: "nat \<Rightarrow> tcp_client \<Rightarrow> tcp_client" where
  "without i c = c\<lparr>c_ops := take i (c_ops c) @ drop (Suc i) (c_ops c)\<rparr>"

lemma grounded_fewer:
  assumes "grounded c" and "set os \<subseteq> set (c_ops c)"
  shows "grounded (c\<lparr>c_ops := os\<rparr>)"
proof -
  have "\<forall>(op, x)\<in>set os. op_ok (c_current_seq c) (c_connection_seq c) (c_connected c) op"
    using assms unfolding grounded_def by blast
  with assms(1) show ?thesis by (simp add: grounded_def)
qed

lemma grounded_without: "grounded c \<Longrightarrow> grounded (without i c)"
  unfolding without_def by (erule grounded_fewer) (auto dest: in_set_takeD in_set_dropD)

lemma kept_without:
  assumes "i < length (c_ops c)" and "(op, x) \<in> set (c_ops c)" and "c_ops c ! i \<noteq> (op, x)"
  shows "(op, x) \<in> set (take i (c_ops c) @ drop (Suc i) (c_ops c))"
  using assms id_take_nth_drop [OF assms(1)] by (metis Un_iff set_ConsD set_append)

lemma phased_without:
  assumes "phased c" and i: "i < length (c_ops c)" "c_ops c ! i = (op, x)" and n: "\<not> (attempt_of (c_current_seq c) op \<and> \<not> x)"
    and r: "(op, x) \<noteq> (Read_op (c_current_seq c) (c_connection_seq c), False)"
  shows "phased (without i c)"
proof -
  have "steady (without i c)" if "steady c"
    using that live_ops_remove(2) [where p = "attempt_of (c_current_seq c)", OF i n] kept_without [OF i(1)] r i(2) by (auto simp: steady_def without_def)
  with assms(1) grounded_without [of c i] show ?thesis by (auto simp: phased_def without_def)
qed

lemma phase_live:
  assumes s: "steady c" and i: "i < length (c_ops c)" "c_ops c ! i = (op, False)" and a: "attempt_of (c_current_seq c) op"
  shows "starts (c_tasks c) = []" "c_link c = LinkConnecting" "\<not> c_terminal c"
    "op = Resolve (c_current_seq c) \<and> phase (without i c) = [] \<and> \<not> c_reconnect_pending c
     \<or> op = Connect_timer (c_current_seq c) \<and> phase (without i c) = [Connect_op (c_current_seq c)] \<and> \<not> c_reconnect_pending c
     \<or> op = Connect_op (c_current_seq c) \<and> phase (without i c) = [Connect_timer (c_current_seq c)] \<and> \<not> c_reconnect_pending c
     \<or> op = Retry_timer (c_current_seq c) \<and> phase (without i c) = []"
proof -
  have m: "mset (phase c) = add_mset op (mset (phase (without i c)))"
    using live_ops_remove(1) [OF i] a by (simp add: without_def)
  then have op: "op \<in> set (phase c)" by (metis set_mset_mset union_single_eq_member)
  then have ne: "phase c \<noteq> []" by auto
  then show l: "starts (c_tasks c) = []" "c_link c = LinkConnecting" using s by (auto simp: steady_def)
  show "\<not> c_terminal c" using s l by (auto simp: steady_def is_terminal_def)
  have pend: "c_reconnect_pending c \<Longrightarrow> phase c = [Retry_timer (c_current_seq c)]" using s by (simp add: steady_def)
  consider "phase c = [Resolve (c_current_seq c)]"
    | "phase c = [Connect_timer (c_current_seq c), Connect_op (c_current_seq c)]"
    | "phase c = [Retry_timer (c_current_seq c)]"
    using s l by (auto simp: steady_def)
  then show "op = Resolve (c_current_seq c) \<and> phase (without i c) = [] \<and> \<not> c_reconnect_pending c
     \<or> op = Connect_timer (c_current_seq c) \<and> phase (without i c) = [Connect_op (c_current_seq c)] \<and> \<not> c_reconnect_pending c
     \<or> op = Connect_op (c_current_seq c) \<and> phase (without i c) = [Connect_timer (c_current_seq c)] \<and> \<not> c_reconnect_pending c
     \<or> op = Retry_timer (c_current_seq c) \<and> phase (without i c) = []"
    by cases (use m pend op in \<open>auto\<close>)
qed

lemma without_sel [simp]:
  "c_current_seq (without i c) = c_current_seq c" "c_stop_requested (without i c) = c_stop_requested c"
  "c_stopping (without i c) = c_stopping c" "c_connected (without i c) = c_connected c"
  "c_connection_seq (without i c) = c_connection_seq c" "c_link (without i c) = c_link c"
  "c_terminal (without i c) = c_terminal c" "c_reconnect_pending (without i c) = c_reconnect_pending c"
  "c_tasks (without i c) = c_tasks c"
  by (simp_all add: without_def)

lemma phased_stopped: "grounded c \<Longrightarrow> c_stop_requested c \<Longrightarrow> phased c"
  by (simp add: phased_def)

text \<open>A live operation of the current attempt, when no stop is requested.\<close>

lemma attempt_live:
  assumes "phased c" and i: "i < length (c_ops c)" "c_ops c ! i = (op, False)" and a: "attempt_of (c_current_seq c) op"
    and s: "\<not> c_stop_requested c"
  shows "grounded (without i c)" "\<not> c_stopping c" "\<not> c_connected c" "steady c"
    "\<not> c_reconnect_pending c \<Longrightarrow> \<forall>op\<in>set (phase (without i c)). is_connect_timer op \<or> on_socket op \<Longrightarrow> closable (without i c)"
proof -
  have g: "grounded c" and st: "steady c" using assms by (simp_all add: phased_def)
  note l = phase_live [OF st i a]
  show "grounded (without i c)" using grounded_without [OF g] .
  show "\<not> c_stopping c" "\<not> c_connected c" using g s l(2) by (auto simp: grounded_def)
  show "steady c" by fact
  show "closable (without i c)"
    if "\<not> c_reconnect_pending c" "\<forall>op\<in>set (phase (without i c)). is_connect_timer op \<or> on_socket op"
    using that l by (auto simp: closable_def is_terminal_def)
qed

lemma phased_ignored:
  assumes p: "phased c" and i: "i < length (c_ops c)" "c_ops c ! i = (op, x)"
    and n: "c_stop_requested c
      \<or> (x \<or> \<not> attempt_of (c_current_seq c) op) \<and> (op, x) \<noteq> (Read_op (c_current_seq c) (c_connection_seq c), False)"
  shows "phased (without i c)"
  using n phased_without [OF p i] phased_stopped [OF grounded_without [of c i]] p by (auto simp: phased_def)

lemma phased_on_resolve:
  assumes p: "phased c" and i: "i < length (c_ops c)" "c_ops c ! i = (Resolve s, x)" and x: "x \<longleftrightarrow> ec = Operation_aborted"
  shows "phased (on_resolve s ec (without i c))"
proof (cases "ec = Operation_aborted \<or> s \<noteq> c_current_seq c \<or> c_stop_requested c")
  case True
  then have "phased (without i c)" using phased_ignored [OF p i] x by auto
  with True show ?thesis by (auto simp: on_resolve_def)
next
  case False
  then have f: "\<not> x" "s = c_current_seq c" "\<not> c_stop_requested c" "ec \<noteq> Operation_aborted" using x by auto
  have live: "c_ops c ! i = (Resolve (c_current_seq c), False)" "attempt_of (c_current_seq c) (Resolve (c_current_seq c))"
    using i f by simp_all
  note a = attempt_live [OF p i(1) live f(3)]
  have ph: "phase (without i c) = []" "\<not> c_reconnect_pending c" "starts (c_tasks c) = []" "c_link c = LinkConnecting" "\<not> c_terminal c"
    using phase_live [OF a(4) i(1) live] by auto
  let ?d = "without i c"
  have c: "closable ?d" using a(5) ph by simp
  have "phased (schedule_retry (c_current_seq c) (c_record_error cat op ec' msg rt k ?d))" for cat op ec' msg rt k
    using phased_retry [of "c_record_error cat op ec' msg rt k ?d"] a(1) c ph(1) f(3) by (simp add: c_record_error_def)
  moreover have "phased (start_op (Connect_op (c_current_seq c)) (start_op (Connect_timer (c_current_seq c)) (cancel_ops is_connect_timer ?d)))"
  proof -
    let ?e = "?d\<lparr>c_ops := map (\<lambda>(op, x). (op, x \<or> is_connect_timer op)) (c_ops ?d)\<rparr>"
    have "grounded ?e" using grounded_cancel [OF a(1), of "\<lambda>op x. x \<or> is_connect_timer op"] .
    then have "grounded (?e\<lparr>c_ops := c_ops ?e @ [(Connect_timer (c_current_seq c), False)]\<rparr>)"
      by (rule grounded_start_op) simp
    from grounded_start_op [OF this, of "Connect_op (c_current_seq c)" False]
    have "grounded (?e\<lparr>c_ops := c_ops ?e @ [(Connect_timer (c_current_seq c), False), (Connect_op (c_current_seq c), False)]\<rparr>)"
      by simp
    moreover have "steady (?e\<lparr>c_ops := c_ops ?e @ [(Connect_timer (c_current_seq c), False), (Connect_op (c_current_seq c), False)]\<rparr>)"
      using ph by (simp add: steady_def live_ops_cancel)
    ultimately show ?thesis by (simp add: phased_def op_defs)
  qed
  ultimately show ?thesis using f a(2) by (simp add: on_resolve_def)
qed

lemma phased_on_connect:
  assumes p: "phased c" and i: "i < length (c_ops c)" "c_ops c ! i = (Connect_op s, x)" and x: "x \<longleftrightarrow> ec = Operation_aborted"
  shows "phased (on_connect s ec (without i c))"
proof (cases "ec = Operation_aborted \<or> s \<noteq> c_current_seq c \<or> c_stop_requested c")
  case True
  then have w: "phased (without i c)" using phased_ignored [OF p i] x by auto
  let ?e = "cancel_ops is_connect_timer (close_socket (without i c))"
  have "grounded ?e"
    using grounded_cancel [OF grounded_cancel [OF phased_grounded [OF w], of "\<lambda>op x. x \<or> on_socket op"],
        of "\<lambda>op x. x \<or> is_connect_timer op"] by (simp add: op_defs)
  then have "phased ?e" if "c_stop_requested c"
    using phased_stopped [of ?e] that by (simp add: op_defs)
  with w True show ?thesis by (auto simp: on_connect_def)
next
  case False
  then have f: "\<not> x" "s = c_current_seq c" "\<not> c_stop_requested c" "ec \<noteq> Operation_aborted" using x by auto
  have live: "c_ops c ! i = (Connect_op (c_current_seq c), False)" "attempt_of (c_current_seq c) (Connect_op (c_current_seq c))"
    using i f by simp_all
  note a = attempt_live [OF p i(1) live f(3)]
  let ?d = "without i c"
  have ph: "phase ?d = [Connect_timer (c_current_seq c)]" "\<not> c_reconnect_pending c"
    using phase_live [OF a(4) i(1) live] by auto
  let ?e = "cancel_ops is_connect_timer ?d"
  have e: "grounded ?e" "phase ?e = []" "\<not> c_connected ?e" "\<not> c_stop_requested ?e" "c_current_seq ?e = c_current_seq c"
    using grounded_cancel [OF a(1), of "\<lambda>op x. x \<or> is_connect_timer op"] ph a(3) f(3)
    by (simp_all add: op_defs live_ops_cancel)
  have c: "closable ?e" using a(5) ph by (auto simp: closable_def op_defs live_ops_cancel)
  have "phased (schedule_retry (c_current_seq c) (c_record_error cat op ec' msg rt k ?e))" for cat op ec' msg rt k
    using phased_retry [of "c_record_error cat op ec' msg rt k ?e"] e c by (simp add: c_record_error_def)
  moreover have "phased (finish_connect (c_current_seq c) (?e\<lparr>c_retry_attempts := 0, c_reconnect_count := 0\<rparr>))"
    using phased_finish [of "?e\<lparr>c_retry_attempts := 0, c_reconnect_count := 0\<rparr>"] e c by simp
  ultimately show ?thesis using f a(2) e by (simp add: on_connect_def Let_def)
qed

lemma phased_on_connect_timer:
  assumes p: "phased c" and i: "i < length (c_ops c)" "c_ops c ! i = (Connect_timer s, x)"
    and x: "x \<longleftrightarrow> ec = Operation_aborted" and t: "ec = No_error \<or> ec = Operation_aborted"
  shows "phased (on_connect_timer s ec (without i c))"
proof (cases "ec = Operation_aborted \<or> s \<noteq> c_current_seq c \<or> c_stop_requested c")
  case True
  then have "phased (without i c)" using phased_ignored [OF p i] x by auto
  with True t show ?thesis by (auto simp: on_connect_timer_def)
next
  case False
  then have f: "\<not> x" "s = c_current_seq c" "\<not> c_stop_requested c" "ec = No_error" using x t by auto
  have live: "c_ops c ! i = (Connect_timer (c_current_seq c), False)" "attempt_of (c_current_seq c) (Connect_timer (c_current_seq c))"
    using i f by simp_all
  note a = attempt_live [OF p i(1) live f(3)]
  let ?e = "c_record_error Connection ''connect'' Timed_out ''Connection timed out''
             (is_retryable_tcp_connect_error Timed_out) (current_attempts (without i c)) (without i c)"
  have "grounded ?e" "closable ?e"
    using phase_live [OF a(4) i(1) live] a(1,5) by (auto simp: c_record_error_def)
  then have "phased (handle_close s Timed_out ?e)"
    by (rule phased_close) (simp_all add: c_record_error_def f)
  then show ?thesis using f a(2) by (simp add: on_connect_timer_def)
qed

lemma phased_on_retry_timer:
  assumes p: "phased c" and i: "i < length (c_ops c)" "c_ops c ! i = (Retry_timer s, x)"
    and x: "x \<longleftrightarrow> ec = Operation_aborted" and t: "ec = No_error \<or> ec = Operation_aborted"
  shows "phased (on_retry_timer s ec (without i c))"
proof (cases "ec = Operation_aborted \<or> s \<noteq> c_current_seq c \<or> c_stop_requested c")
  case True
  then have "phased (without i c)" using phased_ignored [OF p i] x by auto
  then have "phased ((without i c)\<lparr>c_reconnect_pending := False\<rparr>)" by (simp add: phased_def grounded_def steady_def)
  with True t show ?thesis by (auto simp: on_retry_timer_def Let_def)
next
  case False
  then have f: "\<not> x" "s = c_current_seq c" "\<not> c_stop_requested c" "ec = No_error" using x t by auto
  have live: "c_ops c ! i = (Retry_timer (c_current_seq c), False)" "attempt_of (c_current_seq c) (Retry_timer (c_current_seq c))"
    using i f by simp_all
  note a = attempt_live [OF p i(1) live f(3)]
  let ?d = "(without i c)\<lparr>c_reconnect_pending := False\<rparr>"
  have "grounded (?d\<lparr>c_ops := c_ops ?d @ [(Resolve s, False)]\<rparr>)"
    by (rule grounded_start_op) (use a(1) f in simp_all)
  moreover have "steady (?d\<lparr>c_ops := c_ops ?d @ [(Resolve s, False)]\<rparr>)"
    using phase_live [OF a(4) i(1) live] f by (auto simp: steady_def)
  ultimately have "phased (do_resolve_connect s ?d)" by (simp add: phased_def do_resolve_connect_def start_op_def)
  then show ?thesis using f a(2) by (simp add: on_retry_timer_def Let_def)
qed

lemma phased_on_idle_timer:
  assumes p: "phased c" and i: "i < length (c_ops c)" "c_ops c ! i = (Idle_timer s k arm, x)"
  shows "phased (on_idle_timer s k arm ec (without i c))"
  using phased_ignored [OF p i] phased_idle by (simp add: on_idle_timer_def)

lemma phased_on_read:
  assumes p: "phased c" and i: "i < length (c_ops c)" "c_ops c ! i = (Read_op s k, x)" and x: "x \<longleftrightarrow> ec = Operation_aborted"
  shows "phased (on_read s k ec n (without i c))"
proof (cases "ec = Operation_aborted \<or> s \<noteq> c_current_seq c \<or> k \<noteq> c_connection_seq c \<or> c_stop_requested c")
  case True
  then have "phased (without i c)" using phased_ignored [OF p i] x by auto
  with True show ?thesis by (auto simp: on_read_def)
next
  case False
  let ?d = "without i c"
  have g: "grounded ?d" using grounded_without [OF phased_grounded [OF p]] .
  have ph: "phase ?d = phase c"
    using live_ops_remove(2) [OF i, of "attempt_of (c_current_seq c)"] by (simp add: without_def)
  have up: "c_connected c"
    using p nth_mem [OF i(1)] i(2) False by (auto simp: phased_def grounded_def)
  have "phased (handle_close s ec ?d)"
  proof (rule phased_close [OF g])
    show "closable ?d" using phased_up [OF p up] ph by (simp add: closable_def)
  qed (use False in simp_all)
  moreover have "phased (c_start_read s ((if n > 0 then c_reset_idle_timer s ?d else ?d)\<lparr>c_stats := st\<rparr>))" for st
  proof -
    let ?e = "(if n > 0 then c_reset_idle_timer s ?d else ?d)\<lparr>c_stats := st\<rparr>"
    have e: "grounded ?e" "phase ?e = phase c" "c_link ?e = c_link c" "c_terminal ?e = c_terminal c" "c_tasks ?e = c_tasks c"
      "c_current_seq ?e = c_current_seq c" "c_reconnect_pending ?e = c_reconnect_pending c" "c_connected ?e = c_connected c"
      "c_connection_seq ?e = c_connection_seq c" "c_stop_requested ?e = c_stop_requested c"
      using g grounded_reset_idle ph by (simp_all add: reset_idle_phase)
    have "grounded (?e\<lparr>c_ops := c_ops ?e @ [(Read_op s (c_connection_seq ?e), False)]\<rparr>)"
      by (rule grounded_start_op [OF e(1)]) (use up e in simp)
    moreover have "steady (?e\<lparr>c_ops := c_ops ?e @ [(Read_op s (c_connection_seq ?e), False)]\<rparr>)"
      using p False up e by (simp add: phased_def steady_def del: if_split)
    ultimately show ?thesis by (simp add: phased_def c_start_read_def start_op_def)
  qed
  ultimately show ?thesis using False by (cases "n > 0") (auto simp: on_read_def Let_def)
qed

lemma phased_complete:
  assumes p: "phased c" and i: "i < length (c_ops c)" and x: "prompt (Complete i ec n throws) c"
  shows "phased (io_completed (complete_op throws (fst (c_ops c ! i)) ec n (without i c)))"
proof -
  obtain op x where o: "c_ops c ! i = (op, x)" by fastforce
  have pr: "x \<longleftrightarrow> ec = Operation_aborted" "is_timer op \<Longrightarrow> ec = No_error \<or> ec = Operation_aborted"
    using x i o by (auto simp: prompt_def)
  have "phased (complete_op throws op ec n (without i c))"
  proof (cases op)
    case (Write_op s k b q)
    have "phased (without i c)" using phased_ignored [OF p i o] Write_op by simp
    moreover have "op_ok (c_current_seq c) (c_connection_seq c) (c_connected c) op"
      using p nth_mem [OF i] o by (auto simp: phased_def grounded_def)
    ultimately show ?thesis using phased_on_write [of "without i c" s k b q] Write_op by (simp add: complete_op_def)
  qed (use p i o pr in \<open>simp_all add: complete_op_def phased_on_resolve phased_on_connect phased_on_connect_timer
      phased_on_retry_timer phased_on_idle_timer phased_on_read\<close>)
  then have "phased (io_completed (complete_op throws op ec n (without i c)))"
    by (simp add: io_completed_def) (simp add: phased_def grounded_def steady_def)
  then show ?thesis using o by simp
qed

end
