(* ===== verification/Client_Progress.thy ===== *)
theory Client_Progress
  imports Client_Phases
begin

text \<open>
  A \<open>TcpClient\<close> whose timers and sockets behave promptly never gets stuck; one whose connect timer expires late
  can.
\<close>

section \<open>Starting and stopping\<close>

lemma phased_post:
  "phased c \<Longrightarrow> start_run t = [] \<Longrightarrow> t \<noteq> Cleanup_task \<Longrightarrow> phased (c\<lparr>c_tasks := c_tasks c @ [t]\<rparr>)"
  by (simp add: phased_def grounded_def steady_def)

lemma phased_pop:
  assumes "phased c" and "c_tasks c = t # ts" and "start_run t = []" and "t \<noteq> Cleanup_task"
  shows "phased (c\<lparr>c_tasks := ts\<rparr>)"
  using assms by (auto simp: phased_def grounded_def steady_def)

lemma starts_tail:
  assumes "grounded c" and "c_tasks c = Start_task s # ts"
  shows "s = c_current_seq c \<longleftrightarrow> starts ts = []" "starts ts \<noteq> [] \<Longrightarrow> last (starts ts) = c_current_seq c"
    "s \<le> c_current_seq c"
proof -
  have l: "sorted_wrt (<) (s # starts ts)" "last (s # starts ts) = c_current_seq c"
    using assms by (simp_all add: grounded_def)
  show "starts ts \<noteq> [] \<Longrightarrow> last (starts ts) = c_current_seq c" using l(2) by (simp only: last.simps if_False)
  have "s < c_current_seq c" if "starts ts \<noteq> []"
    using l that last_in_set [OF that] by (simp only: last.simps if_False sorted_wrt.simps)
  then show "s = c_current_seq c \<longleftrightarrow> starts ts = []" "s \<le> c_current_seq c"
    using l(2) by (cases "starts ts = []"; simp only: last.simps if_True; force)+
qed

lemma grounded_pop_start:
  assumes g: "grounded c" and ts: "c_tasks c = Start_task s # ts"
  shows "grounded (c\<lparr>c_tasks := ts\<rparr>)"
proof -
  have "starts ts \<noteq> [] \<longrightarrow> last (starts ts) = c_current_seq c" using starts_tail(2) [OF assms] by simp
  moreover have "sorted_wrt (<) (starts ts)" "c_current_seq c \<noteq> 0" using assms by (simp_all add: grounded_def)
  ultimately show ?thesis using assms unfolding grounded_def by simp
qed

lemma phased_start_task:
  assumes p: "phased c" and ts: "c_tasks c = Start_task s # ts"
  shows "phased (run_task throws (Start_task s) (c\<lparr>c_tasks := ts\<rparr>))"
proof -
  let ?d = "c\<lparr>c_tasks := ts\<rparr>"
  let ?r = "transition_to LinkConnecting No_error (reset_io_objects (mark_disconnected ?d))"
  have gc: "grounded c" using p by (simp add: phased_def)
  have g: "grounded ?d" using grounded_pop_start [OF gc ts] .
  note tail = starts_tail [OF gc ts]
  have st: "c_link c \<in> {LinkIdle, LinkConnecting}" "phase c = []" "\<not> c_terminal c" "\<not> c_reconnect_pending c"
    if "\<not> c_stop_requested c"
    using p ts that by (auto simp: phased_def steady_def is_terminal_def)
  show ?thesis
  proof (cases "s \<le> c_stop_seq c")
    case True
    have "steady ?d" if "\<not> c_stop_requested c"
    proof -
      have "c_stop_seq c < c_current_seq c" using gc ts that by (auto simp: grounded_def)
      then have "starts ts \<noteq> []" using True tail(1) by simp
      with p ts that show ?thesis by (auto simp: phased_def steady_def)
    qed
    with g True show ?thesis by (simp add: run_task_def phased_def)
  next
    case False
    have "grounded (reset_io_objects (mark_disconnected ?d))"
      using grounded_cancel [OF grounded_mark [OF g], of "\<lambda>op x. x \<or> True"] by (simp add: reset_io_objects_def cancel_ops_def)
    then have "grounded ?r"
      by (rule grounded_transition) (simp add: reset_io_objects_def cancel_ops_def mark_disconnected_eq)
    then have "grounded (?r\<lparr>c_ops := c_ops ?r @ [(Resolve s, False)]\<rparr>)"
      by (rule grounded_start_op)
        (use tail(3) in \<open>simp add: transition_to_eq reset_io_objects_def cancel_ops_def mark_disconnected_eq\<close>)
    moreover have "steady (?r\<lparr>c_ops := c_ops ?r @ [(Resolve s, False)]\<rparr>)" if "\<not> c_stop_requested c"
      using st [OF that] tail(1)
      by (auto simp: steady_def transition_to_eq reset_io_objects_def cancel_ops_def mark_disconnected_eq moves_def
          is_terminal_def live_ops_cancel_all)
    ultimately show ?thesis
      using False by (simp add: run_task_def phased_def do_resolve_connect_def start_op_def)
        (simp add: transition_to_eq reset_io_objects_def cancel_ops_def mark_disconnected_eq)
  qed
qed

lemma grounded_cleanup:
  assumes g: "grounded (c\<lparr>c_cleanup_started := True\<rparr>)" and s: "c_stop_requested c" and n: "\<not> c_cleanup_started c"
  shows "phased (perform_stop_cleanup c)"
proof -
  let ?c1 = "cancel_ops (\<lambda>_. True) (c\<lparr>c_cleanup_started := True\<rparr>)"
  let ?c2 = "?c1\<lparr>tx := [], queue_bytes := 0, pending := [], pending_bytes := 0, c_writing := False, c_active_write := None\<rparr>"
  let ?c3 = "(mark_disconnected ?c2)\<lparr>backpressure_active := False\<rparr>"
  let ?t = "transition_to LinkClosed No_error ?c3"
  have "grounded ?c2" using grounded_cancel [OF g, of "\<lambda>op x. x \<or> True"] by (simp add: cancel_ops_def)
  then have "grounded ?c3" using grounded_mark by simp
  then have t: "grounded ?t" by (rule grounded_transition) (simp add: mark_disconnected_eq)
  have f: "c_cleanup_started ?t" "c_stop_requested ?t"
    using s by (simp_all add: transition_to_eq mark_disconnected_eq cancel_ops_def)
  have "grounded (?t\<lparr>c_cleanup_finished := True\<rparr>)" using t f by (simp add: grounded_def)
  moreover have "grounded (?t\<lparr>c_cleanup_finished := True, c_cleanup_done := True\<rparr>)" using t f by (simp add: grounded_def)
  ultimately show ?thesis
    using n f(2) unfolding perform_stop_cleanup_def Let_def by (simp add: phased_def)
qed

lemma phased_task:
  assumes "phased c" and "c_tasks c = t # ts"
  shows "phased (run_task throws t (c\<lparr>c_tasks := ts\<rparr>))"
proof (cases t)
  case (Start_task seq)
  with phased_start_task assms show ?thesis by simp
next
  case Cleanup_task
  have "c_stop_requested c \<and> \<not> c_cleanup_started c \<and> grounded (c\<lparr>c_tasks := ts, c_cleanup_started := True\<rparr>)"
    using phased_grounded [OF assms(1)] assms(2) Cleanup_task by (auto simp: grounded_def split: if_splits)
  with grounded_cleanup [of "c\<lparr>c_tasks := ts\<rparr>"] Cleanup_task show ?thesis by (simp add: run_task_def)
next
  case (Kick_task seq connection)
  have "phased (c\<lparr>c_tasks := ts\<rparr>)" using phased_pop [OF assms] Kick_task by simp
  with phased_do_write [OF this, of seq throws] Kick_task show ?thesis by (simp add: run_task_def)
next
  case (Route_task buf added seq connection)
  have "phased (c\<lparr>c_tasks := ts\<rparr>)" using phased_pop [OF assms] Route_task by simp
  with phased_route [OF this, of throws buf added] Route_task show ?thesis
    by (simp add: run_task_def release_reserved_limit_bytes_def)
next
  case (Enqueue_task buf added seq connection)
  have d: "phased (c\<lparr>c_tasks := ts\<rparr>)" using phased_pop [OF assms] Enqueue_task by simp
  let ?c1 = "c_observe_queue (c\<lparr>c_tasks := ts, tx := tx c @ [buf]\<rparr>)"
  have "phased ?c1" using d by (simp add: c_observe_queue_def)
  from phased_push [OF this, of throws "queue_bytes ?c1"] d Enqueue_task show ?thesis
    by (simp add: run_task_def release_reserved_write_bytes_def Let_def)
next
  case (Fail_receive_task run connection)
  have d: "phased (c\<lparr>c_tasks := ts\<rparr>)" using phased_pop [OF assms] Fail_receive_task by simp
  have "phased (handle_close run No_buffer_space (c\<lparr>c_tasks := ts\<rparr>))"
    if "run = c_current_seq c" "write_connection (c\<lparr>c_tasks := ts\<rparr>) = Some connection"
  proof (rule phased_close [OF phased_grounded [OF d] phased_up [OF d]])
    show "c_connected (c\<lparr>c_tasks := ts\<rparr>)" using that by (auto simp: write_connection_def split: if_splits)
  qed (use that in simp_all)
  with d Fail_receive_task show ?thesis by (simp add: run_task_def)
qed

lemma recalculate_life:
  "c_link (recalculate_backpressure_bounds c) = c_link c" "c_ops (recalculate_backpressure_bounds c) = c_ops c"
  "c_tasks (recalculate_backpressure_bounds c) = c_tasks c" "c_stop_seq (recalculate_backpressure_bounds c) = c_stop_seq c"
  "c_connected (recalculate_backpressure_bounds c) = c_connected c"
  "c_connection_seq (recalculate_backpressure_bounds c) = c_connection_seq c"
  "c_lifecycle_seq (recalculate_backpressure_bounds c) = c_lifecycle_seq c"
  by (simp_all add: recalculate_backpressure_bounds_def Let_def)

lemma reset_start_life:
  "c_connected (reset_start_state c) = False" "c_link (reset_start_state c) = LinkIdle"
  "c_lifecycle_seq (reset_start_state c) = c_lifecycle_seq c" "c_current_seq (reset_start_state c) = c_current_seq c"
  "c_stop_requested (reset_start_state c) = False" "c_stopping (reset_start_state c) = False"
  "c_cleanup_started (reset_start_state c) = False" "c_cleanup_done (reset_start_state c) = False"
  "c_cleanup_finished (reset_start_state c) = False" "c_stop_seq (reset_start_state c) = c_stop_seq c"
  "c_ops (reset_start_state c) = c_ops c" "c_tasks (reset_start_state c) = c_tasks c"
  "c_connection_seq (reset_start_state c) = left_connection c" "c_terminal (reset_start_state c) = False"
  "c_reconnect_pending (reset_start_state c) = False"
  by (simp_all add: reset_start_state_def mark_disconnected_eq Let_def)

lemma phased_start:
  assumes p: "phased c" and q: "c_stop_requested c \<longrightarrow> c_cleanup_done c"
  shows "phased (c_start c)"
proof (cases "c_link c = LinkConnecting \<or> c_link c = LinkConnected")
  case False
  have g: "grounded c" using p by (simp add: phased_def)
  let ?seq = "c_current_seq c + 1"
  have down: "\<not> c_connected c" using g False by (auto simp: grounded_def)
  have ok: "op_ok (c_current_seq c) (c_connection_seq c) False op" if "(op, x) \<in> set (c_ops c)" for op x
    using g that down unfolding grounded_def by auto
  have new: "\<not> attempt_of ?seq op" if "(op, x) \<in> set (c_ops c)" for op x
    using ok [OF that] by (cases op) auto
  have ph: "live_ops (attempt_of ?seq) (c_ops c) = []" using new by (intro live_ops_empty) blast
  have count: "count_list (c_tasks c) Cleanup_task = 0" using g q by (auto simp: grounded_def)
  have old: "\<forall>x\<in>set (starts (c_tasks c)). x \<le> c_current_seq c"
  proof
    fix x assume x: "x \<in> set (starts (c_tasks c))"
    then obtain ys z where yz: "starts (c_tasks c) = ys @ [z]" by (metis append_butlast_last_id empty_iff list.set(1))
    have "sorted_wrt (<) (ys @ [z])" "z = c_current_seq c" using g yz by (auto simp: grounded_def)
    then show "x \<le> c_current_seq c" using x yz by (auto simp: sorted_wrt_append)
  qed
  have os: "\<forall>(op, x)\<in>set (c_ops c). op_ok ?seq (c_connection_seq c) False op"
  proof -
    have "op_ok (c_current_seq c) k False op \<Longrightarrow> op_ok ?seq k False op" for k op by (cases op) auto
    then show ?thesis using ok by blast
  qed
  let ?d = "post_task (Start_task ?seq) (reset_start_state ((recalculate_backpressure_bounds c)\<lparr>c_lifecycle_seq := ?seq, c_current_seq := ?seq\<rparr>))"
  have e: "c_start c = ?d"
    using False g by (simp add: c_start_def recalculate_life grounded_def Let_def)
  have f: "c_connected ?d = False" "c_link ?d = LinkIdle" "c_lifecycle_seq ?d = ?seq" "c_current_seq ?d = ?seq"
    "c_stop_requested ?d = False" "c_stopping ?d = False" "c_cleanup_started ?d = False" "c_cleanup_done ?d = False"
    "c_cleanup_finished ?d = False" "c_stop_seq ?d = c_stop_seq c" "c_ops ?d = c_ops c"
    "c_tasks ?d = c_tasks c @ [Start_task ?seq]" "c_connection_seq ?d = c_connection_seq c" "c_terminal ?d = False"
    "c_reconnect_pending ?d = False"
    using down
    by (simp_all add: post_task_def reset_start_life recalculate_life left_connection_def)
  have g': "sorted_wrt (<) (starts (c_tasks c))" "c_stop_seq c \<le> c_current_seq c" using g by (simp_all add: grounded_def)
  have "sorted_wrt (<) (starts (c_tasks c) @ [?seq])" using g'(1) old by (simp add: sorted_wrt_append le_imp_less_Suc)
  then have "grounded ?d" unfolding grounded_def f using g'(2) count os by simp
  moreover have "steady ?d" unfolding steady_def f using ph by simp
  ultimately show ?thesis unfolding e phased_def by blast
qed (simp add: c_start_def p)

lemma phased_stop:
  assumes p: "phased c"
  shows "phased (c_stop c)"
proof (cases "c_stop_requested c")
  case False
  have g: "grounded c" using p by (simp add: phased_def)
  let ?c2 = "(end_current_wait CancelledWhileWaiting
      (c\<lparr>c_stop_requested := True, c_ledger := end_ledger ExplicitStop (c_ledger c)\<rparr>))
      \<lparr>c_stopping := True, c_stop_seq := c_current_seq c\<rparr>"
  have n: "\<not> c_cleanup_started c" "\<not> c_cleanup_done c" "count_list (c_tasks c) Cleanup_task = 0"
    using g False by (auto simp: grounded_def)
  have "grounded (?c2\<lparr>c_cleanup_started := True\<rparr>)"
    using g n by (simp add: end_current_wait_eq grounded_def)
  note clean = grounded_cleanup [OF this]
  have "phased (?c2\<lparr>c_tasks := c_tasks c @ [Cleanup_task]\<rparr>)"
    using g n by (simp add: end_current_wait_eq phased_def grounded_def)
  with clean n False show ?thesis
    by (cases "c_current_seq c = 0") (simp_all add: c_stop_def end_current_wait_eq post_task_def Let_def)
qed (simp add: c_stop_def p)

lemma phased_admitted: "admitted c c' \<Longrightarrow> phased c \<Longrightarrow> phased c'"
proof (induction rule: admitted.induct)
  case (plain k d)
  then show ?case
    by (simp add: accepted_from_def c_accept_def post_task_def split: prod.split)
      (simp add: phased_def grounded_def steady_def)
next
  case (tried d)
  then show ?case
    by (simp add: accepted_from_def c_accept_def post_task_def split: prod.split)
      (simp add: phased_def grounded_def steady_def)
qed simp

lemma phased_fail_receive: "phased c \<Longrightarrow> phased (fail_receive c)"
  by (cases "write_connection c") (simp_all add: fail_receive_def post_task_def phased_post)

lemma phased_step:
  assumes p: "phased c" and s: "prompt_step a c = Some c'"
  shows "phased c'"
proof -
  have pr: "prompt a c" and st: "client_step a c = Some c'" using s by (auto simp: prompt_step_def split: if_splits)
  show ?thesis
  proof (cases a)
    case Do_start
    with pr st phased_start [OF p] show ?thesis by (auto simp: prompt_def)
  next
    case (Run_task throws)
    with st phased_task [OF p] show ?thesis by (auto split: list.splits)
  next
    case (Complete i ec n throws)
    with pr st phased_complete [OF p, of i ec n throws] show ?thesis by (auto simp: without_def split: if_splits)
  qed (use p st in \<open>auto intro: phased_stop phased_fail_receive phased_admitted [OF admitted_writes(1)]
      phased_admitted [OF admitted_writes(2)] phased_admitted [OF admitted_writes(3)]
      phased_admitted [OF admitted_writes(4)] phased_admitted [OF admitted_writes(5)]
      phased_admitted [OF admitted_writes(6)]
      simp: cancel_write_waits_def end_current_wait_eq c_reset_stats_def set_reconnect_policy_def
        set_backpressure_strategy_def set_idle_timeout_action_def set_on_state_def set_on_backpressure_def\<close>)
qed

interpretation client_phases: machine_invariant prompt_step phased
  by unfold_locales (rule phased_step)

lemma phased_new: "phased (new_client cfg)"
  by (simp add: phased_def grounded_def steady_def new_client_def recalculate_backpressure_bounds_def Let_def)

lemma starts_member: "s \<in> set (starts ts) \<Longrightarrow> Start_task s \<in> set ts"
proof -
  have one: "s \<in> set (start_run t) \<Longrightarrow> t = Start_task s" for t by (cases t) simp_all
  show "s \<in> set (starts ts) \<Longrightarrow> Start_task s \<in> set ts" by (induction ts) (auto dest: one)
qed

lemma live_member: "op \<in> set (live_ops p ops) \<Longrightarrow> p op \<and> (op, False) \<in> set ops"
  by (auto simp: live_ops_def)

section \<open>Properties\<close>




end
