(* ===== verification/Receive_Budget.thy ===== *)
theory Receive_Budget
  imports Wire_Prelude
begin

text \<open>
  The memory budget of the receive path: \<open>ReceiveLimits\<close> (\<open>src/wirestead/wrapper/receive_limits.hpp\<close>) and
  \<open>ReceiveBudget\<close>, \<open>ReceiveScope\<close>, \<open>ReceiveCharge\<close> (\<open>src/wirestead/wrapper/receive_budget.hpp\<close>).

  A budget is shared by all sessions of a channel; each session opens a scope on it, and every piece of
  receive storage the library keeps holds a charge of its scope. Byte counters are \<open>size_t\<close>: additions and
  subtractions wrap as in C++ (\<open>size_add\<close>, \<open>size_sub\<close>), and that they never do is proved. The event counters are
  64-bit words. Each operation is one step: the admission test and the update of \<open>acquire\<close> and of
  \<open>open_scope\<close> are a single compare-and-swap, and the other updates are additions and subtractions, which
  commute.
\<close>

section \<open>Limits\<close>

record recv_limits =
  max_bytes :: nat
  max_frame_bytes :: nat
  max_sessions :: nat

definition default_limits :: recv_limits where
  "default_limits =
     \<lparr>max_bytes = 64 * 1024 * 1024, max_frame_bytes = 1024 * 1024, max_sessions = 1024\<rparr>"

definition limits_validate :: "recv_limits \<Rightarrow> exn + unit" where
  "limits_validate l =
     (if max_bytes l = 0 \<or> max_frame_bytes l = 0 \<or> max_frame_bytes l > max_bytes l \<or> max_sessions l = 0
      then Inl Invalid_argument else Inr ())"

datatype overflow_reason = ByteLimit | FrameLimit | SessionLimit | AllocationFailure

fun reason_index :: "overflow_reason \<Rightarrow> nat" where
  "reason_index ByteLimit = 0"
| "reason_index FrameLimit = 1"
| "reason_index SessionLimit = 2"
| "reason_index AllocationFailure = 3"

record memory_stats =
  ms_reserved_bytes :: nat
  ms_peak_reserved_bytes :: nat
  ms_sessions :: nat
  ms_overflow_events :: "64 word"
  ms_overflow_bytes :: "64 word"
  ms_overflow_by_reason :: "64 word list"

section \<open>Budget\<close>

record recv_budget =
  rb_limits :: recv_limits
  rb_used :: nat
  rb_peak :: nat
  rb_sessions :: nat
  rb_overflows :: "64 word"
  rb_overflow_bytes :: "64 word"
  rb_reasons :: "64 word list"

definition new_budget :: "recv_limits \<Rightarrow> exn + recv_budget" where
  "new_budget l =
     (case limits_validate l of
        Inl e \<Rightarrow> Inl e
      | Inr _ \<Rightarrow>
          Inr \<lparr>rb_limits = l, rb_used = 0, rb_peak = 0, rb_sessions = 0, rb_overflows = 0,
               rb_overflow_bytes = 0, rb_reasons = [0, 0, 0, 0]\<rparr>)"

definition budget_stats :: "recv_budget \<Rightarrow> memory_stats" where
  "budget_stats b =
     \<lparr>ms_reserved_bytes = rb_used b, ms_peak_reserved_bytes = max (rb_used b) (rb_peak b),
      ms_sessions = rb_sessions b, ms_overflow_events = rb_overflows b,
      ms_overflow_bytes = rb_overflow_bytes b, ms_overflow_by_reason = rb_reasons b\<rparr>"

definition budget_reset_stats :: "recv_budget \<Rightarrow> recv_budget" where
  "budget_reset_stats b =
     b\<lparr>rb_peak := rb_used b, rb_overflows := 0, rb_overflow_bytes := 0,
       rb_reasons := map (\<lambda>_. 0) (rb_reasons b)\<rparr>"

definition budget_overflow :: "overflow_reason \<Rightarrow> nat \<Rightarrow> recv_budget \<Rightarrow> recv_budget" where
  "budget_overflow reason bytes b =
     b\<lparr>rb_overflows := rb_overflows b + 1, rb_overflow_bytes := rb_overflow_bytes b + of_nat bytes,
       rb_reasons := (rb_reasons b)[reason_index reason := rb_reasons b ! reason_index reason + 1]\<rparr>"

definition budget_acquire :: "nat \<Rightarrow> recv_budget \<Rightarrow> recv_budget option" where
  "budget_acquire bytes b =
     (let used = rb_used b in
      if bytes > size_sub (max_bytes (rb_limits b)) used then None
      else let b1 = b\<lparr>rb_used := size_add used bytes\<rparr> in
           Some (if rb_peak b1 < size_add used bytes then b1\<lparr>rb_peak := size_add used bytes\<rparr> else b1))"

section \<open>Scope\<close>

record recv_scope =
  rs_used :: nat
  rs_peak :: nat
  rs_overflows :: "64 word"
  rs_overflow_bytes :: "64 word"

definition new_scope :: recv_scope where
  "new_scope = \<lparr>rs_used = 0, rs_peak = 0, rs_overflows = 0, rs_overflow_bytes = 0\<rparr>"

text \<open>A scope works on its own counters and on those of its budget.\<close>

type_synonym account = "recv_budget \<times> recv_scope"

fun scope_overflow :: "nat \<Rightarrow> overflow_reason \<Rightarrow> account \<Rightarrow> account" where
  "scope_overflow bytes reason (b, s) =
     (budget_overflow reason bytes b,
      s\<lparr>rs_overflows := rs_overflows s + 1, rs_overflow_bytes := rs_overflow_bytes s + of_nat bytes\<rparr>)"

fun scope_stats :: "account \<Rightarrow> memory_stats" where
  "scope_stats (b, s) =
     \<lparr>ms_reserved_bytes = rs_used s, ms_peak_reserved_bytes = max (rs_used s) (rs_peak s), ms_sessions = 1,
      ms_overflow_events = rs_overflows s, ms_overflow_bytes = rs_overflow_bytes s,
      ms_overflow_by_reason = [0, 0, 0, 0]\<rparr>"

fun scope_release :: "nat \<Rightarrow> account \<Rightarrow> account" where
  "scope_release bytes (b, s) =
     (b\<lparr>rb_used := size_sub (rb_used b) bytes\<rparr>, s\<lparr>rs_used := size_sub (rs_used s) bytes\<rparr>)"

text \<open>
  \<open>reserve\<close> returns an empty pointer (\<open>Refused\<close>), a charge for the requested bytes (\<open>Charged\<close>), or, when the
  charge object cannot be allocated, gives the bytes back and rethrows (\<open>Thrown\<close>).
\<close>

datatype reservation = Refused | Charged nat | Thrown exn

fun scope_reserve :: "bool \<Rightarrow> nat \<Rightarrow> account \<Rightarrow> reservation \<times> account" where
  "scope_reserve alloc_ok bytes (b, s) =
     (case budget_acquire bytes b of
        None \<Rightarrow> (Refused, (b, s))
      | Some b' \<Rightarrow>
          let used = size_add (rs_used s) bytes;
              s1 = s\<lparr>rs_used := used\<rparr>;
              s2 = (if rs_peak s1 < used then s1\<lparr>rs_peak := used\<rparr> else s1)
          in if alloc_ok then (Charged bytes, (b', s2))
             else (Thrown Bad_alloc, scope_release bytes (b', s2)))"

section \<open>Charge\<close>

record recv_charge =
  ch_scope :: nat
  ch_bytes :: nat

text \<open>\<open>merge\<close> of two distinct charges: the second keeps its object but no bytes.\<close>

definition charge_merge :: "recv_charge \<Rightarrow> recv_charge \<Rightarrow> exn + recv_charge \<times> recv_charge" where
  "charge_merge c d =
     (if ch_scope c \<noteq> ch_scope d then Inl Logic_error
      else Inr (c\<lparr>ch_bytes := size_add (ch_bytes c) (ch_bytes d)\<rparr>, d\<lparr>ch_bytes := 0\<rparr>))"

definition charge_shrink :: "nat \<Rightarrow> recv_charge \<Rightarrow> account \<Rightarrow> (exn + recv_charge) \<times> account" where
  "charge_shrink bytes c a =
     (if bytes > ch_bytes c then (Inl Logic_error, a)
      else (Inr (c\<lparr>ch_bytes := bytes\<rparr>), scope_release (ch_bytes c - bytes) a))"

section \<open>All scopes and charges of a budget\<close>

text \<open>
  The objects of a running channel: the budget, the scopes with the number of owners outside the receive
  path, and the charges. A scope is owned by its handles and by its live charges, and its destructor
  (\<open>--sessions_\<close>) runs when the last owner is gone; \<open>None\<close> marks a destroyed object.
\<close>

record scope_slot =
  sl_handles :: nat
  sl_scope :: recv_scope

record recv_world =
  w_budget :: recv_budget
  w_scopes :: "scope_slot option list"
  w_charges :: "recv_charge option list"

definition new_world :: "recv_budget \<Rightarrow> recv_world" where
  "new_world b = \<lparr>w_budget = b, w_scopes = [], w_charges = []\<rparr>"

definition slot_at :: "nat \<Rightarrow> recv_world \<Rightarrow> scope_slot option" where
  "slot_at i w = (if i < length (w_scopes w) then w_scopes w ! i else None)"

definition charge_at :: "nat \<Rightarrow> recv_world \<Rightarrow> recv_charge option" where
  "charge_at k w = (if k < length (w_charges w) then w_charges w ! k else None)"

definition charged_to :: "nat \<Rightarrow> recv_charge option \<Rightarrow> nat" where
  "charged_to i c = (case c of None \<Rightarrow> 0 | Some c \<Rightarrow> if ch_scope c = i then ch_bytes c else 0)"

definition charge_of :: "recv_charge option \<Rightarrow> nat" where
  "charge_of c = (case c of None \<Rightarrow> 0 | Some c \<Rightarrow> ch_bytes c)"

definition holds_charge :: "nat \<Rightarrow> recv_world \<Rightarrow> bool" where
  "holds_charge i w = (\<exists>c\<in>set (w_charges w). case c of None \<Rightarrow> False | Some c \<Rightarrow> ch_scope c = i)"

definition put_account :: "nat \<Rightarrow> scope_slot \<Rightarrow> account \<Rightarrow> recv_world \<Rightarrow> recv_world" where
  "put_account i sl a w =
     w\<lparr>w_budget := fst a, w_scopes := (w_scopes w)[i := Some (sl\<lparr>sl_scope := snd a\<rparr>)]\<rparr>"

definition collect_scope :: "nat \<Rightarrow> recv_world \<Rightarrow> recv_world" where
  "collect_scope i w =
     (case slot_at i w of
        None \<Rightarrow> w
      | Some sl \<Rightarrow>
          if sl_handles sl = 0 \<and> \<not> holds_charge i w
          then w\<lparr>w_budget := (w_budget w)\<lparr>rb_sessions := size_sub (rb_sessions (w_budget w)) 1\<rparr>,
                 w_scopes := (w_scopes w)[i := None]\<rparr>
          else w)"

definition open_scope :: "bool \<Rightarrow> recv_world \<Rightarrow> recv_world" where
  "open_scope alloc_ok w =
     (let b = w_budget w; n = rb_sessions b in
      if n \<ge> max_sessions (rb_limits b) then w\<lparr>w_budget := budget_overflow SessionLimit 0 b\<rparr>
      else let b1 = b\<lparr>rb_sessions := size_add n 1\<rparr> in
           if alloc_ok
           then w\<lparr>w_budget := b1,
                  w_scopes := w_scopes w @ [Some \<lparr>sl_handles = 1, sl_scope = new_scope\<rparr>]\<rparr>
           else w\<lparr>w_budget := b1\<lparr>rb_sessions := size_sub (rb_sessions b1) 1\<rparr>\<rparr>)"

definition drop_charge :: "nat \<Rightarrow> recv_charge \<Rightarrow> scope_slot \<Rightarrow> recv_world \<Rightarrow> recv_world" where
  "drop_charge k c sl w =
     (let w1 = put_account (ch_scope c) sl (scope_release (ch_bytes c) (w_budget w, sl_scope sl)) w;
          w2 = w1\<lparr>w_charges := (w_charges w1)[k := None]\<rparr>
      in collect_scope (ch_scope c) w2)"

definition drop_handle :: "nat \<Rightarrow> scope_slot \<Rightarrow> recv_world \<Rightarrow> recv_world" where
  "drop_handle i sl w =
     collect_scope i (w\<lparr>w_scopes := (w_scopes w)[i := Some (sl\<lparr>sl_handles := sl_handles sl - 1\<rparr>)]\<rparr>)"

definition reserve_at :: "nat \<Rightarrow> bool \<Rightarrow> nat \<Rightarrow> scope_slot \<Rightarrow> recv_world \<Rightarrow> recv_world" where
  "reserve_at i alloc_ok bytes sl w =
     (case scope_reserve alloc_ok bytes (w_budget w, sl_scope sl) of
        (Charged n, a) \<Rightarrow>
          (put_account i sl a w)\<lparr>w_charges := w_charges w @ [Some \<lparr>ch_scope = i, ch_bytes = n\<rparr>]\<rparr>
      | (_, a) \<Rightarrow> put_account i sl a w)"

text \<open>Charges are dropped, merged and shrunk by whichever thread owns the storage; references must be live.\<close>

datatype recv_action =
    Open_scope bool
  | Share_scope nat
  | Drop_scope nat
  | Reserve nat bool nat
  | Drop_charge nat
  | Merge_charge nat nat
  | Shrink_charge nat nat
  | Overflow_in nat nat overflow_reason
  | Reset_stats

fun recv_step :: "recv_action \<Rightarrow> recv_world \<Rightarrow> recv_world option" where
  "recv_step (Open_scope ok) w = Some (open_scope ok w)"
| "recv_step (Share_scope i) w =
     (case slot_at i w of
        Some sl \<Rightarrow>
          if sl_handles sl = 0 then None
          else Some (w\<lparr>w_scopes := (w_scopes w)[i := Some (sl\<lparr>sl_handles := sl_handles sl + 1\<rparr>)]\<rparr>)
      | None \<Rightarrow> None)"
| "recv_step (Drop_scope i) w =
     (case slot_at i w of
        Some sl \<Rightarrow> if sl_handles sl = 0 then None else Some (drop_handle i sl w)
      | None \<Rightarrow> None)"
| "recv_step (Reserve i ok bytes) w =
     (case slot_at i w of
        Some sl \<Rightarrow> if sl_handles sl = 0 then None else Some (reserve_at i ok bytes sl w)
      | None \<Rightarrow> None)"
| "recv_step (Drop_charge k) w =
     (case charge_at k w of
        Some c \<Rightarrow> (case slot_at (ch_scope c) w of Some sl \<Rightarrow> Some (drop_charge k c sl w) | None \<Rightarrow> None)
      | None \<Rightarrow> None)"
| "recv_step (Merge_charge k j) w =
     (case (charge_at k w, charge_at j w) of
        (Some c, Some d) \<Rightarrow>
          if k = j then Some w
          else (case charge_merge c d of
                  Inl e \<Rightarrow> Some w
                | Inr (c', d') \<Rightarrow> Some (w\<lparr>w_charges := (w_charges w)[k := Some c', j := Some d']\<rparr>))
      | _ \<Rightarrow> None)"
| "recv_step (Shrink_charge k bytes) w =
     (case charge_at k w of
        Some c \<Rightarrow>
          (case slot_at (ch_scope c) w of
             Some sl \<Rightarrow>
               (case charge_shrink bytes c (w_budget w, sl_scope sl) of
                  (Inl e, a) \<Rightarrow> Some w
                | (Inr c', a) \<Rightarrow>
                    Some ((put_account (ch_scope c) sl a w)
                            \<lparr>w_charges := (w_charges w)[k := Some c']\<rparr>))
           | None \<Rightarrow> None)
      | None \<Rightarrow> None)"
| "recv_step (Overflow_in i bytes reason) w =
     (case slot_at i w of
        Some sl \<Rightarrow>
          if sl_handles sl = 0 then None
          else Some (put_account i sl (scope_overflow bytes reason (w_budget w, sl_scope sl)) w)
      | None \<Rightarrow> None)"
| "recv_step Reset_stats w = Some (w\<lparr>w_budget := budget_reset_stats (w_budget w)\<rparr>)"

section \<open>What the counters mean\<close>

text \<open>
  The meaning of the counters in terms of the objects that exist: the bytes of all live charges, those of one
  scope, and the number of live scopes.
\<close>

definition charged_bytes :: "recv_world \<Rightarrow> nat" where
  "charged_bytes w = sum_list (map charge_of (w_charges w))"

definition scope_bytes :: "nat \<Rightarrow> recv_world \<Rightarrow> nat" where
  "scope_bytes i w = sum_list (map (charged_to i) (w_charges w))"

definition live_scopes :: "recv_world \<Rightarrow> nat" where
  "live_scopes w = length (filter (\<lambda>s. s \<noteq> None) (w_scopes w))"

definition limits_ok :: "recv_limits \<Rightarrow> bool" where
  "limits_ok l \<longleftrightarrow> limits_validate l = Inr () \<and> max_bytes l \<le> SIZE_MAX \<and> max_sessions l \<le> SIZE_MAX"

definition budget_ok :: "recv_budget \<Rightarrow> nat \<Rightarrow> nat \<Rightarrow> bool" where
  "budget_ok b bytes live \<longleftrightarrow>
     limits_ok (rb_limits b) \<and> rb_used b = bytes \<and> bytes \<le> rb_peak b \<and> rb_peak b \<le> max_bytes (rb_limits b)
     \<and> rb_sessions b = live \<and> live \<le> max_sessions (rb_limits b)
     \<and> length (rb_reasons b) = 4 \<and> rb_overflows b = sum_list (rb_reasons b)"

definition scope_counts :: "nat \<Rightarrow> recv_world \<Rightarrow> bool" where
  "scope_counts i w \<longleftrightarrow>
     (\<forall>sl. slot_at i w = Some sl \<longrightarrow>
        rs_used (sl_scope sl) = scope_bytes i w \<and> scope_bytes i w \<le> rs_peak (sl_scope sl))"

definition owned :: "nat \<Rightarrow> recv_world \<Rightarrow> bool" where
  "owned i w \<longleftrightarrow> (\<forall>sl. slot_at i w = Some sl \<longrightarrow> sl_handles sl = 0 \<longrightarrow> holds_charge i w)"

definition counts_ok :: "recv_world \<Rightarrow> bool" where
  "counts_ok w \<longleftrightarrow>
     budget_ok (w_budget w) (charged_bytes w) (live_scopes w) \<and> (\<forall>i. scope_counts i w)
     \<and> (\<forall>k c. charge_at k w = Some c \<longrightarrow> slot_at (ch_scope c) w \<noteq> None)"

definition world_ok :: "recv_world \<Rightarrow> bool" where
  "world_ok w \<longleftrightarrow> counts_ok w \<and> (\<forall>i. owned i w)"

subsection \<open>Sums over objects\<close>

lemma sum_list_map_update:
  fixes f :: "'a \<Rightarrow> nat"
  shows "k < length xs \<Longrightarrow> sum_list (map f (xs[k := y])) + f (xs ! k) = sum_list (map f xs) + f y"
  by (induction xs arbitrary: k) (auto split: nat.split)

lemma length_filter_sum: "length (filter P xs) = sum_list (map (\<lambda>x. if P x then 1 else 0) xs)"
  by (induction xs) auto

lemma length_filter_update:
  "k < length xs \<Longrightarrow>
     length (filter P (xs[k := y])) + (if P (xs ! k) then 1 else 0)
       = length (filter P xs) + (if P y then 1 else 0)"
  unfolding length_filter_sum by (rule sum_list_map_update)

lemma sum_list_word_update:
  fixes xs :: "'a :: comm_ring_1 list"
  shows "k < length xs \<Longrightarrow> sum_list (xs[k := xs ! k + 1]) = sum_list xs + 1"
  by (induction xs arbitrary: k) (auto split: nat.split simp: algebra_simps)

lemma charge_at_SomeD: "charge_at k w = Some c \<Longrightarrow> k < length (w_charges w) \<and> w_charges w ! k = Some c"
  by (auto simp: charge_at_def split: if_splits)

lemma slot_at_SomeD: "slot_at i w = Some sl \<Longrightarrow> i < length (w_scopes w) \<and> w_scopes w ! i = Some sl"
  by (auto simp: slot_at_def split: if_splits)

lemma holds_charge_iff: "holds_charge i w \<longleftrightarrow> (\<exists>k c. charge_at k w = Some c \<and> ch_scope c = i)"
proof
  assume "holds_charge i w"
  then obtain c where "Some c \<in> set (w_charges w)" "ch_scope c = i"
    unfolding holds_charge_def by (auto split: option.splits)
  then obtain k where "k < length (w_charges w)" "w_charges w ! k = Some c" by (auto simp: in_set_conv_nth)
  with \<open>ch_scope c = i\<close> show "\<exists>k c. charge_at k w = Some c \<and> ch_scope c = i"
    by (auto simp: charge_at_def)
next
  assume "\<exists>k c. charge_at k w = Some c \<and> ch_scope c = i"
  then obtain k c where "Some c \<in> set (w_charges w)" "ch_scope c = i"
    by (auto dest!: charge_at_SomeD simp: in_set_conv_nth)
  then show "holds_charge i w" unfolding holds_charge_def by force
qed

lemma charge_in_set: "charge_at k w = Some c \<Longrightarrow> Some c \<in> set (w_charges w)"
  by (metis charge_at_SomeD nth_mem)

lemma charge_le_total:
  assumes "charge_at k w = Some c"
  shows "ch_bytes c \<le> charged_bytes w"
  using member_le_sum [OF imageI [OF charge_in_set [OF assms], of charge_of, folded set_map]]
  by (simp add: charged_bytes_def charge_of_def)

lemma charge_le_scope:
  assumes "charge_at k w = Some c"
  shows "ch_bytes c \<le> scope_bytes (ch_scope c) w"
  using member_le_sum [OF imageI [OF charge_in_set [OF assms], of "charged_to (ch_scope c)", folded set_map]]
  by (simp add: scope_bytes_def charged_to_def)

lemma scope_le_total: "scope_bytes i w \<le> charged_bytes w"
  unfolding scope_bytes_def charged_bytes_def
  by (rule sum_list_mono) (simp add: charged_to_def charge_of_def split: option.split)

lemma scope_bytes_none: "\<not> holds_charge i w \<Longrightarrow> scope_bytes i w = 0"
  unfolding scope_bytes_def holds_charge_def by (auto simp: charged_to_def split: option.splits)
subsection \<open>Replacing one object\<close>

lemma slot_at_put [simp]:
  "i < length (w_scopes w) \<Longrightarrow>
     slot_at j (put_account i sl a w) = (if j = i then Some (sl\<lparr>sl_scope := snd a\<rparr>) else slot_at j w)"
  by (simp add: slot_at_def put_account_def)

lemma slot_at_scopes [simp]:
  "i < length (w_scopes w) \<Longrightarrow>
     slot_at j (w\<lparr>w_scopes := (w_scopes w)[i := s]\<rparr>) = (if j = i then s else slot_at j w)"
  by (simp add: slot_at_def)

lemma slot_at_append [simp]:
  "slot_at j (w\<lparr>w_budget := b, w_scopes := w_scopes w @ [s]\<rparr>)
     = (if j = length (w_scopes w) then s else slot_at j w)"
  by (auto simp: slot_at_def nth_append)

lemma slot_at_other [simp]:
  "slot_at j (w\<lparr>w_budget := b\<rparr>) = slot_at j w"
  "slot_at j (w\<lparr>w_charges := cs\<rparr>) = slot_at j w"
  by (simp_all add: slot_at_def)

lemma charge_at_update [simp]:
  "k < length (w_charges w) \<Longrightarrow>
     charge_at j (w\<lparr>w_charges := (w_charges w)[k := c]\<rparr>) = (if j = k then c else charge_at j w)"
  by (simp add: charge_at_def)

lemma charge_at_append [simp]:
  "charge_at j (w\<lparr>w_charges := w_charges w @ [c]\<rparr>)
     = (if j = length (w_charges w) then c else charge_at j w)"
  by (auto simp: charge_at_def nth_append)

lemma charge_at_other [simp]:
  "charge_at j (w\<lparr>w_budget := b\<rparr>) = charge_at j w"
  "charge_at j (w\<lparr>w_scopes := ss\<rparr>) = charge_at j w"
  "charge_at j (put_account i sl a w) = charge_at j w"
  by (simp_all add: charge_at_def put_account_def)

lemma put_account_sel [simp]:
  "w_budget (put_account i sl a w) = fst a"
  "w_charges (put_account i sl a w) = w_charges w"
  "length (w_scopes (put_account i sl a w)) = length (w_scopes w)"
  by (simp_all add: put_account_def)

lemma sums_other [simp]:
  "charged_bytes (w\<lparr>w_budget := b\<rparr>) = charged_bytes w"
  "charged_bytes (w\<lparr>w_scopes := ss\<rparr>) = charged_bytes w"
  "scope_bytes i (w\<lparr>w_budget := b\<rparr>) = scope_bytes i w"
  "scope_bytes i (w\<lparr>w_scopes := ss\<rparr>) = scope_bytes i w"
  "holds_charge i (w\<lparr>w_budget := b\<rparr>) = holds_charge i w"
  "holds_charge i (w\<lparr>w_scopes := ss\<rparr>) = holds_charge i w"
  "live_scopes (w\<lparr>w_budget := b\<rparr>) = live_scopes w"
  "live_scopes (w\<lparr>w_charges := cs\<rparr>) = live_scopes w"
  by (simp_all add: charged_bytes_def scope_bytes_def holds_charge_def live_scopes_def)

lemma sums_put [simp]:
  "charged_bytes (put_account i sl a w) = charged_bytes w"
  "scope_bytes j (put_account i sl a w) = scope_bytes j w"
  "holds_charge j (put_account i sl a w) = holds_charge j w"
  by (simp_all add: put_account_def charged_bytes_def scope_bytes_def holds_charge_def)

lemma sums_put_charges [simp]:
  "charged_bytes ((put_account i sl a w)\<lparr>w_charges := cs\<rparr>) = charged_bytes (w\<lparr>w_charges := cs\<rparr>)"
  "scope_bytes j ((put_account i sl a w)\<lparr>w_charges := cs\<rparr>) = scope_bytes j (w\<lparr>w_charges := cs\<rparr>)"
  "holds_charge j ((put_account i sl a w)\<lparr>w_charges := cs\<rparr>) = holds_charge j (w\<lparr>w_charges := cs\<rparr>)"
  "charge_at j ((put_account i sl a w)\<lparr>w_charges := cs\<rparr>) = charge_at j (w\<lparr>w_charges := cs\<rparr>)"
  by (simp_all add: charged_bytes_def scope_bytes_def holds_charge_def charge_at_def)

lemma live_scopes_update:
  assumes "slot_at i w = Some sl"
  shows "live_scopes (w\<lparr>w_scopes := (w_scopes w)[i := Some sl']\<rparr>) = live_scopes w"
    and "Suc (live_scopes (w\<lparr>w_scopes := (w_scopes w)[i := None]\<rparr>)) = live_scopes w"
    and "live_scopes (put_account i sl' a w) = live_scopes w"
  using slot_at_SomeD [OF assms] length_filter_update [of i "w_scopes w" "\<lambda>s. s \<noteq> None" "Some sl'"]
    length_filter_update [of i "w_scopes w" "\<lambda>s. s \<noteq> None" None]
    length_filter_update [of i "w_scopes w" "\<lambda>s. s \<noteq> None" "Some (sl'\<lparr>sl_scope := snd a\<rparr>)"]
  by (simp_all add: live_scopes_def put_account_def)

lemma charges_append:
  "charged_bytes (w\<lparr>w_charges := w_charges w @ [Some c]\<rparr>) = charged_bytes w + ch_bytes c"
  "scope_bytes j (w\<lparr>w_charges := w_charges w @ [Some c]\<rparr>)
     = scope_bytes j w + (if ch_scope c = j then ch_bytes c else 0)"
  "holds_charge j (w\<lparr>w_charges := w_charges w @ [Some c]\<rparr>) \<longleftrightarrow> holds_charge j w \<or> ch_scope c = j"
  by (auto simp: charged_bytes_def scope_bytes_def holds_charge_def charge_of_def charged_to_def)

lemma charges_update:
  assumes "charge_at k w = Some c"
  shows "charged_bytes (w\<lparr>w_charges := (w_charges w)[k := x]\<rparr>) + ch_bytes c
           = charged_bytes w + charge_of x"
    and "scope_bytes j (w\<lparr>w_charges := (w_charges w)[k := x]\<rparr>) + (if ch_scope c = j then ch_bytes c else 0)
           = scope_bytes j w + charged_to j x"
  using charge_at_SomeD [OF assms] sum_list_map_update [of k "w_charges w" charge_of x]
    sum_list_map_update [of k "w_charges w" "charged_to j" x]
  by (simp_all add: charged_bytes_def scope_bytes_def charge_of_def charged_to_def)

subsection \<open>The budget's own counters\<close>

lemma budget_acquire_eq:
  assumes "budget_ok b n live"
  shows "budget_acquire bytes b
    = (if n + bytes \<le> max_bytes (rb_limits b)
       then Some (b\<lparr>rb_used := n + bytes, rb_peak := max (rb_peak b) (n + bytes)\<rparr>) else None)"
proof -
  have le: "n \<le> max_bytes (rb_limits b)" "max_bytes (rb_limits b) \<le> SIZE_MAX" "rb_used b = n"
    using assms by (auto simp: budget_ok_def limits_ok_def)
  show ?thesis
  proof (cases "n + bytes \<le> max_bytes (rb_limits b)")
    case True
    then show ?thesis using le by (simp add: budget_acquire_def Let_def max_def not_less)
  next
    case False
    then show ?thesis using le by (simp add: budget_acquire_def Let_def)
  qed
qed

lemma budget_ok_raise:
  assumes "budget_ok b n live" and "n + k \<le> max_bytes (rb_limits b)"
  shows "budget_ok (b\<lparr>rb_used := n + k, rb_peak := max (rb_peak b) (n + k)\<rparr>) (n + k) live"
  using assms by (simp add: budget_ok_def)

lemma budget_ok_lower:
  assumes "budget_ok b n live" and "n = m + k"
  shows "budget_ok (b\<lparr>rb_used := size_sub (rb_used b) k\<rparr>) m live"
  using assms by (simp add: budget_ok_def)

lemma budget_ok_overflow: "budget_ok b n live \<Longrightarrow> budget_ok (budget_overflow r k b) n live"
  by (cases r) (simp_all add: budget_ok_def budget_overflow_def sum_list_word_update [of _ "rb_reasons b"])

lemma budget_ok_reset: "budget_ok b n live \<Longrightarrow> budget_ok (budget_reset_stats b) n live"
  by (auto simp: budget_ok_def budget_reset_stats_def)

lemma budget_ok_sessions:
  "budget_ok b n live \<Longrightarrow> live < max_sessions (rb_limits b) \<Longrightarrow>
     budget_ok (b\<lparr>rb_sessions := size_add (rb_sessions b) 1\<rparr>) n (Suc live)"
  "budget_ok b n (Suc live) \<Longrightarrow> budget_ok (b\<lparr>rb_sessions := size_sub (rb_sessions b) 1\<rparr>) n live"
  by (simp_all add: budget_ok_def limits_ok_def)

subsection \<open>Every step keeps the meaning\<close>

lemma collect_scope_ok:
  assumes "counts_ok w" and "\<And>j. j \<noteq> i \<Longrightarrow> owned j w"
  shows "world_ok (collect_scope i w)"
proof (cases "owned i w")
  case True
  then have "collect_scope i w = w" by (auto simp: collect_scope_def owned_def split: option.split)
  with True assms show ?thesis unfolding world_ok_def by metis
next
  case False
  then obtain sl where sl: "slot_at i w = Some sl" "sl_handles sl = 0" "\<not> holds_charge i w"
    by (auto simp: owned_def)
  define w' where "w' = w\<lparr>w_budget := (w_budget w)\<lparr>rb_sessions := size_sub (rb_sessions (w_budget w)) 1\<rparr>,
     w_scopes := (w_scopes w)[i := None]\<rparr>"
  have w': "collect_scope i w = w'" using sl by (simp add: collect_scope_def w'_def)
  have at: "slot_at j w' = (if j = i then None else slot_at j w)" "charge_at j w' = charge_at j w"
    "scope_bytes j w' = scope_bytes j w" "holds_charge j w' = holds_charge j w" for j
    using slot_at_SomeD [OF sl(1)] by (simp_all add: w'_def slot_at_def)
  have "budget_ok (w_budget w) (charged_bytes w) (Suc (live_scopes (w\<lparr>w_scopes := (w_scopes w)[i := None]\<rparr>)))"
    using assms(1) live_scopes_update(2) [OF sl(1)] by (simp add: counts_ok_def)
  from budget_ok_sessions(2) [OF this]
  have "budget_ok (w_budget w') (charged_bytes w') (live_scopes w')"
    by (simp add: w'_def live_scopes_def)
  moreover have "ch_scope c \<noteq> i" if "charge_at k w = Some c" for k c
    using that sl(3) by (auto simp: holds_charge_iff)
  ultimately show ?thesis
    using assms unfolding w' by (auto simp: world_ok_def counts_ok_def scope_counts_def owned_def at)
qed

lemma counts_ok_change:
  assumes w': "w' = (put_account i sl a w)\<lparr>w_charges := cs\<rparr>"
    and ok: "counts_ok w" and sl: "slot_at i w = Some sl"
    and b: "budget_ok (fst a) (charged_bytes w') (live_scopes w)"
    and s: "rs_used (snd a) = scope_bytes i w'" "scope_bytes i w' \<le> rs_peak (snd a)"
    and other: "\<And>j. j \<noteq> i \<Longrightarrow> scope_bytes j w' = scope_bytes j w"
    and live: "\<And>k c. charge_at k w' = Some c \<Longrightarrow> slot_at (ch_scope c) w \<noteq> None"
  shows "counts_ok w'"
proof -
  have at: "slot_at j w' = (if j = i then Some (sl\<lparr>sl_scope := snd a\<rparr>) else slot_at j w)" for j
    using slot_at_SomeD [OF sl] by (simp add: w')
  have "live_scopes w' = live_scopes w" "w_budget w' = fst a"
    by (simp_all add: w' live_scopes_update(3) [OF sl])
  with ok b s other live show ?thesis
    by (auto simp: counts_ok_def scope_counts_def at)
qed

lemma world_ok_account:
  assumes ok: "world_ok w" and sl: "slot_at i w = Some sl"
    and b: "budget_ok (fst a) (charged_bytes w) (live_scopes w)"
    and s: "rs_used (snd a) = scope_bytes i w" "scope_bytes i w \<le> rs_peak (snd a)"
  shows "world_ok (put_account i sl a w)"
  using assms slot_at_SomeD [OF sl]
  by (auto simp: world_ok_def counts_ok_def scope_counts_def owned_def live_scopes_update(3) [OF sl])

lemma scope_reserve_eq:
  assumes "world_ok w" and "slot_at i w = Some sl"
  shows "scope_reserve ok bytes (w_budget w, sl_scope sl)
    = (if charged_bytes w + bytes \<le> max_bytes (rb_limits (w_budget w))
       then let b' = (w_budget w)\<lparr>rb_used := charged_bytes w + bytes,
                     rb_peak := max (rb_peak (w_budget w)) (charged_bytes w + bytes)\<rparr>;
                s' = (sl_scope sl)\<lparr>rs_used := scope_bytes i w + bytes,
                     rs_peak := max (rs_peak (sl_scope sl)) (scope_bytes i w + bytes)\<rparr>
            in (if ok then (Charged bytes, (b', s'))
                else (Thrown Bad_alloc, (b'\<lparr>rb_used := charged_bytes w\<rparr>, s'\<lparr>rs_used := scope_bytes i w\<rparr>)))
       else (Refused, (w_budget w, sl_scope sl)))"
proof -
  have b: "budget_ok (w_budget w) (charged_bytes w) (live_scopes w)"
    and u: "rs_used (sl_scope sl) = scope_bytes i w"
    using assms by (auto simp: world_ok_def counts_ok_def scope_counts_def)
  show ?thesis
  proof (cases "charged_bytes w + bytes \<le> max_bytes (rb_limits (w_budget w))")
    case True
    then have "scope_bytes i w + bytes \<le> SIZE_MAX"
      using b scope_le_total [of i w] by (auto simp: budget_ok_def limits_ok_def)
    with True u show ?thesis
      by (auto simp: budget_acquire_eq [OF b] Let_def max_def not_less)
  next
    case False
    then show ?thesis by (simp add: budget_acquire_eq [OF b])
  qed
qed

lemma reserve_at_ok:
  assumes ok: "world_ok w" and sl: "slot_at i w = Some sl" and "sl_handles sl \<noteq> 0"
  shows "world_ok (reserve_at i alloc bytes sl w)"
proof -
  have b: "budget_ok (w_budget w) (charged_bytes w) (live_scopes w)"
    and u: "rs_used (sl_scope sl) = scope_bytes i w" "scope_bytes i w \<le> rs_peak (sl_scope sl)"
    and c: "counts_ok w" and o: "\<And>i. owned i w"
    using assms by (auto simp: world_ok_def counts_ok_def scope_counts_def)
  note res = scope_reserve_eq [OF ok sl, of alloc bytes]
  show ?thesis
  proof (cases "charged_bytes w + bytes \<le> max_bytes (rb_limits (w_budget w))")
    case False
    then show ?thesis
      unfolding reserve_at_def res using world_ok_account [OF ok sl, of "(w_budget w, sl_scope sl)"] b u by simp
  next
    case fits: True
    note raised = budget_ok_raise [OF b fits]
    show ?thesis
    proof (cases alloc)
      case False
      with fits show ?thesis
        unfolding reserve_at_def res Let_def using raised b u
        by (auto intro!: world_ok_account [OF ok sl] simp: budget_ok_def)
    next
      case True
      define w' where "w' = reserve_at i alloc bytes sl w"
      define a where "a = ((w_budget w)\<lparr>rb_used := charged_bytes w + bytes,
          rb_peak := max (rb_peak (w_budget w)) (charged_bytes w + bytes)\<rparr>,
        (sl_scope sl)\<lparr>rs_used := scope_bytes i w + bytes,
          rs_peak := max (rs_peak (sl_scope sl)) (scope_bytes i w + bytes)\<rparr>)"
      have w': "w' = (put_account i sl a w)
          \<lparr>w_charges := w_charges w @ [Some \<lparr>ch_scope = i, ch_bytes = bytes\<rparr>]\<rparr>"
        using True fits unfolding w'_def reserve_at_def res by (simp add: Let_def a_def)
      have "counts_ok w'"
        by (rule counts_ok_change [OF w' c sl])
          (use raised sl c in \<open>auto simp: w' a_def charges_append counts_ok_def split: if_splits\<close>)
      moreover have "owned j w'" for j
        using o [of j] assms(3) slot_at_SomeD [OF sl] by (auto simp: owned_def w' charges_append split: if_splits)
      ultimately show ?thesis by (simp add: world_ok_def w'_def)
    qed
  qed
qed

lemma holds_charge_update:
  assumes "charge_at k w = Some c" and "holds_charge j w" and "ch_scope c = j \<Longrightarrow> \<exists>d. x = Some d \<and> ch_scope d = j"
  shows "holds_charge j (w\<lparr>w_charges := (w_charges w)[k := x]\<rparr>)"
proof -
  note k = charge_at_SomeD [OF assms(1)]
  from assms(2) obtain l d where d: "charge_at l w = Some d" "ch_scope d = j" by (auto simp: holds_charge_iff)
  show ?thesis
  proof (cases "l = k")
    case True
    with d assms k show ?thesis unfolding holds_charge_iff by (intro exI [of _ k]) auto
  next
    case False
    with d k show ?thesis unfolding holds_charge_iff by (intro exI [of _ l]) auto
  qed
qed

lemma release_counts_ok:
  assumes ok: "counts_ok w" and c: "charge_at k w = Some c" and sl: "slot_at (ch_scope c) w = Some sl"
    and x: "charge_of x + n = ch_bytes c" "\<And>d. x = Some d \<Longrightarrow> ch_scope d = ch_scope c"
    and w': "w' = (put_account (ch_scope c) sl (scope_release n (w_budget w, sl_scope sl)) w)
       \<lparr>w_charges := (w_charges w)[k := x]\<rparr>"
  shows "counts_ok w'"
proof (rule counts_ok_change [OF w' ok sl])
  note k = charge_at_SomeD [OF c]
  have b: "budget_ok (w_budget w) (charged_bytes w) (live_scopes w)"
    and u: "rs_used (sl_scope sl) = scope_bytes (ch_scope c) w" "scope_bytes (ch_scope c) w \<le> rs_peak (sl_scope sl)"
    and l: "\<And>k c. charge_at k w = Some c \<Longrightarrow> slot_at (ch_scope c) w \<noteq> None"
    using ok sl by (auto simp: counts_ok_def scope_counts_def)
  have x': "charged_to j x = (if ch_scope c = j then charge_of x else 0)" for j
    by (cases x) (auto simp: charged_to_def charge_of_def dest: x(2))
  have sums: "charged_bytes w = charged_bytes w' + n" "scope_bytes (ch_scope c) w = scope_bytes (ch_scope c) w' + n"
    using charges_update(1) [OF c, of x] charges_update(2) [OF c, of "ch_scope c" x] x(1) by (simp_all add: w' x')
  have other: "scope_bytes j w' = scope_bytes j w" if "j \<noteq> ch_scope c" for j
    using charges_update(2) [OF c, of j x] that by (simp add: w' x')
  show "budget_ok (fst (scope_release n (w_budget w, sl_scope sl))) (charged_bytes w') (live_scopes w)"
    using budget_ok_lower [OF b sums(1)] by simp
  show "rs_used (snd (scope_release n (w_budget w, sl_scope sl))) = scope_bytes (ch_scope c) w'"
    using u(1) sums(2) by simp
  show "scope_bytes (ch_scope c) w' \<le> rs_peak (snd (scope_release n (w_budget w, sl_scope sl)))"
    using u sums(2) by simp
  show "scope_bytes j w' = scope_bytes j w" if "j \<noteq> ch_scope c" for j using other [OF that] .
  show "slot_at (ch_scope d) w \<noteq> None" if "charge_at j w' = Some d" for j d
  proof (cases "j = k")
    case True
    with that k have "x = Some d" by (simp add: w')
    with x(2) [of d] sl show ?thesis by simp
  next
    case False
    with that k l [of j d] show ?thesis by (simp add: w')
  qed
qed

lemma drop_charge_ok:
  assumes ok: "world_ok w" and c: "charge_at k w = Some c" and sl: "slot_at (ch_scope c) w = Some sl"
  shows "world_ok (drop_charge k c sl w)"
proof -
  define w' where "w' = (put_account (ch_scope c) sl (scope_release (ch_bytes c) (w_budget w, sl_scope sl)) w)
       \<lparr>w_charges := (w_charges w)[k := None]\<rparr>"
  have "counts_ok w'"
    by (rule release_counts_ok [OF _ c sl _ _ w'_def]) (use ok in \<open>simp_all add: world_ok_def charge_of_def\<close>)
  moreover have "owned j w'" if "j \<noteq> ch_scope c" for j
    using ok that slot_at_SomeD [OF sl] holds_charge_update [OF c, of j None]
    by (auto simp: world_ok_def owned_def w'_def)
  ultimately show ?thesis
    using collect_scope_ok [of w' "ch_scope c"] by (simp add: drop_charge_def w'_def)
qed

lemma shrink_charge_ok:
  assumes ok: "world_ok w" and c: "charge_at k w = Some c" and sl: "slot_at (ch_scope c) w = Some sl"
    and n: "n \<le> ch_bytes c"
  shows "world_ok ((put_account (ch_scope c) sl (scope_release (ch_bytes c - n) (w_budget w, sl_scope sl)) w)
       \<lparr>w_charges := (w_charges w)[k := Some (c\<lparr>ch_bytes := n\<rparr>)]\<rparr>)" (is "world_ok ?w")
proof -
  have "counts_ok ?w"
    by (rule release_counts_ok [OF _ c sl _ _ refl]) (use ok n in \<open>simp_all add: world_ok_def charge_of_def\<close>)
  moreover have "owned j ?w" for j
    using ok slot_at_SomeD [OF sl] holds_charge_update [OF c, of j "Some (c\<lparr>ch_bytes := n\<rparr>)"] sl
    by (auto simp: world_ok_def owned_def)
  ultimately show ?thesis by (simp add: world_ok_def)
qed

lemma merge_charge_ok:
  assumes ok: "world_ok w" and c: "charge_at k w = Some c" and d: "charge_at j w = Some d"
    and m: "charge_merge c d = Inr (c', d')" and "k \<noteq> j"
  shows "world_ok (w\<lparr>w_charges := (w_charges w)[k := Some c', j := Some d']\<rparr>)"
proof -
  define w1 where "w1 = w\<lparr>w_charges := (w_charges w)[k := Some c']\<rparr>"
  note k = charge_at_SomeD [OF c] charge_at_SomeD [OF d]
  have same: "ch_scope c = ch_scope d" using m by (auto simp: charge_merge_def split: if_splits)
  have d1: "charge_at j w1 = Some d" using d k \<open>k \<noteq> j\<close> by (simp add: w1_def)
  have w2: "w\<lparr>w_charges := (w_charges w)[k := Some c', j := Some d']\<rparr> = w1\<lparr>w_charges := (w_charges w1)[j := Some d']\<rparr>"
    by (simp add: w1_def)
  have "charged_bytes (w\<lparr>w_charges := (w_charges w)[k := None]\<rparr>) + ch_bytes c = charged_bytes w"
    using charges_update(1) [OF c, of None] by (simp add: charge_of_def)
  moreover have "ch_bytes d \<le> charged_bytes (w\<lparr>w_charges := (w_charges w)[k := None]\<rparr>)"
    using k d \<open>k \<noteq> j\<close> by (intro charge_le_total [of j]) simp
  ultimately have "ch_bytes c + ch_bytes d \<le> SIZE_MAX"
    using ok by (auto simp: world_ok_def counts_ok_def budget_ok_def limits_ok_def)
  then have cd: "c' = c\<lparr>ch_bytes := ch_bytes c + ch_bytes d\<rparr>" "d' = d\<lparr>ch_bytes := 0\<rparr>"
    using m by (auto simp: charge_merge_def split: if_splits)
  have "charged_bytes (w1\<lparr>w_charges := (w_charges w1)[j := Some d']\<rparr>) = charged_bytes w"
    using charges_update(1) [OF c, of "Some c'", folded w1_def] charges_update(1) [OF d1, of "Some d'"]
    by (simp add: cd charge_of_def)
  moreover have "scope_bytes i (w1\<lparr>w_charges := (w_charges w1)[j := Some d']\<rparr>) = scope_bytes i w" for i
    using charges_update(2) [OF c, of i "Some c'", folded w1_def] charges_update(2) [OF d1, of i "Some d'"]
    by (simp add: cd charged_to_def same split: if_splits)
  moreover have "holds_charge i (w1\<lparr>w_charges := (w_charges w1)[j := Some d']\<rparr>)" if "holds_charge i w" for i
    using that by (intro holds_charge_update [OF d1] holds_charge_update [OF c, of i "Some c'", folded w1_def])
      (simp_all add: cd)
  moreover have "charge_at l (w1\<lparr>w_charges := (w_charges w1)[j := Some d']\<rparr>)
      = (if l = j then Some d' else if l = k then Some c' else charge_at l w)"
    and "slot_at l (w1\<lparr>w_charges := (w_charges w1)[j := Some d']\<rparr>) = slot_at l w"
    and "live_scopes (w1\<lparr>w_charges := (w_charges w1)[j := Some d']\<rparr>) = live_scopes w"
    and "w_budget (w1\<lparr>w_charges := (w_charges w1)[j := Some d']\<rparr>) = w_budget w" for l
    using k by (simp_all add: w1_def charge_at_def)
  ultimately show ?thesis
    using ok c d same unfolding w2
    by (auto simp: world_ok_def counts_ok_def owned_def scope_counts_def cd)
qed

lemma open_scope_ok:
  assumes "world_ok w"
  shows "world_ok (open_scope alloc w)"
proof -
  have b: "budget_ok (w_budget w) (charged_bytes w) (live_scopes w)"
    using assms by (simp add: world_ok_def counts_ok_def)
  then have n: "rb_sessions (w_budget w) = live_scopes w" by (simp add: budget_ok_def)
  have free: "slot_at (length (w_scopes w)) w = None" by (simp add: slot_at_def)
  have "\<not> holds_charge (length (w_scopes w)) w"
    using assms free unfolding holds_charge_iff world_ok_def counts_ok_def by metis
  then have fresh: "scope_bytes (length (w_scopes w)) w = 0" by (rule scope_bytes_none)
  show ?thesis
  proof (cases "live_scopes w < max_sessions (rb_limits (w_budget w))")
    case False
    then show ?thesis
      using assms budget_ok_overflow [OF b, of SessionLimit 0]
      by (simp add: open_scope_def n Let_def world_ok_def counts_ok_def scope_counts_def owned_def)
  next
    case True
    note more = budget_ok_sessions(1) [OF b True]
    show ?thesis
    proof (cases alloc)
      case False
      then show ?thesis
        using assms budget_ok_sessions(2) [OF more] True
        by (simp add: open_scope_def n Let_def world_ok_def counts_ok_def scope_counts_def owned_def)
    next
      case True
      define w' where "w' = w\<lparr>w_budget := (w_budget w)\<lparr>rb_sessions := size_add (live_scopes w) 1\<rparr>,
        w_scopes := w_scopes w @ [Some \<lparr>sl_handles = 1, sl_scope = new_scope\<rparr>]\<rparr>"
      have w': "open_scope alloc w = w'"
        using True \<open>live_scopes w < _\<close> by (simp add: open_scope_def n Let_def w'_def)
      have at: "slot_at j w' = (if j = length (w_scopes w) then Some \<lparr>sl_handles = 1, sl_scope = new_scope\<rparr>
          else slot_at j w)" "charge_at j w' = charge_at j w" "scope_bytes j w' = scope_bytes j w"
        "holds_charge j w' = holds_charge j w" "charged_bytes w' = charged_bytes w"
        "live_scopes w' = Suc (live_scopes w)" for j
        by (simp_all add: w'_def) (simp add: live_scopes_def)
      have "budget_ok (w_budget w') (charged_bytes w') (live_scopes w')"
        using more unfolding at by (simp add: w'_def n)
      then show ?thesis
        using assms fresh free unfolding w'
        by (auto simp: world_ok_def counts_ok_def scope_counts_def owned_def at new_scope_def)
    qed
  qed
qed

lemma handles_ok:
  assumes ok: "world_ok w" and sl: "slot_at i w = Some sl"
  shows "counts_ok (w\<lparr>w_scopes := (w_scopes w)[i := Some (sl\<lparr>sl_handles := n\<rparr>)]\<rparr>)"
    and "j \<noteq> i \<or> n \<noteq> 0 \<Longrightarrow> owned j (w\<lparr>w_scopes := (w_scopes w)[i := Some (sl\<lparr>sl_handles := n\<rparr>)]\<rparr>)"
  using assms slot_at_SomeD [OF sl]
  by (auto simp: world_ok_def counts_ok_def scope_counts_def owned_def live_scopes_update(1) [OF sl])

lemma recv_step_ok:
  assumes ok: "world_ok w" and step: "recv_step a w = Some w'"
  shows "world_ok w'"
proof (cases a)
  case (Share_scope i)
  with step obtain sl where sl: "slot_at i w = Some sl" "sl_handles sl \<noteq> 0"
    and w': "w' = w\<lparr>w_scopes := (w_scopes w)[i := Some (sl\<lparr>sl_handles := sl_handles sl + 1\<rparr>)]\<rparr>"
    by (auto split: option.splits if_splits)
  show ?thesis unfolding w' world_ok_def using handles_ok [OF ok sl(1)] by simp
next
  case (Drop_scope i)
  with step obtain sl where sl: "slot_at i w = Some sl" and w': "w' = drop_handle i sl w"
    by (auto split: option.splits if_splits)
  show ?thesis unfolding w' drop_handle_def
    by (rule collect_scope_ok) (simp_all add: handles_ok [OF ok sl])
next
  case (Overflow_in i bytes reason)
  with step obtain sl where sl: "slot_at i w = Some sl"
    and w': "w' = put_account i sl (scope_overflow bytes reason (w_budget w, sl_scope sl)) w"
    by (auto split: option.splits if_splits)
  show ?thesis unfolding w'
    by (rule world_ok_account [OF ok sl])
      (use ok sl in \<open>auto simp: world_ok_def counts_ok_def scope_counts_def intro: budget_ok_overflow\<close>)
next
  case Reset_stats
  with ok step show ?thesis
    by (auto simp: world_ok_def counts_ok_def scope_counts_def owned_def intro: budget_ok_reset)
qed (use ok step in \<open>auto split: option.splits if_splits sum.splits prod.splits
    simp: charge_shrink_def open_scope_ok not_less
    intro: reserve_at_ok drop_charge_ok shrink_charge_ok [simplified] merge_charge_ok\<close>)

lemma collect_scope_limits [simp]: "rb_limits (w_budget (collect_scope i w)) = rb_limits (w_budget w)"
  by (auto simp: collect_scope_def split: option.split)

lemma budget_acquire_limits: "budget_acquire n b = Some b' \<Longrightarrow> rb_limits b' = rb_limits b"
  by (auto simp: budget_acquire_def Let_def split: if_splits)

lemma recv_step_limits:
  "recv_step a w = Some w' \<Longrightarrow> rb_limits (w_budget w') = rb_limits (w_budget w)"
  by (cases a)
    (auto simp: open_scope_def drop_handle_def drop_charge_def reserve_at_def charge_shrink_def budget_overflow_def
      budget_reset_stats_def Let_def dest!: budget_acquire_limits
      split: option.splits if_splits sum.splits prod.splits reservation.splits)

interpretation recv: machine_invariant recv_step "\<lambda>w. world_ok w \<and> rb_limits (w_budget w) = l" for l
  by unfold_locales (auto intro: recv_step_ok dest: recv_step_limits)

lemma new_world_ok:
  assumes "new_budget l = Inr b" and "max_bytes l \<le> SIZE_MAX" and "max_sessions l \<le> SIZE_MAX"
  shows "world_ok (new_world b)" and "rb_limits b = l"
proof -
  have v: "limits_validate l = Inr ()" using assms(1) by (auto simp: new_budget_def split: sum.splits)
  with assms show "world_ok (new_world b)" "rb_limits b = l"
    by (auto simp: new_budget_def new_world_def world_ok_def counts_ok_def budget_ok_def limits_ok_def
        scope_counts_def owned_def slot_at_def charge_at_def charged_bytes_def live_scopes_def)
qed

text \<open>
  C23: However the sessions of a channel open scopes, reserve, merge, shrink and drop charges, the reserved
  bytes the budget reports are exactly the bytes of the charges that exist; they and their peak never exceed
  \<open>max_bytes\<close>, so no counter wraps; the reported sessions are exactly the scopes that exist and never more
  than \<open>max_sessions\<close>; each scope's own counter is the sum of its charges; and a scope outlives every
  charge taken from it.
\<close>
theorem receive_budget_exact:
  assumes "new_budget l = Inr b" and "max_bytes l \<le> SIZE_MAX" and "max_sessions l \<le> SIZE_MAX"
    and "reaches recv_step (new_world b) w"
  shows "ms_reserved_bytes (budget_stats (w_budget w)) = charged_bytes w
    \<and> charged_bytes w \<le> ms_peak_reserved_bytes (budget_stats (w_budget w))
    \<and> ms_peak_reserved_bytes (budget_stats (w_budget w)) \<le> max_bytes l
    \<and> ms_sessions (budget_stats (w_budget w)) = live_scopes w \<and> live_scopes w \<le> max_sessions l
    \<and> (\<forall>i sl. slot_at i w = Some sl \<longrightarrow>
          ms_reserved_bytes (scope_stats (w_budget w, sl_scope sl)) = scope_bytes i w
          \<and> (sl_handles sl > 0 \<or> holds_charge i w))
    \<and> (\<forall>k c. charge_at k w = Some c \<longrightarrow> slot_at (ch_scope c) w \<noteq> None)"
proof -
  have "world_ok w" "rb_limits (w_budget w) = l"
    using recv.reaches_inv [OF assms(4), of l] new_world_ok [OF assms(1-3)] by (simp_all add: new_world_def)
  then show ?thesis
    by (auto simp: world_ok_def counts_ok_def budget_ok_def scope_counts_def owned_def budget_stats_def)
qed


definition demo_limits :: recv_limits where
  "demo_limits = \<lparr>max_bytes = 100, max_frame_bytes = 50, max_sessions = 2\<rparr>"

definition demo_budget :: recv_budget where
  "demo_budget = \<lparr>rb_limits = demo_limits, rb_used = 0, rb_peak = 0, rb_sessions = 0, rb_overflows = 0,
     rb_overflow_bytes = 0, rb_reasons = [0, 0, 0, 0]\<rparr>"

text \<open>
  Two sessions share 100 bytes; the third is refused, a reservation that does not fit is refused, and the first
  session's scope lives on through its charge after its handle is gone.
\<close>

definition demo_actions :: "recv_action list" where
  "demo_actions =
     [Open_scope True, Open_scope True, Open_scope True, Reserve 0 True 60, Reserve 1 True 60, Reserve 1 True 40,
      Drop_scope 0, Shrink_charge 1 10]"

theorem receive_budget_exact_witness:
  "\<exists>w. run_steps recv_step demo_actions (new_world demo_budget) = Some w
     \<and> ms_reserved_bytes (budget_stats (w_budget w)) = charged_bytes w \<and> charged_bytes w = 70
     \<and> ms_sessions (budget_stats (w_budget w)) = 2"
proof -
  obtain w where w: "run_steps recv_step demo_actions (new_world demo_budget) = Some w" "charged_bytes w = 70"
    "live_scopes w = 2"
    by (simp add: demo_actions_def new_world_def demo_budget_def demo_limits_def open_scope_def reserve_at_def slot_at_def
        charge_at_def budget_acquire_def put_account_def drop_handle_def collect_scope_def holds_charge_def
        charge_shrink_def budget_overflow_def new_scope_def size_add_def SIZE_MAX_def charged_bytes_def live_scopes_def
        charge_of_def Let_def)
  have "new_budget demo_limits = Inr demo_budget"
    by (simp add: new_budget_def limits_validate_def demo_limits_def demo_budget_def)
  from receive_budget_exact [OF this _ _ reaches_run [OF w(1)]] w show ?thesis
    by (auto simp: demo_limits_def SIZE_MAX_def)
qed

end
