(* ===== verification/Bounded_Receive.thy ===== *)
theory Bounded_Receive
  imports Receive_Budget Line_Framer Length_Prefix_Framer Packet_Framer
begin

text \<open>
  The bounded receive path (\<open>src/wirestead/wrapper/bounded_receive.hpp\<close>): every byte the library retains for a
  session is reserved in the session's scope before it is allocated, and a whole input is staged on a clone
  of the framer before anything is exposed.

  Ownership of a charge is unique on this path (a \<open>shared_ptr\<close> that is only moved, or copied and then
  dropped), so a charge is the number of bytes it holds and its destructor is a release. Memory is the
  account of the scope with its budget, and the number of places at which the code may allocate that are
  still passed before the allocator throws \<open>std::bad_alloc\<close> (\<open>None\<close>: it never does). \<open>records\<close> is the record
  allowance of \<open>retain_received\<close>, a multiple of \<open>sizeof\<close> values the platform fixes. A vector that reserves \<open>n\<close>
  bytes has capacity \<open>n\<close>, and the clone of a vector has its size as capacity.
\<close>

section \<open>Memory\<close>

record recv_mem =
  m_account :: account
  m_allocs :: "nat option"

datatype recv_error = Receive_overflow overflow_reason | Other_exn exn

definition take_alloc :: "recv_mem \<Rightarrow> bool \<times> recv_mem" where
  "take_alloc m =
     (case m_allocs m of
        None \<Rightarrow> (True, m)
      | Some 0 \<Rightarrow> (False, m)
      | Some (Suc n) \<Rightarrow> (True, m\<lparr>m_allocs := Some n\<rparr>))"

definition mem_limits :: "recv_mem \<Rightarrow> recv_limits" where
  "mem_limits m = rb_limits (fst (m_account m))"

definition mem_reserve :: "nat \<Rightarrow> recv_mem \<Rightarrow> reservation \<times> recv_mem" where
  "mem_reserve bytes m =
     (let (ok, m1) = take_alloc m in
      case scope_reserve ok bytes (m_account m) of
        (Refused, a) \<Rightarrow> (Refused, m)
      | (r, a) \<Rightarrow> (r, m1\<lparr>m_account := a\<rparr>))"

definition mem_release :: "nat \<Rightarrow> recv_mem \<Rightarrow> recv_mem" where
  "mem_release bytes m = m\<lparr>m_account := scope_release bytes (m_account m)\<rparr>"

definition reserve_receive :: "nat \<Rightarrow> recv_mem \<Rightarrow> (recv_error + nat) \<times> recv_mem" where
  "reserve_receive bytes m =
     (case mem_reserve bytes m of
        (Refused, m') \<Rightarrow> (Inl (Receive_overflow ByteLimit), m')
      | (Thrown e, m') \<Rightarrow> (Inl (Other_exn e), m')
      | (Charged n, m') \<Rightarrow> (Inr n, m'))"

section \<open>Messages\<close>

record recv_message =
  rm_charge :: nat
  rm_id :: nat
  rm_data :: bytes

text \<open>\<open>SafeDataBuffer(span)\<close>: at most 100 MiB (\<open>validate_construction\<close>), then a copy.\<close>

definition BUFFER_LIMIT :: nat where
  "BUFFER_LIMIT = 1024 * 1024 * 100"

definition safe_data_buffer :: "bytes \<Rightarrow> recv_mem \<Rightarrow> (recv_error + bytes) \<times> recv_mem" where
  "safe_data_buffer data m =
     (if length data > BUFFER_LIMIT then (Inl (Other_exn Invalid_argument), m)
      else case take_alloc m of
             (False, m1) \<Rightarrow> (Inl (Other_exn Bad_alloc), m1)
           | (True, m1) \<Rightarrow> (Inr data, m1))"

definition retain_received :: "nat \<Rightarrow> nat \<Rightarrow> bytes \<Rightarrow> recv_mem \<Rightarrow> (recv_error + recv_message) \<times> recv_mem" where
  "retain_received records cid data m =
     (if length data > SIZE_MAX - records then (Inl (Receive_overflow ByteLimit), m)
      else case reserve_receive (length data + records) m of
             (Inl e, m1) \<Rightarrow> (Inl e, m1)
           | (Inr charge, m1) \<Rightarrow>
               (case safe_data_buffer data m1 of
                  (Inl e, m2) \<Rightarrow> (Inl e, mem_release charge m2)
                | (Inr payload, m2) \<Rightarrow> (Inr \<lparr>rm_charge = charge, rm_id = cid, rm_data = payload\<rparr>, m2)))"

text \<open>The messages one \<open>push_bytes\<close> hands to the staging callback, until one of them cannot be retained.\<close>

fun stage_messages ::
    "nat \<Rightarrow> nat \<Rightarrow> bytes list \<Rightarrow> recv_message list \<Rightarrow> recv_mem \<Rightarrow> recv_error option \<times> recv_message list \<times> recv_mem"
where
  "stage_messages records cid [] staged m = (None, staged, m)"
| "stage_messages records cid (data # rest) staged m =
     (case retain_received records cid data m of
        (Inl e, m1) \<Rightarrow> (Some e, staged, m1)
      | (Inr msg, m1) \<Rightarrow>
          (case take_alloc m1 of
             (False, m2) \<Rightarrow> (Some (Other_exn Bad_alloc), staged, mem_release (rm_charge msg) m2)
           | (True, m2) \<Rightarrow> stage_messages records cid rest (staged @ [msg]) m2))"

definition release_messages :: "recv_message list \<Rightarrow> recv_mem \<Rightarrow> recv_mem" where
  "release_messages msgs m = fold (\<lambda>msg. mem_release (rm_charge msg)) msgs m"

section \<open>Framers\<close>

text \<open>
  \<open>ReceiveFramerAccess\<close> tells the three built-in framers by their exact type; \<open>sg\<close> says whether \<open>char\<close> is
  signed on the target. Other framers are opaque.
\<close>

datatype builtin = LineF line_framer | LengthF lp_framer | PacketF packet_framer

record held_framer =
  hf_framer :: builtin
  hf_capacity :: nat

datatype 'u recv_framer = No_framer | Custom_framer 'u | Builtin_framer held_framer

fun builtin_push :: "bool \<Rightarrow> builtin \<Rightarrow> bytes \<Rightarrow> builtin push_result" where
  "builtin_push sg (LineF f) d = map_option (\<lambda>(f, r). (LineF f, r)) (ln_push_bytes sg f d)"
| "builtin_push sg (LengthF f) d = map_option (\<lambda>(f, r). (LengthF f, r)) (lp_push_bytes f d)"
| "builtin_push sg (PacketF f) d = map_option (\<lambda>(f, r). (PacketF f, r)) (pk_push_bytes f d)"

fun builtin_buffer :: "builtin \<Rightarrow> bytes" where
  "builtin_buffer (LineF f) = ln_buffer f"
| "builtin_buffer (LengthF f) = lp_buffer f"
| "builtin_buffer (PacketF f) = pk_buffer f"

fun builtin_on_message :: "msg_callback option \<Rightarrow> builtin \<Rightarrow> builtin" where
  "builtin_on_message cb (LineF f) = LineF (ln_set_on_message f cb)"
| "builtin_on_message cb (LengthF f) = LengthF (lp_set_on_message f cb)"
| "builtin_on_message cb (PacketF f) = PacketF (pk_set_on_message f cb)"

fun builtin_callback :: "builtin \<Rightarrow> msg_callback option" where
  "builtin_callback (LineF f) = ln_on_message f"
| "builtin_callback (LengthF f) = lp_on_message f"
| "builtin_callback (PacketF f) = pk_on_message f"

fun builtin_reset :: "builtin \<Rightarrow> builtin" where
  "builtin_reset (LineF f) = LineF (ln_reset f)"
| "builtin_reset (LengthF f) = LengthF (lp_reset f)"
| "builtin_reset (PacketF f) = PacketF (pk_reset f)"

definition hf_size :: "held_framer \<Rightarrow> nat" where
  "hf_size f = length (builtin_buffer (hf_framer f))"

definition hf_clone :: "held_framer \<Rightarrow> held_framer" where
  "hf_clone f = f\<lparr>hf_capacity := hf_size f\<rparr>"

definition hf_reserve_exact :: "held_framer \<Rightarrow> nat \<Rightarrow> held_framer" where
  "hf_reserve_exact f n = (if n \<le> hf_capacity f then f else f\<lparr>hf_capacity := n\<rparr>)"

text \<open>\<open>commit\<close> swaps the buffers and the scanning state; configuration and callback stay with their framer.\<close>

fun builtin_commit :: "builtin \<Rightarrow> builtin \<Rightarrow> builtin" where
  "builtin_commit (LineF p) (LineF q) =
     LineF (p\<lparr>ln_buffer := ln_buffer q, ln_scanned_idx := ln_scanned_idx q, ln_discarding := ln_discarding q\<rparr>)"
| "builtin_commit (LengthF p) (LengthF q) = LengthF (p\<lparr>lp_buffer := lp_buffer q\<rparr>)"
| "builtin_commit (PacketF p) (PacketF q) =
     PacketF (p\<lparr>pk_buffer := pk_buffer q, pk_scanned_idx := pk_scanned_idx q, pk_state := pk_state q\<rparr>)"
| "builtin_commit p q = p"

definition hf_commit :: "held_framer \<Rightarrow> held_framer \<Rightarrow> held_framer" where
  "hf_commit p q = \<lparr>hf_framer = builtin_commit (hf_framer p) (hf_framer q), hf_capacity = hf_capacity q\<rparr>"

definition hf_release_storage :: "held_framer \<Rightarrow> held_framer" where
  "hf_release_storage f = \<lparr>hf_framer = builtin_reset (hf_framer f), hf_capacity = 0\<rparr>"

section \<open>Staging an input\<close>

record recv_state =
  frame_storage :: "nat option"

record prepared =
  pr_raw :: "recv_message option"
  pr_messages :: "recv_message list option"

text \<open>
  Room for \<open>needed\<close> bytes in the clone: grow geometrically, or exactly when the budget does not cover the
  headroom. The old charge is released when the new storage has replaced the old.
\<close>

definition grow_work :: "nat \<Rightarrow> nat \<Rightarrow> held_framer \<Rightarrow> nat \<Rightarrow> recv_mem \<Rightarrow> (recv_error + held_framer \<times> nat) \<times> recv_mem" where
  "grow_work limit needed work work_charge m =
     (let current = hf_capacity work in
      if needed > current then
        let target = min limit (max needed (if current > limit div 2 then limit else current * 2));
            swap = (\<lambda>target next m.
              case take_alloc m of
                (False, m') \<Rightarrow> (Inl (Other_exn Bad_alloc), mem_release next m')
              | (True, m') \<Rightarrow> (Inr (hf_reserve_exact work target, next), mem_release work_charge m'))
        in (case (if target > needed then mem_reserve target m else (Refused, m)) of
              (Thrown e, m1) \<Rightarrow> (Inl (Other_exn e), m1)
            | (Charged next, m1) \<Rightarrow> swap target next m1
            | (Refused, m1) \<Rightarrow>
                (case reserve_receive needed m1 of
                   (Inl e, m2) \<Rightarrow> (Inl e, m2)
                 | (Inr next, m2) \<Rightarrow> swap needed next m2))
      else (Inr (work, work_charge), m))"

text \<open>The state of the loop, and one pass of it with the exception it ends with, if any.\<close>

record staging =
  sg_work :: held_framer
  sg_charge :: nat
  sg_staged :: "recv_message list"
  sg_mem :: recv_mem

definition stage_chunk ::
    "bool \<Rightarrow> nat \<Rightarrow> nat \<Rightarrow> nat \<Rightarrow> bytes \<Rightarrow> staging \<Rightarrow> (recv_error option \<times> staging) option" where
  "stage_chunk sg records limit cid chunk s =
     (case grow_work limit (hf_size (sg_work s) + length chunk) (sg_work s) (sg_charge s) (sg_mem s) of
        (Inl e, m1) \<Rightarrow> Some (Some e, s\<lparr>sg_mem := m1\<rparr>)
      | (Inr (work, charge), m1) \<Rightarrow>
          (case builtin_push sg (hf_framer work) chunk of
             None \<Rightarrow> None
           | Some (f, ms, thrown) \<Rightarrow>
               (case stage_messages records cid ms (sg_staged s) m1 of
                  (e, staged, m2) \<Rightarrow>
                    Some (if e = None then map_option Other_exn thrown else e,
                          \<lparr>sg_work = work\<lparr>hf_framer := f\<rparr>, sg_charge = charge, sg_staged = staged,
                           sg_mem = m2\<rparr>))))"

function prepare_loop ::
    "bool \<Rightarrow> nat \<Rightarrow> nat \<Rightarrow> nat \<Rightarrow> bytes \<Rightarrow> staging \<Rightarrow> (recv_error option \<times> staging) option" where
  "prepare_loop sg records limit cid input s =
     (if input = [] then Some (None, s)
      else
        let used = hf_size (sg_work s) in
        if used \<ge> limit then Some (Some (Receive_overflow FrameLimit), s)
        else
          let n = min (length input) (min (limit - used) 4096) in
          case stage_chunk sg records limit cid (take n input) s of
            None \<Rightarrow> None
          | Some (Some e, s') \<Rightarrow> Some (Some e, s')
          | Some (None, s') \<Rightarrow> prepare_loop sg records limit cid (drop n input) s')"
  by pat_completeness auto
termination
  by (relation "measure (\<lambda>(sg, records, limit, cid, input, s). length input)") auto

declare prepare_loop.simps [simp del]

lemma prepare_loop_Nil [simp]: "prepare_loop sg records limit cid [] s = Some (None, s)"
  by (simp add: prepare_loop.simps)

text \<open>
  A \<open>ReceiveOverflow\<close> or another exception unwinds everything the call retained itself; the charge for the
  framer's existing storage, once taken, stays with the state.
\<close>

definition drop_raw :: "recv_message option \<Rightarrow> recv_mem \<Rightarrow> recv_mem" where
  "drop_raw raw m = (case raw of None \<Rightarrow> m | Some msg \<Rightarrow> mem_release (rm_charge msg) m)"

definition claim_storage :: "nat \<Rightarrow> recv_state \<Rightarrow> recv_mem \<Rightarrow> (recv_error + recv_state) \<times> recv_mem" where
  "claim_storage capacity st m =
     (if frame_storage st = None \<and> capacity > 0
      then (case reserve_receive capacity m of
              (Inl e, m1) \<Rightarrow> (Inl e, m1)
            | (Inr charge, m1) \<Rightarrow> (Inr (st\<lparr>frame_storage := Some charge\<rparr>), m1))
      else (Inr st, m))"

definition drop_storage :: "recv_state \<Rightarrow> recv_mem \<Rightarrow> recv_mem" where
  "drop_storage st m = (case frame_storage st of None \<Rightarrow> m | Some n \<Rightarrow> mem_release n m)"

type_synonym prepare_result = "((recv_error + recv_message list) \<times> held_framer \<times> recv_state \<times> recv_mem) option"

text \<open>From the clone to the commit.\<close>

definition stage_input ::
    "bool \<Rightarrow> nat \<Rightarrow> nat \<Rightarrow> recv_state \<Rightarrow> held_framer \<Rightarrow> nat \<Rightarrow> bytes \<Rightarrow> nat \<Rightarrow> recv_mem \<Rightarrow> prepare_result" where
  "stage_input sg records limit st f cid input work_charge m =
     (case take_alloc m of
        (False, m1) \<Rightarrow> Some (Inl (Other_exn Bad_alloc), f, st, mem_release work_charge m1)
      | (True, m1) \<Rightarrow>
          let work = hf_clone f; quiet = builtin_on_message (Some quiet_callback) (hf_framer work) in
          (case prepare_loop sg records limit cid input
                  \<lparr>sg_work = work\<lparr>hf_framer := quiet\<rparr>, sg_charge = work_charge, sg_staged = [], sg_mem = m1\<rparr> of
             None \<Rightarrow> None
           | Some (Some e, s) \<Rightarrow>
               Some (Inl e, f, st, mem_release (sg_charge s) (release_messages (sg_staged s) (sg_mem s)))
           | Some (None, s) \<Rightarrow>
               Some (Inr (sg_staged s), hf_commit f (sg_work s), \<lparr>frame_storage = Some (sg_charge s)\<rparr>,
                     drop_storage st (sg_mem s))))"

definition prepare_builtin ::
    "bool \<Rightarrow> nat \<Rightarrow> recv_state \<Rightarrow> held_framer \<Rightarrow> nat \<Rightarrow> bytes \<Rightarrow> recv_mem \<Rightarrow> prepare_result" where
  "prepare_builtin sg records st f cid input m =
     (let limit = max_frame_bytes (mem_limits m); capacity = hf_capacity f in
      if capacity > limit then Some (Inl (Receive_overflow FrameLimit), f, st, m)
      else
        case claim_storage capacity st m of
          (Inl e, m1) \<Rightarrow> Some (Inl e, f, st, m1)
        | (Inr st1, m1) \<Rightarrow>
            (case reserve_receive (hf_size f) m1 of
               (Inl e, m2) \<Rightarrow> Some (Inl e, f, st1, m2)
             | (Inr work_charge, m2) \<Rightarrow> stage_input sg records limit st1 f cid input work_charge m2))"

definition prepare_receive ::
    "bool \<Rightarrow> nat \<Rightarrow> recv_state \<Rightarrow> 'u recv_framer \<Rightarrow> nat \<Rightarrow> bytes \<Rightarrow> bool \<Rightarrow> recv_mem
      \<Rightarrow> ((recv_error + prepared) \<times> 'u recv_framer \<times> recv_state \<times> recv_mem) option" where
  "prepare_receive sg records st f cid input raw_batch m =
     (case (if raw_batch then (case retain_received records cid input m of
                                 (Inl e, m1) \<Rightarrow> (Inl e, m1)
                               | (Inr msg, m1) \<Rightarrow> (Inr (Some msg), m1))
            else (Inr None, m)) of
        (Inl e, m1) \<Rightarrow> Some (Inl e, f, st, m1)
      | (Inr raw, m1) \<Rightarrow>
          (case f of
             Builtin_framer hf \<Rightarrow>
               (case prepare_builtin sg records st hf cid input m1 of
                  None \<Rightarrow> None
                | Some (Inl e, hf', st', m2) \<Rightarrow> Some (Inl e, Builtin_framer hf', st', drop_raw raw m2)
                | Some (Inr msgs, hf', st', m2) \<Rightarrow>
                    Some (Inr \<lparr>pr_raw = raw, pr_messages = Some msgs\<rparr>, Builtin_framer hf', st', m2))
           | _ \<Rightarrow> Some (Inr \<lparr>pr_raw = raw, pr_messages = None\<rparr>, f, st, m1)))"

text \<open>\<open>ReceiveState::reset\<close>: give back the framer's storage and its charge.\<close>

fun recv_reset :: "('u \<Rightarrow> 'u) \<Rightarrow> 'u recv_framer \<Rightarrow> recv_state \<Rightarrow> recv_mem \<Rightarrow> 'u recv_framer \<times> recv_state \<times> recv_mem" where
  "recv_reset custom_reset f st m =
     ((case f of
         No_framer \<Rightarrow> No_framer
       | Custom_framer u \<Rightarrow> Custom_framer (custom_reset u)
       | Builtin_framer hf \<Rightarrow> Builtin_framer (hf_release_storage hf)),
      \<lparr>frame_storage = None\<rparr>, drop_storage st m)"

end
