(* ===== verification/Builtin_Framers.thy ===== *)
theory Builtin_Framers
  imports Bounded_Receive
begin

text \<open>
  The three built-in framers behind the one type \<open>ReceiveFramerAccess\<close> sees: how they behave under the staging
  callback of \<open>prepare_receive\<close>, and that together they still satisfy the framer contracts.
\<close>

section \<open>The built-in framers on a quiet callback\<close>

text \<open>
  The staging callback only retains its message, so a push on the clone behaves as one with a quiet
  callback. It returns, and never needs more buffer than what it holds and is given, which is the room
  \<open>grow_work\<close> makes.
\<close>

lemma lp_rest_le: "length (lp_rest c h) \<le> length h"
proof (induction c h rule: lp_rest.induct)
  case (1 c h)
  show ?case
  proof (cases "lp_frame c h")
    case (Frame n)
    with 1 [OF _ Frame] show ?thesis
      by (subst lp_rest.simps) (auto split: frame_view.split intro: le_trans)
  qed (subst lp_rest.simps, auto)+
qed

lemma lp_push_grows:
  assumes "lp_inv f" and cb: "lp_on_message f = Some quiet_callback" and "lp_push_bytes f d = Some (f', ms, e)"
  shows "length (lp_buffer f') \<le> length (lp_buffer f) + length d"
proof -
  let ?g = "f\<lparr>lp_buffer := lp_buffer f @ d\<rparr>"
  have "lp_prefix_bytes ?g \<le> 8" "lp_prefix_bytes ?g \<noteq> 0" using assms(1) by (auto simp: lp_inv_def)
  from lp_loop_quiet [OF this, of 0 "[]"] assms lp_rest_le [of f "lp_buffer f @ d"] show ?thesis
    by (auto simp: lp_push_bytes_def)
qed

lemma ln_overflow_check_le: "length (ln_buffer (ln_overflow_check f)) \<le> length (ln_buffer f)"
  by (simp add: ln_overflow_check_def)

lemma ln_push_internal_grows:
  assumes inv: "ln_inv sg f" and cb: "ln_on_message f = Some quiet_callback"
    and room: "ln_cap f + length x \<le> SIZE_MAX"
    and push: "ln_push_bytes_internal sg f x out = Some (f', out', e)"
  shows "length (ln_buffer f') \<le> length (ln_buffer f) + length x"
proof -
  have nd: "length (ln_buffer g') \<le> length (ln_buffer g) + length y"
    if g: "ln_inv sg g" "\<not> ln_discarding g" "ln_on_message g = Some quiet_callback" "ln_cap g = ln_cap f"
      "length y \<le> length x" and p: "ln_push_bytes_internal sg g y out = Some (g', out', e)" for g g' y
  proof -
    have "length (ln_buffer g) + length y \<le> SIZE_MAX" using g room by (auto simp: ln_inv_def)
    from p [unfolded ln_push_internal_quiet [OF g(1,3,2) this]]
    have "length (ln_buffer g') \<le> length (ln_tail (ln_pat sg g) (ln_buffer g @ y))"
      by (auto intro: order_trans [OF ln_overflow_check_le])
    with ln_tail_suffix(2) [of "ln_pat sg g" "ln_buffer g @ y"] show ?thesis by simp
  qed
  show ?thesis
  proof (cases "ln_discarding f \<and> x \<noteq> []")
    case False
    then consider "x = []" | "\<not> ln_discarding f" by blast
    then show ?thesis using nd [OF inv _ cb refl order_refl push] push by cases (auto simp: ln_push_bytes_internal_def)
  next
    case True
    let ?g = "f\<lparr>ln_discarding := False\<rparr>"
    have g: "ln_inv sg ?g" "ln_cap ?g = ln_cap f" using inv by (auto simp: ln_inv_def ln_cap_def)
    show ?thesis
    proof (cases "skip_until_delimiter sg f x")
      case None
      with True push show ?thesis by (simp add: ln_push_bytes_internal_def)
    next
      case (Some k)
      show ?thesis
      proof (cases "drop k x = []")
        case True
        with Some push \<open>ln_discarding f \<and> x \<noteq> []\<close> show ?thesis
          by (auto simp: ln_push_bytes_internal_def Let_def)
      next
        case False
        with Some push True have "ln_push_bytes_internal sg ?g (drop k x) out = Some (f', out', e)"
          by (simp add: ln_push_bytes_internal_def Let_def)
        from nd [OF g(1) _ _ g(2) _ this] cb show ?thesis by simp
      qed
    qed
  qed
qed

lemma ln_push_loop_grows:
  "ln_inv sg f \<Longrightarrow> ln_on_message f = Some quiet_callback \<Longrightarrow> ln_cap f + length data \<le> SIZE_MAX \<Longrightarrow>
     ln_push_loop sg mx f data offset out = Some (f', out', e) \<Longrightarrow>
     length (ln_buffer f') \<le> length (ln_buffer f) + (length data - offset)"
proof (induction sg mx f data offset out rule: ln_push_loop.induct)
  case (1 sg mx f data offset out)
  note unf = ln_push_loop.simps [of sg mx f data offset out]
  show ?case
  proof (cases "offset < length data")
    case True
    define len where "len = min (length data - offset) (max mx 4096)"
    have room: "ln_cap f + length (take len (drop offset data)) \<le> SIZE_MAX" using "1.prems"(3) by simp
    from ln_push_internal_returns [OF "1.prems"(1) this, of out]
    obtain f1 out1 where p: "ln_push_bytes_internal sg f (take len (drop offset data)) out = Some (f1, out1, None)"
      "ln_inv sg f1" "ln_same f f1"
      by (auto simp: ln_outcome_def)
    have "ln_on_message f1 = Some quiet_callback" "ln_cap f1 = ln_cap f"
      using p(3) "1.prems"(2) by (auto simp: ln_same_def ln_cap_def)
    with "1.IH" [OF True len_def p(1) refl refl refl p(2)] "1.prems" p(1) True
    have "length (ln_buffer f') \<le> length (ln_buffer f1) + (length data - (offset + len))"
      by (auto simp: unf simp flip: len_def)
    moreover have "length (ln_buffer f1) \<le> length (ln_buffer f) + len"
      using ln_push_internal_grows [OF "1.prems"(1,2) room p(1)] by simp
    ultimately show ?thesis using True by (simp add: len_def)
  next
    case False
    with "1.prems"(4) show ?thesis by (simp add: unf)
  qed
qed

lemma ln_push_grows:
  assumes "ln_inv sg f" "ln_on_message f = Some quiet_callback" "ln_cap f + length d \<le> SIZE_MAX"
    and "ln_push_bytes sg f d = Some (f', ms, e)"
  shows "length (ln_buffer f') \<le> length (ln_buffer f) + length d"
  using ln_push_loop_grows [OF assms(1-3), of "ln_max_length f" 0 "[]"] assms(4)
  by (auto simp: ln_push_bytes_def split: if_splits)

lemma pk_push_grows:
  assumes "pk_inv f" "pk_on_message f = Some quiet_callback" "pk_cap f + length d \<le> SIZE_MAX"
    and "pk_push_bytes f d = Some (f', ms, e)"
  shows "length (pk_buffer f') \<le> length (pk_buffer f) + length d"
  using pk_push_spec [OF assms(1,3)] assms(2,4)
    pk_pend_suffix(2) [of "pk_start_pattern f" "pk_end_pattern f" "pk_buffer f @ d"]
  by (auto simp: pk_outcome_def pk_keep_def split: if_splits)

fun builtin_inv :: "bool \<Rightarrow> builtin \<Rightarrow> bool" where
  "builtin_inv sg (LineF f) = ln_inv sg f"
| "builtin_inv sg (LengthF f) = lp_inv f"
| "builtin_inv sg (PacketF f) = pk_inv f"

fun builtin_cap :: "builtin \<Rightarrow> nat" where
  "builtin_cap (LineF f) = ln_cap f"
| "builtin_cap (LengthF f) = lp_cap f"
| "builtin_cap (PacketF f) = pk_cap f"

text \<open>The same framer object up to its buffer and scanning state.\<close>

fun builtin_same :: "builtin \<Rightarrow> builtin \<Rightarrow> bool" where
  "builtin_same (LineF f) (LineF g) \<longleftrightarrow> ln_same f g"
| "builtin_same (LengthF f) (LengthF g) \<longleftrightarrow>
     lp_config.truncate g = lp_config.truncate f \<and> lp_on_message g = lp_on_message f"
| "builtin_same (PacketF f) (PacketF g) \<longleftrightarrow> pk_same f g"
| "builtin_same f g \<longleftrightarrow> False"

lemma builtin_same_refl [simp]: "builtin_same f f"
  by (cases f) (simp_all add: pk_same_def)

lemma builtin_same_trans: "builtin_same f g \<Longrightarrow> builtin_same g h \<Longrightarrow> builtin_same f h"
  by (cases f; cases g; cases h) (auto simp: pk_same_def dest: ln_same_trans)

lemma builtin_same_sel:
  "builtin_same f g \<Longrightarrow> builtin_callback g = builtin_callback f \<and> builtin_cap g = builtin_cap f"
  by (cases f; cases g) (auto simp: ln_same_def ln_cap_def lp_cap_def pk_same_iff pk_cap_def lp_config.defs)

definition staging_ready :: "bool \<Rightarrow> builtin \<Rightarrow> bool" where
  "staging_ready sg f \<longleftrightarrow>
     builtin_inv sg f \<and> builtin_callback f = Some quiet_callback \<and> builtin_cap f + 4096 \<le> SIZE_MAX"

lemma builtin_push_stages:
  assumes "staging_ready sg f" and "length d \<le> 4096"
  shows "\<exists>f' ms. builtin_push sg f d = Some (f', ms, None) \<and> staging_ready sg f' \<and> builtin_same f f'
    \<and> length (builtin_buffer f') \<le> length (builtin_buffer f) + length d"
proof -
  have "\<exists>f' ms. builtin_push sg f d = Some (f', ms, None) \<and> builtin_inv sg f' \<and> builtin_same f f'
    \<and> length (builtin_buffer f') \<le> length (builtin_buffer f) + length d"
  proof (cases f)
    case (LineF g)
    with assms have g: "ln_inv sg g" "ln_on_message g = Some quiet_callback" "ln_cap g + length d \<le> SIZE_MAX"
      by (auto simp: staging_ready_def)
    from ln_push_returns [OF g(1,3)] obtain g' ms where "ln_push_bytes sg g d = Some (g', ms, None)" "ln_inv sg g'"
      "ln_same g g'" by (auto simp: ln_outcome_def)
    with ln_push_grows [OF g] LineF show ?thesis by simp
  next
    case (LengthF g)
    with assms have g: "lp_inv g" "lp_on_message g = Some quiet_callback" by (auto simp: staging_ready_def)
    from lp_push_returns [OF g(1), of d] obtain g' ms where "lp_push_bytes g d = Some (g', ms, None)" "lp_inv g'"
      "lp_config.truncate g' = lp_config.truncate g" "lp_on_message g' = lp_on_message g" by blast
    with lp_push_grows [OF g] LengthF show ?thesis by simp
  next
    case (PacketF g)
    with assms have g: "pk_inv g" "pk_on_message g = Some quiet_callback" "pk_cap g + length d \<le> SIZE_MAX"
      by (auto simp: staging_ready_def)
    from pk_push_spec [OF g(1,3)] obtain g' ms where "pk_push_bytes g d = Some (g', ms, None)" "pk_inv g'"
      "pk_same g g'" by (auto simp: pk_outcome_def)
    with pk_push_grows [OF g] PacketF show ?thesis by simp
  qed
  then obtain f' ms where f': "builtin_push sg f d = Some (f', ms, None)" "builtin_inv sg f'" "builtin_same f f'"
    "length (builtin_buffer f') \<le> length (builtin_buffer f) + length d" by blast
  moreover have "staging_ready sg f'"
    using assms(1) f'(2) builtin_same_sel [OF f'(3)] by (simp add: staging_ready_def)
  ultimately show ?thesis by blast
qed

lemma staging_ready_clone:
  "builtin_inv sg f \<Longrightarrow> builtin_cap f + 4096 \<le> SIZE_MAX \<Longrightarrow> staging_ready sg (builtin_on_message (Some quiet_callback) f)"
  by (cases f) (auto simp: staging_ready_def ln_set_on_message_def lp_set_on_message_def pk_set_on_message_def
      ln_inv_def ln_cap_def lp_inv_def lp_cap_def pk_inv_def pk_cap_def pk_ok_def split: pk_phase.split)

text \<open>Committing the clone leaves the original as if it had processed the input itself.\<close>

lemma builtin_commit_same:
  assumes "builtin_same (builtin_on_message cb f) g"
  shows "builtin_commit f g = builtin_on_message (builtin_callback f) g"
  using assms
  by (cases f; cases g)
    (auto simp: ln_same_def ln_set_on_message_def lp_set_on_message_def pk_set_on_message_def pk_same_iff lp_config.defs)

lemma builtin_on_message_sel [simp]:
  "builtin_buffer (builtin_on_message cb f) = builtin_buffer f"
  "builtin_inv sg (builtin_on_message cb f) = builtin_inv sg f"
  "builtin_cap (builtin_on_message cb f) = builtin_cap f"
  "builtin_callback (builtin_on_message cb f) = cb"
  by (cases f; simp add: ln_set_on_message_def lp_set_on_message_def pk_set_on_message_def
      ln_inv_def ln_cap_def lp_inv_def lp_cap_def pk_inv_def pk_cap_def pk_ok_def split: pk_phase.split)+

section \<open>The built-in framers as one framer\<close>

datatype builtin_config = LineC line_config | LengthC lp_config | PacketC packet_config

fun builtin_cfg :: "builtin \<Rightarrow> builtin_config" where
  "builtin_cfg (LineF f) = LineC (line_config.truncate f)"
| "builtin_cfg (LengthF f) = LengthC (lp_config.truncate f)"
| "builtin_cfg (PacketF f) = PacketC (packet_config.truncate f)"

fun builtin_tracks :: "bool \<Rightarrow> builtin \<Rightarrow> bytes \<Rightarrow> bool" where
  "builtin_tracks sg (LineF f) h \<longleftrightarrow> ln_tracks sg f h"
| "builtin_tracks sg (LengthF f) h \<longleftrightarrow> lp_tracks f h"
| "builtin_tracks sg (PacketF f) h \<longleftrightarrow> pk_tracks f h"

fun builtin_clean :: "bool \<Rightarrow> builtin_config \<Rightarrow> bytes \<Rightarrow> bool" where
  "builtin_clean sg (LineC c) h \<longleftrightarrow> ln_clean sg c h"
| "builtin_clean sg (LengthC c) h \<longleftrightarrow> lp_clean c h"
| "builtin_clean sg (PacketC c) h \<longleftrightarrow> pk_clean c h"

fun builtin_decode :: "bool \<Rightarrow> builtin_config \<Rightarrow> bytes \<Rightarrow> bytes list" where
  "builtin_decode sg (LineC c) h = ln_decode sg c h"
| "builtin_decode sg (LengthC c) h = lp_decode c h"
| "builtin_decode sg (PacketC c) h = pk_decode c h"

fun builtin_room :: "builtin_config \<Rightarrow> bytes \<Rightarrow> bool" where
  "builtin_room (LineC c) d \<longleftrightarrow> ln_room c d"
| "builtin_room (LengthC c) d \<longleftrightarrow> True"
| "builtin_room (PacketC c) d \<longleftrightarrow> pk_cap c + length d \<le> SIZE_MAX"

interpretation bif: bounded_framer "builtin_push sg" builtin_reset builtin_buffer "builtin_inv sg" builtin_cap
  "\<lambda>c d. c + length d \<le> SIZE_MAX" for sg
proof (unfold_locales, goal_cases)
  case (1 s d)
  then show ?case
    using ln.push_returns [of sg _ d] lp.push_returns [of _ d] pk.push_returns [of _ d] by (cases s) fastforce+
next
  case (2 s)
  then show ?case by (cases s) (auto dest: ln.buf_le_cap lp.buf_le_cap pk.buf_le_cap)
next
  case (3 s)
  then show ?case using ln.reset_clears lp.reset_clears pk.reset_clears by (cases s) auto
qed

interpretation bis: stream_framer "builtin_push sg" builtin_cfg "builtin_tracks sg" "builtin_clean sg"
  "builtin_decode sg" builtin_room for sg
proof (unfold_locales, goal_cases)
  case (1 c h d)
  then show ?case by (cases c) (auto dest: lns.clean_prefix lps.clean_prefix pks.clean_prefix)
next
  case (2 s h d)
  then show ?case
    using lns.push_decodes [of sg _ h d] lps.push_decodes [of _ h d] pks.push_decodes [of _ h d]
    by (cases s) fastforce+
qed

lemma builtin_room_mono: "builtin_room c d \<Longrightarrow> length d' \<le> length d \<Longrightarrow> builtin_room c d'"
  by (cases c) (auto simp: ln_room_def)

lemma builtin_on_message_same [simp]:
  "builtin_cfg (builtin_on_message cb f) = builtin_cfg f"
  "builtin_on_message cb (builtin_on_message cb' f) = builtin_on_message cb f"
  by (cases f; simp add: ln_set_on_message_def lp_set_on_message_def pk_set_on_message_def
      line_config.defs lp_config.defs packet_config.defs)+

lemma builtin_on_message_own: "builtin_callback f = cb \<Longrightarrow> builtin_on_message cb f = f"
  by (cases f) (auto simp: ln_set_on_message_def lp_set_on_message_def pk_set_on_message_def)

lemma builtin_tracks_quiet: "builtin_tracks sg f h \<Longrightarrow> builtin_callback f = Some quiet_callback"
  by (cases f) (auto simp: ln_tracks_def lp_tracks_def pk_tracks_def)

end
