(* ===== verification/Receive_Staging.thy ===== *)
theory Receive_Staging
  imports Builtin_Framers
begin

text \<open>
  What \<open>prepare_receive\<close> does: the charges it takes and gives back, the staging loop chunk by chunk, and the
  whole call, on success and on every failure.
\<close>

section \<open>Accounting\<close>

text \<open>
  \<open>mem_holds l k t m\<close>: the scope holds exactly \<open>t\<close> bytes of charges, the other scopes of its budget \<open>k\<close>, and the
  budget has the limits \<open>l\<close>.
\<close>

definition mem_holds :: "recv_limits \<Rightarrow> nat \<Rightarrow> nat \<Rightarrow> recv_mem \<Rightarrow> bool" where
  "mem_holds l k t m \<longleftrightarrow>
     (case m_account m of (b, s) \<Rightarrow>
        rb_limits b = l \<and> rb_used b = k + t \<and> rs_used s = t \<and> k + t \<le> max_bytes l \<and> max_bytes l \<le> SIZE_MAX)"

lemma mem_holds_limits: "mem_holds l k t m \<Longrightarrow> mem_limits m = l"
  by (auto simp: mem_holds_def mem_limits_def split: prod.splits)

lemma take_alloc_holds: "take_alloc m = (ok, m') \<Longrightarrow> mem_holds l k t m' = mem_holds l k t m"
  by (auto simp: take_alloc_def mem_holds_def split: option.splits nat.splits)

lemma mem_release_holds: "mem_holds l k (t + n) m \<Longrightarrow> mem_holds l k t (mem_release n m)"
  by (auto simp: mem_holds_def mem_release_def split: prod.splits)

lemma mem_reserve_holds:
  assumes "mem_holds l k t m" and "mem_reserve n m = (r, m')"
  shows "case r of Charged c \<Rightarrow> c = n \<and> mem_holds l k (t + n) m' | _ \<Rightarrow> mem_holds l k t m'"
proof -
  obtain b s where a: "m_account m = (b, s)" by (cases "m_account m")
  have h: "rb_limits b = l" "rb_used b = k + t" "rs_used s = t" "k + t \<le> max_bytes l" "max_bytes l \<le> SIZE_MAX"
    using assms(1) a by (auto simp: mem_holds_def)
  show ?thesis
  proof (cases "k + t + n \<le> max_bytes l")
    case False
    then have "budget_acquire n b = None" using h by (simp add: budget_acquire_def Let_def)
    with assms a show ?thesis by (auto simp: mem_reserve_def split: prod.splits)
  next
    case True
    then have "n \<le> size_sub (max_bytes l) (k + t)" "size_add (k + t) n = k + t + n" "size_add t n = t + n"
      using h by simp_all
    moreover from this have "budget_acquire n b
        = Some (b\<lparr>rb_used := k + t + n, rb_peak := max (rb_peak b) (k + t + n)\<rparr>)"
      using h by (simp add: budget_acquire_def Let_def max_def not_less)
    ultimately show ?thesis using assms a h True
      by (auto simp: mem_reserve_def mem_holds_def Let_def split: prod.splits if_splits)
  qed
qed

lemma reserve_receive_holds:
  assumes "mem_holds l k t m" and "reserve_receive n m = (r, m')"
  shows "case r of Inr c \<Rightarrow> c = n \<and> mem_holds l k (t + n) m' | Inl _ \<Rightarrow> mem_holds l k t m'"
  using mem_reserve_holds [OF assms(1), of n] assms(2)
  by (auto simp: reserve_receive_def split: prod.splits reservation.splits)

lemma retain_received_holds:
  assumes "mem_holds l k t m" and "retain_received records cid d m = (r, m')"
  shows "case r of
      Inr msg \<Rightarrow> msg = \<lparr>rm_charge = length d + records, rm_id = cid, rm_data = d\<rparr>
        \<and> mem_holds l k (t + rm_charge msg) m'
    | Inl _ \<Rightarrow> mem_holds l k t m'"
proof (cases "reserve_receive (length d + records) m")
  case (Pair r1 m1)
  note h = reserve_receive_holds [OF assms(1) Pair]
  show ?thesis
  proof (cases r1)
    case (Inl e)
    with assms h Pair show ?thesis by (auto simp: retain_received_def split: if_splits)
  next
    case (Inr c)
    with h have c: "c = length d + records" "mem_holds l k (t + c) m1" by auto
    obtain ok m2 where "take_alloc m1 = (ok, m2)" by (cases "take_alloc m1")
    with take_alloc_holds [OF this, of l k "t + c"] assms Pair Inr c mem_release_holds [of l k t c] show ?thesis
      by (auto simp: retain_received_def safe_data_buffer_def split: if_splits bool.splits)
  qed
qed

definition charges_of :: "recv_message list \<Rightarrow> nat" where
  "charges_of msgs = sum_list (map rm_charge msgs)"

lemma charges_of_simps [simp]:
  "charges_of [] = 0" "charges_of (x # xs) = rm_charge x + charges_of xs" "charges_of (xs @ ys) = charges_of xs + charges_of ys"
  by (simp_all add: charges_of_def)

lemma release_messages_holds: "mem_holds l k (t + charges_of msgs) m \<Longrightarrow> mem_holds l k t (release_messages msgs m)"
proof (induction msgs arbitrary: m)
  case Nil
  then show ?case by (simp add: release_messages_def)
next
  case (Cons x xs)
  then have "mem_holds l k ((t + charges_of xs) + rm_charge x) m" by (simp add: ac_simps)
  from Cons.IH [OF mem_release_holds [OF this]] show ?case by (simp add: release_messages_def)
qed

definition retained_as :: "nat \<Rightarrow> nat \<Rightarrow> recv_message \<Rightarrow> bool" where
  "retained_as records cid msg \<longleftrightarrow> rm_charge msg = length (rm_data msg) + records \<and> rm_id msg = cid"

lemma stage_messages_holds:
  "mem_holds l k t m \<Longrightarrow> stage_messages records cid ms staged m = (e, staged', m') \<Longrightarrow>
     \<exists>new. staged' = staged @ new \<and> mem_holds l k (t + charges_of new) m'
       \<and> (\<forall>x\<in>set new. retained_as records cid x) \<and> (e = None \<longrightarrow> map rm_data new = ms)"
proof (induction ms arbitrary: t staged m)
  case Nil
  then show ?case by simp
next
  case (Cons d ms)
  obtain r1 m1 where r: "retain_received records cid d m = (r1, m1)" by fastforce
  note h = retain_received_holds [OF Cons.prems(1) r]
  show ?case
  proof (cases r1)
    case (Inl x)
    with h r Cons.prems(2) show ?thesis by auto
  next
    case (Inr msg)
    with h have msg: "msg = \<lparr>rm_charge = length d + records, rm_id = cid, rm_data = d\<rparr>"
      "mem_holds l k (t + rm_charge msg) m1" by auto
    obtain ok m2 where t: "take_alloc m1 = (ok, m2)" by fastforce
    have m2: "mem_holds l k (t + rm_charge msg) m2" using take_alloc_holds [OF t] msg(2) by blast
    show ?thesis
    proof (cases ok)
      case False
      with t r Inr Cons.prems(2) mem_release_holds [OF m2] show ?thesis by auto
    next
      case True
      with t r Inr Cons.prems(2)
      have "stage_messages records cid ms (staged @ [msg]) m2 = (e, staged', m')" by simp
      from Cons.IH [OF m2 this] obtain new where "staged' = (staged @ [msg]) @ new"
        "mem_holds l k (t + rm_charge msg + charges_of new) m'" "\<forall>x\<in>set new. retained_as records cid x"
        "e = None \<longrightarrow> map rm_data new = ms"
        by blast
      then show ?thesis using msg(1)
        by (intro exI [of _ "msg # new"]) (simp add: retained_as_def ac_simps)
    qed
  qed
qed

lemma grow_work_holds:
  assumes m: "mem_holds l k (t + charge) m" and charge: "charge = hf_capacity work"
    and le: "hf_capacity work \<le> limit" "needed \<le> limit"
    and g: "grow_work limit needed work charge m = (r, m')"
  shows "case r of
      Inl _ \<Rightarrow> mem_holds l k (t + charge) m'
    | Inr (work', charge') \<Rightarrow>
        hf_framer work' = hf_framer work \<and> charge' = hf_capacity work' \<and> needed \<le> hf_capacity work'
        \<and> hf_capacity work' \<le> limit \<and> mem_holds l k (t + charge') m'"
proof (cases "needed > hf_capacity work")
  case False
  with g m charge le show ?thesis by (auto simp: grow_work_def)
next
  case True
  define target where "target = min limit (max needed
      (if hf_capacity work > limit div 2 then limit else hf_capacity work * 2))"
  define swap where "swap = (\<lambda>target next m. case take_alloc m of
      (False, m') \<Rightarrow> (Inl (Other_exn Bad_alloc), mem_release next m')
    | (True, m') \<Rightarrow> (Inr (hf_reserve_exact work target, next), mem_release charge m'))"
  have swapped: ?thesis
    if "mem_holds l k ((t + charge) + n) m1" "needed \<le> n" "n \<le> limit" "swap n n m1 = (r, m')" for n m1
  proof -
    obtain ok m2 where a: "take_alloc m1 = (ok, m2)" by fastforce
    have m2: "mem_holds l k ((t + charge) + n) m2" using take_alloc_holds [OF a] that(1) by blast
    moreover have "mem_holds l k ((t + n) + charge) m2" using m2 by (simp add: ac_simps)
    ultimately show ?thesis
      using that True a mem_release_holds [of l k _ _ m2] by (auto simp: swap_def hf_reserve_exact_def split: bool.splits)
  qed
  have g': "(case (if target > needed then mem_reserve target m else (Refused, m)) of
        (Thrown e, m1) \<Rightarrow> (Inl (Other_exn e), m1)
      | (Charged next, m1) \<Rightarrow> swap target next m1
      | (Refused, m1) \<Rightarrow>
          (case reserve_receive needed m1 of
             (Inl e, m2) \<Rightarrow> (Inl e, m2)
           | (Inr next, m2) \<Rightarrow> swap needed next m2)) = (r, m')"
    using g True unfolding grow_work_def Let_def target_def swap_def by simp
  obtain r1 m1 where r1: "(if target > needed then mem_reserve target m else (Refused, m)) = (r1, m1)" by fastforce
  have tl: "needed \<le> target" "target \<le> limit" using le True by (auto simp: target_def)
  have h1: "case r1 of Charged c \<Rightarrow> c = target \<and> mem_holds l k ((t + charge) + target) m1 | _ \<Rightarrow> mem_holds l k (t + charge) m1"
    using mem_reserve_holds [OF m, of target] r1 m by (auto split: if_splits)
  show ?thesis
  proof (cases r1)
    case (Charged c)
    with h1 g' r1 swapped [of target m1] tl show ?thesis by simp
  next
    case (Thrown e)
    with h1 g' r1 show ?thesis by auto
  next
    case Refused
    obtain r2 m2 where r2: "reserve_receive needed m1 = (r2, m2)" by fastforce
    from h1 Refused have "mem_holds l k (t + charge) m1" by simp
    from reserve_receive_holds [OF this r2] g' r1 r2 Refused swapped [of needed m2] le show ?thesis
      by (cases r2) auto
  qed
qed

text \<open>Between two chunks.\<close>

definition staging_ok :: "bool \<Rightarrow> nat \<Rightarrow> nat \<Rightarrow> nat \<Rightarrow> recv_limits \<Rightarrow> nat \<Rightarrow> nat \<Rightarrow> staging \<Rightarrow> bool" where
  "staging_ok sg records limit cid l k t s \<longleftrightarrow>
     staging_ready sg (hf_framer (sg_work s)) \<and> hf_size (sg_work s) \<le> hf_capacity (sg_work s)
     \<and> hf_capacity (sg_work s) = sg_charge s \<and> hf_capacity (sg_work s) \<le> limit
     \<and> (\<forall>x\<in>set (sg_staged s). retained_as records cid x)
     \<and> mem_holds l k (t + sg_charge s + charges_of (sg_staged s)) (sg_mem s)"

lemma stage_chunk_spec:
  assumes ok: "staging_ok sg records limit cid l k t s"
    and len: "hf_size (sg_work s) + length chunk \<le> limit" "length chunk \<le> 4096"
  shows "\<exists>e s' f ms. stage_chunk sg records limit cid chunk s = Some (e, s')
    \<and> staging_ok sg records limit cid l k t s' \<and> builtin_same (hf_framer (sg_work s)) (hf_framer (sg_work s'))
    \<and> builtin_push sg (hf_framer (sg_work s)) chunk = Some (f, ms, None)
    \<and> (e = None \<longrightarrow> hf_framer (sg_work s') = f \<and> map rm_data (sg_staged s') = map rm_data (sg_staged s) @ ms)"
proof -
  let ?w = "sg_work s"
  have s: "staging_ready sg (hf_framer ?w)" "hf_size ?w \<le> hf_capacity ?w" "hf_capacity ?w = sg_charge s"
    "hf_capacity ?w \<le> limit" "\<forall>x\<in>set (sg_staged s). retained_as records cid x"
    "mem_holds l k ((t + charges_of (sg_staged s)) + sg_charge s) (sg_mem s)"
    using ok by (auto simp: staging_ok_def ac_simps)
  obtain r m1 where g: "grow_work limit (hf_size ?w + length chunk) ?w (sg_charge s) (sg_mem s) = (r, m1)" by fastforce
  note grown = grow_work_holds [OF s(6) s(3) [symmetric] s(4) len(1) g]
  from builtin_push_stages [OF s(1) len(2)] obtain f ms where
    p: "builtin_push sg (hf_framer ?w) chunk = Some (f, ms, None)" "staging_ready sg f" "builtin_same (hf_framer ?w) f"
      "length (builtin_buffer f) \<le> length (builtin_buffer (hf_framer ?w)) + length chunk"
    by blast
  show ?thesis
  proof (cases r)
    case (Inl e)
    with grown have "staging_ok sg records limit cid l k t (s\<lparr>sg_mem := m1\<rparr>)"
      using s by (simp add: staging_ok_def ac_simps)
    with g Inl p show ?thesis by (simp add: stage_chunk_def)
  next
    case (Inr wc)
    obtain work charge where wc: "wc = (work, charge)" by fastforce
    with grown Inr have w: "hf_framer work = hf_framer ?w" "charge = hf_capacity work"
      "hf_size ?w + length chunk \<le> hf_capacity work" "hf_capacity work \<le> limit"
      "mem_holds l k (t + charges_of (sg_staged s) + charge) m1"
      by auto
    obtain e staged m2 where st: "stage_messages records cid ms (sg_staged s) m1 = (e, staged, m2)" by (metis prod_cases3)
    from stage_messages_holds [OF w(5) st] obtain new where
      new: "staged = sg_staged s @ new" "mem_holds l k (t + charges_of (sg_staged s) + charge + charges_of new) m2"
        "\<forall>x\<in>set new. retained_as records cid x" "e = None \<longrightarrow> map rm_data new = ms"
      by blast
    define s' where "s' = \<lparr>sg_work = work\<lparr>hf_framer := f\<rparr>, sg_charge = charge, sg_staged = staged, sg_mem = m2\<rparr>"
    have "staging_ok sg records limit cid l k t s'"
      using p(2,4) w s(5) new(2,3) unfolding s'_def staging_ok_def
      by (auto simp: hf_size_def new(1) ac_simps)
    moreover have "stage_chunk sg records limit cid chunk s = Some (e, s')"
      using g Inr wc p(1) st w(1) by (simp add: stage_chunk_def s'_def)
    ultimately show ?thesis using p new(1,4) by (auto simp: s'_def)
  qed
qed

text \<open>The loop ends, and when it ends without an exception the clone has processed the whole input in chunks.\<close>

lemma prepare_loop_spec:
  "staging_ok sg records limit cid l k t s \<Longrightarrow>
     \<exists>e s'. prepare_loop sg records limit cid input s = Some (e, s') \<and> staging_ok sg records limit cid l k t s'
       \<and> builtin_same (hf_framer (sg_work s)) (hf_framer (sg_work s'))
       \<and> (e = None \<longrightarrow> (\<exists>ds ms. concat ds = input \<and> (\<forall>d\<in>set ds. length d \<le> 4096)
            \<and> push_all (builtin_push sg) (hf_framer (sg_work s)) ds = Some (hf_framer (sg_work s'), ms, None)
            \<and> map rm_data (sg_staged s') = map rm_data (sg_staged s) @ ms))"
proof (induction "length input" arbitrary: input s rule: less_induct)
  case less
  note unf = prepare_loop.simps [of sg records limit cid input s]
  consider "input = []" | "input \<noteq> []" "hf_size (sg_work s) \<ge> limit" | "input \<noteq> []" "hf_size (sg_work s) < limit"
    by linarith
  then show ?case
  proof cases
    case 1
    with less.prems show ?thesis
      by (intro exI [of _ None] exI [of _ s]) (auto intro: exI [of _ "[]"])
  next
    case 2
    with less.prems show ?thesis by (simp add: unf Let_def)
  next
    case 3
    define n where "n = min (length input) (min (limit - hf_size (sg_work s)) 4096)"
    have n: "hf_size (sg_work s) + length (take n input) \<le> limit" "length (take n input) \<le> 4096"
      "length (drop n input) < length input" using 3 by (auto simp: n_def)
    from stage_chunk_spec [OF less.prems n(1,2)] obtain e s1 f ms where
      c: "stage_chunk sg records limit cid (take n input) s = Some (e, s1)" "staging_ok sg records limit cid l k t s1"
        "builtin_same (hf_framer (sg_work s)) (hf_framer (sg_work s1))"
        "builtin_push sg (hf_framer (sg_work s)) (take n input) = Some (f, ms, None)"
        "e = None \<longrightarrow> hf_framer (sg_work s1) = f \<and> map rm_data (sg_staged s1) = map rm_data (sg_staged s) @ ms"
      by blast
    show ?thesis
    proof (cases e)
      case (Some x)
      with c 3 show ?thesis by (simp add: unf Let_def not_le flip: n_def)
    next
      case None
      with c 3 have run: "prepare_loop sg records limit cid input s = prepare_loop sg records limit cid (drop n input) s1"
        by (simp add: unf Let_def not_le flip: n_def)
      from less.hyps [OF n(3) c(2)] c(5) None obtain e2 s2 where
        2: "prepare_loop sg records limit cid input s = Some (e2, s2)" "staging_ok sg records limit cid l k t s2"
          "builtin_same (hf_framer (sg_work s1)) (hf_framer (sg_work s2))"
          "e2 = None \<longrightarrow> (\<exists>ds ms'. concat ds = drop n input \<and> (\<forall>d\<in>set ds. length d \<le> 4096)
            \<and> push_all (builtin_push sg) f ds = Some (hf_framer (sg_work s2), ms', None)
            \<and> map rm_data (sg_staged s2) = map rm_data (sg_staged s1) @ ms')"
        unfolding run by auto
      have "\<exists>ds ms'. concat ds = input \<and> (\<forall>d\<in>set ds. length d \<le> 4096)
          \<and> push_all (builtin_push sg) (hf_framer (sg_work s)) ds = Some (hf_framer (sg_work s2), ms', None)
          \<and> map rm_data (sg_staged s2) = map rm_data (sg_staged s) @ ms'" if "e2 = None"
      proof -
        from 2(4) that obtain ds ms' where "concat ds = drop n input" "\<forall>d\<in>set ds. length d \<le> 4096"
          "push_all (builtin_push sg) f ds = Some (hf_framer (sg_work s2), ms', None)"
          "map rm_data (sg_staged s2) = map rm_data (sg_staged s1) @ ms'" by blast
        with c(4,5) None n(2) show ?thesis
          by (intro exI [of _ "take n input # ds"] exI [of _ "ms @ ms'"]) simp
      qed
      with 2 builtin_same_trans [OF c(3) 2(3)] show ?thesis by blast
    qed
  qed
qed

section \<open>A whole input\<close>

text \<open>
  A framer and its state between two inputs: the framer's storage fits the frame limit, and once the first
  input has arrived it is covered by the state's charge.
\<close>

definition storage_of :: "recv_state \<Rightarrow> nat" where
  "storage_of st = (case frame_storage st of None \<Rightarrow> 0 | Some n \<Rightarrow> n)"

definition framer_ready :: "bool \<Rightarrow> held_framer \<Rightarrow> bool" where
  "framer_ready sg f \<longleftrightarrow>
     builtin_inv sg (hf_framer f) \<and> builtin_cap (hf_framer f) + 4096 \<le> SIZE_MAX \<and> hf_size f \<le> hf_capacity f"

lemma drop_storage_holds: "mem_holds l k (t + storage_of st) m \<Longrightarrow> mem_holds l k t (drop_storage st m)"
  by (auto simp: drop_storage_def storage_of_def split: option.splits intro: mem_release_holds)

lemma claim_storage_holds:
  assumes "mem_holds l k (t + storage_of st) m" and "claim_storage capacity st m = (r, m')"
  shows "case r of Inl _ \<Rightarrow> mem_holds l k (t + storage_of st) m'
    | Inr st' \<Rightarrow> mem_holds l k (t + storage_of st') m'
        \<and> st' = (if frame_storage st = None \<and> capacity > 0 then \<lparr>frame_storage = Some capacity\<rparr> else st)"
proof (cases "frame_storage st = None \<and> capacity > 0")
  case True
  obtain r1 m1 where r: "reserve_receive capacity m = (r1, m1)" by fastforce
  from True assms reserve_receive_holds [OF _ r, of l k t] r show ?thesis
    by (cases r1) (auto simp: claim_storage_def storage_of_def)
next
  case False
  with assms show ?thesis by (auto simp: claim_storage_def)
qed

definition prepare_outcome ::
    "bool \<Rightarrow> nat \<Rightarrow> recv_limits \<Rightarrow> nat \<Rightarrow> nat \<Rightarrow> recv_state \<Rightarrow> held_framer \<Rightarrow> nat \<Rightarrow> bytes
      \<Rightarrow> (recv_error + recv_message list) \<times> held_framer \<times> recv_state \<times> recv_mem \<Rightarrow> bool" where
  "prepare_outcome sg records l k t st f cid input = (\<lambda>(r, f', st', m').
     case r of
       Inl e \<Rightarrow>
         f' = f
         \<and> (st' = st \<or> frame_storage st = None \<and> frame_storage st' = Some (hf_capacity f)
                \<and> hf_capacity f \<le> max_frame_bytes l)
         \<and> mem_holds l k (t + storage_of st') m'
     | Inr msgs \<Rightarrow>
         (\<exists>ds work. concat ds = input \<and> (\<forall>d\<in>set ds. length d \<le> 4096)
            \<and> push_all (builtin_push sg) (builtin_on_message (Some quiet_callback) (hf_framer f)) ds
                = Some (work, map rm_data msgs, None)
            \<and> hf_framer f' = builtin_on_message (builtin_callback (hf_framer f)) work)
         \<and> (\<forall>x\<in>set msgs. retained_as records cid x)
         \<and> framer_ready sg f' \<and> hf_capacity f' \<le> max_frame_bytes l \<and> frame_storage st' = Some (hf_capacity f')
         \<and> mem_holds l k (t + storage_of st' + charges_of msgs) m')"

lemma stage_input_spec:
  assumes f: "framer_ready sg f" and cap: "hf_capacity f \<le> max_frame_bytes l"
    and m: "mem_holds l k (t + storage_of st + hf_size f) m"
  shows "\<exists>r. stage_input sg records (max_frame_bytes l) st f cid input (hf_size f) m = Some r
    \<and> prepare_outcome sg records l k t st f cid input r"
proof -
  obtain ok m1 where a: "take_alloc m = (ok, m1)" by fastforce
  have m1: "mem_holds l k (t + storage_of st + hf_size f) m1" using take_alloc_holds [OF a] m by blast
  show ?thesis
  proof (cases ok)
    case False
    with a mem_release_holds [OF m1] show ?thesis by (simp add: stage_input_def prepare_outcome_def)
  next
    case True
    let ?q = "builtin_on_message (Some quiet_callback) (hf_framer f)"
    define s where "s = \<lparr>sg_work = (hf_clone f)\<lparr>hf_framer := ?q\<rparr>, sg_charge = hf_size f, sg_staged = [], sg_mem = m1\<rparr>"
    have "staging_ok sg records (max_frame_bytes l) cid l k (t + storage_of st) s"
      using f m1 cap by (auto simp: staging_ok_def s_def staging_ready_clone framer_ready_def hf_clone_def hf_size_def)
    from prepare_loop_spec [OF this, of input] obtain e s' where
      loop: "prepare_loop sg records (max_frame_bytes l) cid input s = Some (e, s')"
        and ok': "staging_ok sg records (max_frame_bytes l) cid l k (t + storage_of st) s'"
        and same: "builtin_same ?q (hf_framer (sg_work s'))"
        and fin: "e = None \<longrightarrow> (\<exists>ds ms. concat ds = input \<and> (\<forall>d\<in>set ds. length d \<le> 4096)
          \<and> push_all (builtin_push sg) ?q ds = Some (hf_framer (sg_work s'), ms, None)
          \<and> map rm_data (sg_staged s') = ms)"
      by (auto simp: s_def)
    have run: "stage_input sg records (max_frame_bytes l) st f cid input (hf_size f) m =
      (case e of
         Some x \<Rightarrow> Some (Inl x, f, st, mem_release (sg_charge s') (release_messages (sg_staged s') (sg_mem s')))
       | None \<Rightarrow> Some (Inr (sg_staged s'), hf_commit f (sg_work s'), \<lparr>frame_storage = Some (sg_charge s')\<rparr>,
                       drop_storage st (sg_mem s')))"
      using a True loop by (simp add: stage_input_def s_def hf_clone_def split: option.split)
    have held: "mem_holds l k ((t + storage_of st + sg_charge s') + charges_of (sg_staged s')) (sg_mem s')"
      "mem_holds l k ((t + sg_charge s' + charges_of (sg_staged s')) + storage_of st) (sg_mem s')"
      using ok' by (simp_all add: staging_ok_def ac_simps)
    have com: "hf_framer (hf_commit f (sg_work s')) = builtin_on_message (builtin_callback (hf_framer f)) (hf_framer (sg_work s'))"
      using builtin_commit_same [OF same] by (simp add: hf_commit_def)
    show ?thesis
    proof (cases e)
      case (Some x)
      with run mem_release_holds [OF release_messages_holds [OF held(1)]] show ?thesis
        by (simp add: prepare_outcome_def)
    next
      case None
      with run ok' fin drop_storage_holds [OF held(2)] com show ?thesis
        by (auto simp: prepare_outcome_def staging_ok_def staging_ready_def framer_ready_def hf_size_def storage_of_def
            hf_commit_def ac_simps)
    qed
  qed
qed

lemma prepare_outcome_claimed:
  assumes "prepare_outcome sg records l k t st1 f cid input r"
    and "st1 = st \<or> frame_storage st = None \<and> frame_storage st1 = Some (hf_capacity f)"
    and "hf_capacity f \<le> max_frame_bytes l"
  shows "prepare_outcome sg records l k t st f cid input r"
  using assms by (auto simp: prepare_outcome_def split: sum.splits)

lemma prepare_builtin_spec:
  assumes f: "framer_ready sg f" and m: "mem_holds l k (t + storage_of st) m"
  shows "\<exists>r. prepare_builtin sg records st f cid input m = Some r \<and> prepare_outcome sg records l k t st f cid input r"
proof (cases "hf_capacity f > max_frame_bytes l")
  case True
  with m show ?thesis by (simp add: prepare_builtin_def mem_holds_limits [OF m] prepare_outcome_def)
next
  case False
  note run = prepare_builtin_def [of sg records st f cid input m, unfolded mem_holds_limits [OF m]]
  obtain r1 m1 where c: "claim_storage (hf_capacity f) st m = (r1, m1)" by fastforce
  note h1 = claim_storage_holds [OF m c]
  show ?thesis
  proof (cases r1)
    case (Inl e)
    with False c h1 show ?thesis by (simp add: run prepare_outcome_def)
  next
    case st1: (Inr st1)
    with h1 have h: "mem_holds l k (t + storage_of st1) m1"
      "st1 = st \<or> frame_storage st = None \<and> frame_storage st1 = Some (hf_capacity f)" by auto
    obtain r2 m2 where r: "reserve_receive (hf_size f) m1 = (r2, m2)" by fastforce
    note h2 = reserve_receive_holds [OF h(1) r]
    show ?thesis
    proof (cases r2)
      case (Inl e)
      with False c st1 r h(2) h2 show ?thesis by (simp add: run prepare_outcome_def)
    next
      case (Inr n)
      with h2 have n: "n = hf_size f" "mem_holds l k (t + storage_of st1 + hf_size f) m2" by auto
      with stage_input_spec [OF f _ n(2), of records cid input] False c st1 r Inr prepare_outcome_claimed [OF _ h(2)]
      show ?thesis by (auto simp: run not_less)
    qed
  qed
qed

section \<open>Properties of \<open>prepare_receive\<close>\<close>

definition recv_ready :: "bool \<Rightarrow> recv_limits \<Rightarrow> nat \<Rightarrow> nat \<Rightarrow> 'u recv_framer \<Rightarrow> recv_state \<Rightarrow> recv_mem \<Rightarrow> bool" where
  "recv_ready sg l k t f st m \<longleftrightarrow>
     (case f of Builtin_framer hf \<Rightarrow> framer_ready sg hf | _ \<Rightarrow> True) \<and> mem_holds l k (t + storage_of st) m"

definition prepared_bytes :: "prepared \<Rightarrow> nat" where
  "prepared_bytes p =
     (case pr_raw p of None \<Rightarrow> 0 | Some msg \<Rightarrow> rm_charge msg)
     + (case pr_messages p of None \<Rightarrow> 0 | Some msgs \<Rightarrow> charges_of msgs)"

definition raw_of :: "nat \<Rightarrow> nat \<Rightarrow> bytes \<Rightarrow> bool \<Rightarrow> recv_message option" where
  "raw_of records cid input raw_batch =
     (if raw_batch then Some \<lparr>rm_charge = length input + records, rm_id = cid, rm_data = input\<rparr> else None)"

definition receive_outcome ::
    "bool \<Rightarrow> nat \<Rightarrow> recv_limits \<Rightarrow> nat \<Rightarrow> nat \<Rightarrow> recv_state \<Rightarrow> 'u recv_framer \<Rightarrow> nat \<Rightarrow> bytes \<Rightarrow> bool
      \<Rightarrow> (recv_error + prepared) \<times> 'u recv_framer \<times> recv_state \<times> recv_mem \<Rightarrow> bool" where
  "receive_outcome sg records l k t st f cid input raw_batch = (\<lambda>(r, f', st', m').
     case r of
       Inl e \<Rightarrow>
         f' = f \<and> mem_holds l k (t + storage_of st') m'
         \<and> (st' = st \<or> (\<exists>hf. f = Builtin_framer hf \<and> frame_storage st = None
                          \<and> frame_storage st' = Some (hf_capacity hf) \<and> hf_capacity hf \<le> max_frame_bytes l))
     | Inr p \<Rightarrow>
         pr_raw p = raw_of records cid input raw_batch \<and> mem_holds l k (t + storage_of st' + prepared_bytes p) m'
         \<and> (case f of
              Builtin_framer hf \<Rightarrow>
                \<exists>hf' msgs t0 m0. f' = Builtin_framer hf' \<and> pr_messages p = Some msgs
                  \<and> prepare_outcome sg records l k t0 st hf cid input (Inr msgs, hf', st', m0)
            | _ \<Rightarrow> f' = f \<and> st' = st \<and> pr_messages p = None))"

lemma raw_holds:
  assumes "mem_holds l k t m"
  obtains
    (fails) e m1 where "retain_received records cid input m = (Inl e, m1)" "mem_holds l k t m1"
  | (kept) m1 where "retain_received records cid input m
        = (Inr \<lparr>rm_charge = length input + records, rm_id = cid, rm_data = input\<rparr>, m1)"
      "mem_holds l k (t + (length input + records)) m1"
proof (cases "retain_received records cid input m")
  case (Pair r m1)
  from retain_received_holds [OF assms this] Pair show ?thesis using that by (cases r) auto
qed

lemma prepare_receive_held:
  assumes ready: "recv_ready sg l k t f st m"
    and raw: "raw = None \<and> n = 0 \<or> (\<exists>msg. raw = Some msg \<and> n = rm_charge msg)"
    and m1: "mem_holds l k (t + storage_of st + n) m1"
  shows "\<exists>r. (case f of
      Builtin_framer hf \<Rightarrow>
        (case prepare_builtin sg records st hf cid input m1 of
           None \<Rightarrow> None
         | Some (Inl e, hf', st', m2) \<Rightarrow> Some (Inl e, Builtin_framer hf', st', drop_raw raw m2)
         | Some (Inr msgs, hf', st', m2) \<Rightarrow>
             Some (Inr \<lparr>pr_raw = raw, pr_messages = Some msgs\<rparr>, Builtin_framer hf', st', m2))
    | _ \<Rightarrow> Some (Inr \<lparr>pr_raw = raw, pr_messages = None\<rparr>, f, st, m1)) = Some r
    \<and> (raw = raw_of records cid input raw_batch \<longrightarrow> receive_outcome sg records l k t st f cid input raw_batch r)"
proof (cases f)
  case (Builtin_framer hf)
  have "framer_ready sg hf" "mem_holds l k ((t + n) + storage_of st) m1"
    using ready m1 Builtin_framer by (auto simp: recv_ready_def ac_simps)
  from prepare_builtin_spec [OF this, of records cid input] obtain r
    where r: "prepare_builtin sg records st hf cid input m1 = Some r"
      "prepare_outcome sg records l k (t + n) st hf cid input r" by blast
  obtain x hf' st' m2 where x: "r = (x, hf', st', m2)" by (metis prod_cases4)
  show ?thesis
  proof (cases x)
    case (Inl e)
    with r(2) x have "mem_holds l k ((t + storage_of st') + n) m2" by (simp add: prepare_outcome_def ac_simps)
    then have "mem_holds l k (t + storage_of st') (drop_raw raw m2)"
      using raw mem_release_holds by (auto simp: drop_raw_def)
    with Inl r x Builtin_framer show ?thesis by (auto simp: prepare_outcome_def receive_outcome_def)
  next
    case (Inr msgs)
    with r(2) x raw have "mem_holds l k (t + storage_of st' + prepared_bytes \<lparr>pr_raw = raw, pr_messages = Some msgs\<rparr>) m2"
      by (auto simp: prepare_outcome_def prepared_bytes_def ac_simps)
    with Inr r x Builtin_framer show ?thesis by (auto simp: receive_outcome_def)
  qed
qed (use m1 raw in \<open>auto simp: receive_outcome_def prepared_bytes_def\<close>)

lemma prepare_receive_spec:
  assumes ready: "recv_ready sg l k t f st m"
  shows "\<exists>r. prepare_receive sg records st f cid input raw_batch m = Some r
    \<and> receive_outcome sg records l k t st f cid input raw_batch r"
proof (cases raw_batch)
  case False
  have "mem_holds l k (t + storage_of st + 0) m" using ready by (simp add: recv_ready_def)
  from prepare_receive_held [OF ready _ this, of None records cid input raw_batch] False show ?thesis
    by (simp add: prepare_receive_def raw_of_def)
next
  case True
  have m: "mem_holds l k (t + storage_of st) m" using ready by (simp add: recv_ready_def)
  show ?thesis
  proof (cases rule: raw_holds [OF m, of records cid input])
    case (1 e m1)
    with True show ?thesis by (simp add: prepare_receive_def receive_outcome_def)
  next
    case (2 m1)
    let ?raw = "Some \<lparr>rm_charge = length input + records, rm_id = cid, rm_data = input\<rparr>"
    have "?raw = None \<and> length input + records = 0 \<or> (\<exists>msg. ?raw = Some msg \<and> length input + records = rm_charge msg)"
      by simp
    from prepare_receive_held [OF ready this 2(2), of records cid input raw_batch] 2(1) True
    show ?thesis by (auto simp: prepare_receive_def raw_of_def)
  qed
qed

section \<open>Inputs that fit are accepted\<close>

definition unfailing :: "recv_mem \<Rightarrow> bool" where
  "unfailing m \<longleftrightarrow> m_allocs m = None"

definition retention_cost :: "nat \<Rightarrow> bytes list \<Rightarrow> nat" where
  "retention_cost records ms = sum_list (map (\<lambda>d. length d + records) ms)"

lemma retention_cost_simps [simp]:
  "retention_cost records [] = 0" "retention_cost records (d # ms) = length d + records + retention_cost records ms"
  "retention_cost records (ms @ ms') = retention_cost records ms + retention_cost records ms'"
  by (simp_all add: retention_cost_def)

lemma charges_cost: "\<forall>x\<in>set xs. retained_as records cid x \<Longrightarrow> charges_of xs = retention_cost records (map rm_data xs)"
  by (induction xs) (auto simp: retained_as_def)

lemma unfailing_simps [simp]:
  "unfailing m \<Longrightarrow> take_alloc m = (True, m)" "unfailing (mem_release n m) = unfailing m"
  by (simp_all add: unfailing_def take_alloc_def mem_release_def)

lemma mem_reserve_fits:
  assumes "mem_holds l k t m" and "unfailing m" and "k + t + n \<le> max_bytes l"
  shows "\<exists>m'. mem_reserve n m = (Charged n, m') \<and> unfailing m'"
proof -
  obtain b s where a: "m_account m = (b, s)" by (cases "m_account m")
  with assms have "n \<le> size_sub (max_bytes (rb_limits b)) (rb_used b)" by (auto simp: mem_holds_def)
  then obtain b' where "budget_acquire n b = Some b'" by (auto simp: budget_acquire_def Let_def not_less)
  with a assms(2) show ?thesis by (auto simp: mem_reserve_def Let_def unfailing_def take_alloc_def)
qed

lemma reserve_receive_fits:
  assumes "mem_holds l k t m" and "unfailing m" and "k + t + n \<le> max_bytes l"
  shows "\<exists>m'. reserve_receive n m = (Inr n, m') \<and> unfailing m' \<and> mem_holds l k (t + n) m'"
  using mem_reserve_fits [OF assms] reserve_receive_holds [OF assms(1), of n]
  by (fastforce simp: reserve_receive_def)

lemma retain_received_fits:
  assumes m: "mem_holds l k t m" "unfailing m" and fit: "k + t + (length d + records) \<le> max_bytes l"
    and "length d \<le> BUFFER_LIMIT"
  shows "\<exists>m'. retain_received records cid d m
      = (Inr \<lparr>rm_charge = length d + records, rm_id = cid, rm_data = d\<rparr>, m') \<and> unfailing m'
      \<and> mem_holds l k (t + (length d + records)) m'"
proof -
  have "\<not> length d > SIZE_MAX - records" using m(1) fit by (auto simp: mem_holds_def)
  with reserve_receive_fits [OF m fit] assms(4) show ?thesis
    by (auto simp: retain_received_def safe_data_buffer_def)
qed

lemma stage_messages_fits:
  "mem_holds l k t m \<Longrightarrow> unfailing m \<Longrightarrow> k + t + retention_cost records ms \<le> max_bytes l \<Longrightarrow>
     \<forall>d\<in>set ms. length d \<le> BUFFER_LIMIT \<Longrightarrow>
     \<exists>staged' m'. stage_messages records cid ms staged m = (None, staged', m') \<and> unfailing m'"
proof (induction ms arbitrary: t m staged)
  case (Cons d ms)
  have "k + t + (length d + records) \<le> max_bytes l" "length d \<le> BUFFER_LIMIT" using Cons.prems(3,4) by auto
  from retain_received_fits [OF Cons.prems(1,2) this] obtain m1 where
    m1: "retain_received records cid d m = (Inr \<lparr>rm_charge = length d + records, rm_id = cid, rm_data = d\<rparr>, m1)"
      "unfailing m1" "mem_holds l k (t + (length d + records)) m1" by blast
  from Cons.IH [OF m1(3,2)] Cons.prems(3,4) m1(1,2) show ?case by (simp add: ac_simps)
qed simp

lemma grow_work_fits:
  assumes m: "mem_holds l k t m" "unfailing m" and fit: "k + t + needed \<le> max_bytes l"
  shows "\<exists>w m'. grow_work limit needed work charge m = (Inr w, m') \<and> unfailing m'"
proof (cases "needed > hf_capacity work")
  case False
  with m show ?thesis by (auto simp: grow_work_def)
next
  case True
  define target where "target = min limit (max needed
      (if hf_capacity work > limit div 2 then limit else hf_capacity work * 2))"
  have "unfailing m'" if "mem_reserve target m = (r, m')" for r m'
    using that m(2) by (auto simp: mem_reserve_def Let_def unfailing_def split: prod.splits reservation.splits)
  moreover have "\<not> (\<exists>e m'. mem_reserve target m = (Thrown e, m'))"
    using m(2) by (cases "m_account m") (auto simp: mem_reserve_def Let_def split: prod.splits option.splits)
  moreover have "mem_holds l k t m'" if "mem_reserve target m = (Refused, m')" for m'
    using mem_reserve_holds [OF m(1) that] by simp
  ultimately show ?thesis
    using reserve_receive_fits [OF _ _ fit] m True unfolding grow_work_def Let_def target_def [symmetric]
    by (cases "mem_reserve target m"; cases "fst (mem_reserve target m)") fastforce+
qed

lemma stage_chunk_fits:
  assumes ok: "staging_ok sg records limit cid l k t s" and u: "unfailing (sg_mem s)"
    and len: "hf_size (sg_work s) + length chunk \<le> limit" "length chunk \<le> 4096"
    and p: "builtin_push sg (hf_framer (sg_work s)) chunk = Some (f, ms, None)"
    and fit: "k + t + charges_of (sg_staged s) + 2 * limit + retention_cost records ms \<le> max_bytes l"
    and ms: "\<forall>d\<in>set ms. length d \<le> BUFFER_LIMIT"
  shows "\<exists>s'. stage_chunk sg records limit cid chunk s = Some (None, s') \<and> unfailing (sg_mem s')"
proof -
  let ?w = "sg_work s" and ?need = "hf_size (sg_work s) + length chunk"
  have s: "hf_capacity ?w = sg_charge s" "hf_capacity ?w \<le> limit"
    "mem_holds l k ((t + charges_of (sg_staged s)) + sg_charge s) (sg_mem s)"
    using ok by (auto simp: staging_ok_def ac_simps)
  have "k + (t + charges_of (sg_staged s) + sg_charge s) + ?need \<le> max_bytes l" using fit s(1,2) len(1) by simp
  from grow_work_fits [OF s(3) u this, of limit ?w "sg_charge s"] obtain work charge m1
    where g: "grow_work limit ?need ?w (sg_charge s) (sg_mem s) = (Inr (work, charge), m1)" "unfailing m1"
    by (metis prod.exhaust_sel)
  have w: "hf_framer work = hf_framer ?w" "charge \<le> limit" "mem_holds l k (t + charges_of (sg_staged s) + charge) m1"
    using grow_work_holds [OF s(3) s(1) [symmetric] s(2) len(1) g(1)] by auto
  have "k + (t + charges_of (sg_staged s) + charge) + retention_cost records ms \<le> max_bytes l"
    using fit w(2) by simp
  from stage_messages_fits [OF w(3) g(2) this ms, of cid "sg_staged s"] p g(1) w(1) show ?thesis
    by (auto simp: stage_chunk_def)
qed

text \<open>The new messages \<open>M\<close> of a clean stream \<open>h\<close> continued by the input are known beforehand.\<close>

lemma prepare_loop_accepts:
  "staging_ok sg records limit cid l k t s \<Longrightarrow> unfailing (sg_mem s) \<Longrightarrow> builtin_tracks sg (hf_framer (sg_work s)) h \<Longrightarrow>
     builtin_clean sg (builtin_cfg (hf_framer (sg_work s))) (h @ input) \<Longrightarrow>
     builtin_room (builtin_cfg (hf_framer (sg_work s))) input \<Longrightarrow>
     builtin_decode sg (builtin_cfg (hf_framer (sg_work s))) (h @ input)
       = builtin_decode sg (builtin_cfg (hf_framer (sg_work s))) h @ M \<Longrightarrow>
     builtin_cap (hf_framer (sg_work s)) < limit \<Longrightarrow>
     k + t + charges_of (sg_staged s) + 2 * limit + retention_cost records M \<le> max_bytes l \<Longrightarrow>
     \<forall>d\<in>set M. length d \<le> BUFFER_LIMIT \<Longrightarrow>
     \<exists>s'. prepare_loop sg records limit cid input s = Some (None, s')"
proof (induction "length input" arbitrary: input s h M rule: less_induct)
  case less
  let ?c = "builtin_cfg (hf_framer (sg_work s))"
  show ?case
  proof (cases "input = []")
    case False
    have used: "hf_size (sg_work s) < limit"
      using less.prems(1,7) bif.buf_le_cap [of sg "hf_framer (sg_work s)"]
      by (simp add: staging_ok_def staging_ready_def hf_size_def)
    define n where "n = min (length input) (min (limit - hf_size (sg_work s)) 4096)"
    have n: "hf_size (sg_work s) + length (take n input) \<le> limit" "length (take n input) \<le> 4096"
      "length (drop n input) < length input" using False used by (auto simp: n_def)
    have cl: "builtin_clean sg ?c ((h @ take n input) @ drop n input)" using less.prems(4) by simp
    note cl' = bis.clean_prefix [OF cl]
    have room: "builtin_room ?c (take n input)" "builtin_room ?c (drop n input)"
      using less.prems(5) by (auto elim: builtin_room_mono)
    from bis.push_decodes [OF less.prems(3) cl' room(1)] obtain f ms where
      p: "builtin_push sg (hf_framer (sg_work s)) (take n input) = Some (f, ms, None)" "builtin_cfg f = ?c"
        "builtin_tracks sg f (h @ take n input)"
        "builtin_decode sg ?c (h @ take n input) = builtin_decode sg ?c h @ ms"
      by blast
    from bis.push_decodes [OF p(3), of "drop n input"] cl room(2) p(2) obtain M' where
      M': "builtin_decode sg ?c (h @ input) = builtin_decode sg ?c (h @ take n input) @ M'" by auto
    then have M: "M = ms @ M'" using less.prems(6) p(4) by simp
    have "k + t + charges_of (sg_staged s) + 2 * limit + retention_cost records ms \<le> max_bytes l"
      "\<forall>d\<in>set ms. length d \<le> BUFFER_LIMIT"
      using less.prems(8,9) M by auto
    from stage_chunk_fits [OF less.prems(1,2) n(1,2) p(1) this] obtain s1 where
      c: "stage_chunk sg records limit cid (take n input) s = Some (None, s1)" "unfailing (sg_mem s1)" by blast
    from stage_chunk_spec [OF less.prems(1) n(1,2)] c(1) p(1) have
      s1: "staging_ok sg records limit cid l k t s1" "builtin_same (hf_framer (sg_work s)) (hf_framer (sg_work s1))"
        "hf_framer (sg_work s1) = f" "map rm_data (sg_staged s1) = map rm_data (sg_staged s) @ ms"
      by auto
    have ch: "charges_of (sg_staged s1) = charges_of (sg_staged s) + retention_cost records ms"
      using less.prems(1) s1(1,4) charges_cost [of "sg_staged s" records cid] charges_cost [of "sg_staged s1" records cid]
      by (simp add: staging_ok_def)
    have "\<exists>s'. prepare_loop sg records limit cid (drop n input) s1 = Some (None, s')"
    proof (rule less.hyps [OF n(3) s1(1) c(2)])
      show "builtin_tracks sg (hf_framer (sg_work s1)) (h @ take n input)" using p(3) s1(3) by simp
      show "builtin_decode sg (builtin_cfg (hf_framer (sg_work s1))) ((h @ take n input) @ drop n input)
        = builtin_decode sg (builtin_cfg (hf_framer (sg_work s1))) (h @ take n input) @ M'"
        using M' p(2) s1(3) by simp
      show "builtin_cap (hf_framer (sg_work s1)) < limit" using less.prems(7) builtin_same_sel [OF s1(2)] by simp
      show "k + t + charges_of (sg_staged s1) + 2 * limit + retention_cost records M' \<le> max_bytes l"
        using less.prems(8) M ch by simp
    qed (use cl room(2) p(2) s1(3) less.prems(9) M in simp_all)
    with c(1) False used show ?thesis
      by (simp add: prepare_loop.simps [of sg records limit cid input s] Let_def not_le flip: n_def)
  qed simp
qed

lemma stage_input_accepts:
  assumes f: "framer_ready sg f" and cap: "hf_capacity f \<le> max_frame_bytes l"
    and m: "mem_holds l k (t + storage_of st + hf_size f) m" "unfailing m"
    and tr: "builtin_tracks sg (builtin_on_message (Some quiet_callback) (hf_framer f)) h"
    and stream: "builtin_clean sg (builtin_cfg (hf_framer f)) (h @ input)" "builtin_room (builtin_cfg (hf_framer f)) input"
      "builtin_decode sg (builtin_cfg (hf_framer f)) (h @ input) = builtin_decode sg (builtin_cfg (hf_framer f)) h @ M"
    and lim: "builtin_cap (hf_framer f) < max_frame_bytes l"
      "k + t + storage_of st + 2 * max_frame_bytes l + retention_cost records M \<le> max_bytes l"
      "\<forall>d\<in>set M. length d \<le> BUFFER_LIMIT"
  shows "\<exists>r x. stage_input sg records (max_frame_bytes l) st f cid input (hf_size f) m = Some (Inr r, x)"
proof -
  let ?q = "builtin_on_message (Some quiet_callback) (hf_framer f)"
  have cfg: "builtin_cfg ?q = builtin_cfg (hf_framer f)"
    by (cases "hf_framer f") (simp_all add: ln_set_on_message_def lp_set_on_message_def pk_set_on_message_def
        line_config.defs lp_config.defs packet_config.defs)
  define s where "s = \<lparr>sg_work = (hf_clone f)\<lparr>hf_framer := ?q\<rparr>, sg_charge = hf_size f, sg_staged = [], sg_mem = m\<rparr>"
  have s: "hf_framer (sg_work s) = ?q" "sg_staged s = []" "sg_mem s = m" by (simp_all add: s_def)
  have "staging_ok sg records (max_frame_bytes l) cid l k (t + storage_of st) s"
    using f m cap by (auto simp: staging_ok_def s_def staging_ready_clone framer_ready_def hf_clone_def hf_size_def)
  from prepare_loop_accepts [OF this, unfolded s cfg, OF m(2) tr stream] lim
  obtain s' where "prepare_loop sg records (max_frame_bytes l) cid input s = Some (None, s')" by auto
  then show ?thesis using m(2) by (simp add: stage_input_def s_def hf_clone_def)
qed

text \<open>What the budget must have left for an input: the raw copy, the framer's storage three times, and the messages.\<close>

definition receive_need :: "recv_limits \<Rightarrow> nat \<Rightarrow> bytes \<Rightarrow> bool \<Rightarrow> bytes list \<Rightarrow> nat" where
  "receive_need l records input raw_batch M =
     (if raw_batch then length input + records else 0) + 3 * max_frame_bytes l + retention_cost records M"

lemma claim_storage_fits:
  assumes "mem_holds l k (t + storage_of st) m" "unfailing m" "k + (t + storage_of st) + capacity \<le> max_bytes l"
  shows "\<exists>st' m'. claim_storage capacity st m = (Inr st', m') \<and> unfailing m' \<and> mem_holds l k (t + storage_of st') m'
    \<and> storage_of st' \<le> storage_of st + capacity"
proof (cases "frame_storage st = None \<and> capacity > 0")
  case True
  with reserve_receive_fits [OF assms] show ?thesis by (auto simp: claim_storage_def storage_of_def)
next
  case False
  with assms show ?thesis by (auto simp: claim_storage_def)
qed

lemma prepare_builtin_accepts:
  assumes f: "framer_ready sg f" and cap: "hf_capacity f \<le> max_frame_bytes l"
    and m: "mem_holds l k (t + storage_of st) m" "unfailing m"
    and tr: "builtin_tracks sg (builtin_on_message (Some quiet_callback) (hf_framer f)) h"
    and stream: "builtin_clean sg (builtin_cfg (hf_framer f)) (h @ input)" "builtin_room (builtin_cfg (hf_framer f)) input"
      "builtin_decode sg (builtin_cfg (hf_framer f)) (h @ input) = builtin_decode sg (builtin_cfg (hf_framer f)) h @ M"
    and lim: "builtin_cap (hf_framer f) < max_frame_bytes l"
      "k + t + storage_of st + 3 * max_frame_bytes l + retention_cost records M \<le> max_bytes l"
      "\<forall>d\<in>set M. length d \<le> BUFFER_LIMIT"
  shows "\<exists>r x. prepare_builtin sg records st f cid input m = Some (Inr r, x)"
proof -
  have "k + (t + storage_of st) + hf_capacity f \<le> max_bytes l" using lim(2) cap by simp
  from claim_storage_fits [OF m this] obtain st1 m1 where
    1: "claim_storage (hf_capacity f) st m = (Inr st1, m1)" "unfailing m1" "mem_holds l k (t + storage_of st1) m1"
      "storage_of st1 \<le> storage_of st + hf_capacity f" by blast
  have "hf_size f \<le> max_frame_bytes l" using f cap by (simp add: framer_ready_def)
  with 1(4) lim(2) cap have "k + (t + storage_of st1) + hf_size f \<le> max_bytes l" by simp
  from reserve_receive_fits [OF 1(3,2) this] obtain m2 where
    2: "reserve_receive (hf_size f) m1 = (Inr (hf_size f), m2)" "unfailing m2"
      "mem_holds l k (t + storage_of st1 + hf_size f) m2" by blast
  have "k + t + storage_of st1 + 2 * max_frame_bytes l + retention_cost records M \<le> max_bytes l"
    using lim(2) cap 1(4) by simp
  from stage_input_accepts [OF f cap 2(3,2) tr stream lim(1) this lim(3)] 1(1) 2(1) cap show ?thesis
    by (simp add: prepare_builtin_def mem_holds_limits [OF m(1)])
qed

text \<open>The messages of a successful call are those of the stream.\<close>

lemma prepare_outcome_stream:
  assumes out: "prepare_outcome sg records l k t st f cid input (Inr msgs, f', st', m')"
    and tr: "builtin_tracks sg (builtin_on_message (Some quiet_callback) (hf_framer f)) h"
    and stream: "builtin_clean sg (builtin_cfg (hf_framer f)) (h @ input)" "builtin_room (builtin_cfg (hf_framer f)) input"
  shows "builtin_decode sg (builtin_cfg (hf_framer f)) (h @ input)
      = builtin_decode sg (builtin_cfg (hf_framer f)) h @ map rm_data msgs"
    and "builtin_tracks sg (builtin_on_message (Some quiet_callback) (hf_framer f')) (h @ input)"
    and "builtin_cfg (hf_framer f') = builtin_cfg (hf_framer f)"
proof -
  let ?q = "builtin_on_message (Some quiet_callback) (hf_framer f)"
  from out obtain ds work where ds: "concat ds = input"
    "push_all (builtin_push sg) ?q ds = Some (work, map rm_data msgs, None)"
    "hf_framer f' = builtin_on_message (builtin_callback (hf_framer f)) work"
    by (auto simp: prepare_outcome_def)
  have "length d \<le> length input" if "d \<in> set ds" for d
    using that member_le_sum [of "length d" "map length ds"] by (simp add: length_concat flip: ds(1))
  then have "\<forall>d\<in>set ds. builtin_room (builtin_cfg ?q) d" using stream(2) builtin_room_mono by auto
  from bis.push_all_decodes [OF tr _ this] stream(1) ds have
    w: "builtin_cfg work = builtin_cfg (hf_framer f)" "builtin_tracks sg work (h @ input)"
      "builtin_decode sg (builtin_cfg (hf_framer f)) (h @ input)
        = builtin_decode sg (builtin_cfg (hf_framer f)) h @ map rm_data msgs"
    by auto
  then show "builtin_decode sg (builtin_cfg (hf_framer f)) (h @ input)
      = builtin_decode sg (builtin_cfg (hf_framer f)) h @ map rm_data msgs"
    and "builtin_tracks sg (builtin_on_message (Some quiet_callback) (hf_framer f')) (h @ input)"
    and "builtin_cfg (hf_framer f') = builtin_cfg (hf_framer f)"
    using ds(3) builtin_on_message_own [OF builtin_tracks_quiet [OF w(2)]] by simp_all
qed

section \<open>Theorems\<close>

text \<open>
  C24: A failed receive is a transaction that never happened. Whatever exception ends \<open>prepare_receive\<close> (a byte
  or frame limit, a failed allocation at any point, a message too large to retain), the framer is as it was
  before the call, every byte the call reserved for the raw copy, the clone and the staged messages has been
  given back, and the only charge that may remain is the one for the storage the framer already had.
\<close>

theorem prepare_receive_transactional:
  assumes "recv_ready sg l k t f st m"
    and "prepare_receive sg records st f cid input raw_batch m = Some (Inl e, f', st', m')"
  shows "f' = f \<and> mem_holds l k (t + storage_of st') m'
    \<and> (st' = st \<or> (\<exists>hf. f = Builtin_framer hf \<and> frame_storage st = None \<and> frame_storage st' = Some (hf_capacity hf)
                     \<and> hf_capacity hf \<le> max_frame_bytes l))"
  using prepare_receive_spec [OF assms(1), of records cid input raw_batch] assms(2)
  by (auto simp: receive_outcome_def)

text \<open>A length-prefixed session on a small budget, with two whole frames and the start of a third in one input.\<close>

definition demo_framer :: held_framer where
  "demo_framer = \<lparr>hf_framer = LengthF \<lparr>lp_prefix_bytes = 1, lp_endian = Big, lp_max_length = 10,
     lp_length_includes_prefix = False, lp_buffer = [], lp_on_message = None\<rparr>, hf_capacity = 0\<rparr>"

definition demo_mem :: "nat \<Rightarrow> recv_mem" where
  "demo_mem bytes = \<lparr>m_account =
     (\<lparr>rb_limits = \<lparr>max_bytes = bytes, max_frame_bytes = 20, max_sessions = 2\<rparr>, rb_used = 0, rb_peak = 0,
       rb_sessions = 1, rb_overflows = 0, rb_overflow_bytes = 0, rb_reasons = [0, 0, 0, 0]\<rparr>, new_scope),
     m_allocs = None\<rparr>"

definition demo_input :: bytes where
  "demo_input = [2, 7, 8, 1, 9, 5, 1]"

definition prepared_view ::
    "((recv_error + prepared) \<times> 'u recv_framer \<times> recv_state \<times> recv_mem) option \<Rightarrow> (recv_error + bytes list option) option" where
  "prepared_view r =
     map_option (\<lambda>(x, _). case x of Inl e \<Rightarrow> Inl e | Inr p \<Rightarrow> Inr (map_option (map rm_data) (pr_messages p))) r"

lemma prepared_view_Inl: "prepared_view r = Some (Inl e) \<Longrightarrow> \<exists>f st m. r = Some (Inl e, f, st, m)"
  by (cases r) (auto simp: prepared_view_def split: sum.splits)

lemma prepared_view_Inr:
  "prepared_view r = Some (Inr ms) \<Longrightarrow> \<exists>p f st m. r = Some (Inr p, f, st, m) \<and> map_option (map rm_data) (pr_messages p) = ms"
  by (cases r) (auto simp: prepared_view_def split: sum.splits)

lemmas receive_eval =
  prepared_view_def prepare_receive_def prepare_builtin_def stage_input_def stage_chunk_def claim_storage_def drop_storage_def
  drop_raw_def release_messages_def grow_work_def retain_received_def safe_data_buffer_def reserve_receive_def
  mem_reserve_def mem_release_def mem_limits_def take_alloc_def budget_acquire_def hf_size_def hf_clone_def
  hf_reserve_exact_def hf_commit_def new_scope_def demo_framer_def demo_mem_def demo_input_def quiet_callback_def
  lp_push_bytes_def lp_set_on_message_def lp_reset_def read_length_def size_add_def SIZE_MAX_def BUFFER_LIMIT_def Let_def

lemma demo_ready:
  "100 \<le> bytes \<Longrightarrow> bytes \<le> SIZE_MAX \<Longrightarrow>
     recv_ready True \<lparr>max_bytes = bytes, max_frame_bytes = 20, max_sessions = 2\<rparr> 0 0
       (Builtin_framer demo_framer :: unit recv_framer) \<lparr>frame_storage = None\<rparr> (demo_mem bytes)"
  by (simp add: recv_ready_def framer_ready_def demo_framer_def demo_mem_def mem_holds_def storage_of_def new_scope_def
      lp_inv_def lp_cap_def hf_size_def SIZE_MAX_def)

theorem prepare_receive_transactional_witness:
  "\<exists>f' st' m'. prepare_receive True 40 \<lparr>frame_storage = None\<rparr> (Builtin_framer demo_framer :: unit recv_framer) 0
      demo_input True (demo_mem 100) = Some (Inl (Receive_overflow ByteLimit), f', st', m')
    \<and> f' = Builtin_framer demo_framer \<and> rb_used (fst (m_account m')) = storage_of st'"
proof -
  let ?r = "prepare_receive True 40 \<lparr>frame_storage = None\<rparr> (Builtin_framer demo_framer :: unit recv_framer) 0
      demo_input True (demo_mem 100)"
  have "prepared_view ?r = Some (Inl (Receive_overflow ByteLimit))"
    by (simp add: receive_eval lp_loop.simps prepare_loop.simps)
  then obtain f' st' m' where r: "?r = Some (Inl (Receive_overflow ByteLimit), f', st', m')"
    using prepared_view_Inl by blast
  have "(100 :: nat) \<le> 100" "100 \<le> SIZE_MAX" by (simp_all add: SIZE_MAX_def)
  from prepare_receive_transactional [OF demo_ready [OF this] r] r show ?thesis
    by (auto simp: mem_holds_def split: prod.splits)
qed

text \<open>
  C39: A successful receive is the plain push. \<open>prepare_receive\<close> always returns, and when it succeeds on a
  built-in framer, the framer is in the state that pushing the input (cut into chunks of at most 4096
  bytes) would have left it in, the staged messages are exactly those the pushes would have handed to the
  callback, in order, each with its own charge, the framer's storage fits the frame limit and is charged to
  the byte, and the scope holds those charges and nothing more.
\<close>

theorem prepare_receive_equals_push:
  assumes "recv_ready sg l k t (Builtin_framer f :: 'u recv_framer) st m"
  shows "\<exists>r f' st' m'. prepare_receive sg records st (Builtin_framer f :: 'u recv_framer) cid input raw_batch m
      = Some (r, f', st', m')
    \<and> (\<forall>p. r = Inr p \<longrightarrow>
         (\<exists>hf msgs ds work. f' = Builtin_framer hf \<and> pr_messages p = Some msgs \<and> concat ds = input
            \<and> (\<forall>d\<in>set ds. length d \<le> 4096)
            \<and> push_all (builtin_push sg) (builtin_on_message (Some quiet_callback) (hf_framer f)) ds
                = Some (work, map rm_data msgs, None)
            \<and> hf_framer hf = builtin_on_message (builtin_callback (hf_framer f)) work
            \<and> (\<forall>x\<in>set msgs. retained_as records cid x)
            \<and> hf_size hf \<le> hf_capacity hf \<and> hf_capacity hf \<le> max_frame_bytes l
            \<and> frame_storage st' = Some (hf_capacity hf))
         \<and> pr_raw p = raw_of records cid input raw_batch
         \<and> mem_holds l k (t + storage_of st' + prepared_bytes p) m')"
proof -
  from prepare_receive_spec [OF assms, of records cid input raw_batch] obtain r f' st' m' where
    r: "prepare_receive sg records st (Builtin_framer f :: 'u recv_framer) cid input raw_batch m = Some (r, f', st', m')"
      "receive_outcome sg records l k t st (Builtin_framer f) cid input raw_batch (r, f', st', m')"
    by auto
  show ?thesis
  proof (cases r)
    case (Inl e)
    with r(1) show ?thesis by auto
  next
    case (Inr p)
    with r(2) obtain hf msgs t0 m0 where
      o: "f' = Builtin_framer hf" "pr_messages p = Some msgs" "pr_raw p = raw_of records cid input raw_batch"
        "mem_holds l k (t + storage_of st' + prepared_bytes p) m'"
        "prepare_outcome sg records l k t0 st f cid input (Inr msgs, hf, st', m0)"
      by (auto simp: receive_outcome_def)
    from o(5) obtain ds work where "concat ds = input" "\<forall>d\<in>set ds. length d \<le> 4096"
      "push_all (builtin_push sg) (builtin_on_message (Some quiet_callback) (hf_framer f)) ds
        = Some (work, map rm_data msgs, None)"
      "hf_framer hf = builtin_on_message (builtin_callback (hf_framer f)) work"
      by (auto simp: prepare_outcome_def)
    with o Inr r(1) show ?thesis by (fastforce simp: prepare_outcome_def framer_ready_def)
  qed
qed

theorem prepare_receive_equals_push_witness:
  "\<exists>p f' st' m'. prepare_receive True 40 \<lparr>frame_storage = None\<rparr> (Builtin_framer demo_framer :: unit recv_framer) 0
      demo_input False (demo_mem 1000) = Some (Inr p, f', st', m')
    \<and> map_option (map rm_data) (pr_messages p) = Some [[7, 8], [9]]
    \<and> rb_used (fst (m_account m')) = storage_of st' + prepared_bytes p \<and> storage_of st' \<le> 20"
proof -
  let ?r = "prepare_receive True 40 \<lparr>frame_storage = None\<rparr> (Builtin_framer demo_framer :: unit recv_framer) 0
      demo_input False (demo_mem 1000)"
  have "prepared_view ?r = Some (Inr (Some [[7, 8], [9]]))"
    by (simp add: receive_eval lp_loop.simps prepare_loop.simps)
  from prepared_view_Inr [OF this] obtain p f' st' m' where r: "?r = Some (Inr p, f', st', m')" "map_option (map rm_data) (pr_messages p) = Some [[7, 8], [9]]"
    by auto
  have "(100 :: nat) \<le> 1000" "1000 \<le> SIZE_MAX" by (simp_all add: SIZE_MAX_def)
  from prepare_receive_equals_push [OF demo_ready [OF this], of 40 0 demo_input False] r show ?thesis
    by (auto simp: mem_holds_def storage_of_def split: prod.splits)
qed

text \<open>
  What fits is accepted. If the bytes continue a clean stream (one the framer has no reason to drop data
  from), the framer's own limit is below the frame limit, allocations succeed, and the budget has room for
  the raw copy, three times the frame limit and the new messages with their records, then the receive
  succeeds and stages exactly the new messages of the stream.
\<close>

lemma prepare_receive_accepts:
  assumes ready: "recv_ready sg l k t (Builtin_framer f :: 'u recv_framer) st m" and u: "unfailing m"
    and tr: "builtin_tracks sg (builtin_on_message (Some quiet_callback) (hf_framer f)) h"
    and stream: "builtin_clean sg (builtin_cfg (hf_framer f)) (h @ input)" "builtin_room (builtin_cfg (hf_framer f)) input"
      "builtin_decode sg (builtin_cfg (hf_framer f)) (h @ input) = builtin_decode sg (builtin_cfg (hf_framer f)) h @ M"
    and lim: "builtin_cap (hf_framer f) < max_frame_bytes l" "hf_capacity f \<le> max_frame_bytes l"
      "k + t + storage_of st + receive_need l records input raw_batch M \<le> max_bytes l"
      "\<forall>d\<in>set M. length d \<le> BUFFER_LIMIT" "length input \<le> BUFFER_LIMIT"
  shows "\<exists>p msgs f' st' m'. prepare_receive sg records st (Builtin_framer f :: 'u recv_framer) cid input raw_batch m
      = Some (Inr p, f', st', m') \<and> pr_messages p = Some msgs \<and> map rm_data msgs = M"
proof -
  have f: "framer_ready sg f" and m: "mem_holds l k (t + storage_of st) m"
    using ready by (auto simp: recv_ready_def)
  define n where "n = (if raw_batch then length input + records else 0)"
  have need: "k + (t + storage_of st) + n \<le> max_bytes l"
    "k + (t + n) + storage_of st + 3 * max_frame_bytes l + retention_cost records M \<le> max_bytes l"
    using lim(3) by (auto simp: receive_need_def n_def)
  obtain raw m1 where raw: "(if raw_batch then (case retain_received records cid input m of
                                 (Inl e, m1) \<Rightarrow> (Inl e, m1) | (Inr msg, m1) \<Rightarrow> (Inr (Some msg), m1))
            else (Inr None, m)) = (Inr raw, m1)" "unfailing m1" "mem_holds l k (t + storage_of st + n) m1"
    using retain_received_fits [OF m u, of input records cid] need(1) lim(5) m u by (cases raw_batch) (auto simp: n_def)
  have "mem_holds l k ((t + n) + storage_of st) m1" using raw(3) by (simp add: ac_simps)
  note m1 = this raw(2)
  from prepare_builtin_accepts [OF f lim(2) m1 tr stream lim(1) need(2) lim(4), of cid] obtain msgs f' st' m'
    where b: "prepare_builtin sg records st f cid input m1 = Some (Inr msgs, f', st', m')" by auto
  from prepare_builtin_spec [OF f m1(1), of records cid input] b
  have "prepare_outcome sg records l k (t + n) st f cid input (Inr msgs, f', st', m')" by auto
  from prepare_outcome_stream(1) [OF this tr stream(1,2)] stream(3) have "map rm_data msgs = M" by simp
  with raw(1) b show ?thesis by (simp add: prepare_receive_def)
qed

end
