(* ===== verification/Client_Receive.thy ===== *)
theory Client_Receive
  imports Receive_Staging
begin

text \<open>
  The receive side of the client wrapper (\<open>TcpClient::Impl\<close> in \<open>src/wirestead/wrapper/tcp_client/tcp_client.cc\<close>):
  what a chunk of bytes, a link state or the batch timer leads to, from the transport's callback to the
  user's. With it the gate that admits callbacks (\<open>CallbackGate\<close>,
  \<open>src/wirestead/wrapper/callback_guard.hpp\<close>) and the life-cycle events (\<open>src/wirestead/wrapper/lifecycle_events.hpp\<close>).

  Handlers run one after the other on the channel's strand. Of the user's callbacks only their presence
  matters, and whether one calls \<open>stop()\<close>: \<open>stops\<close> decides that from the calls made so far, the current one
  last. A framer that is not built in is a parameter: \<open>cpush\<close> gives its state and the messages it finds,
  \<open>creset\<close> its \<open>reset()\<close>.
\<close>

section \<open>State\<close>

datatype user_event =
    On_data bytes
  | On_data_batch "bytes list"
  | On_message bytes
  | On_message_batch "bytes list"
  | On_connect
  | On_disconnect
  | On_error

record callback_gate =
  cg_closed :: bool
  cg_generation :: "64 word"

record lifecycle =
  lc_connected :: bool
  lc_terminal :: bool

record handlers =
  h_data :: bool
  h_data_batch :: bool
  h_message :: bool
  h_message_batch :: bool
  h_connect :: bool
  h_disconnect :: bool
  h_error :: bool

text \<open>
  \<open>rc_registered\<close> are the generations for which handlers have been registered on the channel; \<open>rc_waits\<close> are the waits on the batch timer that have not completed, each with its generation and whether it
  is still live; cancelling a wait cannot retract an expiry that is already queued. \<open>rc_log\<close> is the sequence
  of user callbacks, \<open>rc_fails\<close> the number of calls of the transport's \<open>fail_receive\<close>, \<open>rc_escaped\<close> the
  exceptions that leave \<open>on_bytes\<close> (the transport logs them), \<open>rc_results\<close> the values given to the promises of
  \<open>start()\<close>.
\<close>

record 'u recv_client =
  rc_gate :: callback_gate
  rc_generation :: "64 word"
  rc_registered :: "64 word list"
  rc_started :: bool
  rc_stop_requested :: bool
  rc_alive :: bool
  rc_framer :: "'u recv_framer"
  rc_attached :: bool
  rc_receive :: recv_state
  rc_mem :: recv_mem
  rc_data_queue :: "recv_message list"
  rc_message_queue :: "recv_message list"
  rc_max_batch :: nat
  rc_handlers :: handlers
  rc_has_timer :: bool
  rc_waits :: "(64 word \<times> bool) list"
  rc_lifecycle :: lifecycle
  rc_promises :: nat
  rc_results :: "bool list"
  rc_log :: "user_event list"
  rc_fails :: nat
  rc_escaped :: "exn list"

definition has_framer :: "'u recv_client \<Rightarrow> bool" where
  "has_framer c = (case rc_framer c of No_framer \<Rightarrow> False | _ \<Rightarrow> True)"

section \<open>Gate and life-cycle events\<close>

definition gate_enter :: "64 word \<Rightarrow> callback_gate \<Rightarrow> bool" where
  "gate_enter generation g \<longleftrightarrow> \<not> (cg_closed g \<or> generation \<noteq> cg_generation g)"

definition gate_close :: "callback_gate \<Rightarrow> callback_gate" where
  "gate_close g = g\<lparr>cg_closed := True\<rparr>"

definition open_new_generation :: "callback_gate \<Rightarrow> callback_gate" where
  "open_new_generation g = g\<lparr>cg_closed := False, cg_generation := cg_generation g + 1\<rparr>"

definition lifecycle_reset :: "lifecycle \<Rightarrow> lifecycle" where
  "lifecycle_reset lc = lc\<lparr>lc_connected := False, lc_terminal := False\<rparr>"

text \<open>The flags of the returned notification: disconnect, error.\<close>

definition lifecycle_observe :: "link_state \<Rightarrow> bool \<Rightarrow> lifecycle \<Rightarrow> (bool \<times> bool) \<times> lifecycle" where
  "lifecycle_observe state ready lc =
     (let lost = lc_connected lc \<and> \<not> ready;
          lc1 = lc\<lparr>lc_connected := ready\<rparr>;
          lc2 = (if ready then lc1\<lparr>lc_terminal := False\<rparr> else lc1);
          error = (state = LinkError \<and> \<not> lc_terminal lc2)
      in ((lost, error), if error then lc2\<lparr>lc_terminal := True\<rparr> else lc2))"

section \<open>Shared steps\<close>

definition fulfill_all :: "bool \<Rightarrow> 'u recv_client \<Rightarrow> 'u recv_client" where
  "fulfill_all v c = c\<lparr>rc_results := rc_results c @ replicate (rc_promises c) v, rc_promises := 0\<rparr>"

text \<open>\<open>stop()\<close> up to the point where a caller on the channel's own thread returns.\<close>

definition rc_request_stop :: "'u recv_client \<Rightarrow> 'u recv_client" where
  "rc_request_stop c =
     fulfill_all False (c\<lparr>rc_gate := gate_close (rc_gate c), rc_stop_requested := True, rc_started := False\<rparr>)"

definition invoke_user ::
    "(user_event list \<Rightarrow> bool) \<Rightarrow> bool \<Rightarrow> user_event \<Rightarrow> 'u recv_client \<Rightarrow> 'u recv_client" where
  "invoke_user stops registered ev c =
     (if \<not> registered then c
      else let c1 = c\<lparr>rc_log := rc_log c @ [ev]\<rparr> in if stops (rc_log c1) then rc_request_stop c1 else c1)"

definition admits :: "64 word \<Rightarrow> 'u recv_client \<Rightarrow> bool" where
  "admits generation c = gate_enter generation (rc_gate c)"

definition drop_messages :: "recv_message list \<Rightarrow> 'u recv_client \<Rightarrow> 'u recv_client" where
  "drop_messages msgs c = c\<lparr>rc_mem := release_messages msgs (rc_mem c)\<rparr>"

definition clear_queues :: "'u recv_client \<Rightarrow> 'u recv_client" where
  "clear_queues c =
     (let c1 = (drop_messages (rc_data_queue c) c)\<lparr>rc_data_queue := []\<rparr>
      in (drop_messages (rc_message_queue c1) c1)\<lparr>rc_message_queue := []\<rparr>)"

definition reset_receive :: "('u \<Rightarrow> 'u) \<Rightarrow> 'u recv_client \<Rightarrow> 'u recv_client" where
  "reset_receive creset c =
     (case recv_reset creset (rc_framer c) (rc_receive c) (rc_mem c) of
        (f, st, m) \<Rightarrow> c\<lparr>rc_framer := f, rc_receive := st, rc_mem := m\<rparr>)"

definition schedule_batch_timer :: "64 word \<Rightarrow> 'u recv_client \<Rightarrow> 'u recv_client" where
  "schedule_batch_timer generation c =
     (if \<not> rc_has_timer c then c
      else c\<lparr>rc_waits := map (\<lambda>(g, live). (g, False)) (rc_waits c) @ [(generation, True)]\<rparr>)"

definition cancel_batch_timer :: "'u recv_client \<Rightarrow> 'u recv_client" where
  "cancel_batch_timer c = c\<lparr>rc_waits := map (\<lambda>(g, live). (g, False)) (rc_waits c)\<rparr>"

section \<open>Batches\<close>

text \<open>A batch lives until its callback has returned; then its charges are released.\<close>

definition flush_data :: "(user_event list \<Rightarrow> bool) \<Rightarrow> 'u recv_client \<Rightarrow> 'u recv_client" where
  "flush_data stops c =
     (let batch = rc_data_queue c; c1 = c\<lparr>rc_data_queue := []\<rparr>
      in drop_messages batch
           (invoke_user stops (h_data_batch (rc_handlers c)) (On_data_batch (map rm_data batch)) c1))"

definition flush_messages :: "(user_event list \<Rightarrow> bool) \<Rightarrow> 'u recv_client \<Rightarrow> 'u recv_client" where
  "flush_messages stops c =
     (let batch = rc_message_queue c; c1 = c\<lparr>rc_message_queue := []\<rparr>
      in drop_messages batch
           (invoke_user stops (h_message_batch (rc_handlers c)) (On_message_batch (map rm_data batch)) c1))"

definition flush_batches :: "(user_event list \<Rightarrow> bool) \<Rightarrow> 64 word \<Rightarrow> 'u recv_client \<Rightarrow> 'u recv_client" where
  "flush_batches stops generation c =
     (if \<not> admits generation c then c
      else if rc_data_queue c = [] \<and> rc_message_queue c = [] then c
      else
        let c1 = (if rc_data_queue c \<noteq> [] then flush_data stops c else c)
        in if \<not> admits generation c1 then c1
           else cancel_batch_timer (if rc_message_queue c1 \<noteq> [] then flush_messages stops c1 else c1))"

text \<open>Appending to a batch queue may allocate; a full queue is flushed, a new one starts the timer.\<close>

definition queue_data ::
    "(user_event list \<Rightarrow> bool) \<Rightarrow> 64 word \<Rightarrow> recv_message \<Rightarrow> 'u recv_client \<Rightarrow> recv_error option \<times> 'u recv_client" where
  "queue_data stops generation msg c =
     (case take_alloc (rc_mem c) of
        (False, m) \<Rightarrow> (Some (Other_exn Bad_alloc), drop_messages [msg] (c\<lparr>rc_mem := m\<rparr>))
      | (True, m) \<Rightarrow>
          let c1 = c\<lparr>rc_mem := m, rc_data_queue := rc_data_queue c @ [msg]\<rparr>
          in (None,
              if length (rc_data_queue c1) \<ge> rc_max_batch c1 then flush_data stops c1
              else if length (rc_data_queue c1) = 1 then schedule_batch_timer generation c1
              else c1))"

definition queue_message ::
    "(user_event list \<Rightarrow> bool) \<Rightarrow> 64 word \<Rightarrow> recv_message \<Rightarrow> 'u recv_client \<Rightarrow> recv_error option \<times> 'u recv_client" where
  "queue_message stops generation msg c =
     (case take_alloc (rc_mem c) of
        (False, m) \<Rightarrow> (Some (Other_exn Bad_alloc), drop_messages [msg] (c\<lparr>rc_mem := m\<rparr>))
      | (True, m) \<Rightarrow>
          let c1 = c\<lparr>rc_mem := m, rc_message_queue := rc_message_queue c @ [msg]\<rparr>
          in (None,
              if length (rc_message_queue c1) \<ge> rc_max_batch c1 then flush_messages stops c1
              else if length (rc_message_queue c1) = 1 then schedule_batch_timer generation c1
              else c1))"

section \<open>Messages\<close>

text \<open>
  The framer's message callback. A staged message is adopted with its charge (\<open>take_prepared_message\<close>): it moves
  into the batch queue, or is released when its callback has returned. A message that is not admitted stays
  with the staged messages, which are released when the chunk has been handled; nothing is reserved in
  between.
\<close>

fun deliver_staged ::
    "(user_event list \<Rightarrow> bool) \<Rightarrow> recv_message list \<Rightarrow> 'u recv_client \<Rightarrow> recv_error option \<times> 'u recv_client" where
  "deliver_staged stops [] c = (None, c)"
| "deliver_staged stops (msg # rest) c =
     (if \<not> admits (rc_generation c) c then deliver_staged stops rest (drop_messages [msg] c)
      else if h_message_batch (rc_handlers c) then
        (case queue_message stops (rc_generation c) msg c of
           (Some e, c1) \<Rightarrow> (Some e, drop_messages rest c1)
         | (None, c1) \<Rightarrow> deliver_staged stops rest c1)
      else
        deliver_staged stops rest
          (drop_messages [msg] (invoke_user stops (h_message (rc_handlers c)) (On_message (rm_data msg)) c)))"

text \<open>The messages of a framer that is not built in are retained only when they are batched.\<close>

fun deliver_custom ::
    "(user_event list \<Rightarrow> bool) \<Rightarrow> nat \<Rightarrow> bytes list \<Rightarrow> 'u recv_client \<Rightarrow> recv_error option \<times> 'u recv_client" where
  "deliver_custom stops records [] c = (None, c)"
| "deliver_custom stops records (data # rest) c =
     (if \<not> admits (rc_generation c) c then deliver_custom stops records rest c
      else if h_message_batch (rc_handlers c) then
        (case retain_received records 0 data (rc_mem c) of
           (Inl e, m) \<Rightarrow> (Some e, c\<lparr>rc_mem := m\<rparr>)
         | (Inr msg, m) \<Rightarrow>
             (case queue_message stops (rc_generation c) msg (c\<lparr>rc_mem := m\<rparr>) of
                (Some e, c1) \<Rightarrow> (Some e, c1)
              | (None, c1) \<Rightarrow> deliver_custom stops records rest c1))
      else
        deliver_custom stops records rest (invoke_user stops (h_message (rc_handlers c)) (On_message data) c))"

definition deliver ::
    "(user_event list \<Rightarrow> bool) \<Rightarrow> nat \<Rightarrow> ('u \<Rightarrow> bytes \<Rightarrow> 'u \<times> bytes list) \<Rightarrow> prepared \<Rightarrow> bytes \<Rightarrow> 'u recv_client
      \<Rightarrow> recv_error option \<times> 'u recv_client" where
  "deliver stops records cpush p input c =
     (case rc_framer c of
        No_framer \<Rightarrow> (None, c)
      | Custom_framer u \<Rightarrow>
          (case cpush u input of
             (u', ms) \<Rightarrow>
               let c1 = c\<lparr>rc_framer := Custom_framer u'\<rparr>
               in if rc_attached c then deliver_custom stops records ms c1 else (None, c1))
      | Builtin_framer hf \<Rightarrow>
          (case pr_messages p of
             None \<Rightarrow> (None, c)
           | Some msgs \<Rightarrow>
               if rc_attached c then deliver_staged stops msgs c else (None, drop_messages msgs c)))"

section \<open>Handlers of the channel\<close>

definition count_overflow :: "nat \<Rightarrow> overflow_reason \<Rightarrow> 'u recv_client \<Rightarrow> 'u recv_client" where
  "count_overflow bytes reason c =
     c\<lparr>rc_mem := (rc_mem c)\<lparr>m_account := scope_overflow bytes reason (m_account (rc_mem c))\<rparr>\<rparr>"

definition abandon_receive :: "('u \<Rightarrow> 'u) \<Rightarrow> nat \<Rightarrow> overflow_reason \<Rightarrow> 'u recv_client \<Rightarrow> 'u recv_client" where
  "abandon_receive creset bytes reason c =
     (let c1 = reset_receive creset (clear_queues (count_overflow bytes reason c))
      in c1\<lparr>rc_fails := rc_fails c1 + 1\<rparr>)"

definition receive_failed :: "('u \<Rightarrow> 'u) \<Rightarrow> nat \<Rightarrow> recv_error \<Rightarrow> 'u recv_client \<Rightarrow> 'u recv_client" where
  "receive_failed creset bytes e c =
     (case e of
        Receive_overflow reason \<Rightarrow> abandon_receive creset bytes reason c
      | Other_exn x \<Rightarrow>
          if x = Bad_alloc then abandon_receive creset bytes AllocationFailure c
          else c\<lparr>rc_escaped := rc_escaped c @ [x]\<rparr>)"

text \<open>The prepared input: first the raw bytes, then the framed messages.\<close>

definition handle_prepared ::
    "(user_event list \<Rightarrow> bool) \<Rightarrow> nat \<Rightarrow> ('u \<Rightarrow> bytes \<Rightarrow> 'u \<times> bytes list) \<Rightarrow> 64 word \<Rightarrow> bytes \<Rightarrow> prepared
      \<Rightarrow> 'u recv_client \<Rightarrow> recv_error option \<times> 'u recv_client" where
  "handle_prepared stops records cpush generation data p c =
     (case pr_raw p of
        Some msg \<Rightarrow>
          (case queue_data stops generation msg c of
             (Some e, c1) \<Rightarrow>
               (Some e, (case pr_messages p of None \<Rightarrow> c1 | Some msgs \<Rightarrow> drop_messages msgs c1))
           | (None, c1) \<Rightarrow> deliver stops records cpush p data c1)
      | None \<Rightarrow>
          deliver stops records cpush p data
            (invoke_user stops (h_data (rc_handlers c)) (On_data data) c))"

definition rc_on_bytes ::
    "bool \<Rightarrow> nat \<Rightarrow> ('u \<Rightarrow> bytes \<Rightarrow> 'u \<times> bytes list) \<Rightarrow> ('u \<Rightarrow> 'u) \<Rightarrow> (user_event list \<Rightarrow> bool) \<Rightarrow> 64 word \<Rightarrow> bytes
      \<Rightarrow> 'u recv_client \<Rightarrow> 'u recv_client option" where
  "rc_on_bytes sg records cpush creset stops generation data c =
     (if \<not> admits generation c then Some c
      else
        case prepare_receive sg records (rc_receive c) (rc_framer c) 0 data (h_data_batch (rc_handlers c)) (rc_mem c) of
          None \<Rightarrow> None
        | Some (r, f, st, m) \<Rightarrow>
            let c1 = c\<lparr>rc_framer := f, rc_receive := st, rc_mem := m\<rparr>
            in Some (case r of
                 Inl e \<Rightarrow> receive_failed creset (length data) e c1
               | Inr p \<Rightarrow>
                   (case handle_prepared stops records cpush generation data p c1 of
                      (None, c2) \<Rightarrow> c2
                    | (Some e, c2) \<Rightarrow> receive_failed creset (length data) e c2)))"

definition rc_on_state ::
    "('u \<Rightarrow> 'u) \<Rightarrow> (user_event list \<Rightarrow> bool) \<Rightarrow> 64 word \<Rightarrow> link_state \<Rightarrow> 'u recv_client \<Rightarrow> 'u recv_client" where
  "rc_on_state creset stops generation state c =
     (if \<not> admits generation c then c
      else
        let ready = (state = LinkConnected);
            h = rc_handlers c
        in case lifecycle_observe state ready (rc_lifecycle c) of
             ((disconnect, error), lc) \<Rightarrow>
               let c1 = c\<lparr>rc_lifecycle := lc\<rparr>;
                   c2 = (if ready then fulfill_all True (clear_queues (reset_receive creset c1))
                         else if state = LinkClosed \<or> state = LinkIdle \<or> state = LinkError then fulfill_all False c1
                         else c1);
                   c3 = (if disconnect then
                           let c' = flush_batches stops generation c2
                           in (if has_framer c' then reset_receive creset c' else c')
                         else c2)
               in if \<not> admits generation c3 then c3
                  else
                    let c4 = invoke_user stops (ready \<and> h_connect h) On_connect c3;
                        c5 = invoke_user stops (disconnect \<and> h_disconnect h) On_disconnect c4
                    in if admits generation c5 then invoke_user stops (error \<and> h_error h) On_error c5 else c5)"

section \<open>Control\<close>

text \<open>\<open>start()\<close>; \<open>linked\<close> says whether the channel is connected already.\<close>

definition setup_internal_handlers :: "'u recv_client \<Rightarrow> 'u recv_client" where
  "setup_internal_handlers c =
     (let m = rc_mem c; g = open_new_generation (rc_gate c)
      in c\<lparr>rc_has_timer := True, rc_waits := map (\<lambda>(g, live). (g, False)) (rc_waits c),
           rc_mem := m\<lparr>m_account := (budget_reset_stats (fst (m_account m)), snd (m_account m))\<rparr>,
           rc_lifecycle := lifecycle_reset (rc_lifecycle c), rc_gate := g, rc_generation := cg_generation g,
           rc_registered := cg_generation g # rc_registered c\<rparr>)"

definition rc_start :: "bool \<Rightarrow> 'u recv_client \<Rightarrow> 'u recv_client" where
  "rc_start linked c =
     (let c1 = c\<lparr>rc_stop_requested := False\<rparr>
      in if linked then c1\<lparr>rc_started := True, rc_results := rc_results c1 @ [True]\<rparr>
         else
           let c2 = c1\<lparr>rc_promises := rc_promises c1 + 1\<rparr>
           in if rc_started c2 then c2
              else (setup_internal_handlers (c2\<lparr>rc_alive := True\<rparr>))\<lparr>rc_started := True\<rparr>)"

text \<open>\<open>stop()\<close> from another thread: it waits for running callbacks, then clears the run.\<close>

definition rc_stop :: "('u \<Rightarrow> 'u) \<Rightarrow> 'u recv_client \<Rightarrow> 'u recv_client" where
  "rc_stop creset c =
     (let c1 = cancel_batch_timer (rc_request_stop c)
      in reset_receive creset (clear_queues (c1\<lparr>rc_alive := False, rc_has_timer := False\<rparr>)))"

definition attach_framer_callback :: "'u recv_client \<Rightarrow> 'u recv_client" where
  "attach_framer_callback c = (if has_framer c then c\<lparr>rc_attached := True\<rparr> else c)"

text \<open>A new framer gets a receive state of its own; the old state's charge goes with it.\<close>

definition rc_set_framer :: "'u recv_framer \<Rightarrow> 'u recv_client \<Rightarrow> 'u recv_client" where
  "rc_set_framer f c =
     (let c1 = c\<lparr>rc_framer := f, rc_attached := False, rc_receive := \<lparr>frame_storage = None\<rparr>,
                 rc_mem := drop_storage (rc_receive c) (rc_mem c)\<rparr>
      in if h_message (rc_handlers c1) \<or> h_message_batch (rc_handlers c1) then attach_framer_callback c1 else c1)"

definition rc_on_message :: "bool \<Rightarrow> 'u recv_client \<Rightarrow> 'u recv_client" where
  "rc_on_message h c = attach_framer_callback (c\<lparr>rc_handlers := (rc_handlers c)\<lparr>h_message := h\<rparr>\<rparr>)"

definition rc_on_message_batch :: "bool \<Rightarrow> 'u recv_client \<Rightarrow> 'u recv_client" where
  "rc_on_message_batch h c = attach_framer_callback (c\<lparr>rc_handlers := (rc_handlers c)\<lparr>h_message_batch := h\<rparr>\<rparr>)"

definition rc_on_data :: "bool \<Rightarrow> 'u recv_client \<Rightarrow> 'u recv_client" where
  "rc_on_data h c = c\<lparr>rc_handlers := (rc_handlers c)\<lparr>h_data := h\<rparr>\<rparr>"

definition rc_on_data_batch :: "bool \<Rightarrow> 'u recv_client \<Rightarrow> 'u recv_client" where
  "rc_on_data_batch h c = c\<lparr>rc_handlers := (rc_handlers c)\<lparr>h_data_batch := h\<rparr>\<rparr>"

definition rc_on_connect :: "bool \<Rightarrow> 'u recv_client \<Rightarrow> 'u recv_client" where
  "rc_on_connect h c = c\<lparr>rc_handlers := (rc_handlers c)\<lparr>h_connect := h\<rparr>\<rparr>"

definition rc_on_disconnect :: "bool \<Rightarrow> 'u recv_client \<Rightarrow> 'u recv_client" where
  "rc_on_disconnect h c = c\<lparr>rc_handlers := (rc_handlers c)\<lparr>h_disconnect := h\<rparr>\<rparr>"

definition rc_on_error :: "bool \<Rightarrow> 'u recv_client \<Rightarrow> 'u recv_client" where
  "rc_on_error h c = c\<lparr>rc_handlers := (rc_handlers c)\<lparr>h_error := h\<rparr>\<rparr>"

definition rc_batch_size :: "nat \<Rightarrow> 'u recv_client \<Rightarrow> exn + 'u recv_client" where
  "rc_batch_size n c = (if n > 0 then Inr (c\<lparr>rc_max_batch := n\<rparr>) else Inl Invalid_argument)"

text \<open>New limits need a completed stop: they replace the budget and its scope.\<close>

definition rc_receive_limits :: "('u \<Rightarrow> 'u) \<Rightarrow> recv_limits \<Rightarrow> 'u recv_client \<Rightarrow> exn + 'u recv_client" where
  "rc_receive_limits creset l c =
     (case limits_validate l of
        Inl e \<Rightarrow> Inl e
      | Inr _ \<Rightarrow>
          if rc_started c \<or> rc_stop_requested c \<and> rc_alive c then Inl Logic_error
          else
            (case new_budget l of
               Inl e \<Rightarrow> Inl e
             | Inr b \<Rightarrow>
                 let c1 = reset_receive creset c
                 in Inr (c1\<lparr>rc_receive := \<lparr>frame_storage = None\<rparr>,
                            rc_mem := (rc_mem c1)\<lparr>m_account := (b\<lparr>rb_sessions := size_add (rb_sessions b) 1\<rparr>, new_scope)\<rparr>\<rparr>)))"

definition rc_receive_stats :: "'u recv_client \<Rightarrow> memory_stats" where
  "rc_receive_stats c = budget_stats (fst (m_account (rc_mem c)))"

definition rc_reset_stats :: "'u recv_client \<Rightarrow> 'u recv_client" where
  "rc_reset_stats c =
     c\<lparr>rc_mem := (rc_mem c)\<lparr>m_account := (budget_reset_stats (fst (m_account (rc_mem c))), snd (m_account (rc_mem c)))\<rparr>\<rparr>"

definition new_recv_client :: "nat option \<Rightarrow> 'u recv_client" where
  "new_recv_client allocs =
     \<lparr>rc_gate = \<lparr>cg_closed = False, cg_generation = 0\<rparr>, rc_generation = 0, rc_registered = [], rc_started = False,
      rc_stop_requested = False, rc_alive = True, rc_framer = No_framer, rc_attached = False,
      rc_receive = \<lparr>frame_storage = None\<rparr>,
      rc_mem = \<lparr>m_account =
        (\<lparr>rb_limits = default_limits, rb_used = 0, rb_peak = 0, rb_sessions = 1, rb_overflows = 0,
          rb_overflow_bytes = 0, rb_reasons = [0, 0, 0, 0]\<rparr>, new_scope), m_allocs = allocs\<rparr>,
      rc_data_queue = [], rc_message_queue = [], rc_max_batch = 100,
      rc_handlers = \<lparr>h_data = False, h_data_batch = False, h_message = False, h_message_batch = False,
        h_connect = False, h_disconnect = False, h_error = False\<rparr>,
      rc_has_timer = False, rc_waits = [], rc_lifecycle = \<lparr>lc_connected = False, lc_terminal = False\<rparr>,
      rc_promises = 0, rc_results = [], rc_log = [], rc_fails = 0, rc_escaped = []\<rparr>"

section \<open>Events\<close>

text \<open>
  The channel calls its handlers with the generation they were registered for, which may be that of an earlier
  run; the batch timer may expire although its wait has been cancelled. A framer the user passes in is one
  the library's constructors and operations have produced.
\<close>

datatype 'u rc_event =
    Bytes "64 word" bytes
  | State_change "64 word" link_state
  | Timer_expiry "64 word" bool
  | Start_client bool
  | Stop_client
  | Set_framer "'u recv_framer"
  | Set_on_data bool
  | Set_on_data_batch bool
  | Set_on_message bool
  | Set_on_message_batch bool
  | Set_on_connect bool
  | Set_on_disconnect bool
  | Set_on_error bool
  | Set_batch_size nat
  | Set_receive_limits recv_limits
  | Reset_client_stats

definition framer_usable :: "bool \<Rightarrow> 'u recv_framer \<Rightarrow> bool" where
  "framer_usable sg f = (case f of Builtin_framer hf \<Rightarrow> framer_ready sg hf | _ \<Rightarrow> True)"

definition or_unchanged :: "'u recv_client \<Rightarrow> exn + 'u recv_client \<Rightarrow> 'u recv_client" where
  "or_unchanged c r = (case r of Inl e \<Rightarrow> c | Inr c' \<Rightarrow> c')"

fun rc_step ::
    "bool \<Rightarrow> nat \<Rightarrow> ('u \<Rightarrow> bytes \<Rightarrow> 'u \<times> bytes list) \<Rightarrow> ('u \<Rightarrow> 'u) \<Rightarrow> (user_event list \<Rightarrow> bool)
      \<Rightarrow> 'u rc_event \<Rightarrow> 'u recv_client \<Rightarrow> 'u recv_client option" where
  "rc_step sg records cpush creset stops (Bytes g data) c =
     (if g \<in> set (rc_registered c) then rc_on_bytes sg records cpush creset stops g data c else None)"
| "rc_step sg records cpush creset stops (State_change g s) c =
     (if g \<in> set (rc_registered c) then Some (rc_on_state creset stops g s c) else None)"
| "rc_step sg records cpush creset stops (Timer_expiry g live) c =
     (if (g, live) \<in> set (rc_waits c)
      then Some (flush_batches stops g (c\<lparr>rc_waits := remove1 (g, live) (rc_waits c)\<rparr>)) else None)"
| "rc_step sg records cpush creset stops (Start_client linked) c = Some (rc_start linked c)"
| "rc_step sg records cpush creset stops Stop_client c = Some (rc_stop creset c)"
| "rc_step sg records cpush creset stops (Set_framer f) c =
     (if framer_usable sg f then Some (rc_set_framer f c) else None)"
| "rc_step sg records cpush creset stops (Set_on_data h) c = Some (rc_on_data h c)"
| "rc_step sg records cpush creset stops (Set_on_data_batch h) c = Some (rc_on_data_batch h c)"
| "rc_step sg records cpush creset stops (Set_on_message h) c = Some (rc_on_message h c)"
| "rc_step sg records cpush creset stops (Set_on_message_batch h) c = Some (rc_on_message_batch h c)"
| "rc_step sg records cpush creset stops (Set_on_connect h) c = Some (rc_on_connect h c)"
| "rc_step sg records cpush creset stops (Set_on_disconnect h) c = Some (rc_on_disconnect h c)"
| "rc_step sg records cpush creset stops (Set_on_error h) c = Some (rc_on_error h c)"
| "rc_step sg records cpush creset stops (Set_batch_size n) c = Some (or_unchanged c (rc_batch_size n c))"
| "rc_step sg records cpush creset stops (Set_receive_limits l) c =
     (if max_bytes l \<le> SIZE_MAX then Some (or_unchanged c (rc_receive_limits creset l c)) else None)"
| "rc_step sg records cpush creset stops Reset_client_stats c = Some (rc_reset_stats c)"

end
