(* ===== verification/Receive_Delivery.thy ===== *)
theory Receive_Delivery
  imports Client_Receive
begin

text \<open>
  What the receive side of the client promises: the memory it retains, what a failed receive leaves behind,
  silence after \<open>stop()\<close>, and that the user sees the byte stream and its messages completely and in order.
\<close>

section \<open>Memory\<close>

text \<open>
  \<open>rc_ok sg records l t c\<close>: the scope holds exactly the framer's storage, the queued batches and \<open>t\<close> bytes that are
  in flight.
\<close>

definition rc_ok :: "bool \<Rightarrow> nat \<Rightarrow> recv_limits \<Rightarrow> nat \<Rightarrow> 'u recv_client \<Rightarrow> bool" where
  "rc_ok sg records l t c \<longleftrightarrow>
     mem_holds l 0 (t + storage_of (rc_receive c) + charges_of (rc_data_queue c) + charges_of (rc_message_queue c))
       (rc_mem c)
     \<and> (\<forall>x\<in>set (rc_data_queue c) \<union> set (rc_message_queue c). retained_as records 0 x)
     \<and> framer_usable sg (rc_framer c)
     \<and> (\<forall>n. frame_storage (rc_receive c) = Some n \<longrightarrow>
          (\<exists>hf. rc_framer c = Builtin_framer hf \<and> n = hf_capacity hf \<and> n \<le> max_frame_bytes l))"

lemma rc_ok_frame [simp]:
  "rc_ok sg records l t (c\<lparr>rc_gate := a1\<rparr>) = rc_ok sg records l t c"
  "rc_ok sg records l t (c\<lparr>rc_generation := a2\<rparr>) = rc_ok sg records l t c"
  "rc_ok sg records l t (c\<lparr>rc_registered := a11\<rparr>) = rc_ok sg records l t c"
  "rc_ok sg records l t (c\<lparr>rc_started := a3\<rparr>) = rc_ok sg records l t c"
  "rc_ok sg records l t (c\<lparr>rc_stop_requested := a3\<rparr>) = rc_ok sg records l t c"
  "rc_ok sg records l t (c\<lparr>rc_alive := a3\<rparr>) = rc_ok sg records l t c"
  "rc_ok sg records l t (c\<lparr>rc_attached := a3\<rparr>) = rc_ok sg records l t c"
  "rc_ok sg records l t (c\<lparr>rc_max_batch := a4\<rparr>) = rc_ok sg records l t c"
  "rc_ok sg records l t (c\<lparr>rc_handlers := a5\<rparr>) = rc_ok sg records l t c"
  "rc_ok sg records l t (c\<lparr>rc_has_timer := a3\<rparr>) = rc_ok sg records l t c"
  "rc_ok sg records l t (c\<lparr>rc_waits := a6\<rparr>) = rc_ok sg records l t c"
  "rc_ok sg records l t (c\<lparr>rc_lifecycle := a7\<rparr>) = rc_ok sg records l t c"
  "rc_ok sg records l t (c\<lparr>rc_promises := a4\<rparr>) = rc_ok sg records l t c"
  "rc_ok sg records l t (c\<lparr>rc_results := a8\<rparr>) = rc_ok sg records l t c"
  "rc_ok sg records l t (c\<lparr>rc_log := a9\<rparr>) = rc_ok sg records l t c"
  "rc_ok sg records l t (c\<lparr>rc_fails := a4\<rparr>) = rc_ok sg records l t c"
  "rc_ok sg records l t (c\<lparr>rc_escaped := a10\<rparr>) = rc_ok sg records l t c"
  by (simp_all add: rc_ok_def)

lemma rc_ok_control [simp]:
  "rc_ok sg records l t (rc_request_stop c) = rc_ok sg records l t c"
  "rc_ok sg records l t (fulfill_all v c) = rc_ok sg records l t c"
  "rc_ok sg records l t (invoke_user stops registered ev c) = rc_ok sg records l t c"
  "rc_ok sg records l t (schedule_batch_timer g c) = rc_ok sg records l t c"
  "rc_ok sg records l t (cancel_batch_timer c) = rc_ok sg records l t c"
  "rc_ok sg records l t (attach_framer_callback c) = rc_ok sg records l t c"
  by (simp_all add: rc_request_stop_def fulfill_all_def invoke_user_def schedule_batch_timer_def cancel_batch_timer_def
      attach_framer_callback_def Let_def)

lemma rc_ok_drop:
  "rc_ok sg records l (t + charges_of msgs) c \<Longrightarrow> rc_ok sg records l t (drop_messages msgs c)"
  using release_messages_holds [of l 0 _ msgs "rc_mem c"]
  by (simp add: rc_ok_def drop_messages_def ac_simps)

lemma rc_ok_take_data: "rc_ok sg records l t c \<Longrightarrow> rc_ok sg records l (t + charges_of (rc_data_queue c)) (c\<lparr>rc_data_queue := []\<rparr>)"
  by (simp add: rc_ok_def ac_simps)

lemma rc_ok_take_messages:
  "rc_ok sg records l t c \<Longrightarrow> rc_ok sg records l (t + charges_of (rc_message_queue c)) (c\<lparr>rc_message_queue := []\<rparr>)"
  by (simp add: rc_ok_def ac_simps)

lemma rc_ok_flush:
  assumes "rc_ok sg records l t c"
  shows "rc_ok sg records l t (flush_data stops c)" "rc_ok sg records l t (flush_messages stops c)"
  unfolding flush_data_def flush_messages_def Let_def
  using rc_ok_take_data [OF assms] rc_ok_take_messages [OF assms] by (auto intro!: rc_ok_drop)

lemma rc_ok_flush_batches: "rc_ok sg records l t c \<Longrightarrow> rc_ok sg records l t (flush_batches stops g c)"
  by (simp add: flush_batches_def Let_def rc_ok_flush)

lemma clear_queues_alt:
  "clear_queues c = drop_messages (rc_message_queue c)
     ((drop_messages (rc_data_queue c) (c\<lparr>rc_data_queue := []\<rparr>))\<lparr>rc_message_queue := []\<rparr>)"
  by (simp add: clear_queues_def drop_messages_def Let_def)

lemma rc_ok_clear:
  assumes "rc_ok sg records l t c"
  shows "rc_ok sg records l t (clear_queues c)"
proof -
  have "rc_ok sg records l t (drop_messages (rc_data_queue c) (c\<lparr>rc_data_queue := []\<rparr>))"
    using rc_ok_drop [OF rc_ok_take_data [OF assms]] .
  from rc_ok_drop [OF rc_ok_take_messages [OF this]] show ?thesis
    by (simp add: clear_queues_alt drop_messages_def)
qed

lemma builtin_reset_ready:
  "builtin_inv sg f \<Longrightarrow> builtin_inv sg (builtin_reset f) \<and> builtin_buffer (builtin_reset f) = []
     \<and> builtin_cap (builtin_reset f) = builtin_cap f"
  by (rule bif.reset_clears)

lemma rc_ok_reset:
  assumes "rc_ok sg records l t c"
  shows "rc_ok sg records l t (reset_receive creset c)"
proof -
  have "mem_holds l 0 ((t + charges_of (rc_data_queue c) + charges_of (rc_message_queue c)) + storage_of (rc_receive c))
      (rc_mem c)"
    using assms by (simp add: rc_ok_def ac_simps)
  from drop_storage_holds [OF this]
  have "mem_holds l 0 (t + 0 + charges_of (rc_data_queue c) + charges_of (rc_message_queue c))
      (drop_storage (rc_receive c) (rc_mem c))"
    by simp
  with assms builtin_reset_ready show ?thesis
    by (auto simp: rc_ok_def reset_receive_def framer_usable_def framer_ready_def hf_release_storage_def hf_size_def
        storage_of_def split: recv_framer.splits)
qed

lemma rc_ok_alloc:
  "take_alloc (rc_mem c) = (ok, m) \<Longrightarrow> rc_ok sg records l t (c\<lparr>rc_mem := m\<rparr>) = rc_ok sg records l t c"
  by (simp add: rc_ok_def take_alloc_holds)

lemma rc_ok_queue:
  assumes ok: "rc_ok sg records l (t + rm_charge msg) c" and msg: "retained_as records 0 msg"
  shows "queue_data stops g msg c = (e, c') \<Longrightarrow> rc_ok sg records l t c'"
    and "queue_message stops g msg c = (e, c') \<Longrightarrow> rc_ok sg records l t c'"
proof -
  obtain b m where a: "take_alloc (rc_mem c) = (b, m)" by fastforce
  have c1: "rc_ok sg records l (t + rm_charge msg) (c\<lparr>rc_mem := m\<rparr>)" using ok rc_ok_alloc [OF a] by simp
  then have d: "rc_ok sg records l t (drop_messages [msg] (c\<lparr>rc_mem := m\<rparr>))" by (intro rc_ok_drop) simp
  have q: "rc_ok sg records l t (c\<lparr>rc_mem := m, rc_data_queue := rc_data_queue c @ [msg]\<rparr>)"
    "rc_ok sg records l t (c\<lparr>rc_mem := m, rc_message_queue := rc_message_queue c @ [msg]\<rparr>)"
    using c1 msg by (auto simp: rc_ok_def ac_simps)
  show "queue_data stops g msg c = (e, c') \<Longrightarrow> rc_ok sg records l t c'"
    using a d q(1) by (auto simp: queue_data_def Let_def rc_ok_flush split: bool.splits if_splits)
  show "queue_message stops g msg c = (e, c') \<Longrightarrow> rc_ok sg records l t c'"
    using a d q(2) by (auto simp: queue_message_def Let_def rc_ok_flush split: bool.splits if_splits)
qed

lemma rc_ok_deliver_staged:
  "rc_ok sg records l (t + charges_of msgs) c \<Longrightarrow> \<forall>x\<in>set msgs. retained_as records 0 x \<Longrightarrow>
     deliver_staged stops msgs c = (e, c') \<Longrightarrow> rc_ok sg records l t c'"
proof (induction stops msgs c rule: deliver_staged.induct)
  case (2 stops msg rest c)
  have ok: "rc_ok sg records l ((t + charges_of rest) + charges_of [msg]) c" using "2.prems"(1) by (simp add: ac_simps)
  show ?case
  proof (cases "admits (rc_generation c) c \<and> h_message_batch (rc_handlers c)")
    case False
    with "2.IH"(1,3) "2.prems"(2,3) rc_ok_drop [OF ok]
      rc_ok_drop [of sg records l "t + charges_of rest" "[msg]" "invoke_user stops _ _ c"] ok
    show ?thesis by (auto split: if_splits)
  next
    case True
    obtain e1 c1 where q: "queue_message stops (rc_generation c) msg c = (e1, c1)" by fastforce
    have c1: "rc_ok sg records l (t + charges_of rest) c1"
      using rc_ok_queue(2) [OF _ _ q] ok "2.prems"(2) by simp
    show ?thesis
    proof (cases e1)
      case None
      with True q c1 "2.IH"(2) "2.prems"(2,3) show ?thesis by auto
    next
      case (Some x)
      with True q rc_ok_drop [OF c1] "2.prems"(3) show ?thesis by auto
    qed
  qed
qed simp

lemma rc_ok_deliver_custom:
  "rc_ok sg records l t c \<Longrightarrow> deliver_custom stops records ds c = (e, c') \<Longrightarrow> rc_ok sg records l t c'"
proof (induction stops records ds c rule: deliver_custom.induct)
  case (2 stops records d rest c)
  show ?case
  proof (cases "admits (rc_generation c) c \<and> h_message_batch (rc_handlers c)")
    case False
    with "2.IH"(1,3) "2.prems" show ?thesis by (auto split: if_splits)
  next
    case True
    obtain r m where r: "retain_received records 0 d (rc_mem c) = (r, m)" by fastforce
    let ?h = "t + storage_of (rc_receive c) + charges_of (rc_data_queue c) + charges_of (rc_message_queue c)"
    have "mem_holds l 0 ?h (rc_mem c)" using "2.prems"(1) by (simp add: rc_ok_def)
    note h = retain_received_holds [OF this r]
    show ?thesis
    proof (cases r)
      case (Inl x)
      with True r h "2.prems" show ?thesis by (auto simp: rc_ok_def)
    next
      case (Inr msg)
      obtain e1 c1 where q: "queue_message stops (rc_generation c) msg (c\<lparr>rc_mem := m\<rparr>) = (e1, c1)" by fastforce
      have "rc_ok sg records l (t + rm_charge msg) (c\<lparr>rc_mem := m\<rparr>)" "retained_as records 0 msg"
        using h Inr "2.prems"(1) by (auto simp: rc_ok_def retained_as_def ac_simps)
      note c1 = rc_ok_queue(2) [OF this q]
      with True r Inr q "2.IH"(2) "2.prems"(2) show ?thesis by (cases e1) auto
    qed
  qed
qed simp

lemma rc_ok_deliver:
  assumes ok: "rc_ok sg records l (t + (case pr_messages p of None \<Rightarrow> 0 | Some msgs \<Rightarrow> charges_of msgs)) c"
    and msgs: "\<forall>msgs. pr_messages p = Some msgs \<longrightarrow> (\<forall>x\<in>set msgs. retained_as records 0 x)"
    and builtin: "pr_messages p \<noteq> None \<longleftrightarrow> (\<exists>hf. rc_framer c = Builtin_framer hf)"
    and d: "deliver stops records cpush p input c = (e, c')"
  shows "rc_ok sg records l t c'"
proof (cases "rc_framer c")
  case No_framer
  with assms show ?thesis by (auto simp: deliver_def split: option.splits)
next
  case (Custom_framer u)
  obtain u' ms where u: "cpush u input = (u', ms)" by fastforce
  have "rc_ok sg records l t (c\<lparr>rc_framer := Custom_framer u'\<rparr>)"
    using ok builtin Custom_framer by (auto simp: rc_ok_def framer_usable_def)
  with d u Custom_framer rc_ok_deliver_custom [OF this] show ?thesis
    by (auto simp: deliver_def Let_def split: if_splits)
next
  case (Builtin_framer hf)
  with builtin obtain ms where "pr_messages p = Some ms" by auto
  with d Builtin_framer ok msgs rc_ok_deliver_staged [of sg records l t ms c] rc_ok_drop [of sg records l t ms c]
  show ?thesis by (auto simp: deliver_def split: if_splits)
qed

lemma rc_ok_failed:
  assumes "rc_ok sg records l t c"
  shows "rc_ok sg records l t (receive_failed creset n e c)"
proof -
  have "rc_ok sg records l t (count_overflow n r c)" for r
    using assms by (cases "m_account (rc_mem c)")
      (auto simp: rc_ok_def count_overflow_def mem_holds_def budget_overflow_def)
  then have "rc_ok sg records l t (abandon_receive creset n r c)" for r
    by (simp add: abandon_receive_def Let_def rc_ok_reset rc_ok_clear)
  with assms show ?thesis by (cases e) (simp_all add: receive_failed_def)
qed

lemma rc_framer_handlers [simp]:
  "rc_framer (invoke_user stops registered ev c) = rc_framer c"
  "rc_framer (drop_messages ms c) = rc_framer c"
  "rc_framer (schedule_batch_timer g c) = rc_framer c"
  "rc_framer (flush_data stops c) = rc_framer c" "rc_framer (flush_messages stops c) = rc_framer c"
  by (simp_all add: invoke_user_def rc_request_stop_def fulfill_all_def drop_messages_def schedule_batch_timer_def
      flush_data_def flush_messages_def Let_def)

lemma rc_framer_queue: "queue_data stops g msg c = (e, c') \<Longrightarrow> rc_framer c' = rc_framer c"
  by (auto simp: queue_data_def Let_def split: prod.splits bool.splits if_splits)

lemma rc_ok_prepared:
  assumes ok: "rc_ok sg records l (t + prepared_bytes p) c"
    and raw: "\<forall>msg. pr_raw p = Some msg \<longrightarrow> retained_as records 0 msg"
    and msgs: "\<forall>msgs. pr_messages p = Some msgs \<longrightarrow> (\<forall>x\<in>set msgs. retained_as records 0 x)"
    and builtin: "pr_messages p \<noteq> None \<longleftrightarrow> (\<exists>hf. rc_framer c = Builtin_framer hf)"
    and h: "handle_prepared stops records cpush g data p c = (e, c')"
  shows "rc_ok sg records l t c'"
proof (cases "pr_raw p")
  case None
  let ?c = "invoke_user stops (h_data (rc_handlers c)) (On_data data) c"
  have "deliver stops records cpush p data ?c = (e, c')" using h None by (simp add: handle_prepared_def)
  then show ?thesis
    by (rule rc_ok_deliver [rotated 3]) (use ok None msgs builtin in \<open>simp_all add: prepared_bytes_def\<close>)
next
  case (Some msg)
  obtain e1 c1 where q: "queue_data stops g msg c = (e1, c1)" by fastforce
  let ?n = "case pr_messages p of None \<Rightarrow> 0 | Some msgs \<Rightarrow> charges_of msgs"
  have c1: "rc_ok sg records l (t + ?n) c1"
    using rc_ok_queue(1) [OF _ _ q, of sg records l "t + ?n"] ok raw Some by (simp add: prepared_bytes_def ac_simps)
  show ?thesis
  proof (cases e1)
    case None
    with h Some q have "deliver stops records cpush p data c1 = (e, c')" by (simp add: handle_prepared_def)
    then show ?thesis
      by (rule rc_ok_deliver [rotated 3]) (use c1 msgs builtin rc_framer_queue [OF q] in simp_all)
  next
    case e: (Some x)
    with h Some q c1 rc_ok_drop [of sg records l t _ c1] show ?thesis
      by (auto simp: handle_prepared_def split: option.splits)
  qed
qed

text \<open>A chunk of bytes, in full.\<close>

lemma rc_ok_bytes:
  assumes ok: "rc_ok sg records l 0 c"
  shows "\<exists>c'. rc_on_bytes sg records cpush creset stops g data c = Some c' \<and> rc_ok sg records l 0 c'"
proof (cases "admits g c")
  case False
  with ok show ?thesis by (simp add: rc_on_bytes_def)
next
  case True
  let ?q = "charges_of (rc_data_queue c) + charges_of (rc_message_queue c)" and ?b = "h_data_batch (rc_handlers c)"
  have "recv_ready sg l 0 ?q (rc_framer c) (rc_receive c) (rc_mem c)"
    using ok by (auto simp: recv_ready_def rc_ok_def framer_usable_def ac_simps split: recv_framer.splits)
  from prepare_receive_spec [OF this, of records 0 data ?b] obtain r f st m where
    p: "prepare_receive sg records (rc_receive c) (rc_framer c) 0 data ?b (rc_mem c) = Some (r, f, st, m)"
      and o: "receive_outcome sg records l 0 ?q (rc_receive c) (rc_framer c) 0 data ?b (r, f, st, m)"
    by auto
  define c1 where "c1 = c\<lparr>rc_framer := f, rc_receive := st, rc_mem := m\<rparr>"
  show ?thesis
  proof (cases r)
    case (Inl e)
    with o ok have "rc_ok sg records l 0 c1" by (auto simp: receive_outcome_def rc_ok_def c1_def ac_simps)
    from rc_ok_failed [OF this] p True Inl show ?thesis by (simp add: rc_on_bytes_def c1_def)
  next
    case (Inr q)
    with o have raw: "pr_raw q = raw_of records 0 data ?b"
      and hold: "mem_holds l 0 (?q + storage_of st + prepared_bytes q) m"
      and fr: "case rc_framer c of
        Builtin_framer hf \<Rightarrow> \<exists>hf' msgs t0 m0. f = Builtin_framer hf' \<and> pr_messages q = Some msgs
          \<and> prepare_outcome sg records l 0 t0 (rc_receive c) hf 0 data (Inr msgs, hf', st, m0)
      | _ \<Rightarrow> f = rc_framer c \<and> st = rc_receive c \<and> pr_messages q = None"
      by (auto simp: receive_outcome_def)
    have "rc_ok sg records l (0 + prepared_bytes q) c1"
      using ok hold fr by (auto simp: rc_ok_def c1_def framer_usable_def prepare_outcome_def ac_simps
          split: recv_framer.splits)
    moreover have "\<forall>msg. pr_raw q = Some msg \<longrightarrow> retained_as records 0 msg"
      using raw by (auto simp: raw_of_def retained_as_def split: if_splits)
    moreover have "\<forall>msgs. pr_messages q = Some msgs \<longrightarrow> (\<forall>x\<in>set msgs. retained_as records 0 x)"
      using fr by (auto simp: prepare_outcome_def split: recv_framer.splits)
    moreover have "pr_messages q \<noteq> None \<longleftrightarrow> (\<exists>hf. rc_framer c1 = Builtin_framer hf)"
      using fr by (auto simp: c1_def split: recv_framer.splits)
    moreover obtain e2 c2 where h: "handle_prepared stops records cpush g data q c1 = (e2, c2)" by fastforce
    ultimately have c2: "rc_ok sg records l 0 c2" by (rule rc_ok_prepared)
    from p True Inr h have "rc_on_bytes sg records cpush creset stops g data c
        = Some (case e2 of None \<Rightarrow> c2 | Some e \<Rightarrow> receive_failed creset (length data) e c2)"
      by (simp add: rc_on_bytes_def c1_def split: option.split)
    with c2 rc_ok_failed [OF c2] show ?thesis by (cases e2) simp_all
  qed
qed

lemma rc_ok_state: "rc_ok sg records l t c \<Longrightarrow> rc_ok sg records l t (rc_on_state creset stops g s c)"
  by (simp add: rc_on_state_def Let_def rc_ok_flush_batches rc_ok_reset rc_ok_clear split: prod.split)

section \<open>Control\<close>

text \<open>
  What the handlers of the channel may do to the run: append calls to the log, and close the gate when the last
  of them stopped the client. \<open>rc_control\<close> is the part of the state that only \<open>stop()\<close> touches.
\<close>

type_synonym control = "callback_gate \<times> bool \<times> bool \<times> bool \<times> 64 word list \<times> 64 word \<times> handlers \<times> nat \<times> bool"

definition rc_control :: "'u recv_client \<Rightarrow> control" where
  "rc_control c = (rc_gate c, rc_started c, rc_stop_requested c, rc_alive c, rc_registered c, rc_generation c,
     rc_handlers c, rc_max_batch c, rc_attached c)"

definition stopped_control :: "control \<Rightarrow> control" where
  "stopped_control = (\<lambda>(g, _, _, rest). (gate_close g, False, True, rest))"

abbreviation rc_closed :: "'u recv_client \<Rightarrow> bool" where
  "rc_closed c \<equiv> cg_closed (rc_gate c)"

definition handled :: "(user_event list \<Rightarrow> bool) \<Rightarrow> 'u recv_client \<Rightarrow> 'u recv_client \<Rightarrow> bool" where
  "handled stops c c' \<longleftrightarrow>
     (\<exists>calls. rc_log c' = rc_log c @ calls \<and> (rc_closed c \<longrightarrow> calls = [])
        \<and> (\<forall>i. Suc i < length calls \<longrightarrow> \<not> stops (rc_log c @ take (Suc i) calls))
        \<and> rc_control c' = (if calls \<noteq> [] \<and> stops (rc_log c') then stopped_control (rc_control c) else rc_control c))"

lemma handled_same: "rc_log c' = rc_log c \<Longrightarrow> rc_control c' = rc_control c \<Longrightarrow> handled stops c c'"
  by (simp add: handled_def)

lemma handled_refl [simp]: "handled stops c c"
  by (simp add: handled_same)

lemma control_closed: "rc_control c = rc_control c' \<Longrightarrow> rc_closed c = rc_closed c'"
  by (simp add: rc_control_def)

lemma stopped_closed: "rc_control c' = stopped_control (rc_control c) \<Longrightarrow> rc_closed c'"
  by (simp add: rc_control_def stopped_control_def gate_close_def)

lemma handled_trans:
  assumes "handled stops c c1" and "handled stops c1 c2"
  shows "handled stops c c2"
proof -
  from assms(1) obtain n1 where 1: "rc_log c1 = rc_log c @ n1" "rc_closed c \<longrightarrow> n1 = []"
    "\<forall>i. Suc i < length n1 \<longrightarrow> \<not> stops (rc_log c @ take (Suc i) n1)"
    "rc_control c1 = (if n1 \<noteq> [] \<and> stops (rc_log c1) then stopped_control (rc_control c) else rc_control c)"
    by (auto simp: handled_def)
  from assms(2) obtain n2 where 2: "rc_log c2 = rc_log c1 @ n2" "rc_closed c1 \<longrightarrow> n2 = []"
    "\<forall>i. Suc i < length n2 \<longrightarrow> \<not> stops (rc_log c1 @ take (Suc i) n2)"
    "rc_control c2 = (if n2 \<noteq> [] \<and> stops (rc_log c2) then stopped_control (rc_control c1) else rc_control c1)"
    by (auto simp: handled_def)
  show ?thesis
  proof (cases "n2 = []")
    case True
    with 1 2 show ?thesis unfolding handled_def by auto
  next
    case False
    then have open1: "\<not> rc_closed c1" using 2(2) by blast
    then have c1: "rc_control c1 = rc_control c" "n1 = [] \<or> \<not> stops (rc_log c @ n1)"
      using 1(1,4) stopped_closed [of c1 c] by (auto split: if_splits)
    have "\<not> stops (rc_log c @ take (Suc i) (n1 @ n2))" if "Suc i < length (n1 @ n2)" for i
    proof -
      consider "Suc i < length n1" | "Suc i = length n1" | "length n1 \<le> i" by linarith
      then show ?thesis
      proof cases
        case 3
        then have "Suc (i - length n1) < length n2" "Suc i - length n1 = Suc (i - length n1)" using that by auto
        with 2(3) 1(1) 3 show ?thesis by simp
      qed (use 1(3) c1(2) in auto)
    qed
    with 1 2 c1 False control_closed [OF c1(1)] open1 show ?thesis
      unfolding handled_def by (intro exI [of _ "n1 @ n2"]) auto
  qed
qed

lemma handled_invoke:
  "\<not> rc_closed c \<or> \<not> registered \<Longrightarrow> handled stops c (invoke_user stops registered ev c)"
  by (auto simp: handled_def invoke_user_def Let_def rc_request_stop_def fulfill_all_def rc_control_def stopped_control_def)

lemma control_frame [simp]:
  "rc_log (drop_messages ms c) = rc_log c" "rc_control (drop_messages ms c) = rc_control c"
  "rc_log (schedule_batch_timer g c) = rc_log c" "rc_control (schedule_batch_timer g c) = rc_control c"
  "rc_log (cancel_batch_timer c) = rc_log c" "rc_control (cancel_batch_timer c) = rc_control c"
  "rc_log (clear_queues c) = rc_log c" "rc_control (clear_queues c) = rc_control c"
  "rc_log (reset_receive cr c) = rc_log c" "rc_control (reset_receive cr c) = rc_control c"
  "rc_log (fulfill_all v c) = rc_log c" "rc_control (fulfill_all v c) = rc_control c"
  "rc_log (receive_failed cr n e c) = rc_log c" "rc_control (receive_failed cr n e c) = rc_control c"
  by (simp_all add: drop_messages_def schedule_batch_timer_def cancel_batch_timer_def clear_queues_def reset_receive_def
      fulfill_all_def receive_failed_def abandon_receive_def count_overflow_def rc_control_def Let_def
      split: recv_error.split)

lemma control_update [simp]:
  "rc_control (c\<lparr>rc_mem := m\<rparr>) = rc_control c" "rc_control (c\<lparr>rc_framer := f\<rparr>) = rc_control c"
  "rc_control (c\<lparr>rc_receive := st\<rparr>) = rc_control c" "rc_control (c\<lparr>rc_data_queue := q\<rparr>) = rc_control c"
  "rc_control (c\<lparr>rc_message_queue := q\<rparr>) = rc_control c" "rc_control (c\<lparr>rc_lifecycle := lc\<rparr>) = rc_control c"
  "rc_control (c\<lparr>rc_waits := ws\<rparr>) = rc_control c" "rc_control (c\<lparr>rc_log := lg\<rparr>) = rc_control c"
  by (simp_all add: rc_control_def)

lemma handled_frame [simp]:
  "handled stops c (drop_messages ms d) = handled stops c d"
  "handled stops c (schedule_batch_timer g d) = handled stops c d"
  "handled stops c (cancel_batch_timer d) = handled stops c d"
  "handled stops c (clear_queues d) = handled stops c d"
  "handled stops c (reset_receive cr d) = handled stops c d"
  "handled stops c (fulfill_all v d) = handled stops c d"
  "handled stops c (receive_failed cr n e d) = handled stops c d"
  "handled stops (drop_messages ms c) d = handled stops c d"
  by (simp_all add: handled_def) (simp add: drop_messages_def)

lemma handled_flush:
  assumes "\<not> rc_closed c"
  shows "handled stops c (flush_data stops c)" "handled stops c (flush_messages stops c)"
proof -
  have "handled stops c (c\<lparr>rc_data_queue := []\<rparr>)" "handled stops c (c\<lparr>rc_message_queue := []\<rparr>)"
    by (simp_all add: handled_same)
  moreover have "handled stops d (drop_messages ms (invoke_user stops r ev d))" if "\<not> rc_closed d"
    for d :: "'a recv_client" and ms r ev
    by (rule handled_trans [OF handled_invoke handled_same]) (simp_all add: that)
  then have "handled stops (c\<lparr>rc_data_queue := []\<rparr>) (flush_data stops c)"
    "handled stops (c\<lparr>rc_message_queue := []\<rparr>) (flush_messages stops c)"
    unfolding flush_data_def flush_messages_def Let_def using assms by simp_all
  ultimately show "handled stops c (flush_data stops c)" "handled stops c (flush_messages stops c)"
    by (auto intro: handled_trans)
qed

lemma admits_open: "admits g c \<Longrightarrow> \<not> rc_closed c"
  by (simp add: admits_def gate_enter_def)

lemma handled_flush_batches: "handled stops c (flush_batches stops g c)"
proof (cases "admits g c \<and> \<not> (rc_data_queue c = [] \<and> rc_message_queue c = [])")
  case False
  then show ?thesis by (auto simp: flush_batches_def)
next
  case True
  define c1 where "c1 = (if rc_data_queue c \<noteq> [] then flush_data stops c else c)"
  from True have "\<not> rc_closed c" using admits_open by blast
  then have 1: "handled stops c c1" by (simp add: c1_def handled_flush)
  have "handled stops c1 (cancel_batch_timer (if rc_message_queue c1 \<noteq> [] then flush_messages stops c1 else c1))"
    if "admits g c1"
    using admits_open [OF that] by (simp add: handled_flush)
  with 1 handled_trans [OF 1] True show ?thesis by (simp add: flush_batches_def Let_def flip: c1_def)
qed

lemma handled_queue:
  assumes "\<not> rc_closed c"
  shows "queue_data stops g msg c = (e, c') \<Longrightarrow> handled stops c c'"
    and "queue_message stops g msg c = (e, c') \<Longrightarrow> handled stops c c'"
proof -
  have q: "handled stops c (c\<lparr>rc_mem := m, rc_data_queue := q\<rparr>)" "handled stops c (c\<lparr>rc_mem := m, rc_message_queue := q\<rparr>)" for m q
    by (simp_all add: handled_same)
  note f = handled_trans [OF q(1) handled_flush(1)] handled_trans [OF q(2) handled_flush(2)]
  show "queue_data stops g msg c = (e, c') \<Longrightarrow> handled stops c c'"
    using assms f(1) by (auto simp: queue_data_def Let_def intro: handled_same split: prod.splits bool.splits if_splits)
  show "queue_message stops g msg c = (e, c') \<Longrightarrow> handled stops c c'"
    using assms f(2) by (auto simp: queue_message_def Let_def intro: handled_same split: prod.splits bool.splits if_splits)
qed

lemma handled_deliver_staged: "deliver_staged stops msgs c = (e, c') \<Longrightarrow> handled stops c c'"
proof (induction stops msgs c rule: deliver_staged.induct)
  case (2 stops msg rest c)
  have drop: "handled stops d (drop_messages ms d)" for d :: "'a recv_client" and ms by (simp add: handled_same)
  consider "\<not> admits (rc_generation c) c" | "admits (rc_generation c) c" "h_message_batch (rc_handlers c)"
    | "admits (rc_generation c) c" "\<not> h_message_batch (rc_handlers c)" by blast
  then show ?case
  proof cases
    case 1
    with "2.IH"(1) "2.prems" handled_trans [OF drop] show ?thesis by auto
  next
    case 2
    obtain e1 c1 where q: "queue_message stops (rc_generation c) msg c = (e1, c1)" by fastforce
    note h = handled_queue(2) [OF admits_open [OF 2(1)] q]
    with 2 q "2.IH"(2) [OF _ 2(2)] "2.prems" handled_trans [OF h] drop show ?thesis by (cases e1) auto
  next
    case 3
    let ?d = "drop_messages [msg] (invoke_user stops (h_message (rc_handlers c)) (On_message (rm_data msg)) c)"
    have "handled stops c ?d"
      using handled_trans [OF handled_invoke drop] admits_open [OF 3(1)] by blast
    with 3 "2.IH"(3) "2.prems" show ?thesis by (auto intro: handled_trans)
  qed
qed simp

lemma handled_deliver_custom: "deliver_custom stops records ds c = (e, c') \<Longrightarrow> handled stops c c'"
proof (induction stops records ds c rule: deliver_custom.induct)
  case (2 stops records d rest c)
  consider "\<not> admits (rc_generation c) c" | "admits (rc_generation c) c" "h_message_batch (rc_handlers c)"
    | "admits (rc_generation c) c" "\<not> h_message_batch (rc_handlers c)" by blast
  then show ?case
  proof cases
    case 1
    with "2.IH"(1) "2.prems" show ?thesis by simp
  next
    case 2
    obtain r m where r: "retain_received records 0 d (rc_mem c) = (r, m)" by fastforce
    have m: "handled stops c (c\<lparr>rc_mem := m\<rparr>)" by (simp add: handled_same)
    show ?thesis
    proof (cases r)
      case (Inl x)
      with 2 r "2.prems" m show ?thesis by auto
    next
      case (Inr msg)
      obtain e1 c1 where q: "queue_message stops (rc_generation c) msg (c\<lparr>rc_mem := m\<rparr>) = (e1, c1)" by fastforce
      have "handled stops c c1"
        using handled_trans [OF m handled_queue(2) [OF _ q]] admits_open [OF 2(1)] by simp
      with 2 r Inr q "2.IH"(2) "2.prems" show ?thesis by (cases e1) (auto intro: handled_trans)
    qed
  next
    case 3
    have "handled stops c (invoke_user stops (h_message (rc_handlers c)) (On_message d) c)"
      using handled_invoke admits_open [OF 3(1)] by blast
    with 3 "2.IH"(3) "2.prems" show ?thesis by (auto intro: handled_trans)
  qed
qed simp

lemma handled_deliver: "deliver stops records cpush p input c = (e, c') \<Longrightarrow> handled stops c c'"
proof -
  have "handled stops c d" if "deliver_custom stops records ms (c\<lparr>rc_framer := f\<rparr>) = (e, d)" for f ms d
    by (rule handled_trans [OF handled_same handled_deliver_custom [OF that]]) simp_all
  moreover have "handled stops c (c\<lparr>rc_framer := f\<rparr>)" for f by (simp add: handled_same)
  ultimately show "deliver stops records cpush p input c = (e, c') \<Longrightarrow> handled stops c c'"
    by (auto simp: deliver_def Let_def intro: handled_deliver_staged
        split: recv_framer.splits prod.splits option.splits if_splits)
qed

lemma handled_prepared:
  assumes "\<not> rc_closed c" and "handle_prepared stops records cpush g data p c = (e, c')"
  shows "handled stops c c'"
proof (cases "pr_raw p")
  case None
  with assms(2) have "deliver stops records cpush p data
      (invoke_user stops (h_data (rc_handlers c)) (On_data data) c) = (e, c')"
    by (simp add: handle_prepared_def)
  from handled_trans [OF handled_invoke handled_deliver [OF this]] assms(1) show ?thesis by blast
next
  case (Some msg)
  obtain e1 c1 where q: "queue_data stops g msg c = (e1, c1)" by fastforce
  note h = handled_queue(1) [OF assms(1) q]
  show ?thesis
  proof (cases e1)
    case None
    with assms(2) Some q have "deliver stops records cpush p data c1 = (e, c')" by (simp add: handle_prepared_def)
    from handled_trans [OF h handled_deliver [OF this]] show ?thesis .
  next
    case e: (Some x)
    with assms(2) Some q h show ?thesis by (auto simp: handle_prepared_def split: option.splits)
  qed
qed

lemma handled_bytes:
  assumes "rc_on_bytes sg records cpush creset stops g data c = Some c'"
  shows "handled stops c c'"
proof (cases "admits g c")
  case False
  with assms show ?thesis by (simp add: rc_on_bytes_def)
next
  case True
  with assms obtain r f st m where
    p: "prepare_receive sg records (rc_receive c) (rc_framer c) 0 data (h_data_batch (rc_handlers c)) (rc_mem c)
      = Some (r, f, st, m)"
    by (auto simp: rc_on_bytes_def split: option.splits)
  define c1 where "c1 = c\<lparr>rc_framer := f, rc_receive := st, rc_mem := m\<rparr>"
  have c1: "handled stops c c1" by (simp add: c1_def handled_same)
  show ?thesis
  proof (cases r)
    case (Inl e)
    with assms True p c1 show ?thesis by (auto simp: rc_on_bytes_def c1_def)
  next
    case (Inr q)
    obtain e2 c2 where h: "handle_prepared stops records cpush g data q c1 = (e2, c2)" by fastforce
    have "\<not> rc_closed c1" using admits_open [OF True] by (simp add: c1_def)
    from handled_trans [OF c1 handled_prepared [OF this h]] assms True p Inr h show ?thesis
      by (auto simp: rc_on_bytes_def c1_def split: option.splits)
  qed
qed

lemma handled_state: "handled stops c (rc_on_state creset stops g s c)"
proof (cases "admits g c")
  case False
  then show ?thesis by (simp add: rc_on_state_def)
next
  case True
  define ready where "ready = (s = LinkConnected)"
  obtain disconnect err lc where o: "lifecycle_observe s ready (rc_lifecycle c) = ((disconnect, err), lc)"
    by (metis prod.collapse)
  have both: "\<not> (ready \<and> disconnect)" using o by (auto simp: lifecycle_observe_def Let_def)
  define c1 where "c1 = c\<lparr>rc_lifecycle := lc\<rparr>"
  define c2 where "c2 = (if ready then fulfill_all True (clear_queues (reset_receive creset c1))
    else if s = LinkClosed \<or> s = LinkIdle \<or> s = LinkError then fulfill_all False c1 else c1)"
  define c3 where "c3 = (if disconnect then
    let c' = flush_batches stops g c2 in (if has_framer c' then reset_receive creset c' else c') else c2)"
  define c4 where "c4 = invoke_user stops (ready \<and> h_connect (rc_handlers c)) On_connect c3"
  define c5 where "c5 = invoke_user stops (disconnect \<and> h_disconnect (rc_handlers c)) On_disconnect c4"
  have c1: "handled stops c c1" by (simp add: c1_def handled_same)
  then have c2: "handled stops c c2" by (simp add: c2_def)
  have c3: "handled stops c c3"
    using c2 handled_trans [OF c2 handled_flush_batches] by (simp add: c3_def Let_def)
  have r: "rc_on_state creset stops g s c = (if \<not> admits g c3 then c3
      else if admits g c5 then invoke_user stops (err \<and> h_error (rc_handlers c)) On_error c5 else c5)"
    using True o by (simp add: rc_on_state_def c1_def c2_def c3_def c4_def c5_def ready_def Let_def)
  show ?thesis
  proof (cases "admits g c3")
    case False
    with r c3 show ?thesis by simp
  next
    case adm: True
    note o3 = admits_open [OF adm]
    have "handled stops c3 c5"
    proof (cases ready)
      case True
      with both have "c5 = c4" by (simp add: c5_def invoke_user_def)
      with o3 show ?thesis by (simp add: c4_def handled_invoke)
    next
      case False
      then have "c4 = c3" by (simp add: c4_def invoke_user_def)
      with o3 show ?thesis by (simp add: c5_def handled_invoke)
    qed
    note c5 = handled_trans [OF c3 this]
    from c5 handled_trans [OF c5 handled_invoke] admits_open [of g c5] r adm show ?thesis by auto
  qed
qed

section \<open>The run\<close>

text \<open>
  Batches wait only for a client that runs or whose stop is not complete, and an open gate with registered handlers
  means a running client; so the limits are replaced only when nothing is queued.
\<close>

definition rc_running_ok :: "'u recv_client \<Rightarrow> bool" where
  "rc_running_ok c \<longleftrightarrow>
     (rc_data_queue c \<noteq> [] \<or> rc_message_queue c \<noteq> [] \<longrightarrow> rc_alive c \<and> (rc_started c \<or> rc_stop_requested c))
     \<and> (\<not> rc_closed c \<and> rc_registered c \<noteq> [] \<longrightarrow> rc_started c \<and> rc_alive c)"

definition rc_inv :: "bool \<Rightarrow> nat \<Rightarrow> 'u recv_client \<Rightarrow> bool" where
  "rc_inv sg records c \<longleftrightarrow> (\<exists>l. rc_ok sg records l 0 c) \<and> rc_running_ok c"

lemma handled_control:
  assumes "handled stops c c'"
  shows "rc_control c' = rc_control c \<or> rc_control c' = stopped_control (rc_control c)"
  using assms by (auto simp: handled_def split: if_splits)

lemma handled_running:
  assumes h: "handled stops c c'" and ok: "rc_running_ok c"
    and run: "rc_alive c \<and> (rc_started c \<or> rc_stop_requested c) \<or> rc_data_queue c' = [] \<and> rc_message_queue c' = []"
  shows "rc_running_ok c'"
  using handled_control [OF h] ok run
  by (auto simp: rc_control_def stopped_control_def rc_running_ok_def gate_close_def)

lemma running_admitted: "rc_running_ok c \<Longrightarrow> admits g c \<Longrightarrow> rc_registered c \<noteq> [] \<Longrightarrow> rc_alive c \<and> rc_started c"
  using admits_open [of g c] by (simp add: rc_running_ok_def)

lemma running_bytes:
  assumes ok: "rc_running_ok c" and g: "g \<in> set (rc_registered c)"
    and b: "rc_on_bytes sg records cpush creset stops g data c = Some c'"
  shows "rc_running_ok c'"
proof (cases "admits g c")
  case False
  with ok b show ?thesis by (simp add: rc_on_bytes_def)
next
  case True
  with running_admitted [OF ok] g handled_running [OF handled_bytes [OF b] ok] show ?thesis by fastforce
qed

lemma running_state:
  assumes ok: "rc_running_ok c" and g: "g \<in> set (rc_registered c)"
  shows "rc_running_ok (rc_on_state creset stops g s c)"
proof (cases "admits g c")
  case False
  with ok show ?thesis by (simp add: rc_on_state_def)
next
  case True
  with running_admitted [OF ok] g handled_running [OF handled_state ok] show ?thesis by fastforce
qed

lemma running_waits [simp]: "rc_running_ok (c\<lparr>rc_waits := ws\<rparr>) = rc_running_ok c"
  by (simp add: rc_running_ok_def)

lemma running_timer:
  assumes ok: "rc_running_ok c"
  shows "rc_running_ok (flush_batches stops g c)"
proof (cases "rc_data_queue c = [] \<and> rc_message_queue c = []")
  case True
  with ok show ?thesis by (simp add: flush_batches_def)
next
  case False
  with ok handled_running [OF handled_flush_batches ok] show ?thesis by (auto simp: rc_running_ok_def)
qed

lemma queues_frame [simp]:
  "rc_data_queue (reset_receive cr c) = rc_data_queue c" "rc_message_queue (reset_receive cr c) = rc_message_queue c"
  "rc_data_queue (clear_queues c) = []" "rc_message_queue (clear_queues c) = []"
  by (simp_all add: reset_receive_def clear_queues_def drop_messages_def Let_def split: prod.splits)

lemma running_stop: "rc_running_ok (rc_stop creset c)"
proof -
  let ?d = "(cancel_batch_timer (rc_request_stop c))\<lparr>rc_alive := False, rc_has_timer := False\<rparr>"
  have "rc_control (rc_stop creset c) = rc_control ?d" by (simp add: rc_stop_def Let_def)
  moreover have "rc_closed ?d"
    by (simp add: rc_request_stop_def fulfill_all_def cancel_batch_timer_def gate_close_def)
  moreover have "rc_data_queue (rc_stop creset c) = []" "rc_message_queue (rc_stop creset c) = []"
    by (simp_all add: rc_stop_def Let_def)
  ultimately show ?thesis by (simp add: rc_running_ok_def rc_control_def)
qed

lemma running_start: "rc_running_ok c \<Longrightarrow> rc_running_ok (rc_start linked c)"
  by (auto simp: rc_start_def rc_running_ok_def setup_internal_handlers_def open_new_generation_def Let_def)

lemma rc_ok_start: "rc_ok sg records l t c \<Longrightarrow> rc_ok sg records l t (rc_start linked c)"
  by (auto simp: rc_start_def rc_ok_def setup_internal_handlers_def mem_holds_def budget_reset_stats_def Let_def
      split: prod.splits)

lemma rc_ok_stop: "rc_ok sg records l t c \<Longrightarrow> rc_ok sg records l t (rc_stop creset c)"
  by (simp add: rc_stop_def Let_def rc_ok_reset rc_ok_clear)

lemma rc_ok_set_framer:
  assumes ok: "rc_ok sg records l t c" and f: "framer_usable sg f"
  shows "rc_ok sg records l t (rc_set_framer f c)"
proof -
  have "mem_holds l 0 ((t + charges_of (rc_data_queue c) + charges_of (rc_message_queue c)) + storage_of (rc_receive c))
      (rc_mem c)"
    using ok by (simp add: rc_ok_def ac_simps)
  from drop_storage_holds [OF this] ok f show ?thesis
    by (simp add: rc_set_framer_def Let_def) (simp add: rc_ok_def storage_of_def)
qed

lemma rc_ok_limits:
  assumes ok: "rc_ok sg records l 0 c" and empty: "rc_data_queue c = []" "rc_message_queue c = []"
    and l': "max_bytes l' \<le> SIZE_MAX" and r: "rc_receive_limits creset l' c = Inr c'"
  shows "\<exists>l. rc_ok sg records l 0 c'"
proof -
  have "rc_ok sg records l 0 (reset_receive creset c)" using rc_ok_reset [OF ok] .
  with r empty l' show ?thesis
    by (auto simp: rc_receive_limits_def rc_ok_def mem_holds_def new_budget_def new_scope_def storage_of_def Let_def
        split: sum.splits if_splits)
qed

lemma running_frame [simp]:
  "rc_running_ok (c\<lparr>rc_handlers := h\<rparr>) = rc_running_ok c" "rc_running_ok (c\<lparr>rc_max_batch := n\<rparr>) = rc_running_ok c"
  "rc_running_ok (c\<lparr>rc_mem := m\<rparr>) = rc_running_ok c" "rc_running_ok (attach_framer_callback c) = rc_running_ok c"
  "rc_running_ok (rc_set_framer f c) = rc_running_ok c"
  by (simp_all add: rc_running_ok_def attach_framer_callback_def rc_set_framer_def Let_def)

lemma running_limits: "rc_running_ok c \<Longrightarrow> rc_receive_limits creset l c = Inr c' \<Longrightarrow> rc_running_ok c'"
  by (auto simp: rc_receive_limits_def rc_running_ok_def reset_receive_def Let_def split: sum.splits if_splits)

lemma limits_idle: "rc_running_ok c \<Longrightarrow> rc_receive_limits creset l c = Inr c' \<Longrightarrow> rc_data_queue c = [] \<and> rc_message_queue c = []"
  by (auto simp: rc_receive_limits_def rc_running_ok_def split: sum.splits if_splits)

lemmas setter_defs =
  rc_on_data_def rc_on_data_batch_def rc_on_message_def rc_on_message_batch_def rc_on_connect_def rc_on_disconnect_def
  rc_on_error_def rc_batch_size_def or_unchanged_def rc_reset_stats_def

lemma rc_step_inv:
  assumes inv: "rc_inv sg records c" and s: "rc_step sg records cpush creset stops e c = Some c'"
  shows "rc_inv sg records c'"
proof -
  from inv obtain l where ok: "rc_ok sg records l 0 c" and run: "rc_running_ok c" by (auto simp: rc_inv_def)
  show ?thesis
  proof (cases e)
    case (Bytes g d)
    with s have "g \<in> set (rc_registered c)" "rc_on_bytes sg records cpush creset stops g d c = Some c'"
      by (auto split: if_splits)
    with running_bytes [OF run this] rc_ok_bytes [OF ok, of cpush creset stops g d] show ?thesis by (auto simp: rc_inv_def)
  next
    case (State_change g st)
    with s running_state [OF run] rc_ok_state [OF ok] show ?thesis
      by (auto simp: rc_inv_def intro!: exI [of _ l] split: if_splits)
  next
    case (Timer_expiry g live)
    let ?c = "c\<lparr>rc_waits := remove1 (g, live) (rc_waits c)\<rparr>"
    have "rc_ok sg records l 0 ?c" "rc_running_ok ?c" using ok run by simp_all
    with Timer_expiry s running_timer [of ?c] rc_ok_flush_batches [of sg records l 0 ?c] show ?thesis
      by (auto simp: rc_inv_def intro!: exI [of _ l] split: if_splits)
  next
    case (Set_receive_limits l')
    show ?thesis
    proof (cases "rc_receive_limits creset l' c")
      case (Inl x)
      with Set_receive_limits s inv show ?thesis by (auto simp: or_unchanged_def split: if_splits)
    next
      case (Inr d)
      with Set_receive_limits s rc_ok_limits [OF ok _ _ _ Inr] limits_idle [OF run Inr] running_limits [OF run Inr]
      show ?thesis by (auto simp: or_unchanged_def rc_inv_def split: if_splits)
    qed
  next
    case Reset_client_stats
    have "rc_ok sg records l 0 (rc_reset_stats c)"
      using ok by (auto simp: rc_reset_stats_def rc_ok_def mem_holds_def budget_reset_stats_def split: prod.splits)
    with Reset_client_stats s run show ?thesis by (auto simp: rc_inv_def rc_reset_stats_def)
  qed (use s ok run in \<open>auto simp: rc_inv_def setter_defs rc_ok_set_framer rc_ok_start rc_ok_stop running_start running_stop
      intro!: exI [of _ l] split: if_splits\<close>)
qed

interpretation client_receive: machine_invariant "rc_step sg records cpush creset stops" "rc_inv sg records"
  for sg records cpush creset stops
  by unfold_locales (rule rc_step_inv)

lemma rc_inv_new: "rc_inv sg records (new_recv_client allocs)"
  by (auto simp: rc_inv_def rc_running_ok_def rc_ok_def new_recv_client_def mem_holds_def new_scope_def storage_of_def
      framer_usable_def default_limits_def SIZE_MAX_def)

text \<open>
  C21: in every state that a client can reach, by any sequence of chunks, link states, timer expiries, life-cycle and
  configuration calls, with allocations that may fail at any point and callbacks that may stop the client, the
  memory it reports as reserved for received data is exactly the framer's buffer plus the batched messages (each with
  its record), and never more than the configured limit; and a chunk from a registered channel is always handled.
\<close>

theorem client_receive_memory_exact:
  assumes "reaches (rc_step sg records cpush creset stops) (new_recv_client allocs) c"
  shows "ms_reserved_bytes (rc_receive_stats c)
      = storage_of (rc_receive c)
        + (\<Sum>m\<leftarrow>rc_data_queue c @ rc_message_queue c. length (rm_data m) + records)
    \<and> ms_reserved_bytes (rc_receive_stats c) \<le> max_bytes (rb_limits (fst (m_account (rc_mem c))))
    \<and> (\<forall>g\<in>set (rc_registered c). \<forall>data. rc_step sg records cpush creset stops (Bytes g data) c \<noteq> None)"
proof -
  from client_receive.reaches_inv [OF assms rc_inv_new] obtain l where ok: "rc_ok sg records l 0 c"
    by (auto simp: rc_inv_def)
  have "charges_of q = (\<Sum>m\<leftarrow>q. length (rm_data m) + records)" if "\<forall>x\<in>set q. retained_as records 0 x" for q
    using that by (induction q) (auto simp: retained_as_def)
  with ok have "ms_reserved_bytes (rc_receive_stats c) = storage_of (rc_receive c)
        + (\<Sum>m\<leftarrow>rc_data_queue c @ rc_message_queue c. length (rm_data m) + records)"
    by (auto simp: rc_ok_def mem_holds_def rc_receive_stats_def budget_stats_def split: prod.splits)
  moreover have "ms_reserved_bytes (rc_receive_stats c) \<le> max_bytes (rb_limits (fst (m_account (rc_mem c))))"
    using ok by (auto simp: rc_ok_def mem_holds_def rc_receive_stats_def budget_stats_def split: prod.splits)
  moreover have "\<forall>g\<in>set (rc_registered c). \<forall>data. rc_step sg records cpush creset stops (Bytes g data) c \<noteq> None"
    using rc_ok_bytes [OF ok] by fastforce
  ultimately show ?thesis by blast
qed

section \<open>Silence after stop\<close>

definition falls_silent :: "(user_event list \<Rightarrow> bool) \<Rightarrow> 'u recv_client \<Rightarrow> 'u recv_client \<Rightarrow> bool" where
  "falls_silent stops c c' \<longleftrightarrow>
     (\<exists>calls. rc_log c' = rc_log c @ calls \<and> (rc_closed c \<longrightarrow> calls = [] \<and> rc_closed c')
        \<and> (\<forall>i < length calls. stops (rc_log c @ take (Suc i) calls) \<longrightarrow> Suc i = length calls \<and> rc_closed c'))"

lemma silent_quiet: "rc_log c' = rc_log c \<Longrightarrow> (rc_closed c \<Longrightarrow> rc_closed c') \<Longrightarrow> falls_silent stops c c'"
  by (simp add: falls_silent_def)

lemma silent_trans:
  assumes "falls_silent stops c c1" and "falls_silent stops c1 c2"
  shows "falls_silent stops c c2"
proof -
  from assms(1) obtain n1 where 1: "rc_log c1 = rc_log c @ n1" "rc_closed c \<longrightarrow> n1 = [] \<and> rc_closed c1"
    "\<And>i. i < length n1 \<Longrightarrow> stops (rc_log c @ take (Suc i) n1) \<Longrightarrow> Suc i = length n1 \<and> rc_closed c1"
    by (auto simp: falls_silent_def)
  from assms(2) obtain n2 where 2: "rc_log c2 = rc_log c1 @ n2" "rc_closed c1 \<longrightarrow> n2 = [] \<and> rc_closed c2"
    "\<And>i. i < length n2 \<Longrightarrow> stops (rc_log c1 @ take (Suc i) n2) \<Longrightarrow> Suc i = length n2 \<and> rc_closed c2"
    by (auto simp: falls_silent_def)
  have "Suc i = length (n1 @ n2) \<and> rc_closed c2"
    if i: "i < length (n1 @ n2)" and s: "stops (rc_log c @ take (Suc i) (n1 @ n2))" for i
  proof (cases "i < length n1")
    case True
    with s 1(3) have "Suc i = length n1 \<and> rc_closed c1" by simp
    with 2(2) show ?thesis by simp
  next
    case False
    then have "stops (rc_log c1 @ take (Suc (i - length n1)) n2)" using s 1(1) by (simp add: Suc_diff_le)
    with 2(3) [of "i - length n1"] i False have "Suc (i - length n1) = length n2" "rc_closed c2" by simp_all
    with False show ?thesis by (simp flip: Suc_diff_le)
  qed
  with 1(1,2) 2(1,2) show ?thesis unfolding falls_silent_def by (intro exI [of _ "n1 @ n2"]) auto
qed

lemma handled_silent:
  assumes "handled stops c c'"
  shows "falls_silent stops c c'"
proof -
  from assms obtain calls where h: "rc_log c' = rc_log c @ calls" "rc_closed c \<longrightarrow> calls = []"
    "\<And>i. Suc i < length calls \<Longrightarrow> \<not> stops (rc_log c @ take (Suc i) calls)"
    "rc_control c' = (if calls \<noteq> [] \<and> stops (rc_log c') then stopped_control (rc_control c) else rc_control c)"
    by (auto simp: handled_def)
  have "Suc i = length calls \<and> rc_closed c'"
    if i: "i < length calls" and s: "stops (rc_log c @ take (Suc i) calls)" for i
  proof -
    from i s h(3) [of i] have last: "Suc i = length calls" by linarith
    with s h(1,4) i have "rc_control c' = stopped_control (rc_control c)" by auto
    with last stopped_closed show ?thesis by blast
  qed
  moreover have "rc_closed c \<longrightarrow> rc_closed c'"
    using handled_control [OF assms] control_closed stopped_closed by metis
  ultimately show ?thesis using h(1,2) unfolding falls_silent_def by blast
qed

lemma silent_step:
  assumes s: "rc_step sg records cpush creset stops e c = Some c'" and e: "\<And>linked. e \<noteq> Start_client linked"
  shows "falls_silent stops c c'"
proof (cases e)
  case (Bytes g d)
  with s handled_silent [OF handled_bytes] show ?thesis by (auto split: if_splits)
next
  case (State_change g st)
  with s handled_silent [OF handled_state] show ?thesis by (auto split: if_splits)
next
  case (Timer_expiry g live)
  let ?c = "c\<lparr>rc_waits := remove1 (g, live) (rc_waits c)\<rparr>"
  have "falls_silent stops c ?c" by (simp add: silent_quiet)
  from silent_trans [OF this handled_silent [OF handled_flush_batches]] Timer_expiry s show ?thesis
    by (auto split: if_splits)
next
  case Stop_client
  let ?d = "cancel_batch_timer (rc_request_stop c)"
  have "rc_log ?d = rc_log c" "rc_closed ?d"
    by (simp_all add: rc_request_stop_def fulfill_all_def cancel_batch_timer_def gate_close_def)
  moreover have "rc_log (rc_stop creset c) = rc_log ?d" "rc_gate (rc_stop creset c) = rc_gate ?d"
    by (simp_all add: rc_stop_def clear_queues_def reset_receive_def drop_messages_def Let_def split: prod.splits)
  ultimately show ?thesis using Stop_client s by (auto intro: silent_quiet)
qed (use s e in \<open>auto simp: setter_defs rc_set_framer_def rc_receive_limits_def attach_framer_callback_def reset_receive_def Let_def
    intro!: silent_quiet split: if_splits sum.splits\<close>)

text \<open>
  C22: \<open>stop()\<close> is final. Between two calls of \<open>start()\<close>, whatever the channel, the batch timer and the user do, the
  callback that calls \<open>stop()\<close> is the last callback of the run: not even the messages of the same chunk, or the error
  and disconnect notifications of the same link state, follow it. A client that is stopped already (the gate is closed)
  makes no callback at all, whatever handlers of its channel are still queued.
\<close>

theorem stop_silences_client:
  assumes "run_steps (rc_step sg records cpush creset stops) es c = Some c'"
    and "\<forall>linked. Start_client linked \<notin> set es"
  shows "\<exists>calls. rc_log c' = rc_log c @ calls \<and> (cg_closed (rc_gate c) \<longrightarrow> calls = [])
    \<and> (\<forall>i < length calls. stops (rc_log c @ take (Suc i) calls) \<longrightarrow> Suc i = length calls \<and> cg_closed (rc_gate c'))"
proof -
  from assms have "falls_silent stops c c'"
  proof (induction es arbitrary: c)
    case Nil
    then show ?case by (simp add: silent_quiet)
  next
    case (Cons e es)
    then obtain c1 where c1: "rc_step sg records cpush creset stops e c = Some c1"
      "run_steps (rc_step sg records cpush creset stops) es c1 = Some c'"
      by (auto split: option.splits)
    from silent_trans [OF silent_step [OF c1(1)] Cons.IH [OF c1(2)]] Cons.prems(2) show ?case by auto
  qed
  then show ?thesis by (auto simp: falls_silent_def)
qed

section \<open>Examples\<close>

definition demo_run :: "unit rc_event list" where
  "demo_run = [Set_framer (Builtin_framer demo_framer), Set_on_message_batch True, Start_client False, Bytes 1 demo_input]"

definition demo_result :: "(user_event list \<Rightarrow> bool) \<Rightarrow> unit rc_event list \<Rightarrow> unit recv_client option" where
  "demo_result stops es = run_steps (rc_step True 40 (\<lambda>u d. (u, [d])) (\<lambda>u. u) stops) es (new_recv_client None)"

lemmas rc_eval =
  receive_eval demo_result_def demo_run_def new_recv_client_def rc_set_framer_def attach_framer_callback_def has_framer_def
  rc_on_message_batch_def rc_on_message_def rc_on_data_def rc_start_def setup_internal_handlers_def
  open_new_generation_def lifecycle_reset_def rc_on_bytes_def admits_def gate_enter_def handle_prepared_def deliver_def
  queue_message_def queue_data_def flush_messages_def flush_data_def invoke_user_def rc_request_stop_def fulfill_all_def
  gate_close_def drop_messages_def schedule_batch_timer_def framer_usable_def framer_ready_def lp_inv_def lp_cap_def
  rc_receive_stats_def budget_stats_def budget_reset_stats_def default_limits_def storage_of_def

theorem client_receive_memory_exact_witness:
  "\<exists>c. demo_result (\<lambda>_. False) demo_run = Some c \<and> map rm_data (rc_message_queue c) = [[7, 8], [9]]
     \<and> ms_reserved_bytes (rc_receive_stats c)
       = storage_of (rc_receive c) + (\<Sum>m\<leftarrow>rc_data_queue c @ rc_message_queue c. length (rm_data m) + 40)
     \<and> ms_reserved_bytes (rc_receive_stats c) = 90"
proof -
  have "map_option (\<lambda>c. (map rm_data (rc_message_queue c), ms_reserved_bytes (rc_receive_stats c)))
      (demo_result (\<lambda>_. False) demo_run) = Some ([[7, 8], [9]], 90)"
    by (simp add: rc_eval lp_loop.simps prepare_loop.simps)
  then obtain c where c: "demo_result (\<lambda>_. False) demo_run = Some c" "map rm_data (rc_message_queue c) = [[7, 8], [9]]"
    "ms_reserved_bytes (rc_receive_stats c) = 90"
    by auto
  from c(1) have "reaches (rc_step True 40 (\<lambda>u d. (u, [d])) (\<lambda>u. u) (\<lambda>_. False)) (new_recv_client None) c"
    unfolding demo_result_def by (rule reaches_run)
  from client_receive_memory_exact [OF this] c show ?thesis by (intro exI [of _ c]) simp
qed

text \<open>The second callback of this run, the first message of the chunk, stops the client.\<close>

definition demo_chunks :: "unit rc_event list" where
  "demo_chunks = [Bytes 1 demo_input, Bytes 1 [1, 2]]"

theorem stop_silences_client_witness:
  "\<exists>c c'. demo_result (\<lambda>log. length log = 2) [Set_framer (Builtin_framer demo_framer), Set_on_message True, Set_on_data True,
        Start_client False] = Some c
     \<and> run_steps (rc_step True 40 (\<lambda>u d. (u, [d])) (\<lambda>u. u) (\<lambda>log. length log = 2)) demo_chunks c = Some c'
     \<and> rc_log c' = rc_log c @ [On_data demo_input, On_message [7, 8]] \<and> cg_closed (rc_gate c')"
proof -
  let ?stops = "\<lambda>log :: user_event list. length log = 2"
  let ?start = "[Set_framer (Builtin_framer demo_framer), Set_on_message True, Set_on_data True, Start_client False]"
  let ?run = "run_steps (rc_step True 40 (\<lambda>u d. (u, [d])) (\<lambda>u. u) ?stops)"
  have "map_option rc_log (demo_result ?stops ?start) = Some []"
    by (simp add: rc_eval)
  then obtain c where c: "demo_result ?stops ?start = Some c" "rc_log c = []" by auto
  have "map_option rc_log (Option.bind (demo_result ?stops ?start) (?run demo_chunks))
      = Some [On_data demo_input, On_message [7, 8]]"
    by (simp add: rc_eval demo_chunks_def lp_loop.simps prepare_loop.simps)
  with c obtain c' where c': "?run demo_chunks c = Some c'" "rc_log c' = [On_data demo_input, On_message [7, 8]]" by auto
  from stop_silences_client [OF c'(1)] have "cg_closed (rc_gate c')"
    using c'(2) c(2) by (auto simp: demo_chunks_def dest!: spec [of _ "Suc 0"])
  with c c' show ?thesis by auto
qed

end
