(* ===== verification/Client_Stream.thy ===== *)
theory Client_Stream
  imports Receive_Delivery
begin

text \<open>
  From the socket to the user: as long as no callback stops the client and no receive fails, the user sees the byte
  stream and the messages in it completely, in order and once, through whichever of the data and message callbacks are
  registered, single or batched. What has not been handed over yet is in the batch queues.
\<close>

section \<open>What the user has seen\<close>

fun data_in :: "user_event \<Rightarrow> bytes" where
  "data_in (On_data d) = d"
| "data_in (On_data_batch ds) = concat ds"
| "data_in _ = []"

fun messages_in :: "user_event \<Rightarrow> bytes list" where
  "messages_in (On_message d) = [d]"
| "messages_in (On_message_batch ds) = ds"
| "messages_in _ = []"

definition seen_data :: "'u recv_client \<Rightarrow> bytes" where
  "seen_data c = concat (map data_in (rc_log c)) @ concat (map rm_data (rc_data_queue c))"

definition seen_messages :: "'u recv_client \<Rightarrow> bytes list" where
  "seen_messages c = concat (map messages_in (rc_log c)) @ map rm_data (rc_message_queue c)"

text \<open>Whether there is a callback for the data or the messages, and that no batch waits without its callback.\<close>

definition wants_data :: "'u recv_client \<Rightarrow> bool" where
  "wants_data c \<longleftrightarrow> h_data_batch (rc_handlers c) \<or> h_data (rc_handlers c)"

definition wants_messages :: "'u recv_client \<Rightarrow> bool" where
  "wants_messages c \<longleftrightarrow> h_message_batch (rc_handlers c) \<or> h_message (rc_handlers c)"

definition takes_data :: "'u recv_client \<Rightarrow> bool" where
  "takes_data c \<longleftrightarrow> h_data_batch (rc_handlers c) \<or> rc_data_queue c = []"

definition takes_messages :: "'u recv_client \<Rightarrow> bool" where
  "takes_messages c \<longleftrightarrow> h_message_batch (rc_handlers c) \<or> rc_message_queue c = []"

definition rc_faults :: "'u recv_client \<Rightarrow> nat" where
  "rc_faults c = rc_fails c + length (rc_escaped c)"

section \<open>Frames\<close>

lemma invoke_frame [simp]:
  "rc_data_queue (invoke_user stops r ev c) = rc_data_queue c"
  "rc_message_queue (invoke_user stops r ev c) = rc_message_queue c"
  "rc_handlers (invoke_user stops r ev c) = rc_handlers c"
  "rc_log (invoke_user stops r ev c) = (if r then rc_log c @ [ev] else rc_log c)"
  "rc_faults (invoke_user stops r ev c) = rc_faults c"
  by (simp_all add: invoke_user_def rc_request_stop_def fulfill_all_def rc_faults_def Let_def)

lemma drop_frame [simp]:
  "rc_data_queue (drop_messages ms c) = rc_data_queue c" "rc_message_queue (drop_messages ms c) = rc_message_queue c"
  "rc_handlers (drop_messages ms c) = rc_handlers c" "rc_faults (drop_messages ms c) = rc_faults c"
  by (simp_all add: drop_messages_def rc_faults_def)

lemma timer_frame [simp]:
  "rc_data_queue (schedule_batch_timer g c) = rc_data_queue c"
  "rc_message_queue (schedule_batch_timer g c) = rc_message_queue c"
  "rc_handlers (schedule_batch_timer g c) = rc_handlers c" "rc_faults (schedule_batch_timer g c) = rc_faults c"
  "rc_data_queue (cancel_batch_timer c) = rc_data_queue c" "rc_message_queue (cancel_batch_timer c) = rc_message_queue c"
  "rc_handlers (cancel_batch_timer c) = rc_handlers c" "rc_faults (cancel_batch_timer c) = rc_faults c"
  "rc_framer (cancel_batch_timer c) = rc_framer c"
  by (simp_all add: schedule_batch_timer_def cancel_batch_timer_def rc_faults_def)

lemma flush_frame [simp]:
  "rc_data_queue (flush_data stops c) = []" "rc_message_queue (flush_data stops c) = rc_message_queue c"
  "rc_data_queue (flush_messages stops c) = rc_data_queue c" "rc_message_queue (flush_messages stops c) = []"
  "rc_handlers (flush_data stops c) = rc_handlers c" "rc_handlers (flush_messages stops c) = rc_handlers c"
  "rc_faults (flush_data stops c) = rc_faults c" "rc_faults (flush_messages stops c) = rc_faults c"
  by (simp_all add: flush_data_def flush_messages_def Let_def) (simp_all add: rc_faults_def)

text \<open>On the way from \<open>c\<close> to \<open>c'\<close> the user's view grows by exactly the data \<open>d\<close> and the messages \<open>ms\<close>.\<close>

definition shows_also :: "bytes \<Rightarrow> bytes list \<Rightarrow> 'u recv_client \<Rightarrow> 'u recv_client \<Rightarrow> bool" where
  "shows_also d ms c c' \<longleftrightarrow>
     rc_framer c' = rc_framer c \<and> rc_faults c' = rc_faults c \<and> rc_handlers c' = rc_handlers c
     \<and> (takes_data c \<longrightarrow> takes_data c' \<and> (wants_data c \<longrightarrow> seen_data c' = seen_data c @ d))
     \<and> (takes_messages c \<longrightarrow> takes_messages c' \<and> (wants_messages c \<longrightarrow> seen_messages c' = seen_messages c @ ms))"

lemma shows_refl [simp]: "shows_also [] [] c c"
  by (simp add: shows_also_def)

lemma shows_frame [simp]:
  "shows_also d ms (c\<lparr>rc_mem := m\<rparr>) c' = shows_also d ms c c'" "shows_also d ms (c\<lparr>rc_receive := r\<rparr>) c' = shows_also d ms c c'"
  "shows_also d ms (c\<lparr>rc_waits := ws\<rparr>) c' = shows_also d ms c c'"
  by (simp_all add: shows_also_def rc_faults_def takes_data_def takes_messages_def wants_data_def wants_messages_def
      seen_data_def seen_messages_def)

lemma view_framer [simp]:
  "takes_data (c\<lparr>rc_framer := f\<rparr>) = takes_data c" "takes_messages (c\<lparr>rc_framer := f\<rparr>) = takes_messages c"
  "wants_data (c\<lparr>rc_framer := f\<rparr>) = wants_data c" "wants_messages (c\<lparr>rc_framer := f\<rparr>) = wants_messages c"
  "seen_data (c\<lparr>rc_framer := f\<rparr>) = seen_data c" "seen_messages (c\<lparr>rc_framer := f\<rparr>) = seen_messages c"
  by (simp_all add: takes_data_def takes_messages_def wants_data_def wants_messages_def seen_data_def seen_messages_def)

lemma shows_wants: "shows_also d ms c c' \<Longrightarrow> wants_data c' = wants_data c \<and> wants_messages c' = wants_messages c"
  by (simp add: shows_also_def wants_data_def wants_messages_def)

lemma shows_trans:
  "shows_also d1 ms1 c c1 \<Longrightarrow> shows_also d2 ms2 c1 c2 \<Longrightarrow> shows_also (d1 @ d2) (ms1 @ ms2) c c2"
  by (auto simp: shows_also_def wants_data_def wants_messages_def)

lemma shows_flush:
  "h_data_batch (rc_handlers c) \<Longrightarrow> shows_also [] [] c (flush_data stops c)"
  "h_message_batch (rc_handlers c) \<Longrightarrow> shows_also [] [] c (flush_messages stops c)"
  unfolding shows_also_def
  by (simp_all add: takes_data_def takes_messages_def wants_data_def wants_messages_def seen_data_def seen_messages_def)
     (simp_all add: flush_data_def flush_messages_def Let_def)

lemma shows_cancel [simp]: "shows_also d ms c (cancel_batch_timer c') = shows_also d ms c c'"
  by (simp add: shows_also_def takes_data_def takes_messages_def wants_data_def wants_messages_def seen_data_def seen_messages_def)

lemma shows_flush_batches:
  assumes d: "takes_data c" and m: "takes_messages c"
  shows "shows_also [] [] c (flush_batches stops g c)"
proof (cases "admits g c \<and> \<not> (rc_data_queue c = [] \<and> rc_message_queue c = [])")
  case False
  then show ?thesis by (auto simp: flush_batches_def)
next
  case True
  define c1 where "c1 = (if rc_data_queue c \<noteq> [] then flush_data stops c else c)"
  have 1: "shows_also [] [] c c1" using d shows_flush(1) by (auto simp: c1_def takes_data_def)
  then have "takes_messages c1" using m by (simp add: shows_also_def)
  then have "shows_also [] [] c1 (if rc_message_queue c1 \<noteq> [] then flush_messages stops c1 else c1)"
    using shows_flush(2) by (auto simp: takes_messages_def)
  from shows_trans [OF 1 this] 1 True show ?thesis by (simp add: flush_batches_def Let_def flip: c1_def)
qed

lemma shows_queue_data:
  assumes "h_data_batch (rc_handlers c)" and "queue_data stops g msg c = (None, c')"
  shows "shows_also (rm_data msg) [] c c'"
proof -
  from assms(2) obtain m where m: "take_alloc (rc_mem c) = (True, m)"
    by (auto simp: queue_data_def split: prod.splits bool.splits)
  let ?c = "c\<lparr>rc_mem := m, rc_data_queue := rc_data_queue c @ [msg]\<rparr>"
  have q: "shows_also (rm_data msg) [] c ?c"
    using assms(1) by (simp add: shows_also_def takes_data_def takes_messages_def wants_data_def wants_messages_def seen_data_def seen_messages_def rc_faults_def)
  moreover have "shows_also [] [] ?c (flush_data stops ?c)" using assms(1) by (simp add: shows_flush)
  from shows_trans [OF q this] have "shows_also (rm_data msg) [] c (flush_data stops ?c)" by simp
  moreover from q have "shows_also (rm_data msg) [] c (schedule_batch_timer g ?c)"
    by (simp add: shows_also_def takes_data_def takes_messages_def wants_data_def wants_messages_def seen_data_def seen_messages_def)
  ultimately show ?thesis using assms(2) m by (auto simp: queue_data_def Let_def split: if_splits)
qed

lemma shows_queue_message:
  assumes "h_message_batch (rc_handlers c)" and "queue_message stops g msg c = (None, c')"
  shows "shows_also [] [rm_data msg] c c'"
proof -
  from assms(2) obtain m where m: "take_alloc (rc_mem c) = (True, m)"
    by (auto simp: queue_message_def split: prod.splits bool.splits)
  let ?c = "c\<lparr>rc_mem := m, rc_message_queue := rc_message_queue c @ [msg]\<rparr>"
  have q: "shows_also [] [rm_data msg] c ?c"
    using assms(1) by (simp add: shows_also_def takes_data_def takes_messages_def wants_data_def wants_messages_def seen_data_def seen_messages_def rc_faults_def)
  moreover have "shows_also [] [] ?c (flush_messages stops ?c)" using assms(1) by (simp add: shows_flush)
  from shows_trans [OF q this] have "shows_also [] [rm_data msg] c (flush_messages stops ?c)" by simp
  moreover from q have "shows_also [] [rm_data msg] c (schedule_batch_timer g ?c)"
    by (simp add: shows_also_def takes_data_def takes_messages_def wants_data_def wants_messages_def seen_data_def seen_messages_def)
  ultimately show ?thesis using assms(2) m by (auto simp: queue_message_def Let_def split: if_splits)
qed

lemma shows_invoke:
  "\<not> h_data_batch (rc_handlers c) \<Longrightarrow>
     shows_also d [] c (invoke_user stops (h_data (rc_handlers c)) (On_data d) c)"
  "\<not> h_message_batch (rc_handlers c) \<Longrightarrow>
     shows_also [] [m] c (drop_messages ms (invoke_user stops (h_message (rc_handlers c)) (On_message m) c))"
  by (simp_all add: shows_also_def takes_data_def takes_messages_def wants_data_def wants_messages_def seen_data_def seen_messages_def)

text \<open>Staged messages, as long as the gate stays open.\<close>

lemma open_control: "handled stops c c' \<Longrightarrow> \<not> rc_closed c' \<Longrightarrow> rc_control c' = rc_control c"
  using handled_control stopped_closed by blast

lemma open_before: "handled stops c c' \<Longrightarrow> \<not> rc_closed c' \<Longrightarrow> \<not> rc_closed c"
  using open_control control_closed by metis

lemma admits_control: "rc_control c' = rc_control c \<Longrightarrow> admits g c' = admits g c \<and> rc_generation c' = rc_generation c
    \<and> rc_attached c' = rc_attached c"
  by (simp add: rc_control_def admits_def)

lemma shows_deliver_staged:
  "deliver_staged stops msgs c = (None, c') \<Longrightarrow> \<not> rc_closed c' \<Longrightarrow> admits (rc_generation c) c \<Longrightarrow>
     shows_also [] (map rm_data msgs) c c'"
proof (induction stops msgs c rule: deliver_staged.induct)
  case (1 stops c)
  then show ?case by simp
next
  case (2 stops msg rest c)
  note adm = "2.prems"(3)
  show ?case
  proof (cases "h_message_batch (rc_handlers c)")
    case True
    with "2.prems"(1) adm obtain c1 where q: "queue_message stops (rc_generation c) msg c = (None, c1)"
      and d: "deliver_staged stops rest c1 = (None, c')"
      by (auto split: prod.splits option.splits)
    have "rc_control c1 = rc_control c"
      using open_control [OF handled_queue(2) [OF admits_open [OF adm] q]]
        open_before [OF handled_deliver_staged [OF d] "2.prems"(2)] by simp
    from admits_control [OF this] adm "2.IH"(2) [OF _ True q [symmetric] refl d "2.prems"(2)]
    have "shows_also [] (map rm_data rest) c1 c'" by simp
    from shows_trans [OF shows_queue_message [OF True q] this] show ?thesis by simp
  next
    case False
    let ?d = "drop_messages [msg] (invoke_user stops (h_message (rc_handlers c)) (On_message (rm_data msg)) c)"
    from "2.prems"(1) adm False have d: "deliver_staged stops rest ?d = (None, c')" by simp
    have h: "handled stops c ?d" using admits_open [OF adm] by (simp add: handled_invoke)
    have "rc_control ?d = rc_control c"
      using open_control [OF h] open_before [OF handled_deliver_staged [OF d] "2.prems"(2)] by simp
    from admits_control [OF this] adm "2.IH"(3) [OF _ False d "2.prems"(2)]
    have "shows_also [] (map rm_data rest) ?d c'" by simp
    from shows_trans [OF shows_invoke(2) [OF False] this] show ?thesis by simp
  qed
qed

section \<open>A chunk\<close>

text \<open>\<open>streaming sg h c\<close>: the client of the current run takes messages from a built-in framer that has seen \<open>h\<close>.\<close>

definition streaming :: "bool \<Rightarrow> builtin_config \<Rightarrow> bytes \<Rightarrow> 'u recv_client \<Rightarrow> bool" where
  "streaming sg cfg h c \<longleftrightarrow>
     admits (rc_generation c) c \<and> rc_attached c
     \<and> (\<exists>hf. rc_framer c = Builtin_framer hf \<and> builtin_cfg (hf_framer hf) = cfg
          \<and> builtin_tracks sg (builtin_on_message (Some quiet_callback) (hf_framer hf)) h)"

lemma faults_failed [simp]: "rc_faults (receive_failed creset n e c) = Suc (rc_faults c)"
  by (simp add: rc_faults_def receive_failed_def abandon_receive_def count_overflow_def reset_receive_def clear_queues_def
      drop_messages_def Let_def split: recv_error.split prod.split)

lemma faults_queue:
  "queue_data stops g msg c = (e, c') \<Longrightarrow> rc_faults c' = rc_faults c"
  "queue_message stops g msg c = (e, c') \<Longrightarrow> rc_faults c' = rc_faults c"
  by (auto simp: queue_data_def queue_message_def Let_def split: prod.splits bool.splits if_splits)
     (auto simp: rc_faults_def)

lemma faults_deliver_staged: "deliver_staged stops msgs c = (e, c') \<Longrightarrow> rc_faults c' = rc_faults c"
proof (induction stops msgs c rule: deliver_staged.induct)
  case (2 stops msg rest c)
  then show ?case using faults_queue(2)
    by (auto split: if_splits prod.splits option.splits)
qed simp

lemma deliver_builtin:
  assumes "rc_framer c = Builtin_framer hf" and "pr_messages p = Some msgs" and "deliver stops records cpush p data c = (e, c')"
  shows "rc_faults c' = rc_faults c"
    and "rc_attached c \<Longrightarrow> deliver_staged stops msgs c = (e, c')"
  using assms by (auto simp: deliver_def intro: faults_deliver_staged split: if_splits)

text \<open>The raw bytes come first; \<open>c1\<close> is the client when the messages are handed over.\<close>

lemma handle_prepared_raw:
  assumes adm: "\<not> rc_closed c"
    and p: "pr_raw p = raw_of records cid data (h_data_batch (rc_handlers c))" "pr_messages p = Some msgs"
    and h: "handle_prepared stops records cpush g data p c = (e, c')"
  obtains (failed) "e \<noteq> None" "rc_faults c' = rc_faults c"
  | (raw) c1 where "handled stops c c1" "shows_also data [] c c1" "deliver stops records cpush p data c1 = (e, c')"
proof (cases "h_data_batch (rc_handlers c)")
  case False
  let ?c = "invoke_user stops (h_data (rc_handlers c)) (On_data data) c"
  from False h p(1) have "deliver stops records cpush p data ?c = (e, c')" by (simp add: handle_prepared_def raw_of_def)
  with raw [of ?c] shows_invoke(1) [OF False] adm show thesis by (simp add: handled_invoke)
next
  case True
  let ?m = "\<lparr>rm_charge = length data + records, rm_id = cid, rm_data = data\<rparr>"
  obtain e1 c1 where q: "queue_data stops g ?m c = (e1, c1)" by fastforce
  show thesis
  proof (cases e1)
    case None
    with True h p(1) q have "deliver stops records cpush p data c1 = (e, c')"
      by (simp add: handle_prepared_def raw_of_def)
    with raw [of c1] handled_queue(1) [OF adm q] shows_queue_data [OF True, of stops g ?m c1] q None show thesis by simp
  next
    case (Some x)
    with True h p q failed faults_queue(1) [OF q] show thesis by (auto simp: handle_prepared_def raw_of_def)
  qed
qed

lemma handle_prepared_shows:
  assumes adm: "admits (rc_generation c) c" "rc_attached c" and fr: "rc_framer c = Builtin_framer hf"
    and p: "pr_raw p = raw_of records cid data (h_data_batch (rc_handlers c))" "pr_messages p = Some msgs"
    and h: "handle_prepared stops records cpush g data p c = (e, c')"
  shows "rc_faults c' = rc_faults c \<and> (e = None \<longrightarrow> \<not> rc_closed c' \<longrightarrow> shows_also data (map rm_data msgs) c c')"
  using admits_open [OF adm(1)] p h
proof (cases rule: handle_prepared_raw)
  case failed
  then show ?thesis by auto
next
  case (raw c1)
  have f: "rc_framer c1 = Builtin_framer hf" "rc_faults c1 = rc_faults c" using raw(2) fr by (simp_all add: shows_also_def)
  note d = deliver_builtin [OF f(1) p(2) raw(3)]
  have "shows_also data (map rm_data msgs) c c'" if e: "e = None" and o: "\<not> rc_closed c'"
  proof -
    have "rc_control c1 = rc_control c"
      using open_control [OF raw(1)] open_before [OF handled_deliver [OF raw(3)] o] by simp
    with admits_control [OF this] adm e o d(2) have "shows_also [] (map rm_data msgs) c1 c'"
      by (intro shows_deliver_staged) simp_all
    from shows_trans [OF raw(2) this] show ?thesis by simp
  qed
  with d(1) f(2) show ?thesis by simp
qed

lemma streaming_bytes:
  assumes ok: "rc_ok sg records l 0 c" and st: "streaming sg cfg h c"
    and clean: "builtin_clean sg cfg (h @ data)" "builtin_room cfg data"
    and b: "rc_on_bytes sg records cpush creset stops (rc_generation c) data c = Some c'"
    and good: "rc_faults c' = rc_faults c" "\<not> rc_closed c'"
  shows "\<exists>ms f. builtin_decode sg cfg (h @ data) = builtin_decode sg cfg h @ ms
    \<and> streaming sg cfg (h @ data) c' \<and> shows_also data ms (c\<lparr>rc_framer := f\<rparr>) c'"
proof -
  from st obtain hf where adm: "admits (rc_generation c) c" "rc_attached c" and fr: "rc_framer c = Builtin_framer hf"
    "builtin_cfg (hf_framer hf) = cfg" "builtin_tracks sg (builtin_on_message (Some quiet_callback) (hf_framer hf)) h"
    by (auto simp: streaming_def)
  let ?q = "charges_of (rc_data_queue c) + charges_of (rc_message_queue c)" and ?b = "h_data_batch (rc_handlers c)"
  have "recv_ready sg l 0 ?q (rc_framer c) (rc_receive c) (rc_mem c)"
    using ok by (auto simp: recv_ready_def rc_ok_def framer_usable_def ac_simps split: recv_framer.splits)
  from prepare_receive_spec [OF this, of records 0 data ?b] obtain r f st m where
    p: "prepare_receive sg records (rc_receive c) (rc_framer c) 0 data ?b (rc_mem c) = Some (r, f, st, m)"
      and o: "receive_outcome sg records l 0 ?q (rc_receive c) (rc_framer c) 0 data ?b (r, f, st, m)"
    by auto
  define c1 where "c1 = c\<lparr>rc_framer := f, rc_receive := st, rc_mem := m\<rparr>"
  have c1: "rc_faults c1 = rc_faults c" "rc_control c1 = rc_control c" by (simp_all add: c1_def rc_faults_def)
  obtain q where q: "r = Inr q" using b p adm(1) good(1) c1(1)
    by (cases r) (auto simp: rc_on_bytes_def simp flip: c1_def)
  with o fr(1) obtain hf' msgs t0 m0 where f: "f = Builtin_framer hf'" "pr_messages q = Some msgs"
    "pr_raw q = raw_of records 0 data ?b"
    "prepare_outcome sg records l 0 t0 (rc_receive c) hf 0 data (Inr msgs, hf', st, m0)"
    by (auto simp: receive_outcome_def)
  note stream = prepare_outcome_stream [OF f(4) fr(3)]
  obtain e c2 where h: "handle_prepared stops records cpush (rc_generation c) data q c1 = (e, c2)" by fastforce
  have s: "rc_faults c2 = rc_faults c1 \<and> (e = None \<longrightarrow> \<not> rc_closed c2 \<longrightarrow> shows_also data (map rm_data msgs) c1 c2)"
    by (rule handle_prepared_shows [OF _ _ _ _ f(2) h])
      (use adm admits_control [OF c1(2)] f(1,3) in \<open>simp_all add: c1_def\<close>)
  have "c' = (case e of None \<Rightarrow> c2 | Some x \<Rightarrow> receive_failed creset (length data) x c2)"
    using b p adm(1) q h by (auto simp: rc_on_bytes_def c1_def split: option.split)
  with good(1) s c1(1) have e: "e = None" "c' = c2" by (cases e; simp)+
  then have sh: "shows_also data (map rm_data msgs) c1 c'" using s good(2) by simp
  have "handled stops c1 c'" using handled_prepared [OF _ h] admits_open [OF adm(1)] c1(2) control_closed e(2) by metis
  then have "rc_control c' = rc_control c" using open_control good(2) c1(2) by metis
  from admits_control [OF this] sh adm f(1) fr(2) stream(2,3) clean have "streaming sg cfg (h @ data) c'"
    by (simp add: streaming_def shows_also_def c1_def)
  moreover from sh have "shows_also data (map rm_data msgs) (c\<lparr>rc_framer := f\<rparr>) c'" by (simp add: c1_def)
  ultimately show ?thesis using stream(1) fr(2) clean by blast
qed

section \<open>The stream\<close>

text \<open>Chunks of the current run and expiries of the batch timer, in any order.\<close>

fun stream_event :: "64 word \<Rightarrow> builtin_config \<Rightarrow> 'u rc_event \<Rightarrow> bool" where
  "stream_event g cfg (Bytes g' data) \<longleftrightarrow> g' = g \<and> builtin_room cfg data"
| "stream_event g cfg (Timer_expiry g' live) \<longleftrightarrow> True"
| "stream_event g cfg _ \<longleftrightarrow> False"

fun event_bytes :: "'u rc_event \<Rightarrow> bytes" where
  "event_bytes (Bytes g data) = data"
| "event_bytes _ = []"

lemma streaming_waits [simp]: "streaming sg cfg h (c\<lparr>rc_waits := ws\<rparr>) = streaming sg cfg h c"
  by (simp add: streaming_def admits_def)

lemma faults_deliver_custom: "deliver_custom stops records ds c = (e, c') \<Longrightarrow> rc_faults c' = rc_faults c"
proof (induction stops records ds c rule: deliver_custom.induct)
  case (2 stops records d rest c)
  have "rc_faults (c\<lparr>rc_mem := m\<rparr>) = rc_faults c" for m by (simp add: rc_faults_def)
  with 2 faults_queue(2) show ?case by (fastforce split: if_splits prod.splits option.splits sum.splits)
qed simp

lemma faults_prepared: "handle_prepared stops records cpush g data p c = (e, c') \<Longrightarrow> rc_faults c' = rc_faults c"
proof -
  have "rc_faults d' = rc_faults d" if "deliver stops records cpush p data d = (e', d')" for d d' :: "'a recv_client" and e'
  proof -
    have "rc_faults (d\<lparr>rc_framer := f\<rparr>) = rc_faults d" for f by (simp add: rc_faults_def)
    with that show ?thesis using faults_deliver_custom faults_deliver_staged
      by (fastforce simp: deliver_def Let_def split: recv_framer.splits prod.splits option.splits if_splits)
  qed
  then show "handle_prepared stops records cpush g data p c = (e, c') \<Longrightarrow> rc_faults c' = rc_faults c"
    using faults_queue(1) by (fastforce simp: handle_prepared_def split: option.splits prod.splits)
qed

lemma faults_bytes: "rc_on_bytes sg records cpush creset stops g data c = Some c' \<Longrightarrow> rc_faults c \<le> rc_faults c'"
proof -
  have "rc_faults (c\<lparr>rc_framer := f, rc_receive := st, rc_mem := m\<rparr>) = rc_faults c" for f st m by (simp add: rc_faults_def)
  then show "rc_on_bytes sg records cpush creset stops g data c = Some c' \<Longrightarrow> rc_faults c \<le> rc_faults c'"
    using faults_prepared by (fastforce simp: rc_on_bytes_def Let_def split: if_splits option.splits prod.splits sum.splits)
qed

lemma faults_step:
  "stream_event g cfg e \<Longrightarrow> rc_step sg records cpush creset stops e c = Some c' \<Longrightarrow> rc_faults c \<le> rc_faults c'"
proof (cases e)
  case (Timer_expiry g' live)
  have "rc_faults (flush_batches stops g c) = rc_faults c" for g and c :: "'a recv_client"
    by (simp add: flush_batches_def Let_def)
  moreover assume "rc_step sg records cpush creset stops e c = Some c'"
  ultimately show ?thesis using Timer_expiry by (auto simp: rc_faults_def split: if_splits)
qed (auto intro: faults_bytes split: if_splits)

lemma stream_step:
  assumes inv: "rc_inv sg records c" and st: "streaming sg cfg h c" and t: "takes_data c" "takes_messages c"
    and clean: "builtin_clean sg cfg (h @ event_bytes e)" and e: "stream_event (rc_generation c) cfg e"
    and s: "rc_step sg records cpush creset stops e c = Some c'"
    and good: "rc_faults c' = rc_faults c" "\<not> rc_closed c'"
  shows "rc_generation c' = rc_generation c \<and> streaming sg cfg (h @ event_bytes e) c'
      \<and> (\<exists>ms f. builtin_decode sg cfg (h @ event_bytes e) = builtin_decode sg cfg h @ ms
           \<and> shows_also (event_bytes e) ms (c\<lparr>rc_framer := f\<rparr>) c')"
proof (cases e)
  case (Bytes g data)
  from inv obtain l where ok: "rc_ok sg records l 0 c" by (auto simp: rc_inv_def)
  from Bytes s e have b: "rc_on_bytes sg records cpush creset stops (rc_generation c) data c = Some c'"
    by (simp split: if_splits)
  have "rc_generation c' = rc_generation c"
    using admits_control open_control [OF handled_bytes [OF b] good(2)] by blast
  with streaming_bytes [OF ok st _ _ b good] Bytes e clean show ?thesis by fastforce
next
  case (Timer_expiry g live)
  let ?c = "c\<lparr>rc_waits := remove1 (g, live) (rc_waits c)\<rparr>"
  from Timer_expiry s have c': "c' = flush_batches stops g ?c" by (simp split: if_splits)
  have sh: "shows_also [] [] ?c c'"
    unfolding c' by (rule shows_flush_batches) (use t in \<open>simp_all add: takes_data_def takes_messages_def\<close>)
  have "rc_control c' = rc_control c"
    using open_control [of stops ?c c'] good(2) by (simp add: c' handled_flush_batches)
  from admits_control [OF this] st sh have "rc_generation c' = rc_generation c" "streaming sg cfg h c'"
    by (auto simp: streaming_def shows_also_def)
  moreover have "\<exists>ms f. builtin_decode sg cfg (h @ []) = builtin_decode sg cfg h @ ms \<and> shows_also [] ms (c\<lparr>rc_framer := f\<rparr>) c'"
    by (intro exI [of _ "[]"] exI [of _ "rc_framer c"]) (use sh in simp)
  ultimately show ?thesis using Timer_expiry by simp
qed (use e in simp_all)

text \<open>Over a run: faults only accumulate and a closed gate stays closed, so the final state tells that all went well.\<close>

lemma stream_run:
  assumes "rc_inv sg records c" and "streaming sg cfg h c" and "takes_data c" and "takes_messages c"
    and "builtin_clean sg cfg (h @ concat (map event_bytes es))" and "\<forall>e\<in>set es. stream_event (rc_generation c) cfg e"
    and "run_steps (rc_step sg records cpush creset stops) es c = Some c'"
    and "rc_faults c' = rc_faults c" and "\<not> rc_closed c'"
  shows "\<exists>ms. builtin_decode sg cfg (h @ concat (map event_bytes es)) = builtin_decode sg cfg h @ ms
    \<and> (wants_data c \<longrightarrow> seen_data c' = seen_data c @ concat (map event_bytes es))
    \<and> (wants_messages c \<longrightarrow> seen_messages c' = seen_messages c @ ms)"
  using assms
proof (induction es arbitrary: c h)
  case Nil
  then show ?case by simp
next
  case (Cons e es)
  note prems = Cons.prems
  from prems(7) obtain c1 where c1: "rc_step sg records cpush creset stops e c = Some c1"
    and run: "run_steps (rc_step sg records cpush creset stops) es c1 = Some c'"
    by (auto split: option.splits)
  have mono: "rc_faults d \<le> rc_faults c' \<and> falls_silent stops d c'"
    if "run_steps (rc_step sg records cpush creset stops) fs d = Some c'" "\<forall>e\<in>set fs. stream_event (rc_generation c) cfg e"
    for fs d
    using that
  proof (induction fs arbitrary: d)
    case (Cons f fs)
    then obtain d1 where d1: "rc_step sg records cpush creset stops f d = Some d1"
      "run_steps (rc_step sg records cpush creset stops) fs d1 = Some c'"
      by (auto split: option.splits)
    moreover have "falls_silent stops d d1" by (rule silent_step [OF d1(1)]) (use Cons.prems(2) in auto)
    ultimately show ?case using Cons faults_step [OF _ d1(1)] by (fastforce intro: silent_trans)
  qed (simp add: silent_quiet)
  from mono [OF run] prems(6,8,9) faults_step [OF _ c1, of "rc_generation c" cfg]
  have good: "rc_faults c1 = rc_faults c" "\<not> rc_closed c1" by (auto simp: falls_silent_def)
  have "builtin_clean sg cfg (h @ event_bytes e)"
    using prems(5) bis.clean_prefix [of sg cfg "h @ event_bytes e" "concat (map event_bytes es)"] by simp
  from stream_step [OF prems(1-4) this _ c1 good] prems(6) obtain ms f where
    g: "rc_generation c1 = rc_generation c" and st: "streaming sg cfg (h @ event_bytes e) c1"
      and dec: "builtin_decode sg cfg (h @ event_bytes e) = builtin_decode sg cfg h @ ms"
      and sh: "shows_also (event_bytes e) ms (c\<lparr>rc_framer := f\<rparr>) c1"
    by auto
  have seen: "takes_data c1" "takes_messages c1" "wants_data c1 = wants_data c" "wants_messages c1 = wants_messages c"
    "wants_data c \<longrightarrow> seen_data c1 = seen_data c @ event_bytes e"
    "wants_messages c \<longrightarrow> seen_messages c1 = seen_messages c @ ms"
    using sh shows_wants [OF sh] prems(3,4) by (simp_all add: shows_also_def)
  have "\<exists>ms'. builtin_decode sg cfg ((h @ event_bytes e) @ concat (map event_bytes es))
        = builtin_decode sg cfg (h @ event_bytes e) @ ms'
    \<and> (wants_data c1 \<longrightarrow> seen_data c' = seen_data c1 @ concat (map event_bytes es))
    \<and> (wants_messages c1 \<longrightarrow> seen_messages c' = seen_messages c1 @ ms')"
    by (rule Cons.IH [OF rc_step_inv [OF prems(1) c1] st seen(1,2) _ _ run])
      (use prems(5,6,8,9) good(1) g in simp_all)
  with dec seen(3-6) show ?case by auto
qed

text \<open>
  C5: the stream reaches the user. Take a running client with a built-in framer that has seen the bytes \<open>h\<close> since its
  last reset, and any interleaving of chunks and batch timer expiries after which the gate is open and no receive
  failed. If the stream is well formed (\<open>builtin_clean\<close>), what the message callbacks were given together
  with the queued batch is what they had before followed by exactly the messages that the whole stream contains beyond those
  of \<open>h\<close>, and what the data callbacks were given together with the queued raw batch has grown by exactly the
  bytes received: no loss, duplication or reordering, however the stream is cut into chunks and batches.
\<close>

theorem client_delivers_stream:
  assumes "reaches (rc_step sg records cpush creset stops) (new_recv_client allocs) c"
    and "admits (rc_generation c) c" and "rc_attached c" and "takes_data c" and "takes_messages c"
    and "rc_framer c = Builtin_framer hf"
    and "builtin_tracks sg (builtin_on_message (Some quiet_callback) (hf_framer hf)) h"
    and "builtin_clean sg (builtin_cfg (hf_framer hf)) (h @ concat (map event_bytes es))"
    and "\<forall>e\<in>set es. stream_event (rc_generation c) (builtin_cfg (hf_framer hf)) e"
    and "run_steps (rc_step sg records cpush creset stops) es c = Some c'"
    and "\<not> cg_closed (rc_gate c')" and "rc_fails c' = rc_fails c" and "rc_escaped c' = rc_escaped c"
  shows "\<exists>ms. builtin_decode sg (builtin_cfg (hf_framer hf)) (h @ concat (map event_bytes es))
      = builtin_decode sg (builtin_cfg (hf_framer hf)) h @ ms
    \<and> (wants_data c \<longrightarrow> seen_data c' = seen_data c @ concat (map event_bytes es))
    \<and> (wants_messages c \<longrightarrow> seen_messages c' = seen_messages c @ ms)"
proof -
  have "streaming sg (builtin_cfg (hf_framer hf)) h c" using assms(2,3,6,7) by (simp add: streaming_def)
  moreover have "rc_inv sg records c" using client_receive.reaches_inv [OF assms(1) rc_inv_new] .
  moreover have "rc_faults c' = rc_faults c" using assms(12,13) by (simp add: rc_faults_def)
  ultimately show ?thesis using stream_run assms(4,5,8-11) by blast
qed

definition demo_stream :: "unit rc_event list" where
  "demo_stream = [Bytes 1 demo_input, Timer_expiry 1 True, Bytes 1 [3, 2, 1, 6]]"

definition demo_start :: "unit rc_event list" where
  "demo_start = [Set_framer (Builtin_framer demo_framer), Set_on_message_batch True, Set_on_data True, Start_client False]"

lemmas stream_eval =
  rc_eval demo_start_def demo_stream_def flush_batches_def cancel_batch_timer_def takes_data_def takes_messages_def
  wants_data_def wants_messages_def seen_data_def seen_messages_def

theorem client_delivers_stream_witness:
  "\<exists>c c'. demo_result (\<lambda>_. False) demo_start = Some c
     \<and> run_steps (rc_step True 40 (\<lambda>u d. (u, [d])) (\<lambda>u. u) (\<lambda>_. False)) demo_stream c = Some c'
     \<and> rc_log c' = [On_data demo_input, On_message_batch [[7, 8], [9]], On_data [3, 2, 1, 6]]
     \<and> seen_messages c' = [[7, 8], [9], [1, 3, 2, 1, 6]] \<and> seen_data c' = demo_input @ [3, 2, 1, 6]"
proof -
  let ?run = "run_steps (rc_step True 40 (\<lambda>u d. (u, [d])) (\<lambda>u. u) (\<lambda>_. False))"
  let ?cfg = "builtin_cfg (hf_framer demo_framer)"
  let ?view = "\<lambda>c. (admits (rc_generation c) c, rc_attached c, takes_data c, takes_messages c, rc_framer c, rc_generation c,
    rc_log c, wants_data c, wants_messages c, seen_data c, seen_messages c)"
  have "map_option ?view (demo_result (\<lambda>_. False) demo_start)
      = Some (True, True, True, True, Builtin_framer demo_framer, 1, [], True, True, [], [])"
    by (simp add: stream_eval)
  then obtain c where c: "demo_result (\<lambda>_. False) demo_start = Some c"
    "?view c = (True, True, True, True, Builtin_framer demo_framer, 1, [], True, True, [], [])" by auto
  have "map_option (\<lambda>(c, c'). (cg_closed (rc_gate c'), rc_fails c' = rc_fails c, rc_escaped c' = rc_escaped c, rc_log c'))
      (Option.bind (demo_result (\<lambda>_. False) demo_start) (\<lambda>c. map_option (Pair c) (?run demo_stream c)))
      = Some (False, True, True, [On_data demo_input, On_message_batch [[7, 8], [9]], On_data [3, 2, 1, 6]])"
    by (simp add: stream_eval lp_loop.simps prepare_loop.simps)
  with c(1) obtain c' where c': "?run demo_stream c = Some c'" "\<not> cg_closed (rc_gate c')" "rc_fails c' = rc_fails c"
    "rc_escaped c' = rc_escaped c" "rc_log c' = [On_data demo_input, On_message_batch [[7, 8], [9]], On_data [3, 2, 1, 6]]"
    by auto
  have input: "concat (map event_bytes demo_stream) = demo_input @ [3, 2, 1, 6]" by (simp add: demo_stream_def)
  have s: "builtin_clean True ?cfg ([] @ concat (map event_bytes demo_stream))"
    "builtin_decode True ?cfg ([] @ concat (map event_bytes demo_stream)) = [[7, 8], [9], [1, 3, 2, 1, 6]]"
    "builtin_decode True ?cfg [] = []"
    "builtin_tracks True (builtin_on_message (Some quiet_callback) (hf_framer demo_framer)) []"
    by (simp_all add: demo_framer_def demo_input_def demo_stream_def lp_config.defs lp_clean.simps lp_decode.simps lp_rest.simps
        lp_frame_def header_value_def be_nat_def Let_def lp_tracks_def lp_inv_def lp_set_on_message_def)
  have adm: "admits (rc_generation c) c" using c(2) by blast
  have "\<forall>e\<in>set demo_stream. stream_event (rc_generation c) ?cfg e" using c(2) by (simp add: demo_stream_def demo_framer_def)
  from client_delivers_stream [OF reaches_run [OF c(1) [unfolded demo_result_def]] adm _ _ _ _ s(4,1) this c'(1-4)]
  have "seen_messages c' = [[7, 8], [9], [1, 3, 2, 1, 6]]" "seen_data c' = demo_input @ [3, 2, 1, 6]"
    using c(2) s(2,3) input by simp_all
  with c(1) c'(1,5) show ?thesis by (intro exI [of _ c] exI [of _ c']) simp
qed

end
