(* ===== verification/Tcp_Server.thy ===== *)
theory Tcp_Server
  imports Session_Properties Transport_Config
begin

text \<open>
  \<open>TcpServer\<close> (\<open>src/wirestead/transport/tcp_server/tcp_server.cc\<close>): binding and accepting, the registry of client
  sessions, their callbacks, statistics, shutdown and restart.

  The server owns the sessions of \<open>Tcp_Session\<close>: \<open>sv_store\<close> holds every session object by the id of its client
  (also after the registry has dropped it; the id, a 64-bit counter, is a natural number), and \<open>Client_event\<close> is a
  step of one of them. What a session calls back into (\<open>on_close\<close>, the connection notification, the completion
  of \<open>async_stop\<close>) runs the server's lambda in the same step. \<open>sv_tasks\<close> is the queue of the server's strand; the handler
  of an accepted connection is split where it reads \<open>stopping_\<close> and where it registers the session, so that \<open>stop()\<close> can come in
  between, as \<open>stop()\<close> itself is split between its two locked sections. The acceptor and the timers are the
  environment. The iteration order of \<open>sessions_\<close> is not specified: \<open>first\<close> picks the element that \<open>begin()\<close> refers to. The
  callbacks of a new session, which are dispatched to its strand before the start handler, are set at once. \<open>sv_log\<close> is
  the sequence of calls of the user's callbacks.

  The caller serializes \<open>start()\<close> with \<open>stop()\<close>, as the contract requires. Not modelled: the I/O thread, the destructor,
  socket options and the contents of error messages.
\<close>

section \<open>State\<close>

datatype server_call =
    Call_state link_state
  | Call_connect nat
  | Call_disconnect nat
  | Call_bytes nat
  | Call_data nat nat

datatype accept_result = Accepted_socket | Accept_error bool

datatype server_task =
    Bind_task nat nat
  | Accept_task nat accept_result
  | Accept_again nat
  | Close_task nat nat
  | Connected_task nat nat
  | Cleanup_task
  | Retired_task nat
  | Stop_task nat

datatype server_timer = Bind_timer nat nat | Accept_timer nat

record tcp_server =
  sv_cfg :: tcp_server_config
  sv_stopping :: bool
  sv_clearing :: bool
  sv_cleanup_started :: bool
  sv_cleanup_done :: bool
  sv_next_id :: nat
  sv_generation :: nat
  sv_run_dispatched :: bool
  sv_acceptor_open :: bool
  sv_state :: link_state
  sv_on_bytes :: bool
  sv_on_state :: bool
  sv_on_bp :: bool
  sv_on_connect :: bool
  sv_on_data :: bool
  sv_on_disconnect :: bool
  sv_stats :: stats_counters
  sv_closed :: send_accounting
  sv_sessions :: "nat list"
  sv_retiring :: "nat list"
  sv_store :: "nat \<Rightarrow> session"
  sv_origin :: "nat \<Rightarrow> nat"
  sv_connect_cb :: "nat \<Rightarrow> bool"
  sv_limit_enabled :: bool
  sv_max_clients :: nat
  sv_current :: "nat option"
  sv_remaining :: nat
  sv_inserting :: "nat option"
  sv_failing :: "nat list"
  sv_tasks :: "server_task list"
  sv_timers :: "server_timer list"
  sv_accepts :: "nat list"
  sv_errors :: "(string \<times> nat) list"
  sv_log :: "server_call list"

definition new_client_session :: "tcp_server_config \<Rightarrow> session" where
  "new_client_session cfg = new_session (srv_backpressure_threshold cfg) (srv_idle_timeout_ms cfg) (srv_backpressure_strategy cfg)"

definition new_server :: "tcp_server_config \<Rightarrow> tcp_server" where
  "new_server cfg =
     \<lparr>sv_cfg = cfg, sv_stopping = False, sv_clearing = False, sv_cleanup_started = False, sv_cleanup_done = False,
      sv_next_id = 0, sv_generation = 0, sv_run_dispatched = False, sv_acceptor_open = False, sv_state = LinkIdle,
      sv_on_bytes = False, sv_on_state = False, sv_on_bp = False, sv_on_connect = False, sv_on_data = False,
      sv_on_disconnect = False, sv_stats = new_stats, sv_closed = no_accounting, sv_sessions = [], sv_retiring = [],
      sv_store = (\<lambda>_. new_client_session cfg), sv_origin = (\<lambda>_. 0), sv_connect_cb = (\<lambda>_. False),
      sv_limit_enabled = (max_connections cfg > 0), sv_max_clients = nat (max_connections cfg), sv_current = None,
      sv_remaining = 0, sv_inserting = None, sv_failing = [], sv_tasks = [], sv_timers = [], sv_accepts = [],
      sv_errors = [], sv_log = []\<rparr>"

text \<open>The constructor refuses a configuration that is not valid.\<close>

definition make_server :: "(string \<Rightarrow> string option) \<Rightarrow> (string \<Rightarrow> bool) \<Rightarrow> tcp_server_config \<Rightarrow> string + tcp_server" where
  "make_server v4 v6 cfg = (case tcp_server_validate v4 v6 cfg of Inl e \<Rightarrow> Inl e | Inr _ \<Rightarrow> Inr (new_server cfg))"

section \<open>Shared steps\<close>

definition post_server :: "server_task \<Rightarrow> tcp_server \<Rightarrow> tcp_server" where
  "post_server t v = v\<lparr>sv_tasks := sv_tasks v @ [t]\<rparr>"

definition call_user :: "bool \<Rightarrow> server_call \<Rightarrow> tcp_server \<Rightarrow> tcp_server" where
  "call_user registered c v = (if registered then v\<lparr>sv_log := sv_log v @ [c]\<rparr> else v)"

definition server_notify_state :: "tcp_server \<Rightarrow> tcp_server" where
  "server_notify_state v = (if sv_stopping v then v else call_user (sv_on_state v) (Call_state (sv_state v)) v)"

definition update_session :: "nat \<Rightarrow> (session \<Rightarrow> session) \<Rightarrow> tcp_server \<Rightarrow> tcp_server" where
  "update_session cid f v = v\<lparr>sv_store := (sv_store v)(cid := f (sv_store v cid))\<rparr>"

definition update_sessions :: "nat list \<Rightarrow> (session \<Rightarrow> session) \<Rightarrow> tcp_server \<Rightarrow> tcp_server" where
  "update_sessions cids f v = v\<lparr>sv_store := (\<lambda>i. if i \<in> set cids then f (sv_store v i) else sv_store v i)\<rparr>"

definition absorb_session :: "nat \<Rightarrow> tcp_server \<Rightarrow> tcp_server" where
  "absorb_session cid v =
     (let snapshot = session_stats (clock (sv_store v cid)) (sv_store v cid)
      in v\<lparr>sv_stats := absorb snapshot (sv_stats v),
           sv_closed := accumulate_send_accounting (sv_closed v) (totals (accounting (sv_store v cid)))\<rparr>)"

definition server_failed :: "string \<Rightarrow> nat \<Rightarrow> tcp_server \<Rightarrow> tcp_server" where
  "server_failed operation retry_count v =
     server_notify_state (v\<lparr>sv_errors := sv_errors v @ [(operation, retry_count)], sv_state := LinkError\<rparr>)"

section \<open>Binding and accepting\<close>

definition do_accept :: "tcp_server \<Rightarrow> tcp_server" where
  "do_accept v =
     (if sv_stopping v \<or> \<not> sv_acceptor_open v then v else v\<lparr>sv_accepts := sv_accepts v @ [sv_generation v]\<rparr>)"

text \<open>How the address parser and the acceptor answer.\<close>

record bind_env =
  be_address :: bool
  be_open :: bool
  be_bind :: bool
  be_listen :: bool

definition attempt_port_binding :: "nat \<Rightarrow> bind_env \<Rightarrow> tcp_server \<Rightarrow> tcp_server" where
  "attempt_port_binding retry_count env v =
     (if sv_stopping v then v
      else if \<not> be_address env then server_failed ''bind'' retry_count v
      else if \<not> sv_acceptor_open v \<and> \<not> be_open env then server_failed ''open'' retry_count v
      else
        let v1 = v\<lparr>sv_acceptor_open := True\<rparr>
        in if \<not> be_bind env then
             if enable_port_retry (sv_cfg v1) \<and> int retry_count < max_port_retries (sv_cfg v1)
             then v1\<lparr>sv_timers := sv_timers v1 @ [Bind_timer (sv_generation v1) retry_count]\<rparr>
             else server_failed ''bind'' retry_count v1
           else if \<not> be_listen env then server_failed ''listen'' retry_count v1
           else do_accept (server_notify_state (v1\<lparr>sv_state := LinkListening\<rparr>)))"

text \<open>The first half of the accept handler; \<open>sv_inserting\<close> is the connection it is about to register.\<close>

definition handle_accept :: "nat \<Rightarrow> accept_result \<Rightarrow> tcp_server \<Rightarrow> tcp_server" where
  "handle_accept generation r v =
     (if sv_stopping v \<or> sv_generation v \<noteq> generation then v
      else case r of
        Accept_error aborted \<Rightarrow>
          let v1 = (if aborted then v else v\<lparr>sv_errors := sv_errors v @ [(''accept'', 0)]\<rparr>)
          in if sv_state v1 \<noteq> LinkClosed \<and> \<not> sv_stopping v1
             then v1\<lparr>sv_timers := sv_timers v1 @ [Accept_timer generation]\<rparr> else v1
      | Accepted_socket \<Rightarrow>
          if sv_limit_enabled v \<and> length (sv_sessions v) \<ge> sv_max_clients v then do_accept v
          else v\<lparr>sv_inserting := Some generation\<rparr>)"

definition register_session :: "nat \<Rightarrow> tcp_server \<Rightarrow> tcp_server" where
  "register_session generation v =
     (let cid = sv_next_id v;
          s = start_session (set_callbacks True (sv_on_bp v) True (new_client_session (sv_cfg v)))
      in do_accept
           (v\<lparr>sv_inserting := None, sv_next_id := cid + 1, sv_store := (sv_store v)(cid := s),
              sv_origin := (sv_origin v)(cid := generation), sv_sessions := sv_sessions v @ [cid],
              sv_current := Some cid, sv_connect_cb := (sv_connect_cb v)(cid := sv_on_connect v)\<rparr>))"

section \<open>Callbacks of a session\<close>

definition client_connected :: "nat \<Rightarrow> tcp_server \<Rightarrow> tcp_server" where
  "client_connected cid v =
     (if sv_stopping v \<or> sv_generation v \<noteq> sv_origin v cid then v
      else post_server (Connected_task cid (sv_origin v cid)) (call_user (sv_connect_cb v cid) (Call_connect cid) v))"

definition client_bytes :: "nat \<Rightarrow> nat \<Rightarrow> tcp_server \<Rightarrow> tcp_server" where
  "client_bytes cid n v = call_user (sv_on_data v) (Call_data cid n) (call_user (sv_on_bytes v) (Call_bytes n) v)"

definition client_closed :: "nat \<Rightarrow> tcp_server \<Rightarrow> tcp_server" where
  "client_closed cid v =
     (if sv_stopping v \<or> sv_generation v \<noteq> sv_origin v cid then v
      else post_server (Close_task cid (sv_origin v cid)) (call_user (sv_on_disconnect v) (Call_disconnect cid) v))"

text \<open>Whether a step of the session hands received bytes to \<open>on_bytes\<close>.\<close>

definition delivers_bytes :: "session_action \<Rightarrow> session \<Rightarrow> nat option" where
  "delivers_bytes a s =
     (case a of
        Read_done ec n \<Rightarrow> if ec \<or> closing s \<or> \<not> alive s \<or> \<not> has_on_bytes s then None else Some n
      | _ \<Rightarrow> None)"

definition completes_stop :: "session_action \<Rightarrow> session \<Rightarrow> bool" where
  "completes_stop a s =
     (case a of Run_strand _ \<Rightarrow> (case posted s of Stop_posted # _ \<Rightarrow> True | _ \<Rightarrow> False) | _ \<Rightarrow> False)"

definition client_event :: "nat \<Rightarrow> session_action \<Rightarrow> tcp_server \<Rightarrow> tcp_server option" where
  "client_event cid a v =
     (let s = sv_store v cid
      in case sess_step a s of
           None \<Rightarrow> None
         | Some s' \<Rightarrow>
             let v1 = v\<lparr>sv_store := (sv_store v)(cid := s')\<rparr>;
                 v2 = (case delivers_bytes a s of None \<Rightarrow> v1 | Some n \<Rightarrow> client_bytes cid n v1);
                 v3 = (if connects s' > connects s then client_connected cid v2 else v2);
                 v4 = (if close_calls s' > close_calls s then client_closed cid v3 else v3)
             in Some (if completes_stop a s then post_server (Retired_task cid) v4 else v4))"

section \<open>Shutdown\<close>

definition finish_cleanup :: "tcp_server \<Rightarrow> tcp_server" where
  "finish_cleanup v = v\<lparr>sv_state := LinkClosed, sv_cleanup_done := True\<rparr>"

definition perform_cleanup :: "tcp_server \<Rightarrow> tcp_server" where
  "perform_cleanup v =
     (if sv_cleanup_started v then v
      else
        let v1 = v\<lparr>sv_cleanup_started := True, sv_acceptor_open := False, sv_retiring := sv_sessions v,
                   sv_sessions := sv_retiring v, sv_current := None\<rparr>
        in if sv_retiring v1 = [] then finish_cleanup v1
           else update_sessions (sv_retiring v1) async_stop (v1\<lparr>sv_remaining := length (sv_retiring v1)\<rparr>))"

definition retire_session :: "nat \<Rightarrow> tcp_server \<Rightarrow> tcp_server" where
  "retire_session cid v =
     (let v1 = (if cid \<in> set (sv_retiring v) then (absorb_session cid v)\<lparr>sv_retiring := removeAll cid (sv_retiring v)\<rparr> else v);
          v2 = v1\<lparr>sv_remaining := sv_remaining v1 - 1\<rparr>
      in if sv_remaining v2 = 0 then finish_cleanup v2 else v2)"

definition server_stop :: "tcp_server \<Rightarrow> tcp_server" where
  "server_stop v =
     (if sv_stopping v then v
      else (update_sessions (sv_sessions v) request_stop v)\<lparr>sv_stopping := True, sv_clearing := True\<rparr>)"

definition stop_continue :: "tcp_server \<Rightarrow> tcp_server" where
  "stop_continue v =
     (let v1 = v\<lparr>sv_clearing := False, sv_on_bytes := False, sv_on_state := False, sv_on_bp := False, sv_on_connect := False,
                 sv_on_data := False, sv_on_disconnect := False\<rparr>
      in if \<not> sv_run_dispatched v1 then perform_cleanup v1 else post_server Cleanup_task v1)"

definition server_request_stop :: "tcp_server \<Rightarrow> tcp_server" where
  "server_request_stop v = (if sv_stopping v then v else post_server (Stop_task (sv_generation v)) v)"

text \<open>\<open>init_tls\<close>: \<open>loads\<close> says whether a build with TLS can read the certificate and the key.\<close>

definition init_tls_fails :: "bool \<Rightarrow> bool \<Rightarrow> tcp_server_config \<Rightarrow> bool" where
  "init_tls_fails tls_build loads cfg =
     (if (tls_certificate_file cfg \<noteq> []) \<noteq> (tls_private_key_file cfg \<noteq> []) then True
      else if \<not> tls_enabled cfg then False
      else if \<not> tls_build then True
      else \<not> loads)"

definition server_start :: "bool \<Rightarrow> bool \<Rightarrow> tcp_server \<Rightarrow> tcp_server" where
  "server_start tls_build loads v =
     (if sv_state v \<in> {LinkListening, LinkConnected, LinkConnecting} then v
      else
        let v1 = v\<lparr>sv_generation := sv_generation v + 1, sv_run_dispatched := False, sv_stopping := False,
                   sv_cleanup_started := False, sv_cleanup_done := False, sv_stats := reset_stats 0 (sv_stats v),
                   sv_closed := no_accounting\<rparr>
        in if init_tls_fails tls_build loads (sv_cfg v1) then server_failed ''start'' 0 v1
           else post_server (Bind_task (sv_generation v1) 0) (v1\<lparr>sv_run_dispatched := True\<rparr>))"

section \<open>Handlers of the strand\<close>

definition close_session :: "(nat list \<Rightarrow> nat) \<Rightarrow> nat \<Rightarrow> nat \<Rightarrow> tcp_server \<Rightarrow> tcp_server" where
  "close_session first cid generation v =
     (if sv_stopping v \<or> sv_generation v \<noteq> generation then v
      else
        let v1 = (if cid \<in> set (sv_sessions v) then absorb_session cid v else v);
            v2 = v1\<lparr>sv_sessions := removeAll cid (sv_sessions v1)\<rparr>;
            was_current = (sv_current v2 = Some cid)
        in if \<not> was_current then v2
           else server_notify_state
                  (v2\<lparr>sv_current := (if sv_sessions v2 \<noteq> [] then Some (first (sv_sessions v2)) else None),
                      sv_state := LinkListening\<rparr>))"

definition report_connected :: "nat \<Rightarrow> nat \<Rightarrow> tcp_server \<Rightarrow> tcp_server" where
  "report_connected cid generation v =
     (if sv_stopping v \<or> sv_generation v \<noteq> generation then v
      else if cid \<notin> set (sv_sessions v) then v
      else server_notify_state (v\<lparr>sv_state := LinkConnected\<rparr>))"

definition run_server_task :: "(nat list \<Rightarrow> nat) \<Rightarrow> bind_env \<Rightarrow> server_task \<Rightarrow> tcp_server \<Rightarrow> tcp_server" where
  "run_server_task first env t v =
     (case t of
        Bind_task g n \<Rightarrow> if sv_stopping v \<or> sv_generation v \<noteq> g then v else attempt_port_binding n env v
      | Accept_task g r \<Rightarrow> handle_accept g r v
      | Accept_again g \<Rightarrow> if sv_stopping v \<or> sv_generation v \<noteq> g then v else do_accept v
      | Close_task cid g \<Rightarrow> close_session first cid g v
      | Connected_task cid g \<Rightarrow> report_connected cid g v
      | Cleanup_task \<Rightarrow> perform_cleanup v
      | Retired_task cid \<Rightarrow> retire_session cid v
      | Stop_task g \<Rightarrow> if sv_generation v = g then server_stop v else v)"

section \<open>Sending\<close>

definition server_target_state :: "tcp_server \<Rightarrow> send_result" where
  "server_target_state v =
     (if sv_stopping v then Reject (if sv_cleanup_done v then NotStarted else Stopping)
      else if sv_generation v = 0 then Reject NotStarted
      else Accept)"

definition capture_target :: "nat \<Rightarrow> tcp_server \<Rightarrow> nat option" where
  "capture_target cid v =
     (if server_target_state v \<noteq> Accept then None else if cid \<in> set (sv_sessions v) then Some cid else None)"

definition server_failed_send :: "tcp_server \<Rightarrow> tcp_server" where
  "server_failed_send v = v\<lparr>sv_stats := record_failed_send (sv_stats v)\<rparr>"

datatype write_call =
    W_copy bool bytes
  | W_move bytes
  | W_shared "bytes option"
  | T_copy bytes
  | T_move bytes
  | T_shared "bytes option"

definition session_write :: "bool \<Rightarrow> write_call \<Rightarrow> session \<Rightarrow> send_result \<times> session" where
  "session_write enable_memory_pool w s =
     (case w of
        W_copy pooled d \<Rightarrow> write_copy enable_memory_pool pooled d s
      | W_move d \<Rightarrow> write_move d s
      | W_shared d \<Rightarrow> write_shared d s
      | T_copy d \<Rightarrow> try_write_copy d s
      | T_move d \<Rightarrow> try_write_move d s
      | T_shared d \<Rightarrow> try_write_shared d s)"

definition write_to_session :: "nat \<Rightarrow> write_call \<Rightarrow> tcp_server \<Rightarrow> send_result \<times> tcp_server" where
  "write_to_session cid w v =
     (case session_write (srv_enable_memory_pool (sv_cfg v)) w (sv_store v cid) of
        (r, s) \<Rightarrow> (r, v\<lparr>sv_store := (sv_store v)(cid := s)\<rparr>))"

text \<open>The six \<open>async_write\<close> functions, which address the current session.\<close>

definition server_async_write :: "write_call \<Rightarrow> tcp_server \<Rightarrow> bool \<times> tcp_server" where
  "server_async_write w v =
     (if sv_stopping v \<or> (case w of W_shared d \<Rightarrow> d = None \<or> d = Some [] | T_shared d \<Rightarrow> d = None \<or> d = Some [] | _ \<Rightarrow> False)
      then (False, server_failed_send v)
      else case sv_current v of
        None \<Rightarrow> (False, server_failed_send v)
      | Some cid \<Rightarrow>
          if alive (sv_store v cid) then (case write_to_session cid w v of (r, v') \<Rightarrow> (r = Accept, v'))
          else (False, server_failed_send v))"

fun broadcast_loop :: "bytes \<Rightarrow> nat list \<Rightarrow> bool \<times> bool \<times> tcp_server \<Rightarrow> bool \<times> bool \<times> tcp_server" where
  "broadcast_loop data [] r = r"
| "broadcast_loop data (cid # cids) (sent, attempted, v) =
     broadcast_loop data cids
       (if alive (sv_store v cid) then
          (case write_to_session cid (T_shared (Some data)) v of (r, v') \<Rightarrow> (sent \<or> r = Accept, True, v'))
        else (sent, attempted, v))"

definition server_broadcast :: "bytes \<Rightarrow> tcp_server \<Rightarrow> bool \<times> tcp_server" where
  "server_broadcast data v =
     (case broadcast_loop data (sv_sessions v) (False, False, v) of
        (sent, attempted, v') \<Rightarrow> (sent, if \<not> attempted then server_failed_send v' else v'))"

definition validate_payload_size :: "nat \<Rightarrow> nat option \<Rightarrow> send_result" where
  "validate_payload_size n queue_limit =
     (if n = 0 then Reject InvalidArgument
      else if n > MAX_BUFFER_SIZE \<or> (case queue_limit of None \<Rightarrow> False | Some l \<Rightarrow> n > l) then Reject TooLarge
      else Accept)"

record fanout_result =
  fo_accepted :: nat
  fo_rejected :: nat
  fo_reasons :: "send_rejection \<Rightarrow> nat"

definition empty_fanout :: fanout_result where
  "empty_fanout = \<lparr>fo_accepted = 0, fo_rejected = 0, fo_reasons = (\<lambda>_. 0)\<rparr>"

definition fanout_add :: "send_result \<Rightarrow> fanout_result \<Rightarrow> fanout_result" where
  "fanout_add r f =
     (case r of
        Accept \<Rightarrow> f\<lparr>fo_accepted := fo_accepted f + 1\<rparr>
      | Reject e \<Rightarrow> f\<lparr>fo_rejected := fo_rejected f + 1, fo_reasons := (fo_reasons f)(e := fo_reasons f e + 1)\<rparr>)"

text \<open>One target of \<open>broadcast_result\<close>; the loop over the targets, which releases the locks in between, is one step here.\<close>

definition fanout_target :: "bytes \<Rightarrow> send_result \<Rightarrow> bool \<Rightarrow> nat \<Rightarrow> fanout_result \<times> tcp_server \<Rightarrow> fanout_result \<times> tcp_server" where
  "fanout_target data wrapper_state append_newline cid = (\<lambda>(f, v).
     let n = (if append_newline then (if length data \<ge> MAX_BUFFER_SIZE then MAX_BUFFER_SIZE + 1 else length data + 1)
                 else length data);
         validation = validate_payload_size n (Some (bp_limit (sv_store v cid)))
     in if validation \<noteq> Accept then (fanout_add validation f, v)
        else if wrapper_state \<noteq> Accept then (fanout_add wrapper_state f, v)
        else
          let payload = (if append_newline then data @ [10] else data);
              state = server_target_state v
          in if state \<noteq> Accept then (fanout_add state f, v)
             else if cid \<notin> set (sv_sessions v) then (fanout_add (Reject NotReady) f, v)
             else case write_to_session cid (T_shared (Some payload)) v of (r, v') \<Rightarrow> (fanout_add r f, v'))"

definition broadcast_result :: "bytes \<Rightarrow> send_result \<Rightarrow> bool \<Rightarrow> tcp_server \<Rightarrow> fanout_result \<times> tcp_server" where
  "broadcast_result data wrapper_state append_newline v =
     fold (fanout_target data wrapper_state append_newline) (filter (\<lambda>cid. alive (sv_store v cid)) (sv_sessions v))
       (empty_fanout, v)"

text \<open>\<open>write_target\<close>; \<open>expected\<close> pins the session that the caller captured before.\<close>

definition write_target :: "nat \<Rightarrow> bool \<Rightarrow> bytes \<Rightarrow> bool \<Rightarrow> nat option \<Rightarrow> tcp_server \<Rightarrow> send_result \<times> tcp_server" where
  "write_target cid pooled data try_only expected v =
     (if server_target_state v \<noteq> Accept then (server_target_state v, server_failed_send v)
      else if cid \<notin> set (sv_sessions v) \<or> (case expected of None \<Rightarrow> False | Some e \<Rightarrow> cid \<noteq> e)
      then (Reject NotReady, server_failed_send v)
      else write_to_session cid (if try_only then T_copy data else W_copy pooled data) v)"

definition server_fail_receive :: "nat \<Rightarrow> tcp_server \<Rightarrow> tcp_server" where
  "server_fail_receive cid v =
     (case capture_target cid v of None \<Rightarrow> v | Some c \<Rightarrow> v\<lparr>sv_failing := sv_failing v @ [c]\<rparr>)"

definition poll_target_wait :: "nat option \<Rightarrow> tcp_server \<Rightarrow> send_result option" where
  "poll_target_wait session v =
     (case session of None \<Rightarrow> Some (Reject NotReady) | Some cid \<Rightarrow> poll_write_wait (sv_store v cid))"

definition cancel_target_waits :: "tcp_server \<Rightarrow> tcp_server" where
  "cancel_target_waits v = update_sessions (sv_sessions v) cancel_write_wait v"

section \<open>Queries, statistics and settings\<close>

definition server_is_connected :: "tcp_server \<Rightarrow> bool" where
  "server_is_connected v = (case sv_current v of None \<Rightarrow> False | Some cid \<Rightarrow> alive (sv_store v cid))"

definition connected_clients :: "tcp_server \<Rightarrow> nat list" where
  "connected_clients v = filter (\<lambda>cid. alive (sv_store v cid)) (sv_sessions v)"

definition client_count :: "tcp_server \<Rightarrow> nat" where
  "client_count v = length (filter (\<lambda>cid. alive (sv_store v cid)) (sv_sessions v))"

definition client_stats :: "int \<Rightarrow> nat \<Rightarrow> tcp_server \<Rightarrow> runtime_stats option" where
  "client_stats now cid v = (if cid \<in> set (sv_sessions v) then Some (session_stats now (sv_store v cid)) else None)"

definition client_backpressure_active :: "nat \<Rightarrow> tcp_server \<Rightarrow> bool" where
  "client_backpressure_active cid v = (if cid \<in> set (sv_sessions v) then backpressure_active (sv_store v cid) else False)"

definition client_write_queue_limit :: "nat \<Rightarrow> tcp_server \<Rightarrow> nat option" where
  "client_write_queue_limit cid v = (if cid \<in> set (sv_sessions v) then Some (bp_limit (sv_store v cid)) else None)"

text \<open>A session's share of the aggregate; \<open>live\<close> sessions add their queue gauges as well.\<close>

definition add_session_stats :: "bool \<Rightarrow> runtime_stats \<Rightarrow> runtime_stats \<Rightarrow> runtime_stats" where
  "add_session_stats live s a =
     (let a1 = a\<lparr>rs_send_accounting := map_option (\<lambda>t. accumulate_send_accounting t (the (rs_send_accounting s)))
                   (rs_send_accounting a),
                 rs_bytes_accepted := rs_bytes_accepted a + rs_bytes_accepted s,
                 rs_messages_accepted := rs_messages_accepted a + rs_messages_accepted s,
                 rs_bytes_sent := rs_bytes_sent a + rs_bytes_sent s,
                 rs_messages_sent := rs_messages_sent a + rs_messages_sent s,
                 rs_bytes_received := rs_bytes_received a + rs_bytes_received s,
                 rs_messages_received := rs_messages_received a + rs_messages_received s,
                 rs_failed_sends := rs_failed_sends a + rs_failed_sends s,
                 rs_dropped_messages := rs_dropped_messages a + rs_dropped_messages s,
                 rs_dropped_bytes := rs_dropped_bytes a + rs_dropped_bytes s,
                 rs_backpressure_events := rs_backpressure_events a + rs_backpressure_events s\<rparr>;
          a2 = (if live then a1\<lparr>rs_queued_bytes := size_add (rs_queued_bytes a1) (rs_queued_bytes s),
                                rs_pending_bytes := size_add (rs_pending_bytes a1) (rs_pending_bytes s),
                                rs_backpressure_active := rs_backpressure_active a1 \<or> rs_backpressure_active s\<rparr>
                else a1)
      in a2\<lparr>rs_max_queued_bytes := max (rs_max_queued_bytes a2) (rs_max_queued_bytes s)\<rparr>)"

definition server_stats :: "int \<Rightarrow> tcp_server \<Rightarrow> runtime_stats" where
  "server_stats now v =
     (let a = (stats_snapshot 0 0 False now (sv_stats v))\<lparr>rs_send_accounting := Some (sv_closed v)\<rparr>;
          a1 = fold (\<lambda>cid. add_session_stats True (session_stats now (sv_store v cid))) (sv_sessions v) a
      in fold (\<lambda>cid. add_session_stats False (session_stats now (sv_store v cid))) (sv_retiring v) a1)"

definition server_reset_stats :: "tcp_server \<Rightarrow> tcp_server" where
  "server_reset_stats v =
     update_sessions (sv_sessions v @ sv_retiring v) session_reset_stats
       (v\<lparr>sv_stats := reset_stats 0 (sv_stats v), sv_closed := no_accounting\<rparr>)"

definition set_client_limit :: "nat \<Rightarrow> tcp_server \<Rightarrow> exn + tcp_server" where
  "set_client_limit m v =
     (if m > MAX_MAX_CONNECTIONS then Inl Invalid_argument
      else Inr (v\<lparr>sv_max_clients := m, sv_limit_enabled := (m \<noteq> 0)\<rparr>))"

definition server_on_backpressure :: "bool \<Rightarrow> tcp_server \<Rightarrow> tcp_server" where
  "server_on_backpressure h v =
     (let v1 = v\<lparr>sv_on_bp := h\<rparr>
      in case sv_current v1 of
           None \<Rightarrow> v1
         | Some cid \<Rightarrow> update_session cid (\<lambda>s. set_callbacks (has_on_bytes s) h (has_on_close s) s) v1)"

text \<open>The other setters: state, bytes, and the connect, data and disconnect handlers of the clients.\<close>

datatype server_callback = Cb_state | Cb_bytes | Cb_connect | Cb_data | Cb_disconnect

fun server_set_callback :: "server_callback \<Rightarrow> bool \<Rightarrow> tcp_server \<Rightarrow> tcp_server" where
  "server_set_callback Cb_state h v = v\<lparr>sv_on_state := h\<rparr>"
| "server_set_callback Cb_bytes h v = v\<lparr>sv_on_bytes := h\<rparr>"
| "server_set_callback Cb_connect h v = v\<lparr>sv_on_connect := h\<rparr>"
| "server_set_callback Cb_data h v = v\<lparr>sv_on_data := h\<rparr>"
| "server_set_callback Cb_disconnect h v = v\<lparr>sv_on_disconnect := h\<rparr>"

section \<open>Executions\<close>

datatype server_event =
    Start_server bool
  | Stop_server
  | Stop_continues
  | Request_server_stop
  | Run_task bind_env
  | Register_client
  | Timer_fires server_timer
  | Accept_completes nat accept_result
  | Client_event nat session_action
  | Fail_client nat
  | Async_write write_call
  | Broadcast bytes
  | Broadcast_result bytes send_result bool
  | Write_target nat bool bytes bool "nat option"
  | Cancel_target_waits
  | Reset_server_stats
  | Set_client_limit nat
  | Set_server_callback server_callback bool
  | Set_on_backpressure bool

text \<open>What can happen to a session on its own: its strand, its socket and its timer.\<close>

fun session_environment :: "session_action \<Rightarrow> bool" where
  "session_environment (Run_strand _) = True"
| "session_environment (Io_complete _ _) = True"
| "session_environment (Handshake_complete _) = True"
| "session_environment (Read_done _ _) = True"
| "session_environment Idle_expired = True"
| "session_environment (Tick _) = True"
| "session_environment Fail_receive = True"
| "session_environment _ = False"

fun timer_task :: "server_timer \<Rightarrow> server_task" where
  "timer_task (Bind_timer g n) = Bind_task g (n + 1)"
| "timer_task (Accept_timer g) = Accept_again g"

fun server_step :: "bool \<Rightarrow> (nat list \<Rightarrow> nat) \<Rightarrow> server_event \<Rightarrow> tcp_server \<Rightarrow> tcp_server option" where
  "server_step tls_build first (Start_server loads) v =
     (if sv_stopping v \<and> \<not> sv_cleanup_done v then None else Some (server_start tls_build loads v))"
| "server_step tls_build first Stop_server v = Some (server_stop v)"
| "server_step tls_build first Stop_continues v = (if sv_clearing v then Some (stop_continue v) else None)"
| "server_step tls_build first Request_server_stop v = Some (server_request_stop v)"
| "server_step tls_build first (Run_task env) v =
     (case sv_inserting v of
        Some g \<Rightarrow> None
      | None \<Rightarrow>
          (case sv_tasks v of
             [] \<Rightarrow> None
           | t # ts \<Rightarrow> Some (run_server_task first env t (v\<lparr>sv_tasks := ts\<rparr>))))"
| "server_step tls_build first Register_client v =
     (case sv_inserting v of None \<Rightarrow> None | Some g \<Rightarrow> Some (register_session g v))"
| "server_step tls_build first (Timer_fires t) v =
     (if t \<in> set (sv_timers v) then Some (post_server (timer_task t) (v\<lparr>sv_timers := remove1 t (sv_timers v)\<rparr>)) else None)"
| "server_step tls_build first (Accept_completes g r) v =
     (if g \<in> set (sv_accepts v) then Some (post_server (Accept_task g r) (v\<lparr>sv_accepts := remove1 g (sv_accepts v)\<rparr>)) else None)"
| "server_step tls_build first (Client_event cid a) v =
     (if cid < sv_next_id v \<and> session_environment a \<and> (a = Fail_receive \<longrightarrow> cid \<in> set (sv_failing v))
      then client_event cid a (if a = Fail_receive then v\<lparr>sv_failing := remove1 cid (sv_failing v)\<rparr> else v)
      else None)"
| "server_step tls_build first (Fail_client cid) v = Some (server_fail_receive cid v)"
| "server_step tls_build first (Async_write w) v = Some (snd (server_async_write w v))"
| "server_step tls_build first (Broadcast data) v = Some (snd (server_broadcast data v))"
| "server_step tls_build first (Broadcast_result data r nl) v = Some (snd (broadcast_result data r nl v))"
| "server_step tls_build first (Write_target cid pooled data t e) v = Some (snd (write_target cid pooled data t e v))"
| "server_step tls_build first Cancel_target_waits v = Some (cancel_target_waits v)"
| "server_step tls_build first Reset_server_stats v = Some (server_reset_stats v)"
| "server_step tls_build first (Set_client_limit m) v =
     (case set_client_limit m v of Inl e \<Rightarrow> Some v | Inr v' \<Rightarrow> Some v')"
| "server_step tls_build first (Set_server_callback cb h) v = Some (server_set_callback cb h v)"
| "server_step tls_build first (Set_on_backpressure h) v = Some (server_on_backpressure h v)"

end
