(* ===== verification/Server_Sessions.thy ===== *)
theory Server_Sessions
  imports Tcp_Server
begin

text \<open>
  What the server relies on in its sessions: a closing session has final send totals, its stop completes once per
  \<open>async_stop\<close>, and its notifications come in order. \<open>session_writes\<close> relates a session before and after
  any number of send calls.
\<close>

lemma session_environmentE [consumes 1, case_names strand written handshake read idle tick failing]:
  assumes "session_environment a"
  obtains t where "a = Run_strand t" | ec n where "a = Io_complete ec n" | ec where "a = Handshake_complete ec"
  | ec n where "a = Read_done ec n" | "a = Idle_expired" | n where "a = Tick n" | "a = Fail_receive"
  using assms by (cases a) auto

section \<open>Final totals\<close>

lemma end_empty_totals:
  assumes inv: "ledger_inv l" and live: "live_mset l = {#}"
  shows "totals (end_ledger c l) = totals l"
proof -
  have sp: "sparse l = []" using live by (simp add: live_mset_def)
  let ?f = "\<lambda>i l. set_slot i no_entry (if ent_live (slot l i) then terminate_entry c (slot l i) l else l)"
  have dead: "\<not> ent_live (slot l i)" if "i < count l" for i
  proof -
    have "filter ent_live (map (slot l) [0..<count l]) = []"
      using live by (simp add: live_mset_def ring_def flip: mset_filter)
    with that show ?thesis by (simp add: filter_empty_conv)
  qed
  have "totals (fold ?f [0..<n] (l\<lparr>sparse := []\<rparr>)) = totals l
      \<and> (\<forall>i. n \<le> i \<and> i < count l \<longrightarrow> slot (fold ?f [0..<n] (l\<lparr>sparse := []\<rparr>)) i = slot l i)
      \<and> ring_ok (fold ?f [0..<n] (l\<lparr>sparse := []\<rparr>)) \<and> count (fold ?f [0..<n] (l\<lparr>sparse := []\<rparr>)) = count l"
    if "n \<le> count l" for n
    using that
  proof (induction n)
    case 0
    show ?case using inv by (simp add: ledger_inv_def ring_ok_def slot_def slot_index_def)
  next
    case (Suc n)
    then have "\<not> ent_live (slot (fold ?f [0..<n] (l\<lparr>sparse := []\<rparr>)) n)" using dead by simp
    moreover have "count l \<le> length (slots l)" using inv by (simp add: ledger_inv_def ring_ok_def)
    ultimately show ?case using Suc by (auto simp: slot_set_slot ring_ok_def)
  qed
  from this [of "count l"] sp show ?thesis by (simp add: end_ledger_def Let_def)
qed

lemma closing_handler_totals:
  assumes "sess_inv s" and "closing s"
  shows "totals (accounting (run_handler t h (s\<lparr>posted := hs\<rparr>))) = totals (accounting s)"
  using assms end_empty_totals [of "accounting s"]
  by (cases h) (auto simp: run_handler_def release_reserved_limit_bytes_def release_reserved_write_bytes_def do_close_sel
      sess_inv_def books_ok_def good_def)

lemma closing_refuses:
  assumes "closing s"
  shows "\<exists>st. snd (session_write ena w s) = s\<lparr>stats := st\<rparr>"
  using assms
  by (cases w) (auto simp: session_write_def write_copy_def write_move_def write_shared_def try_write_copy_def
      try_write_move_def try_write_shared_def refuse_def)

lemma closing_totals:
  assumes inv: "sess_inv s" and "closing s" and st: "sess_step a s = Some s'" and a: "session_environment a"
  shows "totals (accounting s') = totals (accounting s)"
proof -
  have "totals (accounting (do_close s)) = totals (accounting s)"
    using assms end_empty_totals [of "accounting s"] by (auto simp: do_close_sel sess_inv_def books_ok_def good_def)
  with assms closing_handler_totals [OF assms(1,2)] show ?thesis
    by (cases a) (auto simp: read_done_def idle_expired_def Let_def split: list.splits option.splits if_splits)
qed

section \<open>Notifications\<close>

text \<open>What the write path leaves alone.\<close>

lemma end_wait_notify [simp]:
  "connects (end_wait r s) = connects s" "handshaking (end_wait r s) = handshaking s" "reading (end_wait r s) = reading s"
  by (simp_all add: end_wait_def)

lemma do_write_notify [simp]:
  "connects (do_write t s) = connects s" "handshaking (do_write t s) = handshaking s" "reading (do_write t s) = reading s"
  by (simp_all add: do_write_def do_close_def drain_and_clear_backpressure_def end_wait_def Let_def split: prod.split)

lemma do_close_notify [simp]:
  "connects (do_close s) = connects s" "handshaking (do_close s) = handshaking s" "reading (do_close s) = reading s"
  by (simp_all add: do_close_def drain_and_clear_backpressure_def end_wait_def Let_def)

lemma report_backpressure_notify:
  assumes "report_backpressure q s = (s', calls, kick)"
  shows "connects (s' :: session) = connects s" "handshaking s' = handshaking s" "reading s' = reading s"
  using assms by (auto simp: report_backpressure_def flush_pending_into_tx_def Let_def split: if_splits)

lemma observe_notify [simp]:
  "connects (session_observe s) = connects s" "handshaking (session_observe s) = handshaking s"
  "reading (session_observe s) = reading s"
  by (simp_all add: session_observe_def)

lemma report_mid_notify:
  assumes "report_mid q s = (s', kick)"
  shows "connects s' = connects s" "handshaking s' = handshaking s" "reading s' = reading s"
proof -
  obtain s2 calls k where r: "report_backpressure q (session_observe s) = (s2, calls, k)" using prod_cases3 by blast
  note f = report_backpressure_notify [OF r]
  show "connects s' = connects s" "handshaking s' = handshaking s" "reading s' = reading s"
    using assms f by (auto simp: report_mid_def r Let_def split: if_splits)
qed

lemma session_report_notify [simp]:
  "connects (session_report t q s) = connects s" "handshaking (session_report t q s) = handshaking s"
  "reading (session_report t q s) = reading s"
proof -
  obtain s' kick where m: "report_mid q s = (s', kick)" by fastforce
  show "connects (session_report t q s) = connects s" "handshaking (session_report t q s) = handshaking s"
    "reading (session_report t q s) = reading s"
    by (simp_all add: session_report_mid m report_mid_notify [OF m])
qed

lemma run_handler_notify:
  "h \<noteq> Start_posted \<Longrightarrow> connects (run_handler t h s) = connects s"
  "h \<noteq> Start_posted \<Longrightarrow> handshaking (run_handler t h s) = handshaking s"
  "\<forall>ec. h \<noteq> Handshake_done ec \<Longrightarrow> reading (run_handler t h s) = reading s"
  by (simp_all add: run_handler_def route_enqueued_buffer_def release_reserved_limit_bytes_def
      release_reserved_write_bytes_def commit_to_queue_def commit_to_pending_def reset_idle_timer_def start_read_def Let_def
      split: handler.split enqueue_decision.split)

text \<open>\<open>alive\<close> is only lost by closing.\<close>

definition held :: "bool \<Rightarrow> session \<Rightarrow> bool" where
  "held a s \<longleftrightarrow> closing s \<or> alive s = a"

lemma held_frame [simp]:
  "held a (s\<lparr>accounting := x1\<rparr>) = held a s" "held a (s\<lparr>stats := x2\<rparr>) = held a s" "held a (s\<lparr>tx := x3\<rparr>) = held a s"
  "held a (s\<lparr>pending := x3\<rparr>) = held a s" "held a (s\<lparr>batch := x3\<rparr>) = held a s" "held a (s\<lparr>queue_bytes := x4\<rparr>) = held a s"
  "held a (s\<lparr>pending_bytes := x4\<rparr>) = held a s" "held a (s\<lparr>inflight_bytes := x4\<rparr>) = held a s"
  "held a (s\<lparr>writing := x5\<rparr>) = held a s" "held a (s\<lparr>handshaking := x5\<rparr>) = held a s" "held a (s\<lparr>connects := x4\<rparr>) = held a s"
  "held a (s\<lparr>reading := x5\<rparr>) = held a s" "held a (s\<lparr>posted := x6\<rparr>) = held a s"
  "held a (s\<lparr>idle_deadline := x7\<rparr>) = held a s" "held a (session_observe s) = held a s" "held a (end_wait r s) = held a s"
  "held a (s\<lparr>has_on_bytes := x5\<rparr>) = held a s" "held a (s\<lparr>has_on_bp := x5\<rparr>) = held a s"
  "held a (s\<lparr>has_on_close := x5\<rparr>) = held a s" "held a (reset_idle_timer s) = held a s" "held a (start_read s) = held a s"
  "held a (s\<lparr>closing := True\<rparr>)"
  by (simp_all add: held_def session_observe_def end_wait_def reset_idle_timer_def start_read_def)

lemma held_do_close: "held a s \<Longrightarrow> held a (do_close s)"
  by (simp add: held_def do_close_def drain_and_clear_backpressure_def Let_def)

lemma held_do_write: "held a s \<Longrightarrow> held a (do_write t s)"
  by (auto simp: do_write_def Let_def intro!: held_do_close split: prod.split) (simp add: held_def)

lemma held_report: "held a s \<Longrightarrow> held a (session_report t q s)"
proof -
  obtain s' kick where m: "report_mid q s = (s', kick)" by fastforce
  assume "held a s"
  with report_mid_sel(2,3) [OF m] have "held a s'" by (simp add: held_def)
  with \<open>held a s\<close> show ?thesis by (auto simp: session_report_mid m intro: held_do_write)
qed

lemma held_handler: "held a s \<Longrightarrow> held a (run_handler t h s)"
  by (cases h) (auto simp: run_handler_def route_enqueued_buffer_def release_reserved_limit_bytes_def
      release_reserved_write_bytes_def commit_to_queue_def commit_to_pending_def Let_def
      intro!: held_do_close held_do_write held_report split: enqueue_decision.split)

text \<open>
  A session announces its connection at most once, before anything else: the handshake and the reads follow the
  start handler.
\<close>

definition announced :: "session \<Rightarrow> bool" where
  "announced s \<longleftrightarrow>
     connects s \<le> 1 \<and> (\<not> closing s \<longrightarrow> connects s + count_list (posted s) Start_posted \<le> 1)
     \<and> (\<not> closing s \<and> \<not> alive s \<longrightarrow> connects s = 0)
     \<and> (handshaking s \<or> reading s \<or> (\<exists>ec. Handshake_done ec \<in> set (posted s)) \<longrightarrow> connects s = 1)
     \<and> (close_calls s > 0 \<longrightarrow> closing s)"

lemma announced_handler:
  assumes inv: "sess_inv s" and o: "announced s" and p: "posted s = h # hs"
  shows "announced (run_handler t h (s\<lparr>posted := hs\<rparr>))"
proof -
  define r where "r = run_handler t h (s\<lparr>posted := hs\<rparr>)"
  have e: "evolves (s\<lparr>posted := hs\<rparr>) r" unfolding r_def by (rule evolves_handler)
  have c: "closing s \<longrightarrow> closing r" using e by (simp add: evolves_def)
  have cc: "close_calls r > 0 \<longrightarrow> closing r"
    using e o by (auto simp: evolves_def announced_def split: if_splits)
  have al: "closing r \<or> alive r = alive s"
    using held_handler [of "alive s" "s\<lparr>posted := hs\<rparr>" t h] by (simp add: held_def r_def)
  have "announced r"
  proof (cases "h = Start_posted")
    case True
    with o p show ?thesis by (auto simp: announced_def run_handler_def reset_idle_timer_def r_def)
  next
    case False
    have n: "connects r = connects s" "handshaking r = handshaking s" "posted r = hs"
      using run_handler_notify(1,2) [OF False, of t "s\<lparr>posted := hs\<rparr>"] by (simp_all add: r_def)
    have rd: "reading r \<Longrightarrow> connects s = 1"
      using o p run_handler_notify(3) [of h t "s\<lparr>posted := hs\<rparr>"] by (cases h) (auto simp: announced_def r_def)
    have po: "(\<exists>ec. Handshake_done ec \<in> set hs) \<longrightarrow> connects s = 1"
      "\<not> closing s \<longrightarrow> connects s + count_list hs Start_posted \<le> 1" "handshaking s \<longrightarrow> connects s = 1" "connects s \<le> 1"
      "\<not> closing s \<and> \<not> alive s \<longrightarrow> connects s = 0"
      using o p False by (auto simp: announced_def)
    show ?thesis unfolding announced_def n using po rd cc c al by blast
  qed
  then show ?thesis by (simp add: r_def)
qed

text \<open>What a send call may change.\<close>

definition sends_only :: "session \<Rightarrow> session \<Rightarrow> bool" where
  "sends_only s s' \<longleftrightarrow>
     connects s' = connects s \<and> handshaking s' = handshaking s \<and> reading s' = reading s \<and> alive s' = alive s
     \<and> closing s' = closing s \<and> close_calls s' = close_calls s \<and> cleanup_done s' = cleanup_done s
     \<and> has_on_bytes s' = has_on_bytes s \<and> bp_limit s' = bp_limit s \<and> idle_deadline s' = idle_deadline s
     \<and> (posted s' = posted s \<or> (\<exists>b n. posted s' = posted s @ [Route b n] \<or> posted s' = posted s @ [Enqueue b n]))"

lemma sends_only_refl [simp]: "sends_only s s"
  by (simp add: sends_only_def)

lemma sends_only_stats [simp]: "sends_only s (s\<lparr>stats := st\<rparr>)"
  by (simp add: sends_only_def)

lemma write_move_sends: "sends_only s (snd (write_move d s))"
  by (auto simp: write_move_def refuse_def accept_request_def try_reserve_limit_bytes_def sends_only_def
      split: prod.splits if_splits)

lemma try_write_move_sends: "sends_only s (snd (try_write_move d s))"
  by (auto simp: try_write_move_def try_admit_def reject_for_pressure_def refuse_def accept_request_def
      try_reserve_write_bytes_locked_def try_reserve_write_bytes_def sends_only_def Let_def split: prod.splits if_splits)

lemma session_write_sends: "sends_only s (snd (session_write ena w s))"
proof -
  have "sends_only s (snd (write_shared d s))" "sends_only s (snd (try_write_shared d s))" for d
    using write_shared_None [of s]
    by (cases d; force simp: write_shared_eq try_write_shared_eq write_move_sends try_write_move_sends)+
  then show ?thesis
    by (cases w) (simp_all add: session_write_def write_move_sends try_write_move_sends write_copy_eq try_write_copy_eq)
qed

lemma session_write_step: "\<exists>a. sess_step a s = Some (snd (session_write ena w s)) \<and> a \<noteq> Reset_stats"
proof (cases w)
  case (W_copy p d)
  then show ?thesis by (intro exI [of _ "Write_copy ena p d"]) (simp add: session_write_def)
next
  case (W_move d)
  then show ?thesis by (intro exI [of _ "Write_move d"]) (simp add: session_write_def)
next
  case (W_shared d)
  then show ?thesis by (intro exI [of _ "Write_shared d"]) (simp add: session_write_def)
next
  case (T_copy d)
  then show ?thesis by (intro exI [of _ "Try_write_copy d"]) (simp add: session_write_def)
next
  case (T_move d)
  then show ?thesis by (intro exI [of _ "Try_write_move d"]) (simp add: session_write_def)
next
  case (T_shared d)
  then show ?thesis by (intro exI [of _ "Try_write_shared d"]) (simp add: session_write_def)
qed

lemma count_list_snoc [simp]: "count_list (xs @ [h]) x = count_list xs x + (if h = x then 1 else 0)"
  by (induction xs) auto

lemma sends_posted:
  assumes "sends_only s s'"
  shows "count_list (posted s') Start_posted = count_list (posted s) Start_posted"
    and "count_list (posted s') Stop_posted = count_list (posted s) Stop_posted"
    and "Handshake_done ec \<in> set (posted s') \<longleftrightarrow> Handshake_done ec \<in> set (posted s)"
proof -
  have "posted s' = posted s \<or> (\<exists>b n. posted s' = posted s @ [Route b n] \<or> posted s' = posted s @ [Enqueue b n])"
    using assms by (simp add: sends_only_def)
  then show "count_list (posted s') Start_posted = count_list (posted s) Start_posted"
    "count_list (posted s') Stop_posted = count_list (posted s) Stop_posted"
    "Handshake_done ec \<in> set (posted s') \<longleftrightarrow> Handshake_done ec \<in> set (posted s)"
    by auto
qed

lemma announced_sends:
  assumes "announced s" and "sends_only s s'"
  shows "announced s'"
proof -
  have "connects s' = connects s" "handshaking s' = handshaking s" "reading s' = reading s" "alive s' = alive s"
    "closing s' = closing s" "close_calls s' = close_calls s"
    using assms(2) by (simp_all add: sends_only_def)
  with assms(1) sends_posted [OF assms(2)] show ?thesis by (simp add: announced_def)
qed

lemma announced_frame [simp]:
  "announced (s\<lparr>stats := st\<rparr>) = announced s" "announced (s\<lparr>idle_deadline := d\<rparr>) = announced s"
  "announced (s\<lparr>clock := c\<rparr>) = announced s" "announced (s\<lparr>io := i\<rparr>) = announced s"
  by (simp_all add: announced_def)

lemma announced_post [simp]:
  "announced (s\<lparr>posted := posted s @ [Stop_posted]\<rparr>) = announced s"
  "announced (s\<lparr>io := i, posted := posted s @ [Write_done ec n k]\<rparr>) = announced s"
  by (simp_all add: announced_def)

lemma announced_environment:
  assumes inv: "sess_inv s" and o: "announced s" and a: "session_environment a" and st: "sess_step a s = Some s'"
  shows "announced s'"
proof -
  have cl: "announced (do_close r)" if "announced r" for r
  proof (cases "cleanup_done r")
    case True
    with that show ?thesis by (simp add: do_close_def)
  next
    case False
    with that show ?thesis by (simp add: announced_def do_close_sel)
  qed
  have rd: "announced (read_done ec n s)" if "reading s" for ec n
  proof -
    have re: "announced (r\<lparr>reading := x\<rparr>)" if "announced r" "connects r = 1" for r x
      using that by (cases x) (auto simp: announced_def)
    have "connects s = 1" using o that by (simp add: announced_def)
    with o re cl [OF re] show ?thesis
      by (simp add: read_done_def start_read_def reset_idle_timer_def Let_def)
  qed
  from a st show ?thesis
  proof (cases rule: session_environmentE)
    case (strand t)
    with st announced_handler [OF inv o] show ?thesis by (auto split: list.splits)
  next
    case (written ec n)
    with st o show ?thesis by (auto split: option.splits)
  next
    case (handshake ec)
    with st o show ?thesis by (auto simp: announced_def split: if_splits)
  next
    case (read ec n)
    with st rd show ?thesis by (auto split: if_splits)
  next
    case idle
    with st o cl [OF o] show ?thesis by (auto simp: idle_expired_def split: option.splits if_splits)
  next
    case (tick n)
    with st have "s' = s\<lparr>clock := clock s + int n\<rparr>" by simp
    with o show ?thesis by simp
  next
    case failing
    with st cl [OF o] show ?thesis by (auto split: if_splits)
  qed
qed

text \<open>Stops complete once: the number of posted stop handlers only changes when one runs or \<open>async_stop\<close> posts one.\<close>

lemma posted_steps:
  "posted (read_done ec n s) = posted s" "posted (idle_expired s) = posted s"
  by (simp_all add: read_done_def start_read_def reset_idle_timer_def idle_expired_def do_close_sel Let_def split: option.split)

lemma environment_stops:
  assumes a: "session_environment a" and st: "sess_step a s = Some s'"
  shows "count_list (posted s') Stop_posted + (if completes_stop a s then 1 else 0) = count_list (posted s) Stop_posted"
  using a
proof (cases rule: session_environmentE)
  case (strand t)
  with st show ?thesis by (auto simp: completes_stop_def split: list.splits handler.splits)
next
  case (written ec n)
  with st show ?thesis by (auto simp: completes_stop_def split: option.splits)
next
  case (handshake ec)
  with st show ?thesis by (auto simp: completes_stop_def split: if_splits)
next
  case (read ec n)
  with st have "s' = read_done ec n s" by (simp split: if_splits)
  with read show ?thesis by (simp add: completes_stop_def posted_steps)
next
  case idle
  with st have "s' = idle_expired s" by simp
  with idle show ?thesis by (simp add: completes_stop_def posted_steps)
next
  case (tick n)
  with st have "s' = s\<lparr>clock := clock s + int n\<rparr>" by simp
  with tick show ?thesis by (simp add: completes_stop_def)
next
  case failing
  with st have "s' = do_close s" by (simp split: if_splits)
  with failing show ?thesis by (simp add: completes_stop_def do_close_sel)
qed

lemma completes_stop_closing:
  assumes "sess_inv s" and "completes_stop a s" and "sess_step a s = Some s'"
  shows "closing s'"
proof -
  from assms(2,3) obtain t hs where "s' = run_handler t Stop_posted (s\<lparr>posted := hs\<rparr>)"
    by (auto simp: completes_stop_def split: session_action.splits list.splits handler.splits)
  with assms(1) show ?thesis by (simp add: run_handler_def do_close_sel sess_inv_def)
qed

text \<open>An announcement needs an open session, a closed one is silent.\<close>

lemma connects_steps:
  "connects (read_done ec n s) = connects s" "connects (idle_expired s) = connects s"
  by (simp_all add: read_done_def start_read_def reset_idle_timer_def idle_expired_def Let_def split: option.split)

lemma connects_step:
  assumes a: "session_environment a" and st: "sess_step a s = Some s'" and c: "connects s' > connects s"
  shows "\<not> closing s \<and> Start_posted \<in> set (posted s) \<and> connects s' = connects s + 1"
  using a
proof (cases rule: session_environmentE)
  case (strand t)
  with st obtain h hs where p: "posted s = h # hs" "s' = run_handler t h (s\<lparr>posted := hs\<rparr>)" by (auto split: list.splits)
  with c run_handler_notify(1) [of h t "s\<lparr>posted := hs\<rparr>"] have "h = Start_posted" by (cases "h = Start_posted") auto
  with p c show ?thesis by (auto simp: run_handler_def reset_idle_timer_def split: if_splits)
qed (use st c connects_steps in \<open>auto split: option.splits if_splits\<close>)

lemma delivers_open: "delivers_bytes a s = Some n \<Longrightarrow> sess_step a s = Some s' \<Longrightarrow> reading s \<and> \<not> closing s \<and> connects s' = connects s"
  by (auto simp: delivers_bytes_def read_done_def start_read_def reset_idle_timer_def Let_def
      split: session_action.splits if_splits)

end
