(* ===== verification/Server_Registry.thy ===== *)
theory Server_Registry
  imports Server_Sessions
begin

text \<open>
  The invariant of the server: what its registry, the queue of its strand, its timers and the pending operations have to do
  with each other in every reachable state, and what follows for accepting, for shutdown and for the statistics.
\<close>

section \<open>Tokens\<close>

text \<open>The loops of the server are tokens that move between the strand, the timers and the acceptor.\<close>

fun binds :: "nat \<Rightarrow> server_task \<Rightarrow> bool" where
  "binds g (Bind_task h n) \<longleftrightarrow> h = g"
| "binds g _ \<longleftrightarrow> False"

fun accepts :: "nat \<Rightarrow> server_task \<Rightarrow> bool" where
  "accepts g (Accept_task h r) \<longleftrightarrow> h = g"
| "accepts g (Accept_again h) \<longleftrightarrow> h = g"
| "accepts g _ \<longleftrightarrow> False"

definition bind_tokens :: "nat \<Rightarrow> tcp_server \<Rightarrow> nat" where
  "bind_tokens g v =
     length (filter (binds g) (sv_tasks v)) + length (filter (\<lambda>t. binds g (timer_task t)) (sv_timers v))"

definition accept_tokens :: "nat \<Rightarrow> tcp_server \<Rightarrow> nat" where
  "accept_tokens g v =
     length (filter (accepts g) (sv_tasks v)) + length (filter (\<lambda>t. accepts g (timer_task t)) (sv_timers v))
     + count_list (sv_accepts v) g + (if sv_inserting v = Some g then 1 else 0)"

definition stops_pending :: "tcp_server \<Rightarrow> nat \<Rightarrow> nat" where
  "stops_pending v cid = count_list (posted (sv_store v cid)) Stop_posted + count_list (sv_tasks v) (Retired_task cid)"

section \<open>Invariant\<close>

definition sessions_ok :: "tcp_server_config \<Rightarrow> tcp_server \<Rightarrow> bool" where
  "sessions_ok cfg v \<longleftrightarrow>
     sv_cfg v = cfg \<and> (\<forall>cid. sess_reachable (new_client_session cfg) (sv_store v cid) \<and> announced (sv_store v cid))"

definition registry_ok :: "tcp_server \<Rightarrow> bool" where
  "registry_ok v \<longleftrightarrow>
     distinct (sv_sessions v @ sv_retiring v)
     \<and> (\<forall>cid \<in> set (sv_sessions v) \<union> set (sv_retiring v). cid < sv_next_id v \<and> sv_origin v cid = sv_generation v)
     \<and> (\<forall>cid < sv_next_id v. sv_origin v cid \<le> sv_generation v
          \<and> (cid \<notin> set (sv_sessions v) \<union> set (sv_retiring v) \<longrightarrow> closing (sv_store v cid)))
     \<and> (\<forall>cid \<ge> sv_next_id v. sv_store v cid = new_client_session (sv_cfg v))
     \<and> (\<forall>cid. sv_current v = Some cid \<longrightarrow> cid \<in> set (sv_sessions v))"

fun task_ok :: "tcp_server \<Rightarrow> server_task \<Rightarrow> bool" where
  "task_ok v (Bind_task g n) \<longleftrightarrow> g \<le> sv_generation v"
| "task_ok v (Accept_task g r) \<longleftrightarrow> g \<le> sv_generation v"
| "task_ok v (Accept_again g) \<longleftrightarrow> g \<le> sv_generation v"
| "task_ok v (Close_task cid g) \<longleftrightarrow> cid < sv_next_id v \<and> g = sv_origin v cid \<and> closing (sv_store v cid)"
| "task_ok v (Connected_task cid g) \<longleftrightarrow> cid < sv_next_id v \<and> g = sv_origin v cid"
| "task_ok v (Retired_task cid) \<longleftrightarrow> cid < sv_next_id v \<and> closing (sv_store v cid)"
| "task_ok v (Stop_task g) \<longleftrightarrow> g \<le> sv_generation v"
| "task_ok v Cleanup_task \<longleftrightarrow> True"

definition tasks_ok :: "tcp_server \<Rightarrow> bool" where
  "tasks_ok v \<longleftrightarrow>
     list_all (task_ok v) (sv_tasks v) \<and> list_all (\<lambda>t. task_ok v (timer_task t)) (sv_timers v)
     \<and> (\<forall>g \<in> set (sv_accepts v). g \<le> sv_generation v)
     \<and> (\<forall>g. sv_inserting v = Some g \<longrightarrow> g = sv_generation v \<and> sv_run_dispatched v)"

text \<open>A running server is binding, accepting, or has failed.\<close>

definition phase_ok :: "tcp_server \<Rightarrow> bool" where
  "phase_ok v \<longleftrightarrow> (\<not> sv_stopping v \<longrightarrow>
     (let b = bind_tokens (sv_generation v) v; a = accept_tokens (sv_generation v) v
      in b = 1 \<and> a = 0 \<and> sv_state v \<in> {LinkIdle, LinkClosed, LinkError} \<and> sv_sessions v = [] \<and> sv_run_dispatched v
       \<or> b = 0 \<and> a = 1 \<and> sv_state v \<in> {LinkListening, LinkConnected} \<and> sv_acceptor_open v \<and> sv_run_dispatched v
       \<or> b = 0 \<and> a = 0 \<and> sv_state v \<in> {LinkIdle, LinkError} \<and> sv_sessions v = []))"

text \<open>Shutdown: requested, posted, under way with one stop outstanding per retiring session, complete.\<close>

definition shutdown_ok :: "tcp_server \<Rightarrow> bool" where
  "shutdown_ok v \<longleftrightarrow>
     (if \<not> sv_cleanup_started v then
        \<not> sv_cleanup_done v \<and> sv_retiring v = [] \<and> (\<forall>cid. stops_pending v cid = 0) \<and> (sv_clearing v \<longrightarrow> sv_stopping v)
        \<and> count_list (sv_tasks v) Cleanup_task = (if sv_stopping v \<and> \<not> sv_clearing v then 1 else 0)
      else
        sv_stopping v \<and> \<not> sv_clearing v \<and> Cleanup_task \<notin> set (sv_tasks v) \<and> sv_sessions v = [] \<and> sv_inserting v = None
        \<and> (sv_retiring v \<noteq> [] \<longrightarrow> sv_remaining v = length (sv_retiring v)) \<and> (sv_cleanup_done v \<longleftrightarrow> sv_retiring v = [])
        \<and> (\<forall>cid. stops_pending v cid = (if cid \<in> set (sv_retiring v) then 1 else 0)))"

definition server_inv :: "tcp_server_config \<Rightarrow> tcp_server \<Rightarrow> bool" where
  "server_inv cfg v \<longleftrightarrow> sessions_ok cfg v \<and> registry_ok v \<and> tasks_ok v \<and> phase_ok v \<and> shutdown_ok v"

lemma new_session_good:
  "announced (new_client_session cfg)" "closing (new_client_session cfg) = False"
  "posted (new_client_session cfg) = []" "alive (new_client_session cfg) = False"
  by (simp_all add: new_client_session_def new_session_def announced_def Let_def)

lemma server_inv_new: "server_inv cfg (new_server cfg)"
  by (simp add: server_inv_def sessions_ok_def registry_ok_def tasks_ok_def phase_ok_def shutdown_ok_def stops_pending_def
      bind_tokens_def accept_tokens_def new_server_def new_session_good sess_reachable.init Let_def)

lemma notify_sel [simp]:
  "sv_cfg (server_notify_state v) = sv_cfg v"
  "sv_stopping (server_notify_state v) = sv_stopping v"
  "sv_clearing (server_notify_state v) = sv_clearing v"
  "sv_cleanup_started (server_notify_state v) = sv_cleanup_started v"
  "sv_cleanup_done (server_notify_state v) = sv_cleanup_done v"
  "sv_next_id (server_notify_state v) = sv_next_id v"
  "sv_generation (server_notify_state v) = sv_generation v"
  "sv_run_dispatched (server_notify_state v) = sv_run_dispatched v"
  "sv_acceptor_open (server_notify_state v) = sv_acceptor_open v"
  "sv_state (server_notify_state v) = sv_state v"
  "sv_sessions (server_notify_state v) = sv_sessions v"
  "sv_retiring (server_notify_state v) = sv_retiring v"
  "sv_store (server_notify_state v) = sv_store v"
  "sv_origin (server_notify_state v) = sv_origin v"
  "sv_current (server_notify_state v) = sv_current v"
  "sv_remaining (server_notify_state v) = sv_remaining v"
  "sv_inserting (server_notify_state v) = sv_inserting v"
  "sv_failing (server_notify_state v) = sv_failing v"
  "sv_tasks (server_notify_state v) = sv_tasks v"
  "sv_timers (server_notify_state v) = sv_timers v"
  "sv_accepts (server_notify_state v) = sv_accepts v"
  "sv_closed (server_notify_state v) = sv_closed v"
  "sv_max_clients (server_notify_state v) = sv_max_clients v"
  "sv_limit_enabled (server_notify_state v) = sv_limit_enabled v"
  "sv_connect_cb (server_notify_state v) = sv_connect_cb v"
  by (simp_all add: server_notify_state_def call_user_def)

section \<open>Sessions change\<close>

definition session_ok :: "tcp_server_config \<Rightarrow> session \<Rightarrow> bool" where
  "session_ok cfg s \<longleftrightarrow> sess_reachable (new_client_session cfg) s \<and> announced s"

lemma session_ok_step:
  assumes "session_ok cfg s" and "sess_step a s = Some s'" and "announced s'"
  shows "session_ok cfg s'"
  using assms sess_reachable.step by (auto simp: session_ok_def)

lemma session_ok_inv:
  assumes "session_ok cfg s" and "0 < srv_backpressure_threshold cfg"
  shows "sess_inv s"
  using assms sess_reachable_inv by (auto simp: session_ok_def new_client_session_def)

lemma session_ok_write: "session_ok cfg s \<Longrightarrow> session_ok cfg (snd (session_write ena w s))"
  using session_ok_step session_write_step announced_sends [OF _ session_write_sends] by (metis session_ok_def)

lemma announced_control:
  "announced s \<Longrightarrow> announced (request_stop s)" "announced s \<Longrightarrow> announced (async_stop s)"
  "announced s \<Longrightarrow> announced (cancel_write_wait s)" "announced s \<Longrightarrow> announced (session_reset_stats s)"
  "announced s \<Longrightarrow> announced (set_callbacks a b c s)"
  by (auto simp: announced_def request_stop_def async_stop_def cancel_write_wait_def session_reset_stats_def set_callbacks_def
      end_wait_def Let_def)

lemma session_ok_control:
  assumes "session_ok cfg s"
  shows "session_ok cfg (request_stop s)" "session_ok cfg (async_stop s)" "session_ok cfg (cancel_write_wait s)"
    "session_ok cfg (session_reset_stats s)" "session_ok cfg (set_callbacks a b c s)"
  using assms session_ok_step [OF assms, of Request_stop] session_ok_step [OF assms, of Async_stop]
    session_ok_step [OF assms, of Cancel_wait] session_ok_step [OF assms, of Reset_stats]
    session_ok_step [OF assms, of "Set_callbacks a b c"] announced_control [of s]
  by (simp_all add: session_ok_def)

lemma session_ok_started: "session_ok cfg (start_session (set_callbacks a b c (new_client_session cfg)))"
proof -
  have n: "session_ok cfg (new_client_session cfg)" by (simp add: session_ok_def sess_reachable.init new_session_good)
  have "announced (start_session (set_callbacks a b c (new_client_session cfg)))"
    by (simp add: announced_def start_session_def set_callbacks_def new_client_session_def new_session_def Let_def)
  from session_ok_step [OF session_ok_control(5) [OF n], of Start] this show ?thesis by simp
qed

lemma sessions_ok_alt: "sessions_ok cfg v \<longleftrightarrow> sv_cfg v = cfg \<and> (\<forall>cid. session_ok cfg (sv_store v cid))"
  by (simp add: sessions_ok_def session_ok_def)

text \<open>Any change of the sessions that keeps them closing and their stops outstanding.\<close>

definition store_step :: "tcp_server \<Rightarrow> (nat \<Rightarrow> session) \<Rightarrow> bool" where
  "store_step v st \<longleftrightarrow>
     (\<forall>cid. session_ok (sv_cfg v) (st cid) \<and> (closing (sv_store v cid) \<longrightarrow> closing (st cid))
        \<and> count_list (posted (st cid)) Stop_posted = count_list (posted (sv_store v cid)) Stop_posted
        \<and> (cid \<ge> sv_next_id v \<longrightarrow> st cid = sv_store v cid))"

lemma task_ok_store:
  "task_ok v t \<Longrightarrow> (\<And>cid. closing (sv_store v cid) \<Longrightarrow> closing (st cid)) \<Longrightarrow> task_ok (v\<lparr>sv_store := st\<rparr>) t"
  by (cases t) simp_all

lemma store_step_inv:
  assumes inv: "server_inv cfg v" and st: "store_step v st"
  shows "server_inv cfg (v\<lparr>sv_store := st\<rparr>)"
proof -
  let ?v = "v\<lparr>sv_store := st\<rparr>"
  have mono: "closing (st cid)" if "closing (sv_store v cid)" for cid using st that by (simp add: store_step_def)
  have "sessions_ok cfg ?v" using inv st by (simp add: server_inv_def sessions_ok_alt store_step_def)
  moreover have "registry_ok ?v" using inv st by (simp add: server_inv_def registry_ok_def store_step_def)
  moreover have "tasks_ok ?v"
    using inv task_ok_store [OF _ mono] by (auto simp: server_inv_def tasks_ok_def list_all_iff)
  moreover have "stops_pending ?v = stops_pending v" using st by (simp add: stops_pending_def store_step_def fun_eq_iff)
  then have "phase_ok ?v" "shutdown_ok ?v"
    using inv by (simp_all add: server_inv_def phase_ok_def shutdown_ok_def bind_tokens_def accept_tokens_def)
  ultimately show ?thesis by (simp add: server_inv_def)
qed

lemma task_ok_frame [simp]:
  "task_ok (v\<lparr>sv_stats := a0\<rparr>) = task_ok v"
  "task_ok (v\<lparr>sv_closed := a1\<rparr>) = task_ok v"
  "task_ok (v\<lparr>sv_log := a2\<rparr>) = task_ok v"
  "task_ok (v\<lparr>sv_errors := a3\<rparr>) = task_ok v"
  "task_ok (v\<lparr>sv_on_bytes := a4\<rparr>) = task_ok v"
  "task_ok (v\<lparr>sv_on_state := a5\<rparr>) = task_ok v"
  "task_ok (v\<lparr>sv_on_bp := a6\<rparr>) = task_ok v"
  "task_ok (v\<lparr>sv_on_connect := a7\<rparr>) = task_ok v"
  "task_ok (v\<lparr>sv_on_data := a8\<rparr>) = task_ok v"
  "task_ok (v\<lparr>sv_on_disconnect := a9\<rparr>) = task_ok v"
  "task_ok (v\<lparr>sv_failing := a10\<rparr>) = task_ok v"
  "task_ok (v\<lparr>sv_max_clients := a11\<rparr>) = task_ok v"
  "task_ok (v\<lparr>sv_limit_enabled := a12\<rparr>) = task_ok v"
  "task_ok (v\<lparr>sv_connect_cb := a13\<rparr>) = task_ok v"
  "task_ok (v\<lparr>sv_tasks := ts\<rparr>) = task_ok v" "task_ok (v\<lparr>sv_timers := tm\<rparr>) = task_ok v"
  "task_ok (v\<lparr>sv_accepts := ac\<rparr>) = task_ok v" "task_ok (v\<lparr>sv_state := ls\<rparr>) = task_ok v"
  "task_ok (v\<lparr>sv_inserting := ins\<rparr>) = task_ok v" "task_ok (v\<lparr>sv_sessions := ss\<rparr>) = task_ok v"
  "task_ok (v\<lparr>sv_retiring := ss\<rparr>) = task_ok v" "task_ok (v\<lparr>sv_current := cu\<rparr>) = task_ok v"
  "task_ok (v\<lparr>sv_stopping := b\<rparr>) = task_ok v" "task_ok (v\<lparr>sv_clearing := b\<rparr>) = task_ok v"
  "task_ok (v\<lparr>sv_cleanup_started := b\<rparr>) = task_ok v" "task_ok (v\<lparr>sv_cleanup_done := b\<rparr>) = task_ok v"
  "task_ok (v\<lparr>sv_acceptor_open := b\<rparr>) = task_ok v" "task_ok (v\<lparr>sv_remaining := n\<rparr>) = task_ok v"
  "task_ok (v\<lparr>sv_run_dispatched := b\<rparr>) = task_ok v"
  by (rule ext, rule task_ok.induct, simp_all)+

lemma server_inv_frame [simp]:
  "server_inv cfg (v\<lparr>sv_stats := a0\<rparr>) = server_inv cfg v"
  "server_inv cfg (v\<lparr>sv_closed := a1\<rparr>) = server_inv cfg v"
  "server_inv cfg (v\<lparr>sv_log := a2\<rparr>) = server_inv cfg v"
  "server_inv cfg (v\<lparr>sv_errors := a3\<rparr>) = server_inv cfg v"
  "server_inv cfg (v\<lparr>sv_on_bytes := a4\<rparr>) = server_inv cfg v"
  "server_inv cfg (v\<lparr>sv_on_state := a5\<rparr>) = server_inv cfg v"
  "server_inv cfg (v\<lparr>sv_on_bp := a6\<rparr>) = server_inv cfg v"
  "server_inv cfg (v\<lparr>sv_on_connect := a7\<rparr>) = server_inv cfg v"
  "server_inv cfg (v\<lparr>sv_on_data := a8\<rparr>) = server_inv cfg v"
  "server_inv cfg (v\<lparr>sv_on_disconnect := a9\<rparr>) = server_inv cfg v"
  "server_inv cfg (v\<lparr>sv_failing := a10\<rparr>) = server_inv cfg v"
  "server_inv cfg (v\<lparr>sv_max_clients := a11\<rparr>) = server_inv cfg v"
  "server_inv cfg (v\<lparr>sv_limit_enabled := a12\<rparr>) = server_inv cfg v"
  "server_inv cfg (v\<lparr>sv_connect_cb := a13\<rparr>) = server_inv cfg v"
  by (simp_all add: server_inv_def sessions_ok_def registry_ok_def tasks_ok_def phase_ok_def shutdown_ok_def stops_pending_def
      bind_tokens_def accept_tokens_def)

lemma server_inv_call [simp]:
  "server_inv cfg (call_user r c v) = server_inv cfg v"
  "server_inv cfg (server_failed_send v) = server_inv cfg v"
  "server_inv cfg (client_bytes cid n v) = server_inv cfg v"
  by (simp_all add: call_user_def server_failed_send_def client_bytes_def)

section \<open>Send calls\<close>

text \<open>Every send call changes sessions of the registry and the counters only.\<close>

inductive sends :: "tcp_server \<Rightarrow> tcp_server \<Rightarrow> bool" where
  sends_refl: "sends v v"
| sends_write: "sends v v' \<Longrightarrow> cid \<in> set (sv_sessions v) \<Longrightarrow> sends v (snd (write_to_session cid w v'))"
| sends_failed: "sends v v' \<Longrightarrow> sends v (server_failed_send v')"

lemma write_to_session_store:
  "snd (write_to_session cid w v)
     = v\<lparr>sv_store := (sv_store v)(cid := snd (session_write (srv_enable_memory_pool (sv_cfg v)) w (sv_store v cid)))\<rparr>"
  by (simp add: write_to_session_def split: prod.split)

lemma sends_registry:
  "sends v v' \<Longrightarrow> sv_sessions v' = sv_sessions v \<and> sv_next_id v' = sv_next_id v"
  by (induction rule: sends.induct) (simp_all add: write_to_session_store server_failed_send_def)

lemma write_store_step:
  assumes inv: "server_inv cfg v" and cid: "cid < sv_next_id v"
  shows "store_step v ((sv_store v)(cid := snd (session_write ena w (sv_store v cid))))"
proof -
  let ?s = "snd (session_write ena w (sv_store v cid))"
  have "sends_only (sv_store v cid) ?s" by (rule session_write_sends)
  then have "closing ?s = closing (sv_store v cid)"
    "count_list (posted ?s) Stop_posted = count_list (posted (sv_store v cid)) Stop_posted"
    using sends_posted(2) by (simp_all add: sends_only_def)
  with inv cid show ?thesis by (simp add: store_step_def server_inv_def sessions_ok_alt session_ok_write)
qed

lemma registry_known: "server_inv cfg v \<Longrightarrow> cid \<in> set (sv_sessions v) \<union> set (sv_retiring v) \<Longrightarrow> cid < sv_next_id v"
  by (simp add: server_inv_def registry_ok_def)

lemma sends_inv: "sends v v' \<Longrightarrow> server_inv cfg v \<Longrightarrow> server_inv cfg v'"
proof (induction rule: sends.induct)
  case (sends_write v v' cid w)
  then have "cid < sv_next_id v'" using registry_known [of cfg v cid] sends_registry [of v v'] by simp
  with sends_write show ?case
    by (simp add: write_to_session_store store_step_inv write_store_step)
qed simp_all

lemma async_write_sends:
  assumes "server_inv cfg v"
  shows "sends v (snd (server_async_write w v))"
proof -
  have "cid \<in> set (sv_sessions v)" if "sv_current v = Some cid" for cid
    using assms that by (simp add: server_inv_def registry_ok_def)
  then show ?thesis
    by (auto simp: server_async_write_def case_prod_beta intro!: sends.intros split: option.splits)
qed

lemma broadcast_loop_sends:
  "sends v v1 \<Longrightarrow> set cids \<subseteq> set (sv_sessions v) \<Longrightarrow> broadcast_loop data cids (b, a, v1) = (b', a', v') \<Longrightarrow> sends v v'"
proof (induction cids arbitrary: b a v1)
  case (Cons cid cids)
  have "sends v (snd (write_to_session cid (T_shared (Some data)) v1))" using Cons.prems by (simp add: sends_write)
  with Cons show ?case by (auto simp: case_prod_beta split: if_splits)
qed simp

lemma broadcast_sends: "sends v (snd (server_broadcast data v))"
  using broadcast_loop_sends [OF sends_refl, of "sv_sessions v" v data False False]
  by (auto simp: server_broadcast_def intro: sends_failed split: prod.split)

lemma fanout_sends:
  "sends v (snd fv) \<Longrightarrow> sends v (snd (fold (fanout_target data ws nl) cids fv))"
proof (induction cids arbitrary: fv)
  case (Cons cid cids)
  obtain f v1 where fv: "fv = (f, v1)" by fastforce
  have "sends v (snd (write_to_session cid w v1))" if "cid \<in> set (sv_sessions v1)" for w
    using that Cons.prems sends_registry [of v v1] fv by (simp add: sends_write)
  with Cons fv have "sends v (snd (fanout_target data ws nl cid fv))"
    by (auto simp: fanout_target_def Let_def case_prod_beta)
  from Cons.IH [OF this] show ?case by simp
qed simp

lemma broadcast_result_sends: "sends v (snd (broadcast_result data ws nl v))"
  unfolding broadcast_result_def by (rule fanout_sends) (simp add: sends_refl)

lemma write_target_sends: "sends v (snd (write_target cid p data t e v))"
  by (auto simp: write_target_def intro!: sends.intros)

section \<open>Steps of the sessions\<close>

lemma post_server_inv:
  assumes inv: "server_inv cfg v" and t: "task_ok v t" "\<And>g. \<not> binds g t" "\<And>g. \<not> accepts g t" "t \<noteq> Cleanup_task"
    "\<And>cid. t \<noteq> Retired_task cid"
  shows "server_inv cfg (post_server t v)"
proof -
  have "stops_pending (post_server t v) = stops_pending v" using t(5) by (simp add: stops_pending_def post_server_def fun_eq_iff)
  then show ?thesis
    using inv t by (simp add: server_inv_def sessions_ok_def registry_ok_def tasks_ok_def phase_ok_def shutdown_ok_def
        bind_tokens_def accept_tokens_def post_server_def)
qed

lemma connected_inv:
  assumes "server_inv cfg v" and "cid < sv_next_id v"
  shows "server_inv cfg (client_connected cid v)"
  using assms by (auto simp: client_connected_def call_user_def intro!: post_server_inv)

lemma closed_inv:
  assumes "server_inv cfg v" and "cid < sv_next_id v" and "closing (sv_store v cid)"
  shows "server_inv cfg (client_closed cid v)"
  using assms by (auto simp: client_closed_def call_user_def intro!: post_server_inv)

lemma completes_stop_quiet:
  assumes "completes_stop a s" and "sess_step a s = Some s'"
  shows "connects s' = connects s" "close_calls s' = close_calls s" "delivers_bytes a s = None"
proof -
  from assms obtain t hs where "a = Run_strand t" "s' = run_handler t Stop_posted (s\<lparr>posted := hs\<rparr>)"
    by (auto simp: completes_stop_def split: session_action.splits list.splits handler.splits)
  then show "connects s' = connects s" "close_calls s' = close_calls s" "delivers_bytes a s = None"
    by (simp_all add: run_handler_def do_close_sel delivers_bytes_def)
qed

text \<open>What an environment step does to a session.\<close>

lemma environment_session:
  assumes inv: "server_inv cfg v" and thr: "0 < srv_backpressure_threshold cfg"
    and a: "session_environment a" and st: "sess_step a (sv_store v cid) = Some s'"
  shows "session_ok cfg s'" and "closing (sv_store v cid) \<Longrightarrow> closing s'"
    and "close_calls s' > close_calls (sv_store v cid) \<Longrightarrow> closing s' \<and> \<not> cleanup_done (sv_store v cid)"
    and "completes_stop a (sv_store v cid) \<Longrightarrow> closing s'"
proof -
  have ok: "session_ok cfg (sv_store v cid)" using inv by (simp add: server_inv_def sessions_ok_alt)
  note si = session_ok_inv [OF ok thr]
  have an: "announced (sv_store v cid)" using ok by (simp add: session_ok_def)
  show "session_ok cfg s'" using session_ok_step [OF ok st announced_environment [OF si an a st]] .
  have e: "evolves (sv_store v cid) s'" using st by (rule sess_step_evolves)
  then show "closing (sv_store v cid) \<Longrightarrow> closing s'" by (simp add: evolves_def)
  show "close_calls s' > close_calls (sv_store v cid) \<Longrightarrow> closing s' \<and> \<not> cleanup_done (sv_store v cid)"
    using e by (auto simp: evolves_def split: if_splits)
  show "completes_stop a (sv_store v cid) \<Longrightarrow> closing s'" using completes_stop_closing [OF si] st by blast
qed

lemma client_event_inv:
  assumes inv: "server_inv cfg v" and thr: "0 < srv_backpressure_threshold cfg" and cid: "cid < sv_next_id v"
    and a: "session_environment a" and e: "client_event cid a v = Some v'"
  shows "server_inv cfg v'"
proof -
  let ?s = "sv_store v cid"
  from e obtain s' where st: "sess_step a ?s = Some s'" by (auto simp: client_event_def Let_def split: option.splits)
  note env = environment_session [OF inv thr a st]
  define v1 where "v1 = v\<lparr>sv_store := (sv_store v)(cid := s')\<rparr>"
  have cfg: "sv_cfg v = cfg" using inv by (simp add: server_inv_def sessions_ok_def)
  show ?thesis
  proof (cases "completes_stop a ?s")
    case True
    have v': "v' = post_server (Retired_task cid) v1"
      using e st True completes_stop_quiet [OF True st] by (simp add: client_event_def v1_def Let_def)
    have n: "count_list (posted s') Stop_posted + 1 = count_list (posted ?s) Stop_posted"
      using environment_stops [OF a st] True by simp
    have "stops_pending v' = stops_pending v"
      using n by (auto simp: v' v1_def stops_pending_def post_server_def fun_eq_iff)
    moreover have "task_ok v' t" if "task_ok v t" for t
      using that env(2) by (cases t) (auto simp: v' v1_def post_server_def)
    ultimately show ?thesis
      using inv env cid cfg True
      by (simp add: server_inv_def sessions_ok_alt registry_ok_def tasks_ok_def phase_ok_def shutdown_ok_def list_all_iff
          bind_tokens_def accept_tokens_def v' v1_def post_server_def)
  next
    case False
    have "count_list (posted s') Stop_posted = count_list (posted ?s) Stop_posted"
      using environment_stops [OF a st] False by simp
    with inv env cid cfg have "store_step v ((sv_store v)(cid := s'))"
      by (simp add: store_step_def server_inv_def sessions_ok_alt)
    then have v1: "server_inv cfg v1" unfolding v1_def by (rule store_step_inv [OF inv])
    define v2 where "v2 = (case delivers_bytes a ?s of None \<Rightarrow> v1 | Some n \<Rightarrow> client_bytes cid n v1)"
    have v2: "server_inv cfg v2" "sv_next_id v2 = sv_next_id v" "sv_store v2 cid = s'"
      using v1 by (simp_all add: v2_def v1_def client_bytes_def call_user_def split: option.split)
    define v3 where "v3 = (if connects s' > connects ?s then client_connected cid v2 else v2)"
    have v3: "server_inv cfg v3" "sv_next_id v3 = sv_next_id v" "sv_store v3 cid = s'"
      using v2 connected_inv [OF v2(1)] cid by (simp_all add: v3_def client_connected_def call_user_def post_server_def)
    have "v' = (if close_calls s' > close_calls ?s then client_closed cid v3 else v3)"
      using e st False unfolding v3_def v2_def v1_def client_event_def Let_def by (simp split del: if_split)
    with v3 closed_inv [OF v3(1)] cid env(3) show ?thesis by simp
  qed
qed

section \<open>The strand\<close>

lemma pop_tokens:
  assumes "sv_tasks v = t # ts"
  shows "bind_tokens g v = bind_tokens g (v\<lparr>sv_tasks := ts\<rparr>) + (if binds g t then 1 else 0)"
    and "accept_tokens g v = accept_tokens g (v\<lparr>sv_tasks := ts\<rparr>) + (if accepts g t then 1 else 0)"
    and "stops_pending v cid = stops_pending (v\<lparr>sv_tasks := ts\<rparr>) cid + (if t = Retired_task cid then 1 else 0)"
  using assms by (simp_all add: bind_tokens_def accept_tokens_def stops_pending_def)

text \<open>A handler of no consequence: stale, or posted for an earlier run.\<close>

lemma pop_inv:
  assumes inv: "server_inv cfg v" and p: "sv_tasks v = t # ts"
    and t: "\<not> sv_stopping v \<Longrightarrow> \<not> binds (sv_generation v) t \<and> \<not> accepts (sv_generation v) t" "t \<noteq> Cleanup_task"
      "\<And>cid. t \<noteq> Retired_task cid"
  shows "server_inv cfg (v\<lparr>sv_tasks := ts\<rparr>)"
proof -
  let ?v = "v\<lparr>sv_tasks := ts\<rparr>"
  have "stops_pending ?v = stops_pending v" using pop_tokens(3) [OF p] t(3) by (auto simp: fun_eq_iff)
  then have "shutdown_ok ?v" using inv t(2) p by (auto simp: server_inv_def shutdown_ok_def)
  moreover have "bind_tokens (sv_generation v) ?v = bind_tokens (sv_generation v) v"
    "accept_tokens (sv_generation v) ?v = accept_tokens (sv_generation v) v" if "\<not> sv_stopping v"
    using pop_tokens(1,2) [OF p] t(1) [OF that] by simp_all
  then have "phase_ok ?v" using inv by (simp add: server_inv_def phase_ok_def)
  moreover have "sessions_ok cfg ?v" "registry_ok ?v" "tasks_ok ?v"
    using inv p by (simp_all add: server_inv_def sessions_ok_def registry_ok_def tasks_ok_def)
  ultimately show ?thesis by (simp add: server_inv_def)
qed

text \<open>The same with the invariant's parts, for a handler that carries a token on.\<close>

lemma carry_inv:
  assumes inv: "server_inv cfg v" and p: "sv_tasks v = t # ts" and t: "t \<noteq> Cleanup_task" "\<And>cid. t \<noteq> Retired_task cid"
    and same: "sv_cfg v' = sv_cfg v" "sv_store v' = sv_store v" "sv_sessions v' = sv_sessions v" "sv_retiring v' = sv_retiring v"
      "sv_next_id v' = sv_next_id v" "sv_origin v' = sv_origin v" "sv_generation v' = sv_generation v" "sv_current v' = sv_current v"
      "sv_stopping v' = sv_stopping v" "sv_clearing v' = sv_clearing v" "sv_cleanup_started v' = sv_cleanup_started v"
      "sv_cleanup_done v' = sv_cleanup_done v" "sv_remaining v' = sv_remaining v" "sv_run_dispatched v' = sv_run_dispatched v"
      "sv_tasks v' = ts"
    and running: "\<not> sv_stopping v"
    and timers: "\<forall>tm \<in> set (sv_timers v'). tm \<in> set (sv_timers v) \<or> task_ok v (timer_task tm)"
    and acc: "\<forall>g \<in> set (sv_accepts v'). g \<in> set (sv_accepts v) \<or> g \<le> sv_generation v"
    and ins: "\<forall>g. sv_inserting v' = Some g \<longrightarrow> g = sv_generation v \<and> sv_run_dispatched v"
    and phase: "phase_ok v'"
  shows "server_inv cfg v'"
proof -
  have tk: "task_ok v' = task_ok v"
  proof
    fix x show "task_ok v' x = task_ok v x" by (cases x) (simp_all add: same)
  qed
  have "stops_pending v' = stops_pending v" using p t(2) by (auto simp: stops_pending_def same fun_eq_iff)
  then have "shutdown_ok v'" using inv t(1) p running by (auto simp: server_inv_def shutdown_ok_def same)
  moreover have "tasks_ok v'"
    using inv p timers acc ins by (auto simp: server_inv_def tasks_ok_def list_all_iff tk same)
  moreover have "sessions_ok cfg v'" "registry_ok v'"
    using inv by (simp_all add: server_inv_def sessions_ok_def registry_ok_def same)
  ultimately show ?thesis using phase by (simp add: server_inv_def)
qed

lemma notify_form: "\<exists>lg. server_notify_state v = v\<lparr>sv_log := lg\<rparr>"
proof (cases "\<not> sv_stopping v \<and> sv_on_state v")
  case False
  then show ?thesis by (intro exI [of _ "sv_log v"]) (auto simp: server_notify_state_def call_user_def)
qed (auto simp: server_notify_state_def call_user_def)

lemma failed_form: "\<exists>lg. server_failed op n v = v\<lparr>sv_errors := sv_errors v @ [(op, n)], sv_state := LinkError, sv_log := lg\<rparr>"
  unfolding server_failed_def by (rule notify_form)

lemma attempt_cases:
  assumes "\<not> sv_stopping v"
  obtains
    (failed) ao er lg where "attempt_port_binding n env v
      = v\<lparr>sv_acceptor_open := ao, sv_errors := er, sv_state := LinkError, sv_log := lg\<rparr>"
  | (retry) "attempt_port_binding n env v
      = v\<lparr>sv_acceptor_open := True, sv_timers := sv_timers v @ [Bind_timer (sv_generation v) n]\<rparr>"
  | (listening) lg where "attempt_port_binding n env v
      = v\<lparr>sv_acceptor_open := True, sv_state := LinkListening, sv_log := lg, sv_accepts := sv_accepts v @ [sv_generation v]\<rparr>"
proof -
  let ?v1 = "v\<lparr>sv_acceptor_open := True\<rparr>"
  have f0: "\<exists>ao er lg. server_failed op n v = v\<lparr>sv_acceptor_open := ao, sv_errors := er, sv_state := LinkError, sv_log := lg\<rparr>" for op
    using failed_form [of op n v] by (metis tcp_server.surjective tcp_server.update_convs(9))
  have f1: "\<exists>er lg. server_failed op n ?v1 = v\<lparr>sv_acceptor_open := True, sv_errors := er, sv_state := LinkError, sv_log := lg\<rparr>" for op
    using failed_form [of op n ?v1] by auto
  obtain lg where l: "server_notify_state (?v1\<lparr>sv_state := LinkListening\<rparr>) = v\<lparr>sv_acceptor_open := True, sv_state := LinkListening, sv_log := lg\<rparr>"
    using notify_form [of "?v1\<lparr>sv_state := LinkListening\<rparr>"] by auto
  show thesis
  proof (cases "be_address env \<and> (sv_acceptor_open v \<or> be_open env)")
    case False
    then have "\<exists>op. attempt_port_binding n env v = server_failed op n v"
      using assms by (auto simp: attempt_port_binding_def)
    with f0 failed show thesis by metis
  next
    case True
    then have a: "attempt_port_binding n env v = (if \<not> be_bind env then
        if enable_port_retry (sv_cfg v) \<and> int n < max_port_retries (sv_cfg v)
        then ?v1\<lparr>sv_timers := sv_timers v @ [Bind_timer (sv_generation v) n]\<rparr> else server_failed ''bind'' n ?v1
      else if \<not> be_listen env then server_failed ''listen'' n ?v1
      else do_accept (server_notify_state (?v1\<lparr>sv_state := LinkListening\<rparr>)))"
      using assms by (auto simp: attempt_port_binding_def Let_def)
    consider "\<exists>op. attempt_port_binding n env v = server_failed op n ?v1"
      | "attempt_port_binding n env v = ?v1\<lparr>sv_timers := sv_timers v @ [Bind_timer (sv_generation v) n]\<rparr>"
      | "attempt_port_binding n env v = do_accept (server_notify_state (?v1\<lparr>sv_state := LinkListening\<rparr>))"
      using a by (cases "be_bind env"; cases "be_listen env") (simp_all split: if_splits, blast+)
    then show thesis
    proof cases
      case 1
      with f1 failed show thesis by metis
    next
      case 2
      with retry show thesis by simp
    next
      case 3
      with l listening assms show thesis by (simp add: do_accept_def)
    qed
  qed
qed

lemma bind_task_inv:
  assumes inv: "server_inv cfg v" and p: "sv_tasks v = Bind_task g n # ts"
  shows "server_inv cfg (run_server_task first env (Bind_task g n) (v\<lparr>sv_tasks := ts\<rparr>))"
proof (cases "sv_stopping v \<or> sv_generation v \<noteq> g")
  case True
  with pop_inv [OF inv p] show ?thesis by (auto simp: run_server_task_def)
next
  case False
  let ?v = "v\<lparr>sv_tasks := ts\<rparr>"
  have b: "bind_tokens g ?v = 0" "accept_tokens g ?v = 0" "sv_sessions v = []" "sv_run_dispatched v"
    "sv_state v \<in> {LinkIdle, LinkClosed, LinkError}"
    using inv False pop_tokens(1,2) [OF p, of g] by (auto simp: server_inv_def phase_ok_def Let_def)
  then have none: "filter (binds g) ts = []" "filter (\<lambda>t. binds g (timer_task t)) (sv_timers v) = []" "filter (accepts g) ts = []"
    "filter (\<lambda>t. accepts g (timer_task t)) (sv_timers v) = []" "count_list (sv_accepts v) g = 0" "sv_inserting v \<noteq> Some g"
    by (auto simp: bind_tokens_def accept_tokens_def split: if_splits)
  have i: "sv_inserting v = None" using inv none(6) False by (cases "sv_inserting v") (auto simp: server_inv_def tasks_ok_def)
  have r: "run_server_task first env (Bind_task g n) ?v = attempt_port_binding n env ?v"
    using False by (simp add: run_server_task_def)
  have "\<not> sv_stopping ?v" using False by simp
  then show ?thesis unfolding r
  proof (cases rule: attempt_cases [of ?v n env])
    case (failed ao er lg)
    then show "server_inv cfg (attempt_port_binding n env ?v)"
      by (intro carry_inv [OF inv p])
        (use False b none i in \<open>simp_all add: phase_ok_def bind_tokens_def accept_tokens_def\<close>)
  next
    case retry
    then show "server_inv cfg (attempt_port_binding n env ?v)"
      by (intro carry_inv [OF inv p])
        (use False b none i in \<open>auto simp: phase_ok_def bind_tokens_def accept_tokens_def\<close>)
  next
    case (listening lg)
    then show "server_inv cfg (attempt_port_binding n env ?v)"
      by (intro carry_inv [OF inv p])
        (use False b none i in \<open>auto simp: phase_ok_def bind_tokens_def accept_tokens_def\<close>)
  qed
qed

lemma accept_phase:
  assumes inv: "server_inv cfg v" and p: "sv_tasks v = t # ts" and t: "accepts (sv_generation v) t" and running: "\<not> sv_stopping v"
  shows "filter (binds (sv_generation v)) ts = []" "filter (\<lambda>t. binds (sv_generation v) (timer_task t)) (sv_timers v) = []"
    "filter (accepts (sv_generation v)) ts = []" "filter (\<lambda>t. accepts (sv_generation v) (timer_task t)) (sv_timers v) = []"
    "count_list (sv_accepts v) (sv_generation v) = 0" "sv_inserting v = None" "sv_state v \<in> {LinkListening, LinkConnected}"
    "sv_acceptor_open v" "sv_run_dispatched v"
proof -
  let ?v = "v\<lparr>sv_tasks := ts\<rparr>" and ?g = "sv_generation v"
  have nb: "\<not> binds ?g t" using t by (cases t) auto
  then have b: "bind_tokens ?g ?v = 0" "accept_tokens ?g ?v = 0" "sv_state v \<in> {LinkListening, LinkConnected}" "sv_acceptor_open v"
    "sv_run_dispatched v"
    using inv t running pop_tokens(1,2) [OF p, of ?g] by (auto simp: server_inv_def phase_ok_def Let_def)
  from b(1,2) show none: "filter (binds ?g) ts = []" "filter (\<lambda>t. binds ?g (timer_task t)) (sv_timers v) = []"
    "filter (accepts ?g) ts = []" "filter (\<lambda>t. accepts ?g (timer_task t)) (sv_timers v) = []" "count_list (sv_accepts v) ?g = 0"
    by (simp_all add: bind_tokens_def accept_tokens_def)
  have "sv_inserting v \<noteq> Some ?g" using b(2) by (simp add: accept_tokens_def split: if_splits)
  then show "sv_inserting v = None" using inv by (cases "sv_inserting v") (auto simp: server_inv_def tasks_ok_def)
  show "sv_state v \<in> {LinkListening, LinkConnected}" "sv_acceptor_open v" "sv_run_dispatched v" by fact+
qed

lemma accept_again_inv:
  assumes inv: "server_inv cfg v" and p: "sv_tasks v = t # ts" and t: "accepts (sv_generation v) t" and running: "\<not> sv_stopping v"
  shows "server_inv cfg (do_accept (v\<lparr>sv_tasks := ts\<rparr>))"
proof -
  note a = accept_phase [OF inv p t running]
  have "t \<noteq> Cleanup_task" "t \<noteq> Retired_task cid" for cid using t by auto
  moreover have "do_accept (v\<lparr>sv_tasks := ts\<rparr>) = v\<lparr>sv_tasks := ts, sv_accepts := sv_accepts v @ [sv_generation v]\<rparr>"
    using a running by (simp add: do_accept_def)
  ultimately show ?thesis
    by (intro carry_inv [OF inv p]) (use running a in \<open>auto simp: phase_ok_def bind_tokens_def accept_tokens_def\<close>)
qed

lemma accept_task_inv:
  assumes inv: "server_inv cfg v" and p: "sv_tasks v = Accept_task g r # ts"
  shows "server_inv cfg (handle_accept g r (v\<lparr>sv_tasks := ts\<rparr>))"
proof (cases "sv_stopping v \<or> sv_generation v \<noteq> g")
  case True
  with pop_inv [OF inv p] show ?thesis by (auto simp: handle_accept_def)
next
  case False
  let ?v = "v\<lparr>sv_tasks := ts\<rparr>"
  have t: "accepts (sv_generation v) (Accept_task g r)" and running: "\<not> sv_stopping v" using False by simp_all
  note a = accept_phase [OF inv p t running]
  show ?thesis
  proof (cases r)
    case Accepted_socket
    have "server_inv cfg (v\<lparr>sv_tasks := ts, sv_inserting := Some g\<rparr>)"
      by (rule carry_inv [OF inv p]) (use False a in \<open>auto simp: phase_ok_def bind_tokens_def accept_tokens_def\<close>)
    with accept_again_inv [OF inv p t running] Accepted_socket False show ?thesis by (simp add: handle_accept_def)
  next
    case (Accept_error aborted)
    have "server_inv cfg (v\<lparr>sv_tasks := ts, sv_timers := sv_timers v @ [Accept_timer g]\<rparr>)"
      by (rule carry_inv [OF inv p]) (use False a in \<open>auto simp: phase_ok_def bind_tokens_def accept_tokens_def\<close>)
    moreover have "server_inv cfg (w\<lparr>sv_timers := tm\<rparr>) = server_inv cfg (w\<lparr>sv_errors := er, sv_timers := tm\<rparr>)" for w er tm
      by (rule trans [OF server_inv_frame(4) [symmetric, where ?a3.0 = er]]) (rule arg_cong, simp)
    ultimately show ?thesis using Accept_error False a(7) by (auto simp: handle_accept_def Let_def)
  qed
qed

lemma register_inv:
  assumes inv: "server_inv cfg v" and i: "sv_inserting v = Some g"
  shows "server_inv cfg (register_session g v)"
proof -
  let ?c = "sv_next_id v"
  have g: "g = sv_generation v" using inv i by (simp add: server_inv_def tasks_ok_def)
  have cs: "\<not> sv_cleanup_started v" using inv i by (auto simp: server_inv_def shutdown_ok_def split: if_splits)
  define s where "s = start_session (set_callbacks True (sv_on_bp v) True (new_client_session (sv_cfg v)))"
  define w where "w = v\<lparr>sv_inserting := None, sv_next_id := ?c + 1, sv_store := (sv_store v)(?c := s),
    sv_origin := (sv_origin v)(?c := g), sv_sessions := sv_sessions v @ [?c], sv_current := Some ?c,
    sv_connect_cb := (sv_connect_cb v)(?c := sv_on_connect v)\<rparr>"
  have r: "register_session g v = do_accept w" by (simp add: register_session_def w_def s_def Let_def)
  have s: "session_ok cfg s" "posted s = [Start_posted]" "\<not> closing s"
    using inv session_ok_started by (simp_all add: s_def server_inv_def sessions_ok_def start_session_def set_callbacks_def
        new_client_session_def new_session_def Let_def)
  have fresh: "?c \<notin> set (sv_sessions v) \<union> set (sv_retiring v)" using registry_known [OF inv, of ?c] by blast
  define x where "x = do_accept w"
  have x: "sv_cfg x = sv_cfg v" "sv_inserting x = None" "sv_next_id x = ?c + 1" "sv_store x = (sv_store v)(?c := s)"
    "sv_origin x = (sv_origin v)(?c := g)" "sv_sessions x = sv_sessions v @ [?c]" "sv_current x = Some ?c"
    "sv_retiring x = sv_retiring v" "sv_generation x = sv_generation v" "sv_stopping x = sv_stopping v"
    "sv_clearing x = sv_clearing v" "sv_cleanup_started x = sv_cleanup_started v" "sv_cleanup_done x = sv_cleanup_done v"
    "sv_tasks x = sv_tasks v" "sv_timers x = sv_timers v" "sv_state x = sv_state v" "sv_acceptor_open x = sv_acceptor_open v"
    "sv_run_dispatched x = sv_run_dispatched v"
    "sv_accepts x = (if sv_stopping v \<or> \<not> sv_acceptor_open v then sv_accepts v else sv_accepts v @ [sv_generation v])"
    by (simp_all add: x_def do_accept_def w_def)
  have old: "sv_store v ?c = new_client_session (sv_cfg v)" using inv by (simp add: server_inv_def registry_ok_def)
  have tk: "task_ok x t" if "task_ok v t" for t
    using that by (cases t) (simp_all add: x)
  have "stops_pending x cid = stops_pending v cid" for cid
    using s(2) old by (simp add: x stops_pending_def new_session_good)
  then have "shutdown_ok x" using inv cs by (simp add: server_inv_def shutdown_ok_def x)
  moreover have "phase_ok x"
  proof (cases "sv_stopping v")
    case True
    then show ?thesis by (simp add: phase_ok_def x)
  next
    case False
    have a: "bind_tokens g v = 0" "accept_tokens g v = 1" "sv_state v \<in> {LinkListening, LinkConnected}" "sv_acceptor_open v"
      "sv_run_dispatched v"
      using inv False i g by (auto simp: server_inv_def phase_ok_def accept_tokens_def Let_def split: if_splits)
    with False i g show ?thesis by (simp add: phase_ok_def bind_tokens_def accept_tokens_def x)
  qed
  moreover have "tasks_ok x"
    using inv tk g by (auto simp: server_inv_def tasks_ok_def list_all_iff x)
  moreover have "sessions_ok cfg x" using inv s(1) by (simp add: server_inv_def sessions_ok_alt x)
  moreover have "registry_ok x"
    using inv fresh g by (auto simp: server_inv_def registry_ok_def x less_Suc_eq)
  ultimately show ?thesis by (simp add: server_inv_def r x_def)
qed

end
