(* ===== verification/Server_Invariant.thy ===== *)
theory Server_Invariant
  imports Server_Registry
begin

text \<open>
  The remaining steps of the server keep its invariant: closing and reporting sessions, shutdown, restart and the calls of the
  user. The invariant then gives the theorems on accepting and on shutdown.
\<close>

section \<open>Closing and reporting\<close>

lemma close_task_inv:
  assumes inv: "server_inv cfg v" and p: "sv_tasks v = Close_task cid g # ts"
    and first: "\<And>xs. xs \<noteq> [] \<Longrightarrow> first xs \<in> set xs"
  shows "server_inv cfg (close_session first cid g (v\<lparr>sv_tasks := ts\<rparr>))"
proof -
  let ?v = "v\<lparr>sv_tasks := ts\<rparr>"
  have v: "server_inv cfg ?v" using pop_inv [OF inv p] by simp
  show ?thesis
  proof (cases "sv_stopping v \<or> sv_generation v \<noteq> g")
    case True
    with v show ?thesis by (auto simp: close_session_def)
  next
    case False
    have cl: "closing (sv_store v cid)" using inv p by (simp add: server_inv_def tasks_ok_def)
    have ns: "\<not> sv_cleanup_started v" "sv_retiring v = []"
      using inv False by (auto simp: server_inv_def shutdown_ok_def split: if_splits)
    define st where "st = (if sv_current v = Some cid then LinkListening else sv_state v)"
    define cur where "cur = (if sv_current v = Some cid then (if removeAll cid (sv_sessions v) \<noteq> []
      then Some (first (removeAll cid (sv_sessions v))) else None) else sv_current v)"
    define x where "x = close_session first cid g ?v"
    have x: "sv_cfg x = sv_cfg v" "sv_inserting x = sv_inserting v" "sv_next_id x = sv_next_id v" "sv_store x = sv_store v"
      "sv_origin x = sv_origin v" "sv_sessions x = removeAll cid (sv_sessions v)" "sv_current x = cur"
      "sv_retiring x = sv_retiring v" "sv_generation x = sv_generation v" "sv_stopping x = sv_stopping v"
      "sv_clearing x = sv_clearing v" "sv_cleanup_started x = sv_cleanup_started v" "sv_cleanup_done x = sv_cleanup_done v"
      "sv_tasks x = ts" "sv_timers x = sv_timers v" "sv_state x = st" "sv_acceptor_open x = sv_acceptor_open v"
      "sv_run_dispatched x = sv_run_dispatched v" "sv_accepts x = sv_accepts v"
      using False by (simp_all add: x_def close_session_def absorb_session_def cur_def st_def Let_def)
    have tk: "task_ok x = task_ok ?v"
    proof
      fix t show "task_ok x t = task_ok ?v t" by (cases t) (simp_all add: x)
    qed
    have "stops_pending x = stops_pending ?v" by (simp add: stops_pending_def x fun_eq_iff)
    then have "shutdown_ok x" using v ns False by (simp add: server_inv_def shutdown_ok_def x)
    moreover have "tasks_ok x" using v by (simp add: server_inv_def tasks_ok_def tk x)
    moreover have "phase_ok x"
    proof -
      have tok: "bind_tokens g' x = bind_tokens g' ?v" "accept_tokens g' x = accept_tokens g' ?v" for g'
        by (simp_all add: bind_tokens_def accept_tokens_def x)
      have ph: "phase_ok ?v" using v by (simp add: server_inv_def)
      have "sv_current v = Some cid \<Longrightarrow> sv_sessions v \<noteq> []" using v by (auto simp: server_inv_def registry_ok_def)
      with ph show ?thesis by (cases "sv_current v = Some cid") (auto simp: phase_ok_def tok x st_def Let_def)
    qed
    moreover have "sessions_ok cfg x" using v by (simp add: server_inv_def sessions_ok_def x)
    moreover have "registry_ok x"
    proof -
      have rg: "registry_ok v" using inv by (simp add: server_inv_def)
      have "\<forall>c. cur = Some c \<longrightarrow> c \<in> set (removeAll cid (sv_sessions v))"
        using rg first [of "removeAll cid (sv_sessions v)"] by (auto simp: cur_def registry_ok_def)
      with rg cl ns show ?thesis by (auto simp: registry_ok_def x distinct_removeAll)
    qed
    ultimately show ?thesis by (simp add: server_inv_def x_def)
  qed
qed

lemma state_frame [simp]:
  "shutdown_ok (v\<lparr>sv_state := st\<rparr>) = shutdown_ok v" "registry_ok (v\<lparr>sv_state := st\<rparr>) = registry_ok v"
  "tasks_ok (v\<lparr>sv_state := st\<rparr>) = tasks_ok v" "sessions_ok cfg (v\<lparr>sv_state := st\<rparr>) = sessions_ok cfg v"
  by (simp_all add: shutdown_ok_def stops_pending_def registry_ok_def tasks_ok_def sessions_ok_def)

lemma connected_task_inv:
  assumes inv: "server_inv cfg v" and p: "sv_tasks v = Connected_task cid g # ts"
  shows "server_inv cfg (report_connected cid g (v\<lparr>sv_tasks := ts\<rparr>))"
proof -
  let ?v = "v\<lparr>sv_tasks := ts\<rparr>"
  have v: "server_inv cfg ?v" using pop_inv [OF inv p] by simp
  show ?thesis
  proof (cases "sv_stopping v \<or> sv_generation v \<noteq> g \<or> cid \<notin> set (sv_sessions v)")
    case True
    with v show ?thesis by (auto simp: report_connected_def)
  next
    case False
    have "phase_ok (?v\<lparr>sv_state := LinkConnected\<rparr>)"
      using v False by (auto simp: server_inv_def phase_ok_def bind_tokens_def accept_tokens_def Let_def)
    then have "server_inv cfg (?v\<lparr>sv_state := LinkConnected\<rparr>)" using v by (simp add: server_inv_def)
    moreover obtain lg where "server_notify_state (?v\<lparr>sv_state := LinkConnected\<rparr>) = ?v\<lparr>sv_state := LinkConnected, sv_log := lg\<rparr>"
      using notify_form [of "?v\<lparr>sv_state := LinkConnected\<rparr>"] by auto
    ultimately show ?thesis using False server_inv_frame(3) by (simp add: report_connected_def)
  qed
qed

section \<open>Shutdown\<close>

lemma async_stop_sel: "closing (async_stop s)" "posted (async_stop s) = posted s @ [Stop_posted]"
  by (simp_all add: async_stop_def Let_def)

lemma cleanup_inv:
  assumes s: "sessions_ok cfg v" and r: "registry_ok v" and t: "tasks_ok v" and stopping: "sv_stopping v" "\<not> sv_clearing v"
    and fresh: "\<not> sv_cleanup_started v" "\<not> sv_cleanup_done v" "sv_retiring v = []" "sv_inserting v = None"
      "\<And>cid. stops_pending v cid = 0" "Cleanup_task \<notin> set (sv_tasks v)"
  shows "server_inv cfg (perform_cleanup v)"
proof -
  define st where "st = (\<lambda>i. if i \<in> set (sv_sessions v) then async_stop (sv_store v i) else sv_store v i)"
  define x where "x = perform_cleanup v"
  have x: "sv_cfg x = sv_cfg v" "sv_inserting x = None" "sv_next_id x = sv_next_id v" "sv_store x = st"
    "sv_origin x = sv_origin v" "sv_sessions x = []" "sv_current x = None" "sv_retiring x = sv_sessions v"
    "sv_generation x = sv_generation v" "sv_stopping x" "\<not> sv_clearing x" "sv_cleanup_started x"
    "sv_cleanup_done x = (sv_sessions v = [])" "sv_tasks x = sv_tasks v" "sv_timers x = sv_timers v"
    "sv_run_dispatched x = sv_run_dispatched v" "sv_accepts x = sv_accepts v"
    "sv_sessions v \<noteq> [] \<longrightarrow> sv_remaining x = length (sv_sessions v)"
    using stopping fresh
    by (simp_all add: x_def perform_cleanup_def finish_cleanup_def update_sessions_def st_def Let_def fun_eq_iff)
  have mono: "closing (sv_store v cid) \<Longrightarrow> closing (st cid)" for cid by (simp add: st_def async_stop_sel)
  have "task_ok x u" if "task_ok v u" for u using that mono by (cases u) (simp_all add: x)
  then have "tasks_ok x" using t by (simp add: tasks_ok_def list_all_iff x)
  moreover have "sessions_ok cfg x" using s session_ok_control(2) by (simp add: sessions_ok_alt x st_def)
  moreover have "registry_ok x" using r mono fresh(3) by (auto simp: registry_ok_def x) (auto simp: st_def)
  moreover have "stops_pending x cid = (if cid \<in> set (sv_sessions v) then 1 else 0)" for cid
    using fresh(5) [of cid] by (simp add: stops_pending_def x st_def async_stop_sel)
  then have "shutdown_ok x" using fresh(6) by (simp add: shutdown_ok_def x)
  ultimately show ?thesis using x(10) by (simp add: server_inv_def phase_ok_def x_def)
qed

lemma cleanup_task_inv:
  assumes inv: "server_inv cfg v" and p: "sv_tasks v = Cleanup_task # ts" and i: "sv_inserting v = None"
  shows "server_inv cfg (perform_cleanup (v\<lparr>sv_tasks := ts\<rparr>))"
proof (rule cleanup_inv)
  have c: "\<not> sv_cleanup_started v" using inv p by (auto simp: server_inv_def shutdown_ok_def)
  then have n: "count_list (Cleanup_task # ts) Cleanup_task = (if sv_stopping v \<and> \<not> sv_clearing v then 1 else 0)"
    "\<not> sv_cleanup_done v" "sv_retiring v = []" "\<And>cid. stops_pending v cid = 0"
    using inv p by (auto simp: server_inv_def shutdown_ok_def)
  then have "sv_stopping v" "\<not> sv_clearing v" "count_list ts Cleanup_task = 0" by (auto split: if_splits)
  then show "sv_stopping (v\<lparr>sv_tasks := ts\<rparr>)" "\<not> sv_clearing (v\<lparr>sv_tasks := ts\<rparr>)" "Cleanup_task \<notin> set (sv_tasks (v\<lparr>sv_tasks := ts\<rparr>))"
    by (simp_all add: count_list_0_iff)
  show "stops_pending (v\<lparr>sv_tasks := ts\<rparr>) cid = 0" for cid using n(4) [of cid] pop_tokens(3) [OF p, of cid] by simp
  show "sessions_ok cfg (v\<lparr>sv_tasks := ts\<rparr>)" "registry_ok (v\<lparr>sv_tasks := ts\<rparr>)" "tasks_ok (v\<lparr>sv_tasks := ts\<rparr>)"
    using inv p by (simp_all add: server_inv_def sessions_ok_def registry_ok_def tasks_ok_def)
  show "\<not> sv_cleanup_started (v\<lparr>sv_tasks := ts\<rparr>)" "\<not> sv_cleanup_done (v\<lparr>sv_tasks := ts\<rparr>)" "sv_retiring (v\<lparr>sv_tasks := ts\<rparr>) = []"
    using c n by simp_all
qed (use i in simp)

lemma length_removeAll_distinct: "distinct xs \<Longrightarrow> x \<in> set xs \<Longrightarrow> length (removeAll x xs) = length xs - 1"
  by (simp add: distinct_remove1_removeAll [symmetric] length_remove1)

lemma retired_task_inv:
  assumes inv: "server_inv cfg v" and p: "sv_tasks v = Retired_task cid # ts"
  shows "server_inv cfg (retire_session cid (v\<lparr>sv_tasks := ts\<rparr>))"
proof -
  have "stops_pending v cid > 0" using p by (simp add: stops_pending_def)
  then have cs: "sv_cleanup_started v" and m: "cid \<in> set (sv_retiring v)"
    using inv by (auto simp: server_inv_def shutdown_ok_def split: if_splits)
  have d: "distinct (sv_retiring v)" using inv by (simp add: server_inv_def registry_ok_def)
  let ?r = "removeAll cid (sv_retiring v)"
  have len: "length ?r = length (sv_retiring v) - 1" by (rule length_removeAll_distinct [OF d m])
  have sh: "sv_stopping v" "\<not> sv_clearing v" "Cleanup_task \<notin> set (sv_tasks v)" "sv_sessions v = []" "sv_inserting v = None"
    "sv_remaining v = length (sv_retiring v)" "\<not> sv_cleanup_done v"
    "\<And>c. stops_pending v c = (if c \<in> set (sv_retiring v) then 1 else 0)"
    using inv cs m by (auto simp: server_inv_def shutdown_ok_def)
  have cl: "closing (sv_store v cid)" using inv p by (simp add: server_inv_def tasks_ok_def)
  define x where "x = retire_session cid (v\<lparr>sv_tasks := ts\<rparr>)"
  have x: "sv_cfg x = sv_cfg v" "sv_inserting x = None" "sv_next_id x = sv_next_id v" "sv_store x = sv_store v"
    "sv_origin x = sv_origin v" "sv_sessions x = []" "sv_current x = sv_current v" "sv_retiring x = ?r"
    "sv_generation x = sv_generation v" "sv_stopping x" "\<not> sv_clearing x" "sv_cleanup_started x"
    "sv_cleanup_done x = (?r = [])" "sv_tasks x = ts" "sv_timers x = sv_timers v"
    "sv_run_dispatched x = sv_run_dispatched v" "sv_accepts x = sv_accepts v" "sv_remaining x = length ?r"
    using m cs sh len by (simp_all add: x_def retire_session_def absorb_session_def finish_cleanup_def Let_def flip: length_0_conv)
  have tk: "task_ok x = task_ok v"
  proof
    fix u show "task_ok x u = task_ok v u" by (cases u) (simp_all add: x)
  qed
  have "stops_pending x c = (if c \<in> set ?r then 1 else 0)" for c
    using sh(8) [of c] p m by (cases "c = cid") (auto simp: stops_pending_def x split: if_splits)
  then have "shutdown_ok x" using sh(3) p by (simp add: shutdown_ok_def x)
  moreover have "tasks_ok x" using inv p by (simp add: server_inv_def tasks_ok_def tk x)
  moreover have "sessions_ok cfg x" using inv by (simp add: server_inv_def sessions_ok_def x)
  moreover have "registry_ok x" using inv cl sh(4) by (auto simp: server_inv_def registry_ok_def x distinct_removeAll)
  ultimately show ?thesis using x(10) by (simp add: server_inv_def phase_ok_def x_def)
qed

lemma request_stop_sel: "closing (request_stop s)" "posted (request_stop s) = posted s"
  by (simp_all add: request_stop_def)

lemma update_sessions_inv:
  assumes inv: "server_inv cfg v" and cids: "set cids \<subseteq> set (sv_sessions v) \<union> set (sv_retiring v)"
    and f: "\<And>s. session_ok cfg s \<Longrightarrow> session_ok cfg (f s)" "\<And>s. closing s \<Longrightarrow> closing (f s)" "\<And>s. posted (f s) = posted s"
  shows "server_inv cfg (update_sessions cids f v)"
proof -
  have "i < sv_next_id v" if "i \<in> set cids" for i using registry_known [OF inv] cids that by blast
  then have "i \<notin> set cids" if "sv_next_id v \<le> i" for i using that leD by blast
  then have "store_step v (\<lambda>i. if i \<in> set cids then f (sv_store v i) else sv_store v i)"
    using inv f by (simp add: store_step_def server_inv_def sessions_ok_alt)
  from store_step_inv [OF inv this] show ?thesis by (simp add: update_sessions_def)
qed

lemma stop_inv:
  assumes inv: "server_inv cfg v"
  shows "server_inv cfg (server_stop v)"
proof (cases "sv_stopping v")
  case True
  with inv show ?thesis by (simp add: server_stop_def)
next
  case False
  have "server_inv cfg (update_sessions (sv_sessions v) request_stop v)"
    by (rule update_sessions_inv [OF inv]) (simp_all add: request_stop_sel session_ok_control)
  moreover have "server_inv cfg (w\<lparr>sv_stopping := True, sv_clearing := True\<rparr>)"
    if w: "server_inv cfg w" "\<not> sv_stopping w" for w
  proof -
    have "\<not> sv_cleanup_started w" using w by (auto simp: server_inv_def shutdown_ok_def)
    with w show ?thesis
      by (simp add: server_inv_def sessions_ok_def registry_ok_def tasks_ok_def phase_ok_def shutdown_ok_def stops_pending_def)
  qed
  ultimately show ?thesis using False by (simp add: server_stop_def update_sessions_def)
qed

lemma stop_continue_inv:
  assumes inv: "server_inv cfg v" and c: "sv_clearing v"
  shows "server_inv cfg (stop_continue v)"
proof -
  define w where "w = v\<lparr>sv_clearing := False, sv_on_bytes := False, sv_on_state := False, sv_on_bp := False,
    sv_on_connect := False, sv_on_data := False, sv_on_disconnect := False\<rparr>"
  have sh: "sv_stopping v" "\<not> sv_cleanup_started v" "\<not> sv_cleanup_done v" "sv_retiring v = []" "\<And>cid. stops_pending v cid = 0"
    "Cleanup_task \<notin> set (sv_tasks v)"
    using inv c by (auto simp: server_inv_def shutdown_ok_def count_list_0_iff split: if_splits)
  have base: "sessions_ok cfg w" "registry_ok w" "tasks_ok w"
    using inv by (simp_all add: server_inv_def sessions_ok_def registry_ok_def tasks_ok_def w_def)
  show ?thesis
  proof (cases "sv_run_dispatched v")
    case False
    then have "sv_inserting v = None" using inv by (cases "sv_inserting v") (auto simp: server_inv_def tasks_ok_def)
    then have "server_inv cfg (perform_cleanup w)"
      using base sh by (intro cleanup_inv) (simp_all add: w_def stops_pending_def)
    with False show ?thesis by (simp add: stop_continue_def w_def Let_def)
  next
    case True
    have "shutdown_ok (post_server Cleanup_task w)"
      using sh by (simp add: shutdown_ok_def post_server_def w_def stops_pending_def count_list_0_iff)
    with True base sh show ?thesis
      by (simp add: stop_continue_def server_inv_def sessions_ok_def registry_ok_def tasks_ok_def phase_ok_def post_server_def
          Let_def flip: w_def) (simp add: w_def)
  qed
qed

section \<open>Start\<close>

text \<open>A start that is not ignored finds the server idle: nothing is registered, retiring or being registered.\<close>

lemma start_idle:
  assumes inv: "server_inv cfg v" and g: "\<not> (sv_stopping v \<and> \<not> sv_cleanup_done v)"
    and st: "sv_state v \<notin> {LinkListening, LinkConnected, LinkConnecting}"
  shows "sv_sessions v = []" "sv_retiring v = []" "sv_inserting v = None" "\<And>cid. stops_pending v cid = 0"
    "Cleanup_task \<notin> set (sv_tasks v)" "\<not> sv_clearing v"
proof -
  have sh: "shutdown_ok v" and ph: "phase_ok v" and tk: "tasks_ok v" using inv by (simp_all add: server_inv_def)
  have "sv_sessions v = [] \<and> sv_retiring v = [] \<and> sv_inserting v = None \<and> (\<forall>cid. stops_pending v cid = 0)
    \<and> Cleanup_task \<notin> set (sv_tasks v) \<and> \<not> sv_clearing v"
  proof (cases "sv_stopping v")
    case True
    with g sh show ?thesis by (auto simp: shutdown_ok_def split: if_splits)
  next
    case False
    then have c: "\<not> sv_cleanup_started v" using sh by (auto simp: shutdown_ok_def)
    have a: "sv_sessions v = []" "accept_tokens (sv_generation v) v = 0"
      using ph False st by (auto simp: phase_ok_def Let_def)
    then have "sv_inserting v \<noteq> Some (sv_generation v)" by (simp add: accept_tokens_def split: if_splits)
    then have "sv_inserting v = None" using tk by (cases "sv_inserting v") (auto simp: tasks_ok_def)
    with a(1) c False sh show ?thesis by (auto simp: shutdown_ok_def count_list_0_iff)
  qed
  then show "sv_sessions v = []" "sv_retiring v = []" "sv_inserting v = None" "\<And>cid. stops_pending v cid = 0"
    "Cleanup_task \<notin> set (sv_tasks v)" "\<not> sv_clearing v"
    by auto
qed

lemma fresh_tokens:
  assumes tk: "tasks_ok v" and g: "sv_generation v < g"
  shows "filter (binds g) (sv_tasks v) = []" "filter (\<lambda>t. binds g (timer_task t)) (sv_timers v) = []"
    "filter (accepts g) (sv_tasks v) = []" "filter (\<lambda>t. accepts g (timer_task t)) (sv_timers v) = []" "g \<notin> set (sv_accepts v)"
proof -
  have "\<not> binds g t \<and> \<not> accepts g t" if "task_ok v t" for t using that g by (cases t) auto
  then show "filter (binds g) (sv_tasks v) = []" "filter (\<lambda>t. binds g (timer_task t)) (sv_timers v) = []"
    "filter (accepts g) (sv_tasks v) = []" "filter (\<lambda>t. accepts g (timer_task t)) (sv_timers v) = []"
    using tk by (auto simp: tasks_ok_def list_all_iff filter_empty_conv)
  show "g \<notin> set (sv_accepts v)" using tk g by (auto simp: tasks_ok_def)
qed

lemma start_inv:
  assumes inv: "server_inv cfg v" and g: "\<not> (sv_stopping v \<and> \<not> sv_cleanup_done v)"
  shows "server_inv cfg (server_start tls_build loads v)"
proof (cases "sv_state v \<in> {LinkListening, LinkConnected, LinkConnecting}")
  case True
  with inv show ?thesis by (simp add: server_start_def)
next
  case False
  note idle = start_idle [OF inv g False]
  let ?g = "sv_generation v + 1"
  have tk: "tasks_ok v" using inv by (simp add: server_inv_def)
  note fresh = fresh_tokens [OF tk, of ?g, simplified]
  define fail where "fail = init_tls_fails tls_build loads (sv_cfg v)"
  define x where "x = server_start tls_build loads v"
  have x: "sv_cfg x = sv_cfg v" "sv_inserting x = None" "sv_next_id x = sv_next_id v" "sv_store x = sv_store v"
    "sv_origin x = sv_origin v" "sv_sessions x = []" "sv_current x = sv_current v" "sv_retiring x = []"
    "sv_generation x = ?g" "\<not> sv_stopping x" "\<not> sv_clearing x" "\<not> sv_cleanup_started x" "\<not> sv_cleanup_done x"
    "sv_tasks x = (if fail then sv_tasks v else sv_tasks v @ [Bind_task ?g 0])" "sv_timers x = sv_timers v"
    "sv_accepts x = sv_accepts v" "sv_run_dispatched x = (\<not> fail)" "sv_state x = (if fail then LinkError else sv_state v)"
    using False idle by (simp_all add: x_def server_start_def server_failed_def post_server_def fail_def Let_def)
  have "task_ok x t" if "task_ok v t" for t
  proof (cases t)
    case (Close_task cid g)
    with that show ?thesis by (simp add: x)
  qed (use that in \<open>simp_all add: x\<close>)
  then have "tasks_ok x" using tk by (auto simp: tasks_ok_def list_all_iff x)
  moreover have "stops_pending x cid = 0" for cid using idle(4) [of cid] by (simp add: stops_pending_def x)
  then have "shutdown_ok x" using idle by (simp add: shutdown_ok_def x count_list_0_iff)
  moreover have "sessions_ok cfg x" using inv by (simp add: server_inv_def sessions_ok_def x)
  moreover have "registry_ok x"
    using inv idle(1,2) by (auto simp: server_inv_def registry_ok_def x le_SucI)
  moreover have "phase_ok x"
    using False fresh by (cases "sv_state v") (auto simp: phase_ok_def bind_tokens_def accept_tokens_def x count_list_0_iff)
  ultimately show ?thesis by (simp add: server_inv_def x_def)
qed

section \<open>Every step\<close>

lemma length_filter_remove1:
  "x \<in> set xs \<Longrightarrow> length (filter P xs) = length (filter P (remove1 x xs)) + (if P x then 1 else 0)"
  by (induction xs) auto

lemma count_list_remove1:
  "x \<in> set xs \<Longrightarrow> count_list xs y = count_list (remove1 x xs) y + (if x = y then 1 else 0)"
  by (induction xs) auto

lemma timer_inv:
  assumes inv: "server_inv cfg v" and t: "t \<in> set (sv_timers v)"
  shows "server_inv cfg (post_server (timer_task t) (v\<lparr>sv_timers := remove1 t (sv_timers v)\<rparr>))"
proof -
  define x where "x = post_server (timer_task t) (v\<lparr>sv_timers := remove1 t (sv_timers v)\<rparr>)"
  have n: "timer_task t \<noteq> Cleanup_task" "timer_task t \<noteq> Retired_task cid" for cid by (cases t; simp)+
  have tok: "bind_tokens g x = bind_tokens g v" "accept_tokens g x = accept_tokens g v" "stops_pending x = stops_pending v" for g
    using length_filter_remove1 [OF t, of "\<lambda>t. binds g (timer_task t)"] length_filter_remove1 [OF t, of "\<lambda>t. accepts g (timer_task t)"] n
    by (auto simp: x_def post_server_def bind_tokens_def accept_tokens_def stops_pending_def fun_eq_iff)
  have "task_ok v (timer_task t)" using inv t by (simp add: server_inv_def tasks_ok_def list_all_iff)
  then have "tasks_ok x"
    using inv by (auto simp: server_inv_def tasks_ok_def x_def post_server_def list_all_iff dest: notin_set_remove1)
  moreover have "phase_ok x" using inv tok by (simp add: server_inv_def phase_ok_def) (simp add: x_def post_server_def)
  moreover have "shutdown_ok x"
    using inv tok(3) n by (simp add: server_inv_def shutdown_ok_def) (simp add: x_def post_server_def)
  moreover have "sessions_ok cfg x" "registry_ok x"
    using inv by (simp_all add: server_inv_def sessions_ok_def registry_ok_def x_def post_server_def)
  ultimately show ?thesis by (simp add: server_inv_def x_def)
qed

lemma accept_completes_inv:
  assumes inv: "server_inv cfg v" and g: "g \<in> set (sv_accepts v)"
  shows "server_inv cfg (post_server (Accept_task g r) (v\<lparr>sv_accepts := remove1 g (sv_accepts v)\<rparr>))"
proof -
  define x where "x = post_server (Accept_task g r) (v\<lparr>sv_accepts := remove1 g (sv_accepts v)\<rparr>)"
  have tok: "bind_tokens h x = bind_tokens h v" "accept_tokens h x = accept_tokens h v" "stops_pending x = stops_pending v" for h
    using count_list_remove1 [OF g, of h]
    by (auto simp: x_def post_server_def bind_tokens_def accept_tokens_def stops_pending_def fun_eq_iff)
  have "g \<le> sv_generation v" using inv g by (simp add: server_inv_def tasks_ok_def)
  then have "tasks_ok x"
    using inv by (auto simp: server_inv_def tasks_ok_def x_def post_server_def dest: notin_set_remove1)
  moreover have "phase_ok x" using inv tok by (simp add: server_inv_def phase_ok_def) (simp add: x_def post_server_def)
  moreover have "shutdown_ok x"
    using inv tok(3) by (simp add: server_inv_def shutdown_ok_def) (simp add: x_def post_server_def)
  moreover have "sessions_ok cfg x" "registry_ok x"
    using inv by (simp_all add: server_inv_def sessions_ok_def registry_ok_def x_def post_server_def)
  ultimately show ?thesis by (simp add: server_inv_def x_def)
qed

lemma run_task_inv:
  assumes inv: "server_inv cfg v" and p: "sv_tasks v = t # ts" and i: "sv_inserting v = None"
    and first: "\<And>xs. xs \<noteq> [] \<Longrightarrow> first xs \<in> set xs"
  shows "server_inv cfg (run_server_task first env t (v\<lparr>sv_tasks := ts\<rparr>))"
proof (cases t)
  case (Bind_task g n)
  with bind_task_inv [OF inv] p show ?thesis by simp
next
  case (Accept_task g r)
  with accept_task_inv [OF inv] p show ?thesis by (simp add: run_server_task_def)
next
  case (Accept_again g)
  with accept_again_inv [OF inv p] pop_inv [OF inv p] show ?thesis by (auto simp: run_server_task_def)
next
  case (Close_task cid g)
  with close_task_inv [OF inv _ first] p show ?thesis by (simp add: run_server_task_def)
next
  case (Connected_task cid g)
  with connected_task_inv [OF inv] p show ?thesis by (simp add: run_server_task_def)
next
  case Cleanup_task
  with cleanup_task_inv [OF inv _ i] p show ?thesis by (simp add: run_server_task_def)
next
  case (Retired_task cid)
  with retired_task_inv [OF inv] p show ?thesis by (simp add: run_server_task_def)
next
  case (Stop_task g)
  have "server_inv cfg (v\<lparr>sv_tasks := ts\<rparr>)" using pop_inv [OF inv p] Stop_task by simp
  with stop_inv Stop_task show ?thesis by (simp add: run_server_task_def)
qed

lemma control_sel:
  "closing (cancel_write_wait s) = closing s" "posted (cancel_write_wait s) = posted s"
  "closing (session_reset_stats s) = closing s" "posted (session_reset_stats s) = posted s"
  "closing (set_callbacks a b c s) = closing s" "posted (set_callbacks a b c s) = posted s"
  by (simp_all add: cancel_write_wait_def end_wait_def session_reset_stats_def set_callbacks_def)

lemma on_backpressure_inv:
  assumes inv: "server_inv cfg v"
  shows "server_inv cfg (server_on_backpressure h v)"
proof (cases "sv_current v")
  case None
  with inv show ?thesis by (simp add: server_on_backpressure_def)
next
  case (Some cid)
  let ?f = "\<lambda>s. set_callbacks (has_on_bytes s) h (has_on_close s) s"
  have "cid \<in> set (sv_sessions v)" using inv Some by (simp add: server_inv_def registry_ok_def)
  then have "cid < sv_next_id v" using registry_known [OF inv] by blast
  with inv have "store_step v ((sv_store v)(cid := ?f (sv_store v cid)))"
    by (simp add: store_step_def server_inv_def sessions_ok_alt session_ok_control control_sel)
  from store_step_inv [OF inv this] have w: "server_inv cfg (v\<lparr>sv_store := (sv_store v)(cid := ?f (sv_store v cid))\<rparr>)" .
  have "server_on_backpressure h v = (v\<lparr>sv_store := (sv_store v)(cid := ?f (sv_store v cid))\<rparr>)\<lparr>sv_on_bp := h\<rparr>"
    using Some by (simp add: server_on_backpressure_def update_session_def)
  with w show ?thesis by (simp only: server_inv_frame)
qed

lemma server_step_inv:
  assumes inv: "server_inv cfg v" and thr: "0 < srv_backpressure_threshold cfg"
    and first: "\<And>xs. xs \<noteq> [] \<Longrightarrow> first xs \<in> set xs" and s: "server_step tls_build first e v = Some v'"
  shows "server_inv cfg v'"
proof (cases e)
  case (Start_server loads)
  with s start_inv [OF inv] show ?thesis by (auto split: if_splits)
next
  case (Run_task env)
  with s run_task_inv [OF inv _ _ first] show ?thesis by (auto split: option.splits list.splits)
next
  case Register_client
  with s register_inv [OF inv] show ?thesis by (auto split: option.splits)
next
  case (Timer_fires t)
  with s timer_inv [OF inv] show ?thesis by (auto split: if_splits)
next
  case (Accept_completes g r)
  with s accept_completes_inv [OF inv] show ?thesis by (auto split: if_splits)
next
  case (Client_event cid a)
  let ?v = "if a = Fail_receive then v\<lparr>sv_failing := remove1 cid (sv_failing v)\<rparr> else v"
  from Client_event s have c: "cid < sv_next_id v" "session_environment a" "client_event cid a ?v = Some v'"
    by (auto split: if_splits)
  have "server_inv cfg ?v" "cid < sv_next_id ?v" using inv c(1) by simp_all
  from client_event_inv [OF this(1) thr this(2) c(2,3)] show ?thesis .
next
  case Reset_server_stats
  have "server_inv cfg (update_sessions (sv_sessions v @ sv_retiring v) session_reset_stats
      (v\<lparr>sv_stats := reset_stats 0 (sv_stats v), sv_closed := no_accounting\<rparr>))"
    by (rule update_sessions_inv) (simp_all add: inv session_ok_control control_sel)
  with Reset_server_stats s show ?thesis by (simp add: server_reset_stats_def)
next
  case Cancel_target_waits
  have "server_inv cfg (update_sessions (sv_sessions v) cancel_write_wait v)"
    by (rule update_sessions_inv) (simp_all add: inv session_ok_control control_sel)
  with Cancel_target_waits s show ?thesis by (simp add: cancel_target_waits_def)
next
  case (Set_client_limit m)
  with s inv show ?thesis by (auto simp: set_client_limit_def split: if_splits)
next
  case (Set_server_callback cb h)
  with s inv show ?thesis by (cases cb) auto
next
  case (Fail_client cid)
  with s inv show ?thesis by (auto simp: server_fail_receive_def split: option.splits)
next
  case Request_server_stop
  have "server_inv cfg (post_server (Stop_task (sv_generation v)) v)" by (rule post_server_inv [OF inv]) simp_all
  with Request_server_stop s inv show ?thesis by (auto simp: server_request_stop_def)
next
  case Stop_server
  with s stop_inv [OF inv] show ?thesis by simp
next
  case Stop_continues
  with s stop_continue_inv [OF inv] show ?thesis by (auto split: if_splits)
next
  case (Async_write w)
  with s have v': "v' = snd (server_async_write w v)" by simp
  show ?thesis unfolding v' by (rule sends_inv [OF async_write_sends [OF inv] inv])
next
  case (Broadcast data)
  with s have v': "v' = snd (server_broadcast data v)" by simp
  show ?thesis unfolding v' by (rule sends_inv [OF broadcast_sends inv])
next
  case (Broadcast_result data r nl)
  with s have v': "v' = snd (broadcast_result data r nl v)" by simp
  show ?thesis unfolding v' by (rule sends_inv [OF broadcast_result_sends inv])
next
  case (Write_target cid p data t ex)
  with s have v': "v' = snd (write_target cid p data t ex v)" by simp
  show ?thesis unfolding v' by (rule sends_inv [OF write_target_sends inv])
next
  case (Set_on_backpressure h)
  with s have v': "v' = server_on_backpressure h v" by simp
  show ?thesis unfolding v' by (rule on_backpressure_inv [OF inv])
qed

text \<open>The invariant holds under the two conditions the server works under: a positive threshold, which the constructor
  checks, and a registry whose \<open>begin()\<close> refers to one of its elements.\<close>

definition server_setting :: "tcp_server_config \<Rightarrow> (nat list \<Rightarrow> nat) \<Rightarrow> bool" where
  "server_setting cfg first \<longleftrightarrow> 0 < srv_backpressure_threshold cfg \<and> (\<forall>xs. xs \<noteq> [] \<longrightarrow> first xs \<in> set xs)"

interpretation server_machine: machine_invariant "server_step tls_build first" "\<lambda>v. server_setting cfg first \<longrightarrow> server_inv cfg v"
  by unfold_locales (auto simp: server_setting_def intro: server_step_inv)

lemma made_server:
  assumes "make_server v4 v6 cfg = Inr v" and "\<And>xs. xs \<noteq> [] \<Longrightarrow> first xs \<in> set xs"
  shows "server_setting cfg first" and "v = new_server cfg" and "server_inv cfg v"
proof -
  from assms(1) have v: "v = new_server cfg" "tcp_server_validate v4 v6 cfg = Inr ()"
    by (auto simp: make_server_def split: sum.splits)
  then have "threshold_ok (srv_backpressure_threshold cfg)"
    by (auto simp: tcp_server_validate_def require_def tcp_server_is_valid_def split: if_splits)
  with assms(2) show "server_setting cfg first" by (auto simp: server_setting_def threshold_ok_def within_def constant_defs)
  show "v = new_server cfg" by (rule v(1))
  then show "server_inv cfg v" by (simp add: server_inv_new)
qed

lemma server_reaches_inv:
  assumes "make_server v4 v6 cfg = Inr v0" and "\<And>xs. xs \<noteq> [] \<Longrightarrow> first xs \<in> set xs"
    and "reaches (server_step tls_build first) v0 v"
  shows "server_inv cfg v"
  using server_machine.reaches_inv [OF assms(3)] made_server [OF assms(1,2)] by blast

end
