(* ===== verification/Server_Shutdown.thy ===== *)
theory Server_Shutdown
  imports Server_Invariant
begin

text \<open>
  What the invariant gives: a server that listens always has exactly one accept operation under way, and shutdown always
  comes to its end.
\<close>

section \<open>Accepting\<close>

lemma accepting_once:
  assumes "server_inv cfg v" and "\<not> sv_stopping v" and "sv_state v \<in> {LinkListening, LinkConnected}"
  shows "accept_tokens (sv_generation v) v = 1" and "bind_tokens (sv_generation v) v = 0" and "sv_acceptor_open v"
  using assms by (auto simp: server_inv_def phase_ok_def Let_def)

section \<open>Shutdown\<close>

text \<open>The steps the server and its sessions take on their own, on their strands.\<close>

fun strand_event :: "server_event \<Rightarrow> bool" where
  "strand_event Stop_continues = True"
| "strand_event Register_client = True"
| "strand_event (Run_task _) = True"
| "strand_event (Client_event _ (Run_strand _)) = True"
| "strand_event _ = False"

text \<open>The handlers that are queued: a handler of a session may post one to the server, a handler of the server posts none while it stops.\<close>

definition shutdown_work :: "tcp_server \<Rightarrow> nat" where
  "shutdown_work v = length (sv_tasks v) + (\<Sum>cid \<leftarrow> sv_retiring v. 2 * length (posted (sv_store v cid)))"

lemma stopping_task:
  assumes "sv_stopping v" "t \<noteq> Cleanup_task" "\<And>cid. t \<noteq> Retired_task cid"
  shows "run_server_task first env t v = v"
  using assms by (cases t) (auto simp: run_server_task_def handle_accept_def close_session_def report_connected_def server_stop_def)

lemma stopping_strand:
  assumes st: "sv_stopping v" and p: "posted (sv_store v cid) = h # hs"
  obtains s' ts where "client_event cid (Run_strand t) v = Some (v\<lparr>sv_store := (sv_store v)(cid := s'), sv_tasks := sv_tasks v @ ts\<rparr>)"
    "posted s' = hs" "ts = (if h = Stop_posted then [Retired_task cid] else [])"
proof -
  let ?s = "run_handler t h ((sv_store v cid)\<lparr>posted := hs\<rparr>)"
  have c: "completes_stop (Run_strand t) (sv_store v cid) = (h = Stop_posted)"
    using p by (cases h) (simp_all add: completes_stop_def)
  have "client_event cid (Run_strand t) v
      = Some (v\<lparr>sv_store := (sv_store v)(cid := ?s), sv_tasks := sv_tasks v @ (if h = Stop_posted then [Retired_task cid] else [])\<rparr>)"
    using st p by (simp add: client_event_def delivers_bytes_def client_connected_def client_closed_def c post_server_def Let_def)
  then show ?thesis using that by simp
qed

lemma work_update:
  assumes "cid \<in> set xs" "distinct xs" "length (posted s') < length (posted (st cid))"
  shows "(\<Sum>i \<leftarrow> xs. 2 * length (posted ((st(cid := s')) i))) + 2 \<le> (\<Sum>i \<leftarrow> xs. 2 * length (posted (st i)))"
  using assms
proof (induction xs)
  case (Cons x xs)
  have "map (\<lambda>i. 2 * length (posted ((st(cid := s')) i))) xs = map (\<lambda>i. 2 * length (posted (st i))) xs" if "x = cid"
    using that Cons.prems by (intro map_cong) auto
  with Cons show ?case by (cases "x = cid") (auto simp del: fun_upd_apply map_eq_conv simp: fun_upd_same fun_upd_other)
qed simp

text \<open>One step of a cleanup that is under way.\<close>

lemma retiring_step:
  assumes inv: "server_inv cfg v" and c: "sv_cleanup_started v" "\<not> sv_cleanup_done v"
  obtains e v' where "strand_event e" "server_step tls_build first e v = Some v'" "shutdown_work v' < shutdown_work v"
    "sv_cleanup_started v'" 
proof -
  have sh: "sv_stopping v" "sv_inserting v = None" "sv_retiring v \<noteq> []" "Cleanup_task \<notin> set (sv_tasks v)"
    and sp: "\<And>cid. stops_pending v cid = (if cid \<in> set (sv_retiring v) then 1 else 0)"
    and d: "distinct (sv_retiring v)" and known: "\<And>cid. cid \<in> set (sv_retiring v) \<Longrightarrow> cid < sv_next_id v"
    using inv c by (auto simp: server_inv_def shutdown_ok_def registry_ok_def)
  show ?thesis
  proof (cases "sv_tasks v")
    case (Cons t ts)
    let ?v = "v\<lparr>sv_tasks := ts\<rparr>"
    have s: "server_step tls_build first (Run_task undefined) v = Some (run_server_task first undefined t ?v)"
      using sh Cons by simp
    have le: "(\<Sum>i\<leftarrow>removeAll cid xs. f i) \<le> (\<Sum>i\<leftarrow>xs. f i)" for cid and xs :: "nat list" and f :: "nat \<Rightarrow> nat"
      by (induction xs) auto
    have "shutdown_work (run_server_task first undefined t ?v) < shutdown_work v
        \<and> sv_cleanup_started (run_server_task first undefined t ?v)"
    proof (cases "\<exists>cid. t = Retired_task cid")
      case True
      then obtain cid where t: "t = Retired_task cid" by blast
      show ?thesis using Cons c le [of "\<lambda>i. 2 * length (posted (sv_store v i))" cid "sv_retiring v"]
        by (simp add: t run_server_task_def retire_session_def absorb_session_def finish_cleanup_def shutdown_work_def Let_def)
    next
      case False
      with sh Cons stopping_task [of ?v t first undefined] c show ?thesis by (auto simp: shutdown_work_def)
    qed
    then have "shutdown_work (run_server_task first undefined t ?v) < shutdown_work v"
      "sv_cleanup_started (run_server_task first undefined t ?v)" by blast+
    from that [OF _ s this] show ?thesis by simp
  next
    case Nil
    obtain cid where cid: "cid \<in> set (sv_retiring v)" using sh(3) by (cases "sv_retiring v") auto
    with sp [of cid] Nil obtain h hs where p: "posted (sv_store v cid) = h # hs"
      by (cases "posted (sv_store v cid)") (auto simp: stops_pending_def)
    obtain s' ts where e: "client_event cid (Run_strand False) v = Some (v\<lparr>sv_store := (sv_store v)(cid := s'), sv_tasks := sv_tasks v @ ts\<rparr>)"
      and s': "posted s' = hs" "ts = (if h = Stop_posted then [Retired_task cid] else [])"
      using stopping_strand [OF sh(1) p] by blast
    let ?v = "v\<lparr>sv_store := (sv_store v)(cid := s'), sv_tasks := sv_tasks v @ ts\<rparr>"
    have "server_step tls_build first (Client_event cid (Run_strand False)) v = Some ?v" using e known [OF cid] by simp
    moreover have "shutdown_work ?v < shutdown_work v"
      using work_update [OF cid d, of s' "sv_store v"] p s' by (simp add: shutdown_work_def)
    ultimately show ?thesis using that [of "Client_event cid (Run_strand False)" ?v] c by simp
  qed
qed

lemma cleanup_completes:
  assumes set: "server_setting cfg first" and inv: "server_inv cfg v" and c: "sv_cleanup_started v"
  shows "\<exists>es v'. list_all strand_event es \<and> run_steps (server_step tls_build first) es v = Some v' \<and> sv_cleanup_done v'"
  using inv c
proof (induction "shutdown_work v" arbitrary: v rule: less_induct)
  case less
  show ?case
  proof (cases "sv_cleanup_done v")
    case True
    then show ?thesis by (intro exI [of _ "[]"] exI [of _ v]) simp
  next
    case False
    obtain e v1 where e: "strand_event e" "server_step tls_build first e v = Some v1" "shutdown_work v1 < shutdown_work v"
      "sv_cleanup_started v1"
      using retiring_step [OF less.prems False] by blast
    have "server_inv cfg v1" using server_machine.step_inv [OF _ e(2)] set less.prems(1) by blast
    with less.hyps [OF e(3) _ e(4)] obtain es v' where
      "list_all strand_event es" "run_steps (server_step tls_build first) es v1 = Some v'" "sv_cleanup_done v'" by blast
    with e(1,2) show ?thesis by (intro exI [of _ "e # es"] exI [of _ v']) simp
  qed
qed

lemma strand_first:
  assumes "strand_event e" and "server_step tls_build first e v = Some v1"
    and "\<exists>es v'. list_all strand_event es \<and> run_steps (server_step tls_build first) es v1 = Some v' \<and> P v'"
  shows "\<exists>es v'. list_all strand_event es \<and> run_steps (server_step tls_build first) es v = Some v' \<and> P v'"
proof -
  from assms(3) obtain es v' where "list_all strand_event es" "run_steps (server_step tls_build first) es v1 = Some v'" "P v'" by blast
  with assms(1,2) show ?thesis by (intro exI [of _ "e # es"] exI [of _ v']) simp
qed

lemma queued_cleanup_completes:
  assumes set: "server_setting cfg first" and inv: "server_inv cfg v" and s: "sv_stopping v" "\<not> sv_clearing v" "sv_inserting v = None"
  shows "\<exists>es v'. list_all strand_event es \<and> run_steps (server_step tls_build first) es v = Some v' \<and> sv_cleanup_done v'"
  using inv s
proof (induction "length (sv_tasks v)" arbitrary: v rule: less_induct)
  case less
  show ?case
  proof (cases "sv_cleanup_started v")
    case True
    with cleanup_completes [OF set less.prems(1)] show ?thesis by blast
  next
    case False
    with less.prems have ct: "count_list (sv_tasks v) Cleanup_task = 1" and sp: "\<And>cid. stops_pending v cid = 0"
      by (auto simp: server_inv_def shutdown_ok_def)
    then obtain t ts where p: "sv_tasks v = t # ts" by (cases "sv_tasks v") auto
    let ?v = "v\<lparr>sv_tasks := ts\<rparr>" and ?v1 = "run_server_task first undefined t (v\<lparr>sv_tasks := ts\<rparr>)"
    have st: "server_step tls_build first (Run_task undefined) v = Some ?v1" using p less.prems by simp
    have i: "server_inv cfg ?v1" using server_machine.step_inv [OF _ st] set less.prems(1) by blast
    have "\<exists>es v'. list_all strand_event es \<and> run_steps (server_step tls_build first) es ?v1 = Some v' \<and> sv_cleanup_done v'"
    proof (cases "t = Cleanup_task")
      case True
      then have "sv_cleanup_started ?v1"
        by (simp add: run_server_task_def perform_cleanup_def finish_cleanup_def update_sessions_def Let_def)
      with cleanup_completes [OF set i] show ?thesis by blast
    next
      case no: False
      have "t \<noteq> Retired_task cid" for cid using sp [of cid] p by (auto simp: stops_pending_def)
      then have "?v1 = ?v" using stopping_task less.prems(2) no by simp
      with less.hyps [of ?v] i p less.prems show ?thesis by simp
    qed
    with strand_first [OF _ st] show ?thesis by simp
  qed
qed

lemma shutdown_completes:
  assumes set: "server_setting cfg first" and inv: "server_inv cfg v" and s: "sv_stopping v"
  shows "\<exists>es v'. list_all strand_event es \<and> run_steps (server_step tls_build first) es v = Some v' \<and> sv_cleanup_done v'"
proof -
  let ?goal = "\<lambda>v. \<exists>es v'. list_all strand_event es \<and> run_steps (server_step tls_build first) es v = Some v' \<and> sv_cleanup_done v'"
  have registered: "?goal w" if w: "server_inv cfg w" "sv_stopping w" "\<not> sv_clearing w" for w
  proof (cases "sv_inserting w")
    case None
    with queued_cleanup_completes [OF set w] show ?thesis by blast
  next
    case (Some g)
    then have st: "server_step tls_build first Register_client w = Some (register_session g w)" by simp
    have "server_inv cfg (register_session g w)" using server_machine.step_inv [OF _ st] set w by blast
    then have "?goal (register_session g w)"
      using queued_cleanup_completes [OF set] w by (simp add: register_session_def do_accept_def Let_def)
    with strand_first [OF _ st] show ?thesis by simp
  qed
  show ?thesis
  proof (cases "sv_clearing v")
    case True
    then have st: "server_step tls_build first Stop_continues v = Some (stop_continue v)" by simp
    have i: "server_inv cfg (stop_continue v)" using server_machine.step_inv [OF _ st] set inv by blast
    have "sv_stopping (stop_continue v)" "\<not> sv_clearing (stop_continue v)"
      using s by (simp_all add: stop_continue_def perform_cleanup_def finish_cleanup_def update_sessions_def post_server_def Let_def)
    with registered [OF i] strand_first [OF _ st] show ?thesis by simp
  next
    case False
    with registered [OF inv s] show ?thesis by blast
  qed
qed

end
