(* ===== verification/Server_Accounting.thy ===== *)
theory Server_Accounting
  imports Server_Invariant
begin

text \<open>
  The send accounting the server reports covers every session of the current run once: a session that has left the
  registry has been added to \<open>sv_closed\<close> when it left, and its totals do not change any more.
\<close>

section \<open>Sums of accounts\<close>

interpretation accounts: comm_monoid_set accumulate_send_accounting no_accounting
  by unfold_locales
    (simp_all add: accumulate_send_accounting_def no_accounting_def no_loss_def no_requests_def add_losses_def add_totals_def
      add.assoc add.commute)

definition session_totals :: "tcp_server \<Rightarrow> nat \<Rightarrow> send_accounting" where
  "session_totals v cid = totals (accounting (sv_store v cid))"

text \<open>The sum over a list of clients.\<close>

definition total_of :: "tcp_server \<Rightarrow> nat list \<Rightarrow> send_accounting" where
  "total_of v cids = fold (\<lambda>cid t. accumulate_send_accounting t (session_totals v cid)) cids no_accounting"

lemma total_from: "fold (\<lambda>cid t. accumulate_send_accounting t (f cid)) cids a
    = accumulate_send_accounting a (fold (\<lambda>cid t. accumulate_send_accounting t (f cid)) cids no_accounting)"
proof (induction cids arbitrary: a)
  case (Cons x xs)
  show ?case using Cons [of "accumulate_send_accounting a (f x)"] Cons [of "f x"]
    by (simp add: accounts.assoc accounts.left_neutral)
qed (simp add: accounts.right_neutral)

lemma total_of_set: "distinct cids \<Longrightarrow> total_of v cids = accounts.F (session_totals v) (set cids)"
proof (induction cids)
  case (Cons x xs)
  then show ?case
    using total_from [of "session_totals v" xs "session_totals v x"]
    by (simp add: total_of_def accounts.insert accounts.left_neutral)
qed (simp add: total_of_def)

section \<open>Closed sessions\<close>

definition run_clients :: "tcp_server \<Rightarrow> nat list" where
  "run_clients v = filter (\<lambda>cid. sv_origin v cid = sv_generation v) [0..<sv_next_id v]"

definition gone :: "tcp_server \<Rightarrow> nat set" where
  "gone v = set (run_clients v) - (set (sv_sessions v) \<union> set (sv_retiring v))"

definition closed_books :: "tcp_server \<Rightarrow> bool" where
  "closed_books v \<longleftrightarrow> sv_closed v = accounts.F (session_totals v) (gone v)"

lemma gone_iff: "cid \<in> gone v \<longleftrightarrow> cid < sv_next_id v \<and> sv_origin v cid = sv_generation v
    \<and> cid \<notin> set (sv_sessions v) \<union> set (sv_retiring v)"
  by (auto simp: gone_def run_clients_def)

lemma gone_closing: "server_inv cfg v \<Longrightarrow> cid \<in> gone v \<Longrightarrow> closing (sv_store v cid)"
  by (auto simp: gone_iff server_inv_def registry_ok_def)

definition undisturbed :: "tcp_server \<Rightarrow> tcp_server \<Rightarrow> bool" where
  "undisturbed v v' \<longleftrightarrow> sv_closed v' = sv_closed v \<and> gone v' = gone v \<and> (\<forall>cid \<in> gone v. session_totals v' cid = session_totals v cid)"

lemma undisturbed_books:
  assumes "undisturbed v v'" and "closed_books v"
  shows "closed_books v'"
proof -
  have "accounts.F (session_totals v') (gone v') = accounts.F (session_totals v) (gone v)"
    using assms(1) by (intro accounts.cong) (simp_all add: undisturbed_def)
  with assms show ?thesis by (simp add: undisturbed_def closed_books_def)
qed

text \<open>Steps that leave the registry and the sessions alone.\<close>

lemma undisturbed_frame:
  assumes "sv_closed v' = sv_closed v" "sv_next_id v' = sv_next_id v" "sv_origin v' = sv_origin v" "sv_generation v' = sv_generation v"
    "sv_sessions v' = sv_sessions v" "sv_retiring v' = sv_retiring v"
    "\<And>cid. cid \<in> gone v \<Longrightarrow> session_totals v' cid = session_totals v cid"
  shows "undisturbed v v'"
  using assms by (auto simp: undisturbed_def gone_iff)

lemma undisturbed_same:
  assumes "sv_closed v' = sv_closed v" "sv_next_id v' = sv_next_id v" "sv_origin v' = sv_origin v" "sv_generation v' = sv_generation v"
    "sv_sessions v' = sv_sessions v" "sv_retiring v' = sv_retiring v" "sv_store v' = sv_store v"
  shows "undisturbed v v'"
  by (rule undisturbed_frame) (simp_all add: assms session_totals_def)

lemma undisturbed_trans: "undisturbed v v1 \<Longrightarrow> undisturbed v1 v2 \<Longrightarrow> undisturbed v v2"
  by (auto simp: undisturbed_def)

lemma sends_undisturbed: "sends v v' \<Longrightarrow> undisturbed v v'"
proof (induction rule: sends.induct)
  case (sends_write v v' cid w)
  have "undisturbed v' (snd (write_to_session cid w v'))"
    using sends_registry [OF sends_write.hyps(1)] sends_write.hyps(2)
    by (intro undisturbed_frame) (auto simp: write_to_session_store session_totals_def gone_iff)
  with sends_write.IH show ?case by (rule undisturbed_trans)
next
  case (sends_failed v v')
  have "undisturbed v' (server_failed_send v')" by (rule undisturbed_same) (simp_all add: server_failed_send_def)
  with sends_failed.IH show ?case by (rule undisturbed_trans)
qed (simp add: undisturbed_def)

lemma update_undisturbed:
  assumes "set cids \<subseteq> set (sv_sessions v) \<union> set (sv_retiring v)"
  shows "undisturbed v (update_sessions cids f v)"
  using assms by (intro undisturbed_frame) (auto simp: update_sessions_def session_totals_def gone_iff)

lemma call_undisturbed:
  "undisturbed v (call_user r c v)" "undisturbed v (post_server t v)" "undisturbed v (server_notify_state v)"
  "undisturbed v (server_failed op n v)" "undisturbed v (do_accept v)"
  by (rule undisturbed_same; simp add: call_user_def post_server_def server_failed_def do_accept_def)+

text \<open>What the callbacks of a session leave alone.\<close>

lemma call_user_frame [simp]:
  "sv_closed (call_user r c v) = sv_closed v" "sv_next_id (call_user r c v) = sv_next_id v"
  "sv_origin (call_user r c v) = sv_origin v" "sv_generation (call_user r c v) = sv_generation v"
  "sv_sessions (call_user r c v) = sv_sessions v" "sv_retiring (call_user r c v) = sv_retiring v"
  "sv_store (call_user r c v) = sv_store v"
  by (simp_all add: call_user_def)

lemma post_server_frame [simp]:
  "sv_closed (post_server t v) = sv_closed v" "sv_next_id (post_server t v) = sv_next_id v"
  "sv_origin (post_server t v) = sv_origin v" "sv_generation (post_server t v) = sv_generation v"
  "sv_sessions (post_server t v) = sv_sessions v" "sv_retiring (post_server t v) = sv_retiring v"
  "sv_store (post_server t v) = sv_store v"
  by (simp_all add: post_server_def)

lemma client_bytes_frame [simp]:
  "sv_closed (client_bytes cid n v) = sv_closed v" "sv_next_id (client_bytes cid n v) = sv_next_id v"
  "sv_origin (client_bytes cid n v) = sv_origin v" "sv_generation (client_bytes cid n v) = sv_generation v"
  "sv_sessions (client_bytes cid n v) = sv_sessions v" "sv_retiring (client_bytes cid n v) = sv_retiring v"
  "sv_store (client_bytes cid n v) = sv_store v"
  by (simp_all add: client_bytes_def)

lemma client_connected_frame [simp]:
  "sv_closed (client_connected cid v) = sv_closed v" "sv_next_id (client_connected cid v) = sv_next_id v"
  "sv_origin (client_connected cid v) = sv_origin v" "sv_generation (client_connected cid v) = sv_generation v"
  "sv_sessions (client_connected cid v) = sv_sessions v" "sv_retiring (client_connected cid v) = sv_retiring v"
  "sv_store (client_connected cid v) = sv_store v"
  by (simp_all add: client_connected_def)

lemma client_closed_frame [simp]:
  "sv_closed (client_closed cid v) = sv_closed v" "sv_next_id (client_closed cid v) = sv_next_id v"
  "sv_origin (client_closed cid v) = sv_origin v" "sv_generation (client_closed cid v) = sv_generation v"
  "sv_sessions (client_closed cid v) = sv_sessions v" "sv_retiring (client_closed cid v) = sv_retiring v"
  "sv_store (client_closed cid v) = sv_store v"
  by (simp_all add: client_closed_def)

lemma client_event_undisturbed:
  assumes inv: "server_inv cfg v" and thr: "0 < srv_backpressure_threshold cfg" and a: "session_environment a"
    and e: "client_event cid a v = Some v'"
  shows "undisturbed v v'"
proof -
  obtain s' where s: "sess_step a (sv_store v cid) = Some s'" using e by (auto simp: client_event_def Let_def split: option.splits)
  have i: "sess_inv (sv_store v cid)"
    using inv thr session_ok_inv by (auto simp: server_inv_def sessions_ok_alt)
  have t: "totals (accounting s') = session_totals v cid" if "cid \<in> gone v"
    using closing_totals [OF i gone_closing [OF inv that] s a] by (simp add: session_totals_def)
  have v': "sv_closed v' = sv_closed v" "sv_next_id v' = sv_next_id v" "sv_origin v' = sv_origin v"
    "sv_generation v' = sv_generation v" "sv_sessions v' = sv_sessions v" "sv_retiring v' = sv_retiring v"
    "sv_store v' = (sv_store v)(cid := s')"
    using e [symmetric] by (simp_all add: client_event_def s Let_def split: option.split)
  show ?thesis by (rule undisturbed_frame) (use v' t in \<open>auto simp: session_totals_def\<close>)
qed

section \<open>Steps that close sessions\<close>

lemma absorb_books:
  assumes b: "closed_books v" and m: "cid \<in> set (run_clients v)" "cid \<notin> gone v"
    and v': "sv_closed v' = accumulate_send_accounting (sv_closed v) (session_totals v cid)" "gone v' = insert cid (gone v)"
      "sv_store v' = sv_store v"
  shows "closed_books v'"
proof -
  have "finite (gone v)" by (simp add: gone_def)
  moreover have "session_totals v' = session_totals v" using v' by (simp add: session_totals_def fun_eq_iff)
  ultimately show ?thesis
    using b m v' by (simp add: closed_books_def accounts.insert accounts.commute)
qed

lemma close_session_books:
  assumes inv: "server_inv cfg v" and b: "closed_books v"
  shows "closed_books (close_session first cid g v)"
proof (cases "sv_stopping v \<or> sv_generation v \<noteq> g")
  case True
  then have "close_session first cid g v = v" by (auto simp: close_session_def)
  with b show ?thesis by simp
next
  case run: False
  let ?c = "close_session first cid g v"
  have f: "sv_next_id ?c = sv_next_id v" "sv_origin ?c = sv_origin v" "sv_generation ?c = sv_generation v"
    "sv_sessions ?c = removeAll cid (sv_sessions v)" "sv_retiring ?c = sv_retiring v" "sv_store ?c = sv_store v"
    "sv_closed ?c = (if cid \<in> set (sv_sessions v) then accumulate_send_accounting (sv_closed v) (session_totals v cid) else sv_closed v)"
    using run by (simp_all add: close_session_def absorb_session_def session_totals_def Let_def)
  show ?thesis
  proof (cases "cid \<in> set (sv_sessions v)")
    case True
    have r: "cid < sv_next_id v" "sv_origin v cid = sv_generation v" "cid \<notin> set (sv_retiring v)"
      using inv True by (auto simp: server_inv_def registry_ok_def)
    show ?thesis
      by (rule absorb_books [OF b, of cid]) (use r True f in \<open>auto simp: gone_iff run_clients_def\<close>)
  next
    case False
    with f have "undisturbed v ?c" by (intro undisturbed_same) simp_all
    from undisturbed_books [OF this b] show ?thesis .
  qed
qed

lemma retire_session_books:
  assumes inv: "server_inv cfg v" and b: "closed_books v"
  shows "closed_books (retire_session cid v)"
proof -
  let ?c = "retire_session cid v"
  have f: "sv_next_id ?c = sv_next_id v" "sv_origin ?c = sv_origin v" "sv_generation ?c = sv_generation v"
    "sv_sessions ?c = sv_sessions v" "sv_retiring ?c = removeAll cid (sv_retiring v)" "sv_store ?c = sv_store v"
    "sv_closed ?c = (if cid \<in> set (sv_retiring v) then accumulate_send_accounting (sv_closed v) (session_totals v cid) else sv_closed v)"
    by (simp_all add: retire_session_def finish_cleanup_def absorb_session_def session_totals_def Let_def)
  show ?thesis
  proof (cases "cid \<in> set (sv_retiring v)")
    case True
    have r: "cid < sv_next_id v" "sv_origin v cid = sv_generation v" "cid \<notin> set (sv_sessions v)"
      using inv True by (auto simp: server_inv_def registry_ok_def)
    show ?thesis
      by (rule absorb_books [OF b, of cid]) (use r True f in \<open>auto simp: gone_iff run_clients_def\<close>)
  next
    case False
    with f have "undisturbed v ?c" by (intro undisturbed_same) simp_all
    from undisturbed_books [OF this b] show ?thesis .
  qed
qed

lemma cleanup_undisturbed:
  assumes "sv_retiring v = [] \<or> sv_cleanup_started v"
  shows "undisturbed v (perform_cleanup v)"
proof (cases "sv_cleanup_started v")
  case True
  then show ?thesis by (simp add: perform_cleanup_def undisturbed_def)
next
  case False
  with assms show ?thesis
    by (auto simp: undisturbed_def gone_iff perform_cleanup_def finish_cleanup_def update_sessions_def session_totals_def Let_def)
qed

lemma stop_undisturbed: "undisturbed v (server_stop v)"
  by (auto simp: undisturbed_def gone_iff server_stop_def update_sessions_def session_totals_def)

lemma register_undisturbed:
  assumes "server_inv cfg v"
  shows "undisturbed v (register_session g v)"
  using assms
  by (auto simp: undisturbed_def gone_iff register_session_def do_accept_def session_totals_def Let_def server_inv_def registry_ok_def
      less_Suc_eq)

lemma attempt_undisturbed: "undisturbed v (attempt_port_binding n env v)"
  by (rule undisturbed_same) (simp_all add: attempt_port_binding_def server_failed_def do_accept_def Let_def)

section \<open>Every step\<close>

lemma run_task_books:
  assumes inv: "server_inv cfg v" and p: "sv_tasks v = t # ts" and b: "closed_books v"
  shows "closed_books (run_server_task first env t (v\<lparr>sv_tasks := ts\<rparr>))"
proof -
  let ?v = "v\<lparr>sv_tasks := ts\<rparr>"
  have "undisturbed v ?v" by (rule undisturbed_same) simp_all
  note b1 = undisturbed_books [OF this b]
  note u = undisturbed_books [OF _ b1]
  show ?thesis
  proof (cases t)
    case (Bind_task g n)
    with b1 u [OF attempt_undisturbed] show ?thesis by (simp add: run_server_task_def)
  next
    case (Accept_task g r)
    have "undisturbed ?v (handle_accept g r ?v)"
      by (rule undisturbed_same) (simp_all add: handle_accept_def do_accept_def Let_def split: accept_result.split)
    with u Accept_task show ?thesis by (simp add: run_server_task_def)
  next
    case (Accept_again g)
    with b1 u [OF call_undisturbed(5)] show ?thesis by (simp add: run_server_task_def)
  next
    case (Close_task cid g)
    then have "server_inv cfg ?v" using pop_inv [OF inv p] by simp
    from close_session_books [OF this b1] Close_task show ?thesis by (simp add: run_server_task_def)
  next
    case (Connected_task cid g)
    have "undisturbed ?v (report_connected cid g ?v)" by (rule undisturbed_same) (simp_all add: report_connected_def)
    with u Connected_task show ?thesis by (simp add: run_server_task_def)
  next
    case Cleanup_task
    have "sv_retiring ?v = [] \<or> sv_cleanup_started ?v" using inv by (auto simp: server_inv_def shutdown_ok_def)
    from u [OF cleanup_undisturbed [OF this]] Cleanup_task show ?thesis by (simp add: run_server_task_def)
  next
    case (Retired_task cid)
    have r: "closed_books (retire_session cid v)" by (rule retire_session_books [OF inv b])
    have "undisturbed (retire_session cid v) (retire_session cid ?v)"
      by (rule undisturbed_same) (simp_all add: retire_session_def absorb_session_def finish_cleanup_def Let_def)
    from undisturbed_books [OF this r] Retired_task show ?thesis by (simp add: run_server_task_def)
  next
    case (Stop_task g)
    with b1 u [OF stop_undisturbed] show ?thesis by (simp add: run_server_task_def)
  qed
qed

lemma start_books:
  assumes inv: "server_inv cfg v" and b: "closed_books v"
  shows "closed_books (server_start tls_build loads v)"
proof (cases "sv_state v \<in> {LinkListening, LinkConnected, LinkConnecting}")
  case True
  with b show ?thesis by (simp add: server_start_def)
next
  case False
  let ?s = "server_start tls_build loads v"
  have f: "sv_generation ?s = sv_generation v + 1" "sv_next_id ?s = sv_next_id v" "sv_origin ?s = sv_origin v"
    "sv_closed ?s = no_accounting"
    using False by (simp_all add: server_start_def server_failed_def Let_def)
  have "gone ?s = {}" using inv by (auto simp: gone_iff f server_inv_def registry_ok_def)
  then show ?thesis by (simp add: closed_books_def f)
qed

lemma server_step_books:
  assumes inv: "server_inv cfg v" and thr: "0 < srv_backpressure_threshold cfg" and b: "closed_books v"
    and s: "server_step tls_build first e v = Some v'" and e: "e \<noteq> Reset_server_stats"
  shows "closed_books v'"
proof -
  note u = undisturbed_books [OF _ b]
  show ?thesis
  proof (cases e)
    case (Start_server loads)
    with s start_books [OF inv b] show ?thesis by (auto split: if_splits)
  next
    case (Run_task env)
    with s run_task_books [OF inv _ b] show ?thesis by (auto split: option.splits list.splits)
  next
    case Register_client
    with s u [OF register_undisturbed [OF inv]] show ?thesis by (auto split: option.splits)
  next
    case (Client_event cid a)
    let ?v = "if a = Fail_receive then v\<lparr>sv_failing := remove1 cid (sv_failing v)\<rparr> else v"
    from Client_event s have c: "session_environment a" "client_event cid a ?v = Some v'" by (auto split: if_splits)
    have i: "server_inv cfg ?v" using inv by simp
    have "undisturbed v ?v" by (rule undisturbed_same) simp_all
    from u [OF undisturbed_trans [OF this client_event_undisturbed [OF i thr c]]] show ?thesis .
  next
    case Stop_continues
    have "sv_retiring v = [] \<or> sv_cleanup_started v" using inv by (auto simp: server_inv_def shutdown_ok_def)
    then have "undisturbed v (stop_continue v)"
      by (auto simp: undisturbed_def gone_iff stop_continue_def perform_cleanup_def finish_cleanup_def update_sessions_def
          session_totals_def Let_def)
    with u Stop_continues s show ?thesis by (auto split: if_splits)
  next
    case (Set_on_backpressure h)
    have "undisturbed v (server_on_backpressure h v)"
      by (rule undisturbed_frame)
        (simp_all add: server_on_backpressure_def update_session_def set_callbacks_def session_totals_def Let_def split: option.split)
    with u Set_on_backpressure s show ?thesis by auto
  next
    case (Async_write w)
    with s have v': "v' = snd (server_async_write w v)" by simp
    show ?thesis unfolding v' by (rule u [OF sends_undisturbed [OF async_write_sends [OF inv]]])
  next
    case (Broadcast data)
    with s have v': "v' = snd (server_broadcast data v)" by simp
    show ?thesis unfolding v' by (rule u [OF sends_undisturbed [OF broadcast_sends]])
  next
    case (Broadcast_result data r nl)
    with s have v': "v' = snd (broadcast_result data r nl v)" by simp
    show ?thesis unfolding v' by (rule u [OF sends_undisturbed [OF broadcast_result_sends]])
  next
    case (Write_target cid p data t ex)
    with s have v': "v' = snd (write_target cid p data t ex v)" by simp
    show ?thesis unfolding v' by (rule u [OF sends_undisturbed [OF write_target_sends]])
  next
    case Stop_server
    with s u [OF stop_undisturbed] show ?thesis by simp
  next
    case Cancel_target_waits
    with s u [OF update_undisturbed, of "sv_sessions v" cancel_write_wait] show ?thesis by (simp add: cancel_target_waits_def)
  next
    case (Set_server_callback cb h)
    have "undisturbed v (server_set_callback cb h v)" by (rule undisturbed_same; cases cb) simp_all
    with u Set_server_callback s show ?thesis by simp
  next
    case (Set_client_limit m)
    have "undisturbed v (v\<lparr>sv_max_clients := m, sv_limit_enabled := (m \<noteq> 0)\<rparr>)" by (rule undisturbed_same) simp_all
    with u b Set_client_limit s show ?thesis by (auto simp: set_client_limit_def split: if_splits)
  next
    case Request_server_stop
    with s b u [OF call_undisturbed(2)] show ?thesis by (auto simp: server_request_stop_def split: if_splits)
  next
    case (Fail_client cid)
    have "undisturbed v (server_fail_receive cid v)"
      by (rule undisturbed_same) (simp_all add: server_fail_receive_def split: option.split)
    with u Fail_client s show ?thesis by simp
  next
    case (Timer_fires t)
    have "undisturbed v (post_server (timer_task t) (v\<lparr>sv_timers := remove1 t (sv_timers v)\<rparr>))" by (rule undisturbed_same) simp_all
    with u Timer_fires s show ?thesis by (auto split: if_splits)
  next
    case (Accept_completes g r)
    have "undisturbed v (post_server (Accept_task g r) (v\<lparr>sv_accepts := remove1 g (sv_accepts v)\<rparr>))" by (rule undisturbed_same) simp_all
    with u Accept_completes s show ?thesis by (auto split: if_splits)
  qed (use e in simp)
qed

lemma run_books:
  assumes set: "server_setting cfg first" and "run_steps (server_step tls_build first) es v0 = Some v"
    and "server_inv cfg v0" "closed_books v0" "Reset_server_stats \<notin> set es"
  shows "server_inv cfg v \<and> closed_books v"
  using assms(2-)
proof (induction es arbitrary: v0)
  case (Cons e es)
  from Cons.prems(1) obtain v1 where s: "server_step tls_build first e v0 = Some v1"
    and r: "run_steps (server_step tls_build first) es v1 = Some v" by (auto split: option.splits)
  have "server_inv cfg v1" using server_machine.step_inv [OF _ s] set Cons.prems(2) by blast
  moreover have "closed_books v1"
    using server_step_books [OF Cons.prems(2) _ Cons.prems(3) s] set Cons.prems(4) by (auto simp: server_setting_def)
  ultimately show ?case using Cons.IH [OF r] Cons.prems(4) by simp
qed simp

section \<open>What the server reports\<close>

lemma stats_accounting:
  "rs_send_accounting (server_stats now v)
     = Some (accumulate_send_accounting (sv_closed v) (accumulate_send_accounting (total_of v (sv_sessions v)) (total_of v (sv_retiring v))))"
proof -
  let ?acc = "\<lambda>cids t. fold (\<lambda>cid t. accumulate_send_accounting t (session_totals v cid)) cids t"
  have a: "rs_send_accounting (fold (\<lambda>cid. add_session_stats live (session_stats now (sv_store v cid))) cids r)
      = Some (?acc cids t)" if "rs_send_accounting r = Some t" for live cids r t
    using that
    by (induction cids arbitrary: r t) (auto simp: add_session_stats_def session_stats_def session_totals_def Let_def)
  have "rs_send_accounting (server_stats now v) = Some (?acc (sv_retiring v) (?acc (sv_sessions v) (sv_closed v)))"
    unfolding server_stats_def Let_def by (rule a, rule a) simp
  also have "\<dots> = Some (accumulate_send_accounting (accumulate_send_accounting (sv_closed v) (total_of v (sv_sessions v)))
      (total_of v (sv_retiring v)))"
    using total_from [of "session_totals v" "sv_sessions v" "sv_closed v"]
      total_from [of "session_totals v" "sv_retiring v" "?acc (sv_sessions v) (sv_closed v)"]
    by (simp add: total_of_def)
  finally show ?thesis by (simp add: accounts.assoc)
qed

lemma reported_total:
  assumes inv: "server_inv cfg v" and b: "closed_books v"
  shows "rs_send_accounting (server_stats now v) = Some (total_of v (run_clients v))"
proof -
  let ?R = "set (sv_sessions v) \<union> set (sv_retiring v)"
  have d: "distinct (sv_sessions v)" "distinct (sv_retiring v)" "set (sv_sessions v) \<inter> set (sv_retiring v) = {}"
    using inv by (auto simp: server_inv_def registry_ok_def)
  have r: "set (run_clients v) = gone v \<union> ?R"
    using inv by (auto simp: gone_def run_clients_def server_inv_def registry_ok_def)
  have "total_of v (run_clients v) = accounts.F (session_totals v) (gone v \<union> ?R)"
    by (simp add: total_of_set run_clients_def flip: r)
  also have "\<dots> = accumulate_send_accounting (accounts.F (session_totals v) (gone v)) (accounts.F (session_totals v) ?R)"
    by (rule accounts.union_disjoint) (auto simp: gone_def)
  also have "accounts.F (session_totals v) ?R = accumulate_send_accounting (total_of v (sv_sessions v)) (total_of v (sv_retiring v))"
    using d by (simp add: total_of_set accounts.union_disjoint)
  finally show ?thesis using b by (simp add: stats_accounting closed_books_def)
qed

lemma total_balanced:
  assumes "\<And>cid. cid \<in> set cids \<Longrightarrow> accepted (session_totals v cid) = accounted (session_totals v cid)"
  shows "accepted (total_of v cids) = accounted (total_of v cids)"
  using assms
proof (induction cids)
  case Nil
  show ?case by (simp add: total_of_def no_accounting_def accounted_def lost_def no_loss_def no_requests_def add_totals_def)
next
  case (Cons c cs)
  have "total_of v (c # cs) = accumulate_send_accounting (session_totals v c) (total_of v cs)"
    using total_from [of "session_totals v" cs "session_totals v c"] by (simp add: total_of_def accounts.left_neutral)
  with Cons show ?case
    by (simp add: accumulate_send_accounting_def accounted_def lost_def add_losses_def add_totals_def algebra_simps)
qed

lemma total_settled:
  assumes "\<And>cid. cid \<in> set cids \<Longrightarrow> outstanding (session_totals v cid) = no_requests"
  shows "outstanding (total_of v cids) = no_requests"
  using assms
proof (induction cids)
  case Nil
  show ?case by (simp add: total_of_def no_accounting_def)
next
  case (Cons c cs)
  have "total_of v (c # cs) = accumulate_send_accounting (session_totals v c) (total_of v cs)"
    using total_from [of "session_totals v" cs "session_totals v c"] by (simp add: total_of_def accounts.left_neutral)
  with Cons show ?case by (simp add: accumulate_send_accounting_def add_totals_def no_requests_def)
qed

lemma session_totals_balanced:
  assumes "server_inv cfg v" and "0 < srv_backpressure_threshold cfg"
  shows "accepted (session_totals v cid) = accounted (session_totals v cid)"
    and "closing (sv_store v cid) \<Longrightarrow> outstanding (session_totals v cid) = no_requests"
proof -
  have "sess_inv (sv_store v cid)" using assms session_ok_inv by (auto simp: server_inv_def sessions_ok_alt)
  then have "books_ok (sv_store v cid)" by (simp add: sess_inv_def)
  then show "accepted (session_totals v cid) = accounted (session_totals v cid)"
    and "closing (sv_store v cid) \<Longrightarrow> outstanding (session_totals v cid) = no_requests"
    by (auto simp: session_totals_def books_ok_def good_def books_def balanced_def totals_of_def no_requests_def)
qed

end
