(* ===== verification/Server_Callbacks.thy ===== *)
theory Server_Callbacks
  imports Server_Accounting
begin

text \<open>
  What the user of the server sees of one client: its connection, then its data, then its disconnection. The order
  follows from the sessions, whose start handler is the first on their strand, and from the checks of the server's callbacks.
\<close>

section \<open>Sessions\<close>

text \<open>Sessions of a running server close only through \<open>do_close\<close>, and not before they have announced their connection.\<close>

definition tidy :: "session \<Rightarrow> bool" where
  "tidy s \<longleftrightarrow> (closing s \<longrightarrow> cleanup_done s)
     \<and> (\<not> closing s \<and> connects s = 0 \<longrightarrow> alive s \<and> idle_deadline s = None \<and> (\<exists>hs. posted s = Start_posted # hs))"

lemma tidy_sends: "tidy s \<Longrightarrow> sends_only s s' \<Longrightarrow> tidy s'"
  by (auto simp: tidy_def sends_only_def)

lemma do_close_tidy: "tidy (do_close s)" if "cleanup_done s \<longrightarrow> closing s"
  using that by (simp add: tidy_def do_close_sel)

text \<open>Only \<open>do_close\<close> sets \<open>closing\<close> on the strand.\<close>

definition closes_cleanly :: "session \<Rightarrow> bool" where
  "closes_cleanly s \<longleftrightarrow> (closing s \<longrightarrow> cleanup_done s) \<and> (cleanup_done s \<longrightarrow> closing s)"

lemma closes_cleanly_frame [simp]:
  "closes_cleanly (s\<lparr>accounting := x1\<rparr>) = closes_cleanly s" "closes_cleanly (s\<lparr>stats := x2\<rparr>) = closes_cleanly s"
  "closes_cleanly (s\<lparr>tx := x3\<rparr>) = closes_cleanly s" "closes_cleanly (s\<lparr>pending := x3\<rparr>) = closes_cleanly s"
  "closes_cleanly (s\<lparr>batch := x3\<rparr>) = closes_cleanly s" "closes_cleanly (s\<lparr>queue_bytes := x4\<rparr>) = closes_cleanly s"
  "closes_cleanly (s\<lparr>pending_bytes := x4\<rparr>) = closes_cleanly s" "closes_cleanly (s\<lparr>inflight_bytes := x4\<rparr>) = closes_cleanly s"
  "closes_cleanly (s\<lparr>writing := x5\<rparr>) = closes_cleanly s" "closes_cleanly (s\<lparr>handshaking := x5\<rparr>) = closes_cleanly s"
  "closes_cleanly (s\<lparr>connects := x4\<rparr>) = closes_cleanly s" "closes_cleanly (s\<lparr>reading := x5\<rparr>) = closes_cleanly s"
  "closes_cleanly (s\<lparr>posted := x6\<rparr>) = closes_cleanly s" "closes_cleanly (s\<lparr>idle_deadline := x7\<rparr>) = closes_cleanly s"
  "closes_cleanly (session_observe s) = closes_cleanly s" "closes_cleanly (end_wait r s) = closes_cleanly s"
  "closes_cleanly (s\<lparr>has_on_bytes := x5\<rparr>) = closes_cleanly s" "closes_cleanly (s\<lparr>has_on_bp := x5\<rparr>) = closes_cleanly s"
  "closes_cleanly (s\<lparr>has_on_close := x5\<rparr>) = closes_cleanly s" "closes_cleanly (reset_idle_timer s) = closes_cleanly s"
  "closes_cleanly (start_read s) = closes_cleanly s" "closes_cleanly (s\<lparr>clock := x8\<rparr>) = closes_cleanly s"
  "closes_cleanly (s\<lparr>io := x9\<rparr>) = closes_cleanly s" "closes_cleanly (s\<lparr>wire := x3\<rparr>) = closes_cleanly s"
  by (simp_all add: closes_cleanly_def session_observe_def end_wait_def reset_idle_timer_def start_read_def)

lemma closes_cleanly_close: "closes_cleanly (do_close s)" if "cleanup_done s \<longrightarrow> closing s"
  using that by (simp add: closes_cleanly_def do_close_sel)

lemma closes_cleanly_imp: "closes_cleanly s \<Longrightarrow> cleanup_done s \<longrightarrow> closing s"
  by (simp add: closes_cleanly_def)

lemma closes_cleanly_write: "closes_cleanly s \<Longrightarrow> closes_cleanly (do_write t s)"
  by (auto simp: do_write_def Let_def intro!: closes_cleanly_close split: prod.split)

lemma closes_cleanly_report: "closes_cleanly s \<Longrightarrow> closes_cleanly (session_report t q s)"
proof -
  obtain s' kick where m: "report_mid q s = (s', kick)" by fastforce
  assume c: "closes_cleanly s"
  with report_mid_sel [OF m] have "closes_cleanly s'" by (simp add: closes_cleanly_def)
  with c show ?thesis by (auto simp: session_report_mid m intro: closes_cleanly_write)
qed

lemma closes_cleanly_handler: "closes_cleanly s \<Longrightarrow> closes_cleanly (run_handler t h s)"
  by (cases h) (auto simp: run_handler_def route_enqueued_buffer_def release_reserved_limit_bytes_def
      release_reserved_write_bytes_def commit_to_queue_def commit_to_pending_def Let_def
      intro!: closes_cleanly_close closes_cleanly_write closes_cleanly_report dest: closes_cleanly_imp split: enqueue_decision.split)

lemma closes_cleanly_environment:
  assumes c: "closes_cleanly s" and a: "session_environment a" and st: "sess_step a s = Some s'"
  shows "closes_cleanly s'"
  using a st c
  by (cases rule: session_environmentE)
    (auto simp: read_done_def idle_expired_def Let_def intro!: closes_cleanly_handler closes_cleanly_close
      dest: closes_cleanly_imp split: list.splits option.splits if_splits)

lemma connects_mono:
  assumes a: "session_environment a" and st: "sess_step a s = Some s'"
  shows "connects s \<le> connects s'"
  using a
proof (cases rule: session_environmentE)
  case (strand t)
  with st obtain h hs where p: "s' = run_handler t h (s\<lparr>posted := hs\<rparr>)" by (auto split: list.splits)
  show ?thesis
  proof (cases "h = Start_posted")
    case True
    with p show ?thesis by (simp add: run_handler_def reset_idle_timer_def)
  next
    case False
    with p run_handler_notify(1) [OF False, of t "s\<lparr>posted := hs\<rparr>"] show ?thesis by simp
  qed
qed (use st connects_steps in \<open>auto split: option.splits if_splits\<close>)

lemma tidy_environment:
  assumes inv: "sess_inv s" and an: "announced s" and t: "tidy s" and a: "session_environment a" and st: "sess_step a s = Some s'"
  shows "tidy s'" and "close_calls s' > close_calls s \<Longrightarrow> connects s = 1"
proof -
  have e: "evolves s s'" using st by (rule sess_step_evolves)
  have cc: "closes_cleanly s" using t inv by (simp add: closes_cleanly_def tidy_def sess_inv_def)
  then have c': "closes_cleanly s'" using closes_cleanly_environment a st by blast
  have early: "(connects s' = 0 \<longrightarrow> \<not> closing s' \<and> alive s' \<and> idle_deadline s' = None \<and> (\<exists>hs. posted s' = Start_posted # hs))
      \<and> close_calls s' = close_calls s" if o: "\<not> closing s" "connects s = 0"
  proof -
    have w: "alive s" "idle_deadline s = None" and "\<exists>hs. posted s = Start_posted # hs" using t o by (simp_all add: tidy_def)
    then obtain hs where p: "posted s = Start_posted # hs" by blast
    have r: "\<not> reading s" using an o by (simp add: announced_def)
    show ?thesis
      using a st o w p r
      by (cases rule: session_environmentE)
        (auto simp: run_handler_def idle_expired_def reset_idle_timer_def split: option.splits if_splits)
  qed
  have "connects s' = 0 \<Longrightarrow> connects s = 0" using connects_mono [OF a st] by simp
  then show "tidy s'" using c' e early by (auto simp: tidy_def closes_cleanly_def evolves_def)
  show "close_calls s' > close_calls s \<Longrightarrow> connects s = 1"
  proof -
    assume "close_calls s' > close_calls s"
    then have "\<not> cleanup_done s" using e by (auto simp: evolves_def split: if_splits)
    then have "\<not> closing s" using t by (simp add: tidy_def)
    with early \<open>close_calls s' > close_calls s\<close> have "connects s \<noteq> 0" by auto
    with an show ?thesis by (simp add: announced_def)
  qed
qed

section \<open>The calls for one client\<close>

fun concerns :: "nat \<Rightarrow> server_call \<Rightarrow> bool" where
  "concerns cid (Call_connect c) \<longleftrightarrow> c = cid"
| "concerns cid (Call_data c n) \<longleftrightarrow> c = cid"
| "concerns cid (Call_disconnect c) \<longleftrightarrow> c = cid"
| "concerns cid (Call_state st) \<longleftrightarrow> False"
| "concerns cid (Call_bytes n) \<longleftrightarrow> False"

definition calls_of :: "nat \<Rightarrow> tcp_server \<Rightarrow> server_call list" where
  "calls_of cid v = filter (concerns cid) (sv_log v)"

fun is_data :: "server_call \<Rightarrow> bool" where
  "is_data (Call_data c n) \<longleftrightarrow> True"
| "is_data _ \<longleftrightarrow> False"

text \<open>
  The calls so far of a session that has announced itself \<open>n\<close> times and closed \<open>k\<close> times; \<open>cb\<close>: a connect handler was
  registered for it; \<open>live\<close>: it belongs to a running server.
\<close>

definition story :: "nat \<Rightarrow> server_call list \<Rightarrow> bool \<Rightarrow> nat \<Rightarrow> nat \<Rightarrow> bool \<Rightarrow> bool" where
  "story cid l cb n k live \<longleftrightarrow>
     (\<exists>cs ds es. l = cs @ ds @ es \<and> cs \<in> {[], [Call_connect cid]} \<and> list_all is_data ds \<and> es \<in> {[], [Call_disconnect cid]}
        \<and> (n = 0 \<longrightarrow> cs = [] \<and> ds = []) \<and> (es \<noteq> [] \<longrightarrow> k > 0 \<and> (cb \<longrightarrow> cs \<noteq> []))
        \<and> (n > 0 \<and> live \<and> cb \<longrightarrow> cs \<noteq> []))"

lemma story_empty: "story cid [] cb 0 k live"
  by (simp add: story_def)

lemma story_initial: "story cid l cb 0 0 live \<Longrightarrow> l = []"
  by (auto simp: story_def)

lemma story_later:
  assumes "story cid l cb n k live" and "k \<le> k'" and "live' \<longrightarrow> live"
  shows "story cid l cb n k' live'"
proof -
  from assms(1) obtain cs ds es where f: "l = cs @ ds @ es" "cs \<in> {[], [Call_connect cid]}" "list_all is_data ds"
    "es \<in> {[], [Call_disconnect cid]}" "n = 0 \<longrightarrow> cs = [] \<and> ds = []" "es \<noteq> [] \<longrightarrow> k > 0 \<and> (cb \<longrightarrow> cs \<noteq> [])"
    "n > 0 \<and> live \<and> cb \<longrightarrow> cs \<noteq> []"
    unfolding story_def by blast
  have "es \<noteq> [] \<longrightarrow> k' > 0 \<and> (cb \<longrightarrow> cs \<noteq> [])" using f(6) less_le_trans [OF _ assms(2)] by blast
  moreover have "n > 0 \<and> live' \<and> cb \<longrightarrow> cs \<noteq> []" using f(7) assms(3) by blast
  ultimately show ?thesis using f(1-5) unfolding story_def by blast
qed

lemma story_data:
  assumes "story cid l cb n 0 live" and "n > 0"
  shows "story cid (l @ [Call_data cid m]) cb n 0 live"
proof -
  from assms obtain cs ds where "l = cs @ ds" "cs \<in> {[], [Call_connect cid]}" "list_all is_data ds" "live \<and> cb \<longrightarrow> cs \<noteq> []"
    by (auto simp: story_def)
  with assms(2) show ?thesis
    unfolding story_def by (intro exI [of _ cs] exI [of _ "ds @ [Call_data cid m]"] exI [of _ "[]"]) simp
qed

lemma story_connect:
  assumes "story cid l cb 0 0 live0"
  shows "story cid (l @ (if live \<and> cb then [Call_connect cid] else [])) cb 1 0 live"
proof (cases "live \<and> cb")
  case True
  with story_initial [OF assms] show ?thesis
    unfolding story_def by (intro exI [of _ "[Call_connect cid]"] exI [of _ "[]"]) simp
next
  case False
  with story_initial [OF assms] show ?thesis unfolding story_def by (intro exI [of _ "[]"]) auto
qed

lemma story_close:
  assumes "story cid l cb 1 0 live"
  shows "story cid (l @ (if live \<and> h then [Call_disconnect cid] else [])) cb 1 1 live"
proof (cases "live \<and> h")
  case True
  from assms obtain cs ds where l: "l = cs @ ds" "cs \<in> {[], [Call_connect cid]}" "list_all is_data ds" "live \<and> cb \<longrightarrow> cs \<noteq> []"
    by (auto simp: story_def)
  with True show ?thesis
    unfolding story_def by (intro exI [of _ cs] exI [of _ ds] exI [of _ "[Call_disconnect cid]"]) simp
next
  case False
  then have "l @ (if live \<and> h then [Call_disconnect cid] else []) = l" by auto
  with story_later [OF assms, of 1 live] show ?thesis by simp
qed

section \<open>Invariant\<close>

definition live_client :: "tcp_server \<Rightarrow> nat \<Rightarrow> bool" where
  "live_client v cid \<longleftrightarrow> \<not> sv_stopping v \<and> cid < sv_next_id v \<and> sv_origin v cid = sv_generation v"

definition client_story :: "tcp_server \<Rightarrow> nat \<Rightarrow> bool" where
  "client_story v cid \<longleftrightarrow>
     story cid (calls_of cid v) (sv_connect_cb v cid) (connects (sv_store v cid)) (close_calls (sv_store v cid)) (live_client v cid)
     \<and> (live_client v cid \<longrightarrow> tidy (sv_store v cid))"

lemma calls_of_quiet [simp]:
  "calls_of cid (call_user r (Call_state st) v) = calls_of cid v" "calls_of cid (call_user r (Call_bytes n) v) = calls_of cid v"
  "calls_of cid (server_notify_state v) = calls_of cid v" "calls_of cid (post_server t v) = calls_of cid v"
  by (simp_all add: calls_of_def call_user_def server_notify_state_def post_server_def)

text \<open>Steps in which no session announces itself or closes.\<close>

lemma calm_story:
  assumes "client_story v cid" and "calls_of cid v' = calls_of cid v" "sv_connect_cb v' cid = sv_connect_cb v cid"
    "connects (sv_store v' cid) = connects (sv_store v cid)" "close_calls (sv_store v' cid) = close_calls (sv_store v cid)"
    "live_client v' cid \<Longrightarrow> live_client v cid" "live_client v' cid \<Longrightarrow> tidy (sv_store v cid) \<Longrightarrow> tidy (sv_store v' cid)"
  shows "client_story v' cid"
  using assms story_later [of cid "calls_of cid v" "sv_connect_cb v cid" "connects (sv_store v cid)" "close_calls (sv_store v cid)"
      "live_client v cid" "close_calls (sv_store v cid)" "live_client v' cid"]
  by (auto simp: client_story_def)

lemma quiet_story:
  assumes "client_story v cid" and "calls_of cid v' = calls_of cid v" "sv_connect_cb v' = sv_connect_cb v" "sv_store v' = sv_store v"
    "sv_origin v' = sv_origin v" "sv_next_id v' = sv_next_id v" "sv_generation v' = sv_generation v" "sv_stopping v' = sv_stopping v"
  shows "client_story v' cid"
  by (rule calm_story [OF assms(1)]) (use assms in \<open>simp_all add: live_client_def\<close>)

lemma sends_story: "sends v v' \<Longrightarrow> client_story v cid \<Longrightarrow> client_story v' cid"
proof (induction rule: sends.induct)
  case (sends_write v v' c w)
  let ?s = "snd (session_write (srv_enable_memory_pool (sv_cfg v')) w (sv_store v' c))"
  have o: "sends_only (sv_store v' c) ?s" by (rule session_write_sends)
  show ?case
    by (rule calm_story [OF sends_write.IH [OF sends_write.prems]])
      (use o tidy_sends [OF _ o] in \<open>auto simp: write_to_session_store calls_of_def live_client_def sends_only_def\<close>)
next
  case (sends_failed v v')
  then have "client_story v' cid" by simp
  then show ?case by (rule quiet_story) (simp_all add: server_failed_send_def calls_of_def)
qed simp

text \<open>The calls of one step of a session.\<close>

lemma calls_of_user: "calls_of cid (call_user r c v) = calls_of cid v @ (if r \<and> concerns cid c then [c] else [])"
  by (simp add: calls_of_def call_user_def)

lemma call_user_handlers [simp]:
  "sv_stopping (call_user r c v) = sv_stopping v" "sv_on_data (call_user r c v) = sv_on_data v"
  "sv_on_disconnect (call_user r c v) = sv_on_disconnect v" "sv_connect_cb (call_user r c v) = sv_connect_cb v"
  by (simp_all add: call_user_def)

lemma post_server_handlers [simp]:
  "sv_stopping (post_server t v) = sv_stopping v" "sv_on_data (post_server t v) = sv_on_data v"
  "sv_on_disconnect (post_server t v) = sv_on_disconnect v" "sv_connect_cb (post_server t v) = sv_connect_cb v"
  by (simp_all add: post_server_def)

lemma client_bytes_handlers [simp]:
  "sv_stopping (client_bytes cid n v) = sv_stopping v" "sv_on_data (client_bytes cid n v) = sv_on_data v"
  "sv_on_disconnect (client_bytes cid n v) = sv_on_disconnect v" "sv_connect_cb (client_bytes cid n v) = sv_connect_cb v"
  by (simp_all add: client_bytes_def)

lemma client_connected_handlers [simp]:
  "sv_stopping (client_connected cid v) = sv_stopping v" "sv_on_data (client_connected cid v) = sv_on_data v"
  "sv_on_disconnect (client_connected cid v) = sv_on_disconnect v" "sv_connect_cb (client_connected cid v) = sv_connect_cb v"
  by (simp_all add: client_connected_def)

lemma client_closed_handlers [simp]:
  "sv_stopping (client_closed cid v) = sv_stopping v" "sv_on_data (client_closed cid v) = sv_on_data v"
  "sv_on_disconnect (client_closed cid v) = sv_on_disconnect v" "sv_connect_cb (client_closed cid v) = sv_connect_cb v"
  by (simp_all add: client_closed_def)

lemma calls_of_steps:
  "calls_of cid (client_bytes c n v) = calls_of cid v @ (if sv_on_data v \<and> c = cid then [Call_data c n] else [])"
  "calls_of cid (client_connected c v) = calls_of cid v
     @ (if \<not> sv_stopping v \<and> sv_generation v = sv_origin v c \<and> sv_connect_cb v c \<and> c = cid then [Call_connect c] else [])"
  "calls_of cid (client_closed c v) = calls_of cid v
     @ (if \<not> sv_stopping v \<and> sv_generation v = sv_origin v c \<and> sv_on_disconnect v \<and> c = cid then [Call_disconnect c] else [])"
  by (auto simp: client_bytes_def client_connected_def client_closed_def calls_of_user)

lemma calls_of_store [simp]: "calls_of cid (v\<lparr>sv_store := x\<rparr>) = calls_of cid v"
  by (simp add: calls_of_def)

definition step_calls :: "tcp_server \<Rightarrow> nat \<Rightarrow> session_action \<Rightarrow> session \<Rightarrow> server_call list" where
  "step_calls v c a s' =
     (case delivers_bytes a (sv_store v c) of Some n \<Rightarrow> if sv_on_data v then [Call_data c n] else [] | None \<Rightarrow> [])
     @ (if connects s' > connects (sv_store v c) \<and> live_client v c \<and> sv_connect_cb v c then [Call_connect c] else [])
     @ (if close_calls s' > close_calls (sv_store v c) \<and> live_client v c \<and> sv_on_disconnect v then [Call_disconnect c] else [])"

lemma client_event_calls:
  assumes known: "c < sv_next_id v" and e: "client_event c a v = Some v'" and s: "sess_step a (sv_store v c) = Some s'"
  shows "sv_store v' = (sv_store v)(c := s')" "sv_connect_cb v' = sv_connect_cb v" "live_client v' = live_client v"
    "calls_of cid v' = calls_of cid v @ (if c = cid then step_calls v c a s' else [])"
proof -
  define v1 where "v1 = v\<lparr>sv_store := (sv_store v)(c := s')\<rparr>"
  define v2 where "v2 = (case delivers_bytes a (sv_store v c) of None \<Rightarrow> v1 | Some n \<Rightarrow> client_bytes c n v1)"
  define v3 where "v3 = (if connects s' > connects (sv_store v c) then client_connected c v2 else v2)"
  define v4 where "v4 = (if close_calls s' > close_calls (sv_store v c) then client_closed c v3 else v3)"
  have v': "v' = (if completes_stop a (sv_store v c) then post_server (Retired_task c) v4 else v4)"
    using e s unfolding v4_def v3_def v2_def v1_def client_event_def Let_def by (simp split del: if_split)
  have f2: "sv_store v2 = (sv_store v)(c := s')" "sv_connect_cb v2 = sv_connect_cb v" "live_client v2 = live_client v"
    "sv_stopping v2 = sv_stopping v" "sv_generation v2 = sv_generation v" "sv_origin v2 = sv_origin v"
    "sv_on_disconnect v2 = sv_on_disconnect v"
    by (simp_all add: v2_def v1_def live_client_def fun_eq_iff split: option.split)
  have f3: "sv_store v3 = (sv_store v)(c := s')" "sv_connect_cb v3 = sv_connect_cb v" "live_client v3 = live_client v"
    "sv_stopping v3 = sv_stopping v" "sv_generation v3 = sv_generation v" "sv_origin v3 = sv_origin v"
    "sv_on_disconnect v3 = sv_on_disconnect v"
    using f2 by (simp_all add: v3_def live_client_def fun_eq_iff)
  show "sv_store v' = (sv_store v)(c := s')" "sv_connect_cb v' = sv_connect_cb v" "live_client v' = live_client v"
    using f3 by (simp_all add: v' v4_def live_client_def fun_eq_iff)
  have l: "\<not> sv_stopping v \<and> sv_generation v = sv_origin v c \<longleftrightarrow> live_client v c" using known by (auto simp: live_client_def)
  have "calls_of cid v2 = calls_of cid v @ (if c = cid then
      case delivers_bytes a (sv_store v c) of Some n \<Rightarrow> if sv_on_data v then [Call_data c n] else [] | None \<Rightarrow> [] else [])"
    by (simp add: v2_def v1_def calls_of_steps split: option.split)
  moreover have "calls_of cid v3 = calls_of cid v2 @ (if c = cid \<and> connects s' > connects (sv_store v c) \<and> live_client v c
      \<and> sv_connect_cb v c then [Call_connect c] else [])"
    using l by (auto simp: v3_def calls_of_steps f2)
  moreover have "calls_of cid v' = calls_of cid v3 @ (if c = cid \<and> close_calls s' > close_calls (sv_store v c) \<and> live_client v c
      \<and> sv_on_disconnect v then [Call_disconnect c] else [])"
    using l by (auto simp: v' v4_def calls_of_steps f3)
  ultimately show "calls_of cid v' = calls_of cid v @ (if c = cid then step_calls v c a s' else [])"
    by (cases "c = cid"; hypsubst?) (simp_all add: step_calls_def)
qed

lemma step_story:
  assumes ok: "sess_inv s" "announced s" "announced s'" "close_calls s \<le> (if cleanup_done s then 1 else 0)" and s: "s = sv_store v c"
    and a: "session_environment a" and st: "sess_step a s = Some s'" and live: "live_client v c \<longrightarrow> tidy s"
    and story: "story c l (sv_connect_cb v c) (connects s) (close_calls s) (live_client v c)"
  shows "story c (l @ step_calls v c a s') (sv_connect_cb v c) (connects s') (close_calls s') (live_client v c)"
proof -
  have e: "evolves s s'" using st by (rule sess_step_evolves)
  have up: "close_calls s \<le> close_calls s'" using e by (simp add: evolves_def)
  have closed: "close_calls s' > close_calls s \<Longrightarrow> close_calls s = 0 \<and> close_calls s' = 1"
    using e ok(4) by (auto simp: evolves_def split: if_splits)
  consider (data) n where "delivers_bytes a s = Some n" | (up) "delivers_bytes a s = None" "connects s' > connects s"
    | (same) "delivers_bytes a s = None" "connects s' = connects s"
    using connects_mono [OF a st] by fastforce
  then show ?thesis
  proof cases
    case data
    then have o: "reading s" "\<not> closing s" "connects s' = connects s" using delivers_open st by blast+
    have cc: "close_calls s' = close_calls s"
      using data st by (auto simp: delivers_bytes_def read_done_def Let_def split: session_action.splits if_splits)
    have "connects s = 1" "close_calls s = 0" using ok(2) o by (auto simp: announced_def)
    with story_data [of c l _ 1 _ n] story data o cc show ?thesis by (simp add: step_calls_def s)
  next
    case up
    have o: "\<not> closing s" "connects s' = connects s + 1" using connects_step [OF a st up(2)] by simp_all
    then have n: "connects s = 0" "close_calls s = 0" using ok(2,3) by (auto simp: announced_def)
    have k: "close_calls s' = 0" if "live_client v c"
      using tidy_environment(2) [OF ok(1,2) _ a st] live that n \<open>close_calls s \<le> close_calls s'\<close> by fastforce
    from story n have "story c l (sv_connect_cb v c) 0 0 (live_client v c)" by simp
    note story_connect [OF this, of "live_client v c"]
    with story_later [OF this, of "close_calls s'" "live_client v c"] up o n k show ?thesis
      by (cases "live_client v c") (simp_all add: step_calls_def s)
  next
    case same
    show ?thesis
    proof (cases "close_calls s' > close_calls s \<and> live_client v c")
      case True
      then have "connects s = 1" using tidy_environment(2) [OF ok(1,2) _ a st] live by blast
      with story_close [of c l _ "live_client v c" "sv_on_disconnect v"] story same closed True show ?thesis
        by (simp add: step_calls_def s)
    next
      case False
      with story_later [OF story up, of "live_client v c"] same show ?thesis by (auto simp: step_calls_def s)
    qed
  qed
qed

lemma client_event_story:
  assumes inv: "server_inv cfg v" and thr: "0 < srv_backpressure_threshold cfg" and known: "c < sv_next_id v"
    and a: "session_environment a" and e: "client_event c a v = Some v'" and st: "client_story v cid"
  shows "client_story v' cid"
proof -
  let ?s = "sv_store v c"
  from e obtain s' where s: "sess_step a ?s = Some s'" by (auto simp: client_event_def Let_def split: option.splits)
  note f = client_event_calls [OF known e s]
  have ok: "sess_inv ?s" "announced ?s" "session_ok cfg ?s"
    using inv thr session_ok_inv by (auto simp: server_inv_def sessions_ok_alt session_ok_def)
  have an: "announced s'" using announced_environment [OF ok(1,2) a s] .
  have cc: "close_calls ?s \<le> (if cleanup_done ?s then 1 else 0)"
    using ok(3) unfolding session_ok_def new_client_session_def by (blast intro: sess_reachable_closed(1))
  show ?thesis
  proof (cases "c = cid")
    case False
    then show ?thesis by (intro calm_story [OF st]) (simp_all add: f)
  next
    case True
    have t: "live_client v c \<longrightarrow> tidy ?s"
      and l: "story c (calls_of c v) (sv_connect_cb v c) (connects ?s) (close_calls ?s) (live_client v c)"
      using st True by (simp_all add: client_story_def)
    have "tidy s'" if "live_client v c" using tidy_environment(1) [OF ok(1,2) _ a s] t that by blast
    with step_story [OF ok(1,2) an cc refl a s t l] True show ?thesis by (simp add: client_story_def f)
  qed
qed

section \<open>Every step\<close>

lemma calls_of_frame [simp]:
  "calls_of cid (v\<lparr>sv_state := x0\<rparr>) = calls_of cid v" "calls_of cid (v\<lparr>sv_errors := x1\<rparr>) = calls_of cid v"
  "calls_of cid (v\<lparr>sv_acceptor_open := x2\<rparr>) = calls_of cid v" "calls_of cid (v\<lparr>sv_timers := x3\<rparr>) = calls_of cid v"
  "calls_of cid (v\<lparr>sv_accepts := x4\<rparr>) = calls_of cid v" "calls_of cid (v\<lparr>sv_stats := x5\<rparr>) = calls_of cid v"
  "calls_of cid (v\<lparr>sv_closed := x6\<rparr>) = calls_of cid v" "calls_of cid (v\<lparr>sv_sessions := x7\<rparr>) = calls_of cid v"
  "calls_of cid (v\<lparr>sv_retiring := x8\<rparr>) = calls_of cid v" "calls_of cid (v\<lparr>sv_current := x9\<rparr>) = calls_of cid v"
  "calls_of cid (v\<lparr>sv_remaining := x10\<rparr>) = calls_of cid v" "calls_of cid (v\<lparr>sv_cleanup_done := x11\<rparr>) = calls_of cid v"
  "calls_of cid (v\<lparr>sv_cleanup_started := x12\<rparr>) = calls_of cid v" "calls_of cid (v\<lparr>sv_generation := x13\<rparr>) = calls_of cid v"
  "calls_of cid (v\<lparr>sv_run_dispatched := x14\<rparr>) = calls_of cid v" "calls_of cid (v\<lparr>sv_stopping := x15\<rparr>) = calls_of cid v"
  "calls_of cid (v\<lparr>sv_tasks := x16\<rparr>) = calls_of cid v"
  by (simp_all add: calls_of_def)

lemma stopping_story: "client_story v cid \<Longrightarrow> client_story (server_stop v) cid"
  by (erule calm_story) (auto simp: server_stop_def update_sessions_def request_stop_def end_wait_def calls_of_def live_client_def
      split: if_splits)

lemma cleanup_story:
  assumes st: "client_story v cid" and s: "sv_stopping v"
  shows "client_story (perform_cleanup v) cid"
proof -
  let ?c = "perform_cleanup v"
  have "sv_stopping ?c" "calls_of cid ?c = calls_of cid v" "sv_connect_cb ?c = sv_connect_cb v"
    using s by (simp_all add: perform_cleanup_def finish_cleanup_def update_sessions_def calls_of_def Let_def)
  moreover have "connects (async_stop x) = connects x" "close_calls (async_stop x) = close_calls x" for x
    by (simp_all add: async_stop_def Let_def)
  then have "connects (sv_store ?c cid) = connects (sv_store v cid)" "close_calls (sv_store ?c cid) = close_calls (sv_store v cid)"
    by (simp_all add: perform_cleanup_def finish_cleanup_def update_sessions_def Let_def)
  ultimately show ?thesis by (intro calm_story [OF st]) (simp_all add: live_client_def)
qed

lemma update_story:
  assumes "client_story v cid" and "\<And>s. connects (f s) = connects s" "\<And>s. close_calls (f s) = close_calls s" "\<And>s. tidy s \<Longrightarrow> tidy (f s)"
  shows "client_story (update_sessions cids f v) cid"
  by (rule calm_story [OF assms(1)]) (use assms(2-) in \<open>simp_all add: update_sessions_def calls_of_def live_client_def\<close>)

lemma run_task_story:
  assumes inv: "server_inv cfg v" and p: "sv_tasks v = t # ts" and st: "client_story v cid"
  shows "client_story (run_server_task first env t (v\<lparr>sv_tasks := ts\<rparr>)) cid"
proof -
  let ?v = "v\<lparr>sv_tasks := ts\<rparr>"
  have b: "client_story ?v cid" using st by (rule quiet_story) (simp_all add: calls_of_def)
  show ?thesis
  proof (cases t)
    case (Bind_task g n)
    have "client_story (attempt_port_binding n env ?v) cid"
      by (rule quiet_story [OF b]) (simp_all add: attempt_port_binding_def server_failed_def do_accept_def Let_def)
    with b Bind_task show ?thesis by (simp add: run_server_task_def)
  next
    case (Accept_task g r)
    have "client_story (handle_accept g r ?v) cid"
      by (rule quiet_story [OF b]) (simp_all add: handle_accept_def do_accept_def calls_of_def Let_def split: accept_result.split)
    with Accept_task show ?thesis by (simp add: run_server_task_def)
  next
    case (Accept_again g)
    have "client_story (do_accept ?v) cid" by (rule quiet_story [OF b]) (simp_all add: do_accept_def calls_of_def)
    with b Accept_again show ?thesis by (simp add: run_server_task_def)
  next
    case (Close_task c g)
    have "client_story (close_session first c g ?v) cid"
      by (rule quiet_story [OF b]) (simp_all add: close_session_def absorb_session_def Let_def)
    with Close_task show ?thesis by (simp add: run_server_task_def)
  next
    case (Connected_task c g)
    have "client_story (report_connected c g ?v) cid"
      by (rule quiet_story [OF b]) (simp_all add: report_connected_def)
    with Connected_task show ?thesis by (simp add: run_server_task_def)
  next
    case Cleanup_task
    with inv p have "sv_stopping ?v" by (auto simp: server_inv_def shutdown_ok_def split: if_splits)
    with cleanup_story [OF b] Cleanup_task show ?thesis by (simp add: run_server_task_def)
  next
    case (Retired_task c)
    have "client_story (retire_session c ?v) cid"
      by (rule quiet_story [OF b]) (simp_all add: retire_session_def absorb_session_def finish_cleanup_def Let_def)
    with Retired_task show ?thesis by (simp add: run_server_task_def)
  next
    case (Stop_task g)
    with b stopping_story [OF b] show ?thesis by (simp add: run_server_task_def)
  qed
qed

lemma register_story:
  assumes inv: "server_inv cfg v" and st: "client_story v cid"
  shows "client_story (register_session g v) cid"
proof (cases "cid = sv_next_id v")
  case True
  have "sv_store v cid = new_client_session (sv_cfg v)" using inv True by (simp add: server_inv_def registry_ok_def)
  then have "calls_of cid v = []"
    using st story_initial by (auto simp: client_story_def new_client_session_def new_session_def Let_def)
  with True show ?thesis
    by (simp add: client_story_def register_session_def do_accept_def start_session_def set_callbacks_def new_client_session_def
        new_session_def calls_of_def story_empty tidy_def Let_def)
next
  case False
  with st show ?thesis
    by (intro calm_story [OF st])
      (auto simp: register_session_def do_accept_def calls_of_def live_client_def Let_def split: if_splits)
qed

lemma start_story:
  assumes inv: "server_inv cfg v" and st: "client_story v cid"
  shows "client_story (server_start tls_build loads v) cid"
proof (cases "sv_state v \<in> {LinkListening, LinkConnected, LinkConnecting}")
  case True
  with st show ?thesis by (simp add: server_start_def)
next
  case False
  let ?s = "server_start tls_build loads v"
  have f: "sv_store ?s = sv_store v" "sv_connect_cb ?s = sv_connect_cb v" "calls_of cid ?s = calls_of cid v"
    "sv_generation ?s = sv_generation v + 1" "sv_next_id ?s = sv_next_id v" "sv_origin ?s = sv_origin v"
    using False by (simp_all add: server_start_def server_failed_def Let_def)
  have "\<not> live_client ?s cid" using inv by (auto simp: live_client_def f server_inv_def registry_ok_def)
  with f show ?thesis by (intro calm_story [OF st]) simp_all
qed

lemma server_step_story:
  assumes inv: "server_inv cfg v" and thr: "0 < srv_backpressure_threshold cfg" and st: "client_story v cid"
    and s: "server_step tls_build first e v = Some v'"
  shows "client_story v' cid"
proof -
  note q = quiet_story [OF st]
  show ?thesis
  proof (cases e)
    case (Start_server loads)
    with s start_story [OF inv st] show ?thesis by (auto split: if_splits)
  next
    case (Run_task env)
    with s run_task_story [OF inv _ st] show ?thesis by (auto split: option.splits list.splits)
  next
    case Register_client
    with s register_story [OF inv st] show ?thesis by (auto split: option.splits)
  next
    case (Client_event c a)
    let ?v = "if a = Fail_receive then v\<lparr>sv_failing := remove1 c (sv_failing v)\<rparr> else v"
    from Client_event s have c: "c < sv_next_id v" "session_environment a" "client_event c a ?v = Some v'" by (auto split: if_splits)
    have i: "server_inv cfg ?v" "c < sv_next_id ?v" using inv c by simp_all
    have "client_story ?v cid" by (rule q) (simp_all add: calls_of_def)
    from client_event_story [OF i(1) thr i(2) c(2,3) this] show ?thesis .
  next
    case Stop_continues
    with s have c: "sv_clearing v" "v' = stop_continue v" by (auto split: if_splits)
    let ?w = "v\<lparr>sv_clearing := False, sv_on_bytes := False, sv_on_state := False, sv_on_bp := False, sv_on_connect := False,
                 sv_on_data := False, sv_on_disconnect := False\<rparr>"
    have w: "client_story ?w cid" by (rule q) (simp_all add: calls_of_def)
    have "sv_stopping ?w" using inv c by (auto simp: server_inv_def shutdown_ok_def split: if_splits)
    note cw = cleanup_story [OF w this]
    have "client_story (post_server Cleanup_task ?w) cid" by (rule quiet_story [OF w]) (simp_all add: post_server_def)
    with cw show ?thesis by (simp add: c stop_continue_def Let_def)
  next
    case (Set_on_backpressure h)
    have "client_story (server_on_backpressure h v) cid"
      by (rule calm_story [OF st])
        (simp_all add: server_on_backpressure_def update_session_def set_callbacks_def calls_of_def live_client_def tidy_def Let_def
          split: option.splits)
    with Set_on_backpressure s show ?thesis by auto
  next
    case (Async_write w)
    with s have v': "v' = snd (server_async_write w v)" by simp
    show ?thesis unfolding v' by (rule sends_story [OF async_write_sends [OF inv] st])
  next
    case (Broadcast data)
    with s have v': "v' = snd (server_broadcast data v)" by simp
    show ?thesis unfolding v' by (rule sends_story [OF broadcast_sends st])
  next
    case (Broadcast_result data r nl)
    with s have v': "v' = snd (broadcast_result data r nl v)" by simp
    show ?thesis unfolding v' by (rule sends_story [OF broadcast_result_sends st])
  next
    case (Write_target c p data t ex)
    with s have v': "v' = snd (write_target c p data t ex v)" by simp
    show ?thesis unfolding v' by (rule sends_story [OF write_target_sends st])
  next
    case Stop_server
    with s stopping_story [OF st] show ?thesis by simp
  next
    case Cancel_target_waits
    have "client_story (update_sessions (sv_sessions v) cancel_write_wait v) cid"
      by (rule update_story [OF st]) (simp_all add: cancel_write_wait_def end_wait_def tidy_def)
    with Cancel_target_waits s show ?thesis by (simp add: cancel_target_waits_def)
  next
    case Reset_server_stats
    let ?w = "v\<lparr>sv_stats := reset_stats 0 (sv_stats v), sv_closed := no_accounting\<rparr>"
    have "client_story ?w cid" by (rule q) (simp_all add: calls_of_def)
    then have "client_story (update_sessions (sv_sessions v @ sv_retiring v) session_reset_stats ?w) cid"
      by (rule update_story) (simp_all add: session_reset_stats_def tidy_def)
    with Reset_server_stats s show ?thesis by (simp add: server_reset_stats_def)
  next
    case (Set_server_callback cb h)
    have "client_story (server_set_callback cb h v) cid" by (rule q; cases cb) (simp_all add: calls_of_def)
    with Set_server_callback s show ?thesis by simp
  next
    case (Set_client_limit m)
    have "client_story (v\<lparr>sv_max_clients := m, sv_limit_enabled := (m \<noteq> 0)\<rparr>) cid" by (rule q) (simp_all add: calls_of_def)
    with st Set_client_limit s show ?thesis by (auto simp: set_client_limit_def split: if_splits)
  next
    case Request_server_stop
    have "client_story (server_request_stop v) cid" by (rule q) (simp_all add: server_request_stop_def post_server_def calls_of_def)
    with Request_server_stop s show ?thesis by simp
  next
    case (Fail_client c)
    have "client_story (server_fail_receive c v) cid"
      by (rule q) (simp_all add: server_fail_receive_def calls_of_def split: option.split)
    with Fail_client s show ?thesis by simp
  next
    case (Timer_fires t)
    have "client_story (post_server (timer_task t) (v\<lparr>sv_timers := remove1 t (sv_timers v)\<rparr>)) cid"
      by (rule q) (simp_all add: post_server_def calls_of_def)
    with Timer_fires s show ?thesis by (auto split: if_splits)
  next
    case (Accept_completes g r)
    have "client_story (post_server (Accept_task g r) (v\<lparr>sv_accepts := remove1 g (sv_accepts v)\<rparr>)) cid"
      by (rule q) (simp_all add: post_server_def calls_of_def)
    with Accept_completes s show ?thesis by (auto split: if_splits)
  qed
qed

lemma new_server_story: "client_story (new_server cfg) cid"
  by (simp add: client_story_def new_server_def calls_of_def new_client_session_def new_session_def live_client_def story_empty Let_def)

interpretation stories: machine_invariant "server_step tls_build first"
  "\<lambda>v. server_setting cfg first \<longrightarrow> server_inv cfg v \<and> (\<forall>cid. client_story v cid)"
proof
  fix s a s'
  assume h: "server_setting cfg first \<longrightarrow> server_inv cfg s \<and> (\<forall>cid. client_story s cid)"
    and st: "server_step tls_build first a s = Some s'"
  show "server_setting cfg first \<longrightarrow> server_inv cfg s' \<and> (\<forall>cid. client_story s' cid)"
    using h server_machine.step_inv [OF _ st, of cfg] server_step_story [OF _ _ _ st, of cfg]
    by (auto simp: server_setting_def)
qed

end
