(* ===== verification/Server_Properties.thy ===== *)
theory Server_Properties
  imports Server_Shutdown Server_Callbacks
begin

text \<open>
  The properties of the TCP server that its users rely on. \<open>first\<close> is the element \<open>sessions_.begin()\<close> refers to, for which
  nothing is assumed but that it is one of the sessions; the server is one that its constructor accepted.
\<close>

section \<open>The limit on clients\<close>

text \<open>The accept handler admits a connection only below the limit, and no other connection is registered until it is.\<close>

definition below_limit :: "nat \<Rightarrow> tcp_server \<Rightarrow> bool" where
  "below_limit n v \<longleftrightarrow> sv_limit_enabled v \<and> sv_max_clients v = n
     \<and> length (sv_sessions v) + (if sv_inserting v = None then 0 else 1) \<le> n"

lemma below_limit_frame:
  assumes "below_limit n v" and "length (sv_sessions v') \<le> length (sv_sessions v)" "sv_inserting v' = sv_inserting v"
    "sv_limit_enabled v' = sv_limit_enabled v" "sv_max_clients v' = sv_max_clients v"
  shows "below_limit n v'"
  using assms by (auto simp: below_limit_def)

lemma sends_limit:
  "sends v v' \<Longrightarrow> sv_inserting v' = sv_inserting v \<and> sv_limit_enabled v' = sv_limit_enabled v \<and> sv_max_clients v' = sv_max_clients v"
  by (induction rule: sends.induct) (simp_all add: write_to_session_store server_failed_send_def)

lemma sends_below: "sends v v' \<Longrightarrow> below_limit n v \<Longrightarrow> below_limit n v'"
  using sends_limit sends_registry by (auto intro: below_limit_frame)

lemma limit_frame [simp]:
  "sv_inserting (call_user r c v) = sv_inserting v" "sv_limit_enabled (call_user r c v) = sv_limit_enabled v"
  "sv_max_clients (call_user r c v) = sv_max_clients v"
  "sv_inserting (post_server t v) = sv_inserting v" "sv_limit_enabled (post_server t v) = sv_limit_enabled v"
  "sv_max_clients (post_server t v) = sv_max_clients v"
  by (simp_all add: call_user_def post_server_def)

lemma client_event_below:
  assumes "client_event cid a v = Some v'" and "below_limit n v"
  shows "below_limit n v'"
proof -
  have "sv_inserting v' = sv_inserting v \<and> sv_limit_enabled v' = sv_limit_enabled v \<and> sv_max_clients v' = sv_max_clients v
      \<and> sv_sessions v' = sv_sessions v"
    using assms(1) [symmetric]
    by (auto simp: client_event_def client_bytes_def client_connected_def client_closed_def Let_def
        split: option.splits if_splits)
  with assms(2) show ?thesis by (auto intro: below_limit_frame)
qed

lemma run_task_below:
  assumes inv: "server_inv cfg v" and p: "sv_tasks v = t # ts" and i: "sv_inserting v = None" and b: "below_limit n v"
  shows "below_limit n (run_server_task first env t (v\<lparr>sv_tasks := ts\<rparr>))"
proof (cases "\<exists>g r. t = Accept_task g r")
  case True
  then obtain g r where t: "t = Accept_task g r" by blast
  let ?w = "handle_accept g r (v\<lparr>sv_tasks := ts\<rparr>)"
  have "sv_sessions ?w = sv_sessions v" "sv_limit_enabled ?w = sv_limit_enabled v" "sv_max_clients ?w = sv_max_clients v"
    "sv_inserting ?w = None \<or> \<not> (sv_limit_enabled v \<and> length (sv_sessions v) \<ge> sv_max_clients v)"
    using i by (simp_all add: handle_accept_def do_accept_def Let_def split: accept_result.split)
  with b i t show ?thesis by (auto simp: run_server_task_def below_limit_def)
next
  case False
  have "sv_retiring v = [] \<or> sv_cleanup_started v" using inv by (auto simp: server_inv_def shutdown_ok_def)
  with False show ?thesis
    by (intro below_limit_frame [OF b]; cases t)
      (auto simp: run_server_task_def attempt_port_binding_def server_failed_def do_accept_def close_session_def absorb_session_def
        report_connected_def perform_cleanup_def finish_cleanup_def update_sessions_def retire_session_def server_stop_def Let_def
        length_removeAll_less_eq)
qed

lemma stop_continue_below:
  assumes inv: "server_inv cfg v" and b: "below_limit n v"
  shows "below_limit n (stop_continue v)"
proof -
  have "sv_retiring v = [] \<or> sv_cleanup_started v" using inv by (auto simp: server_inv_def shutdown_ok_def)
  then show ?thesis
    by (intro below_limit_frame [OF b])
      (auto simp: stop_continue_def perform_cleanup_def finish_cleanup_def update_sessions_def Let_def)
qed

lemma server_step_below:
  assumes inv: "server_inv cfg v" and b: "below_limit n v"
    and s: "server_step tls_build first e v = Some v'" and e: "\<And>m. e \<noteq> Set_client_limit m"
  shows "below_limit n v'"
proof (cases e)
  case (Start_server loads)
  have "below_limit n (server_start tls_build loads v)"
    by (rule below_limit_frame [OF b]) (simp_all add: server_start_def server_failed_def Let_def)
  with Start_server s show ?thesis by (auto split: if_splits)
next
  case (Run_task env)
  with s run_task_below [OF inv _ _ b] show ?thesis by (auto split: option.splits list.splits)
next
  case Register_client
  then obtain g where g: "sv_inserting v = Some g" "v' = register_session g v" using s by (auto split: option.splits)
  with b show ?thesis by (auto simp: below_limit_def register_session_def do_accept_def Let_def)
next
  case (Client_event cid a)
  let ?v = "if a = Fail_receive then v\<lparr>sv_failing := remove1 cid (sv_failing v)\<rparr> else v"
  have "client_event cid a ?v = Some v'" using Client_event s by (auto split: if_splits)
  moreover have "below_limit n ?v" by (rule below_limit_frame [OF b]) simp_all
  ultimately show ?thesis by (rule client_event_below)
next
  case Stop_continues
  with s stop_continue_below [OF inv b] show ?thesis by (auto split: if_splits)
next
  case (Set_on_backpressure h)
  have "below_limit n (server_on_backpressure h v)"
    by (rule below_limit_frame [OF b]) (simp_all add: server_on_backpressure_def update_session_def Let_def split: option.split)
  with Set_on_backpressure s show ?thesis by auto
next
  case (Async_write w)
  with s have v': "v' = snd (server_async_write w v)" by simp
  show ?thesis unfolding v' by (rule sends_below [OF async_write_sends [OF inv] b])
next
  case (Broadcast data)
  with s have v': "v' = snd (server_broadcast data v)" by simp
  show ?thesis unfolding v' by (rule sends_below [OF broadcast_sends b])
next
  case (Broadcast_result data r nl)
  with s have v': "v' = snd (broadcast_result data r nl v)" by simp
  show ?thesis unfolding v' by (rule sends_below [OF broadcast_result_sends b])
next
  case (Write_target cid p data t ex)
  with s have v': "v' = snd (write_target cid p data t ex v)" by simp
  show ?thesis unfolding v' by (rule sends_below [OF write_target_sends b])
next
  case (Set_server_callback cb h)
  have "below_limit n (server_set_callback cb h v)" by (rule below_limit_frame [OF b]; cases cb) simp_all
  with Set_server_callback s show ?thesis by simp
qed (use s e in \<open>auto simp: server_stop_def update_sessions_def server_request_stop_def server_fail_receive_def cancel_target_waits_def
    server_reset_stats_def intro!: below_limit_frame [OF b] split: if_splits option.splits\<close>)

lemma run_below:
  assumes set: "server_setting cfg first" and "run_steps (server_step tls_build first) es v0 = Some v"
    and "server_inv cfg v0" "below_limit n v0" "\<And>m. Set_client_limit m \<notin> set es"
  shows "below_limit n v"
  using assms(2-)
proof (induction es arbitrary: v0)
  case (Cons e es)
  from Cons.prems(1) obtain v1 where s: "server_step tls_build first e v0 = Some v1"
    and r: "run_steps (server_step tls_build first) es v1 = Some v" by (auto split: option.splits)
  have "server_inv cfg v1" using server_machine.step_inv [OF _ s] set Cons.prems(2) by blast
  moreover have "below_limit n v1" using server_step_below [OF Cons.prems(2,3) s] Cons.prems(4) by auto
  ultimately show ?case using Cons.IH [OF r] Cons.prems(4) by simp
qed simp

section \<open>A run\<close>

definition reachable_interface :: bind_env where
  "reachable_interface = \<lparr>be_address = True, be_open = True, be_bind = True, be_listen = True\<rparr>"

text \<open>A client connects, sends three bytes and is answered.\<close>

definition demo_serve :: "server_event list" where
  "demo_serve =
     [Set_server_callback Cb_connect True, Set_server_callback Cb_data True, Set_server_callback Cb_disconnect True,
      Start_server True, Run_task reachable_interface, Accept_completes 1 Accepted_socket, Run_task reachable_interface, Register_client,
      Client_event 0 (Run_strand False), Client_event 0 (Handshake_complete False), Client_event 0 (Run_strand False),
      Client_event 0 (Read_done False 3), Async_write (W_move [1, 2])]"

definition demo_config :: tcp_server_config where
  "demo_config = default_tcp_server\<lparr>max_connections := 2\<rparr>"

lemma make_demo: "make_server (\<lambda>a. Some a) (\<lambda>_. False) demo_config = Inr (new_server demo_config)"
  by (simp add: make_server_def demo_config_def tcp_server_validate_def require_def tcp_server_is_valid_def default_tcp_server_def
      is_ip_literal_def is_valid_ipv4_def within_def threshold_ok_def server_idle_ok_def socket_buffer_ok_def constant_defs)

lemmas server_eval =
  demo_serve_def reachable_interface_def demo_config_def new_server_def default_tcp_server_def new_client_session_def server_start_def
  init_tls_fails_def tls_enabled_def post_server_def run_server_task_def attempt_port_binding_def server_notify_state_def call_user_def
  do_accept_def handle_accept_def register_session_def client_event_def delivers_bytes_def client_bytes_def client_connected_def
  client_closed_def completes_stop_def report_connected_def server_async_write_def session_write_def write_to_session_def
  read_done_def set_callbacks_def server_stop_def update_sessions_def request_stop_def end_wait_def

definition demo_view where
  "demo_view v = (sv_stopping v, sv_state v, sv_generation v, sv_sessions v, sv_tasks v, sv_accepts v, sv_log v)"

lemma demo_run:
  obtains v where "run_steps (server_step False hd) demo_serve (new_server demo_config) = Some v"
    "demo_view v = (False, LinkListening, 1, [0], [Connected_task 0 1], [1], [Call_connect 0, Call_data 0 3])"
proof -
  have "map_option demo_view (run_steps (server_step False hd) demo_serve (new_server demo_config))
      = Some (False, LinkListening, 1, [0], [Connected_task 0 1], [1], [Call_connect 0, Call_data 0 3])"
    by (simp add: server_eval session_eval demo_view_def)
  then show ?thesis using that by auto
qed

section \<open>Properties\<close>

text \<open>
  C7: The server never goes deaf. While it is not stopping and reports that it listens or is connected, exactly one accept
  operation of the current run is under way: with the acceptor, as a handler on the strand, waiting for the retry timer, or
  registering the connection it has accepted.
\<close>

theorem server_keeps_accepting:
  assumes "make_server v4 v6 cfg = Inr v0" and "\<And>xs. xs \<noteq> [] \<Longrightarrow> first xs \<in> set xs"
    and "reaches (server_step tls_build first) v0 v" and "\<not> sv_stopping v" and "sv_state v \<in> {LinkListening, LinkConnected}"
  shows "accept_tokens (sv_generation v) v = 1 \<and> sv_acceptor_open v"
  using accepting_once [OF server_reaches_inv [OF assms(1-3)] assms(4,5)] by blast

theorem server_keeps_accepting_witness:
  "\<exists>v. run_steps (server_step False hd) demo_serve (new_server demo_config) = Some v \<and> sv_state v = LinkListening
     \<and> sv_accepts v = [1] \<and> accept_tokens 1 v = 1"
proof -
  obtain v where r: "run_steps (server_step False hd) demo_serve (new_server demo_config) = Some v"
    and f: "demo_view v = (False, LinkListening, 1, [0], [Connected_task 0 1], [1], [Call_connect 0, Call_data 0 3])"
    by (rule demo_run)
  from server_keeps_accepting [OF make_demo hd_in_set reaches_run [OF r]] f r show ?thesis by (auto simp: demo_view_def)
qed

text \<open>
  C6: Shutdown always comes to its end. From every state of a server that is stopping, with connections being accepted,
  clients connected and sends in flight, the handlers that are queued on the strands lead to the completed cleanup,
  with no session left in the registry, without any help from the clients.
\<close>

theorem server_shutdown_completes:
  assumes "make_server v4 v6 cfg = Inr v0" and "\<And>xs. xs \<noteq> [] \<Longrightarrow> first xs \<in> set xs"
    and "reaches (server_step tls_build first) v0 v" and "sv_stopping v"
  shows "\<exists>es v'. list_all strand_event es \<and> run_steps (server_step tls_build first) es v = Some v'
    \<and> sv_cleanup_done v' \<and> sv_sessions v' = [] \<and> sv_retiring v' = []"
proof -
  note set = made_server(1) [OF assms(1,2)]
  have inv: "server_inv cfg v" by (rule server_reaches_inv [OF assms(1-3)])
  from shutdown_completes [OF set inv assms(4)] obtain es v' where
    r: "list_all strand_event es" "run_steps (server_step tls_build first) es v = Some v'" "sv_cleanup_done v'" by blast
  have "server_inv cfg v'" using server_machine.run_inv [OF r(2)] set inv by blast
  with r show ?thesis by (intro exI [of _ es] exI [of _ v']) (auto simp: server_inv_def shutdown_ok_def split: if_splits)
qed

theorem server_shutdown_completes_witness:
  "\<exists>v. run_steps (server_step False hd) (demo_serve @ [Stop_server]) (new_server demo_config) = Some v \<and> sv_stopping v
     \<and> sv_sessions v = [0] \<and> (\<exists>es v'. list_all strand_event es \<and> run_steps (server_step False hd) es v = Some v' \<and> sv_cleanup_done v')"
proof -
  have "map_option (\<lambda>v. (sv_stopping v, sv_sessions v)) (run_steps (server_step False hd) (demo_serve @ [Stop_server]) (new_server demo_config))
      = Some (True, [0])"
    by (simp add: server_eval session_eval)
  then obtain v where r: "run_steps (server_step False hd) (demo_serve @ [Stop_server]) (new_server demo_config) = Some v"
    and f: "sv_stopping v" "sv_sessions v = [0]" by auto
  from server_shutdown_completes [OF make_demo hd_in_set reaches_run [OF r] f(1)] r f show ?thesis by blast
qed

text \<open>
  C8: The server's books are exact. As long as its statistics are not reset, the send accounting it reports is the sum over all
  clients of the current run, connected or gone, each counted once; what was accepted is what was written, lost or is
  outstanding, and after a completed shutdown nothing is outstanding.
\<close>

theorem server_accounting_exact:
  assumes "make_server v4 v6 cfg = Inr v0" and "\<And>xs. xs \<noteq> [] \<Longrightarrow> first xs \<in> set xs"
    and "run_steps (server_step tls_build first) es v0 = Some v" and "Reset_server_stats \<notin> set es"
  shows "rs_send_accounting (server_stats now v) = Some (total_of v (run_clients v))
    \<and> accepted (total_of v (run_clients v)) = accounted (total_of v (run_clients v))
    \<and> (sv_cleanup_done v \<longrightarrow> outstanding (total_of v (run_clients v)) = no_requests)"
proof -
  note set = made_server(1) [OF assms(1,2)] and new = made_server(2,3) [OF assms(1,2)]
  have "closed_books v0" by (simp add: new(1) closed_books_def gone_def run_clients_def new_server_def)
  from run_books [OF set assms(3) new(2) this assms(4)] have inv: "server_inv cfg v" and b: "closed_books v" by simp_all
  have thr: "0 < srv_backpressure_threshold cfg" using set by (simp add: server_setting_def)
  have "closing (sv_store v cid)" if "sv_cleanup_done v" "cid \<in> set (run_clients v)" for cid
    using inv that by (auto simp: server_inv_def shutdown_ok_def registry_ok_def run_clients_def split: if_splits)
  then show ?thesis
    using reported_total [OF inv b] total_balanced total_settled session_totals_balanced [OF inv thr] by blast
qed

theorem server_accounting_exact_witness:
  "\<exists>v. run_steps (server_step False hd) demo_serve (new_server demo_config) = Some v \<and> run_clients v = [0]
     \<and> rs_send_accounting (server_stats 0 v) = Some (total_of v [0])"
proof -
  have "map_option run_clients (run_steps (server_step False hd) demo_serve (new_server demo_config)) = Some [0]"
    by (simp add: server_eval session_eval run_clients_def)
  then obtain v where r: "run_steps (server_step False hd) demo_serve (new_server demo_config) = Some v" "run_clients v = [0]" by auto
  have "Reset_server_stats \<notin> set demo_serve" by (simp add: demo_serve_def)
  from server_accounting_exact [OF make_demo hd_in_set r(1) this, of 0] r show ?thesis by auto
qed

text \<open>
  C9: What the user hears of one client is its story in order: at most one connect call, then data, then at most one disconnect
  call, and no disconnect of a client whose connection had a handler that was not called.
\<close>

theorem server_callbacks_in_order:
  assumes "make_server v4 v6 cfg = Inr v0" and "\<And>xs. xs \<noteq> [] \<Longrightarrow> first xs \<in> set xs"
    and "reaches (server_step tls_build first) v0 v"
  shows "\<exists>cs ds es. calls_of cid v = cs @ ds @ es \<and> cs \<in> {[], [Call_connect cid]} \<and> list_all is_data ds
    \<and> es \<in> {[], [Call_disconnect cid]} \<and> (es \<noteq> [] \<and> sv_connect_cb v cid \<longrightarrow> cs \<noteq> [])"
proof -
  have "client_story v cid"
    using stories.reaches_inv [OF assms(3), of cfg] made_server [OF assms(1,2)] new_server_story by blast
  then show ?thesis unfolding client_story_def story_def by blast
qed

theorem server_callbacks_in_order_witness:
  "\<exists>v. run_steps (server_step False hd) (demo_serve @ [Client_event 0 (Read_done True 0)]) (new_server demo_config) = Some v
     \<and> calls_of 0 v = [Call_connect 0, Call_data 0 3, Call_disconnect 0]
     \<and> (\<exists>cs ds es. calls_of 0 v = cs @ ds @ es \<and> list_all is_data ds \<and> es \<in> {[], [Call_disconnect 0]} \<and> cs \<in> {[], [Call_connect 0]})"
proof -
  have "map_option (calls_of 0) (run_steps (server_step False hd) (demo_serve @ [Client_event 0 (Read_done True 0)]) (new_server demo_config))
      = Some [Call_connect 0, Call_data 0 3, Call_disconnect 0]"
    by (simp add: server_eval session_eval calls_of_def do_close_def drain_and_clear_backpressure_def)
  then obtain v where r: "run_steps (server_step False hd) (demo_serve @ [Client_event 0 (Read_done True 0)]) (new_server demo_config) = Some v"
    "calls_of 0 v = [Call_connect 0, Call_data 0 3, Call_disconnect 0]" by auto
  from server_callbacks_in_order [OF make_demo hd_in_set reaches_run [OF r(1)], of 0] r show ?thesis by blast
qed

text \<open>
  C40: The limit holds. While the limit on clients is left as it was configured, the server never has more sessions than that, also
  not while a connection is being registered.
\<close>

theorem server_respects_limit:
  assumes "make_server v4 v6 cfg = Inr v0" and "\<And>xs. xs \<noteq> [] \<Longrightarrow> first xs \<in> set xs"
    and "run_steps (server_step tls_build first) es v0 = Some v" and "\<And>m. Set_client_limit m \<notin> set es"
    and "0 < max_connections cfg"
  shows "int (length (sv_sessions v)) \<le> max_connections cfg \<and> client_count v \<le> nat (max_connections cfg)"
proof -
  note set = made_server(1) [OF assms(1,2)] and new = made_server(2,3) [OF assms(1,2)]
  have "below_limit (nat (max_connections cfg)) v0" using assms(5) by (simp add: new(1) below_limit_def new_server_def)
  from run_below [OF set assms(3) new(2) this assms(4)] have "length (sv_sessions v) \<le> nat (max_connections cfg)"
    by (auto simp: below_limit_def split: if_splits)
  moreover have "client_count v \<le> length (sv_sessions v)" by (simp add: client_count_def)
  ultimately show ?thesis using assms(5) by linarith
qed

theorem server_respects_limit_witness:
  "\<exists>v. run_steps (server_step False hd) demo_serve (new_server demo_config) = Some v \<and> sv_sessions v = [0]
     \<and> int (length (sv_sessions v)) \<le> 2"
proof -
  obtain v where r: "run_steps (server_step False hd) demo_serve (new_server demo_config) = Some v"
    and f: "demo_view v = (False, LinkListening, 1, [0], [Connected_task 0 1], [1], [Call_connect 0, Call_data 0 3])"
    by (rule demo_run)
  have "Set_client_limit m \<notin> set demo_serve" for m by (simp add: demo_serve_def)
  from server_respects_limit [OF make_demo hd_in_set r this] f r show ?thesis by (auto simp: demo_view_def demo_config_def)
qed

end
