(* ===== verification/Config_Manager.thy ===== *)
theory Config_Manager
  imports Input_Validator
begin

text \<open>
  \<open>ConfigManager\<close> (\<open>src/wirestead/config/config_manager.cc\<close>, \<open>iconfig_manager.hpp\<close>): typed settings with validators,
  change callbacks and a text file.

  \<open>'d\<close> is the type \<open>double\<close>; how it is printed and read (\<open>std::to_string\<close>, \<open>std::stod\<close>) are the arguments \<open>show_double\<close> and
  \<open>stod\<close>. The iteration order of the \<open>unordered_map\<close> is not specified: the functions that iterate take the list of keys in that
  order. A change callback is a call in \<open>cm_calls\<close>; callbacks that change the manager again are operations that follow.
  Validators do not throw.
\<close>

section \<open>Values and items\<close>

datatype config_type = CString | CInteger | CBoolean | CDouble | CArray | CObject

text \<open>\<open>std::any\<close>: the four types the manager knows, and \<open>Any_other\<close> for an empty \<open>any\<close> and every other type.\<close>

datatype 'd any = Any_string string | Any_int int | Any_bool bool | Any_double 'd | Any_other nat

type_synonym validation_result = "string + unit"

record 'd config_item =
  ci_key :: string
  ci_value :: "'d any"
  ci_type :: config_type
  ci_required :: bool
  ci_description :: string
  ci_validator :: "('d any \<Rightarrow> validation_result) option"

definition make_item :: "string \<Rightarrow> 'd any \<Rightarrow> config_type \<Rightarrow> 'd config_item" where
  "make_item k v t = \<lparr>ci_key = k, ci_value = v, ci_type = t, ci_required = False, ci_description = [], ci_validator = None\<rparr>"

record 'd config_manager =
  cm_items :: "string \<rightharpoonup> 'd config_item"
  cm_callbacks :: "string \<rightharpoonup> bool"
  cm_calls :: "(string \<times> 'd any \<times> 'd any) list"

definition new_config_manager :: "'d config_manager" where
  "new_config_manager = \<lparr>cm_items = Map.empty, cm_callbacks = Map.empty, cm_calls = []\<rparr>"

section \<open>Validation\<close>

definition actual_type :: "'d any \<Rightarrow> config_type" where
  "actual_type v =
     (case v of Any_string s \<Rightarrow> CString | Any_int n \<Rightarrow> CInteger | Any_bool b \<Rightarrow> CBoolean | Any_double d \<Rightarrow> CDouble
      | Any_other n \<Rightarrow> CString)"

definition validate_value :: "string \<Rightarrow> 'd any \<Rightarrow> 'd config_manager \<Rightarrow> validation_result" where
  "validate_value key v m =
     (case cm_items m key of
        None \<Rightarrow> Inr ()
      | Some it \<Rightarrow>
          (case ci_validator it of
             Some check \<Rightarrow> check v
           | None \<Rightarrow>
               if ci_type it \<noteq> actual_type v then Inl (''Type mismatch for key '' @ [CHR 0x27] @ key @ [CHR 0x27])
               else Inr ()))"

fun first_error :: "validation_result list \<Rightarrow> validation_result" where
  "first_error [] = Inr ()"
| "first_error (Inl e # rs) = Inl e"
| "first_error (Inr _ # rs) = first_error rs"

definition cm_validate :: "string list \<Rightarrow> 'd config_manager \<Rightarrow> validation_result" where
  "cm_validate keys m =
     first_error (map (\<lambda>k. case cm_items m k of None \<Rightarrow> Inr () | Some it \<Rightarrow> validate_value k (ci_value it) m) keys)"

definition cm_validate_key :: "string \<Rightarrow> 'd config_manager \<Rightarrow> validation_result" where
  "cm_validate_key key m =
     (case cm_items m key of
        None \<Rightarrow> Inl (''Configuration key not found: '' @ key)
      | Some it \<Rightarrow> validate_value key (ci_value it) m)"

section \<open>Access\<close>

definition cm_get :: "string \<Rightarrow> 'd config_manager \<Rightarrow> exn + 'd any" where
  "cm_get key m = (case cm_items m key of Some it \<Rightarrow> Inr (ci_value it) | None \<Rightarrow> Inl Runtime_error)"

definition cm_get_or :: "string \<Rightarrow> 'd any \<Rightarrow> 'd config_manager \<Rightarrow> 'd any" where
  "cm_get_or key default_value m = (case cm_items m key of Some it \<Rightarrow> ci_value it | None \<Rightarrow> default_value)"

definition cm_has :: "string \<Rightarrow> 'd config_manager \<Rightarrow> bool" where
  "cm_has key m \<longleftrightarrow> cm_items m key \<noteq> None"

definition cm_get_type :: "string \<Rightarrow> 'd config_manager \<Rightarrow> exn + config_type" where
  "cm_get_type key m = (case cm_items m key of Some it \<Rightarrow> Inr (ci_type it) | None \<Rightarrow> Inl Runtime_error)"

definition cm_get_description :: "string \<Rightarrow> 'd config_manager \<Rightarrow> string" where
  "cm_get_description key m = (case cm_items m key of Some it \<Rightarrow> ci_description it | None \<Rightarrow> [])"

definition cm_is_required :: "string \<Rightarrow> 'd config_manager \<Rightarrow> bool" where
  "cm_is_required key m = (case cm_items m key of Some it \<Rightarrow> ci_required it | None \<Rightarrow> False)"

section \<open>Changes\<close>

definition change_callback_for :: "string \<Rightarrow> 'd config_manager \<Rightarrow> bool" where
  "change_callback_for key m = (case cm_callbacks m key of Some callable \<Rightarrow> callable | None \<Rightarrow> False)"

definition invoke_change_callback :: "bool \<Rightarrow> string \<Rightarrow> 'd any \<Rightarrow> 'd any \<Rightarrow> 'd config_manager \<Rightarrow> 'd config_manager" where
  "invoke_change_callback callable key old new m = (if callable then m\<lparr>cm_calls := cm_calls m @ [(key, old, new)]\<rparr> else m)"

definition cm_set :: "string \<Rightarrow> 'd any \<Rightarrow> 'd config_manager \<Rightarrow> validation_result \<times> 'd config_manager" where
  "cm_set key v m =
     (case validate_value key v m of
        Inl e \<Rightarrow> (Inl e, m)
      | Inr _ \<Rightarrow>
          (case cm_items m key of
             Some it \<Rightarrow>
               let m1 = m\<lparr>cm_items := (cm_items m)(key \<mapsto> it\<lparr>ci_value := v\<rparr>)\<rparr>
               in (Inr (), invoke_change_callback (change_callback_for key m1) key (ci_value it) v m1)
           | None \<Rightarrow> (Inr (), m\<lparr>cm_items := (cm_items m)(key \<mapsto> make_item key v CString)\<rparr>)))"

definition cm_remove :: "string \<Rightarrow> 'd config_manager \<Rightarrow> bool \<times> 'd config_manager" where
  "cm_remove key m =
     (if cm_items m key \<noteq> None then (True, m\<lparr>cm_items := (cm_items m)(key := None)\<rparr>) else (False, m))"

definition cm_clear :: "'d config_manager \<Rightarrow> 'd config_manager" where
  "cm_clear m = m\<lparr>cm_items := Map.empty\<rparr>"

definition cm_register_item :: "'d config_item \<Rightarrow> 'd config_manager \<Rightarrow> 'd config_manager" where
  "cm_register_item it m = m\<lparr>cm_items := (cm_items m)(ci_key it \<mapsto> it)\<rparr>"

definition cm_register_validator :: "string \<Rightarrow> ('d any \<Rightarrow> validation_result) option \<Rightarrow> 'd config_manager \<Rightarrow> 'd config_manager" where
  "cm_register_validator key check m =
     (case cm_items m key of
        Some it \<Rightarrow> m\<lparr>cm_items := (cm_items m)(key \<mapsto> it\<lparr>ci_validator := check\<rparr>)\<rparr>
      | None \<Rightarrow> m)"

definition cm_on_change :: "string \<Rightarrow> bool \<Rightarrow> 'd config_manager \<Rightarrow> 'd config_manager" where
  "cm_on_change key callable m = m\<lparr>cm_callbacks := (cm_callbacks m)(key \<mapsto> callable)\<rparr>"

definition cm_remove_change_callback :: "string \<Rightarrow> 'd config_manager \<Rightarrow> 'd config_manager" where
  "cm_remove_change_callback key m = m\<lparr>cm_callbacks := (cm_callbacks m)(key := None)\<rparr>"

section \<open>Text\<close>

definition isspace :: "char \<Rightarrow> bool" where
  "isspace c \<longleftrightarrow> char_code c = 32 \<or> 9 \<le> char_code c \<and> char_code c \<le> 13"

definition newline :: char where
  "newline = CHR 0x0A"

definition tab :: char where
  "tab = CHR 0x09"

text \<open>\<open>std::to_string\<close> of an \<open>int\<close>.\<close>

definition digit :: "nat \<Rightarrow> char" where
  "digit n = char_of (48 + n)"

fun show_nat :: "nat \<Rightarrow> string" where
  "show_nat n = (if n < 10 then [digit n] else show_nat (n div 10) @ [digit (n mod 10)])"

declare show_nat.simps [simp del]

definition show_int :: "int \<Rightarrow> string" where
  "show_int n = (if n < 0 then CHR ''-'' # show_nat (nat (- n)) else show_nat (nat n))"

text \<open>\<open>std::stoi\<close>: white space, a sign, the longest run of digits; \<open>None\<close> where it throws.\<close>

definition any_stoi :: "string \<Rightarrow> int option" where
  "any_stoi str =
     (let s = dropWhile isspace str;
          negative = (s \<noteq> [] \<and> hd s = CHR ''-'');
          s1 = (if s \<noteq> [] \<and> (hd s = CHR ''-'' \<or> hd s = CHR ''+'') then tl s else s);
          ds = takeWhile isdigit s1;
          n = (if negative then - digits_value ds else digits_value ds)
      in if ds = [] then None else if - (2 ^ 31) \<le> n \<and> n < 2 ^ 31 then Some n else None)"

definition serialize_value :: "('d \<Rightarrow> string) \<Rightarrow> 'd any \<Rightarrow> config_type \<Rightarrow> string" where
  "serialize_value show_double v t =
     (case t of
        CString \<Rightarrow> (case v of Any_string s \<Rightarrow> s | _ \<Rightarrow> ''unknown'')
      | CInteger \<Rightarrow> (case v of Any_int n \<Rightarrow> show_int n | _ \<Rightarrow> ''unknown'')
      | CBoolean \<Rightarrow> (case v of Any_bool b \<Rightarrow> if b then ''true'' else ''false'' | _ \<Rightarrow> ''unknown'')
      | CDouble \<Rightarrow> (case v of Any_double d \<Rightarrow> show_double d | _ \<Rightarrow> ''unknown'')
      | _ \<Rightarrow> ''unknown'')"

definition deserialize_value :: "(string \<Rightarrow> 'd option) \<Rightarrow> string \<Rightarrow> config_type \<Rightarrow> 'd any" where
  "deserialize_value stod str t =
     (case t of
        CString \<Rightarrow> Any_string str
      | CInteger \<Rightarrow> (case any_stoi str of Some n \<Rightarrow> Any_int n | None \<Rightarrow> Any_string str)
      | CBoolean \<Rightarrow> Any_bool (str = ''true'')
      | CDouble \<Rightarrow> (case stod str of Some d \<Rightarrow> Any_double d | None \<Rightarrow> Any_string str)
      | _ \<Rightarrow> Any_string str)"

section \<open>The file\<close>

definition item_text :: "('d \<Rightarrow> string) \<Rightarrow> string \<Rightarrow> 'd config_item \<Rightarrow> string" where
  "item_text show_double key it =
     ''# '' @ ci_description it @ [newline]
     @ key @ ''='' @ serialize_value show_double (ci_value it) (ci_type it) @ [newline, newline]"

definition save_text :: "('d \<Rightarrow> string) \<Rightarrow> string list \<Rightarrow> 'd config_manager \<Rightarrow> string" where
  "save_text show_double keys m =
     ''# wirestead configuration file'' @ [newline] @ ''# Generated automatically'' @ [newline, newline]
     @ concat (map (\<lambda>k. case cm_items m k of Some it \<Rightarrow> item_text show_double k it | None \<Rightarrow> []) keys)"

text \<open>\<open>opened\<close> says whether the file can be opened; the text written to it is the second result.\<close>

definition save_to_file :: "('d \<Rightarrow> string) \<Rightarrow> string list \<Rightarrow> bool \<Rightarrow> 'd config_manager \<Rightarrow> bool \<times> string option" where
  "save_to_file show_double keys opened m = (if \<not> opened then (False, None) else (True, Some (save_text show_double keys m)))"

text \<open>The lines that \<open>std::getline\<close> yields until the end of the file.\<close>

function getlines :: "string \<Rightarrow> string list" where
  "getlines s =
     (if s = [] then []
      else takeWhile (\<lambda>c. c \<noteq> newline) s # getlines (drop 1 (dropWhile (\<lambda>c. c \<noteq> newline) s)))"
  by pat_completeness auto
termination
proof (relation "measure length")
  fix s :: string
  assume "s \<noteq> []"
  then have "length (dropWhile (\<lambda>c. c \<noteq> newline) s) - 1 < length s"
    using length_dropWhile_le [of "\<lambda>c. c \<noteq> newline" s] by (cases s) (simp_all del: dropWhile.simps)
  then show "(drop 1 (dropWhile (\<lambda>c. c \<noteq> newline) s), s) \<in> measure length" by simp
qed simp

declare getlines.simps [simp del]

definition is_blank :: "char \<Rightarrow> bool" where
  "is_blank c \<longleftrightarrow> c = CHR '' '' \<or> c = tab"

definition trim :: "string \<Rightarrow> string" where
  "trim s = rev (dropWhile is_blank (rev (dropWhile is_blank s)))"

definition infer_type :: "string \<Rightarrow> config_type" where
  "infer_type s =
     (if s = ''true'' \<or> s = ''false'' then CBoolean
      else if list_all (\<lambda>c. isdigit c \<or> c = CHR ''-'') s then CInteger
      else if count_list s CHR ''.'' = 1 \<and> list_all (\<lambda>c. isdigit c \<or> c = CHR ''.'' \<or> c = CHR ''-'') s then CDouble
      else CString)"

text \<open>One line of the file; the second component of the state collects the notifications.\<close>

definition load_line :: "(string \<Rightarrow> 'd option) \<Rightarrow> string
    \<Rightarrow> 'd config_manager \<times> (string \<times> 'd any \<times> 'd any) list \<Rightarrow> 'd config_manager \<times> (string \<times> 'd any \<times> 'd any) list" where
  "load_line stod line = (\<lambda>(m, pending).
     if line = [] \<or> hd line = CHR ''#'' then (m, pending)
     else if CHR ''='' \<notin> set line then (m, pending)
     else
       let key = trim (takeWhile (\<lambda>c. c \<noteq> CHR ''='') line);
           str = trim (tl (dropWhile (\<lambda>c. c \<noteq> CHR ''='') line))
       in case cm_items m key of
            Some it \<Rightarrow>
              let v = deserialize_value stod str (ci_type it)
              in (case validate_value key v m of
                    Inl e \<Rightarrow> (m, pending)
                  | Inr _ \<Rightarrow>
                      (m\<lparr>cm_items := (cm_items m)(key \<mapsto> it\<lparr>ci_value := v\<rparr>)\<rparr>,
                       if change_callback_for key m then pending @ [(key, ci_value it, v)] else pending))
          | None \<Rightarrow>
              let t = infer_type str
              in (m\<lparr>cm_items := (cm_items m)(key \<mapsto> make_item key (deserialize_value stod str t) t)\<rparr>, pending))"

text \<open>\<open>file\<close> is the contents of the file, \<open>None\<close> when it cannot be opened.\<close>

definition load_from_file :: "(string \<Rightarrow> 'd option) \<Rightarrow> string option \<Rightarrow> 'd config_manager \<Rightarrow> bool \<times> 'd config_manager" where
  "load_from_file stod file m =
     (case file of
        None \<Rightarrow> (False, m)
      | Some text \<Rightarrow>
          (case fold (load_line stod) (getlines text) (m, []) of
             (m1, pending) \<Rightarrow> (True, fold (\<lambda>(k, old, new). invoke_change_callback True k old new) pending m1)))"

section \<open>Numbers\<close>

lemma char_code_digit: "d < 10 \<Longrightarrow> char_code (digit d) = 48 + d"
  by (simp add: char_code_def digit_def)

lemma show_nat_spec: "show_nat n \<noteq> [] \<and> list_all isdigit (show_nat n) \<and> digits_value (show_nat n) = int n"
proof (induction n rule: show_nat.induct)
  case (1 n)
  have d: "isdigit (digit (n mod 10))" "char_code (digit (n mod 10)) = 48 + n mod 10" by (simp_all add: isdigit_def char_code_digit)
  show ?case
  proof (cases "n < 10")
    case True
    then show ?thesis by (subst (1 2 3) show_nat.simps) (use d in \<open>simp add: digits_value_def\<close>)
  next
    case False
    have "10 * int (n div 10) + int (n mod 10) = int n" by (simp add: zdiv_int zmod_int)
    with 1 d False show ?thesis by (subst (1 2 3) show_nat.simps) (simp add: digits_value_def)
  qed
qed

lemma stoi_show:
  assumes "- (2 ^ 31) \<le> n" and "n < 2 ^ 31"
  shows "any_stoi (show_int n) = Some n"
proof -
  have plain: "takeWhile isdigit (show_nat k) = show_nat k" for k
    using show_nat_spec [of k] by (simp add: list_all_iff)
  have ne: "show_nat k \<noteq> []" for k using show_nat_spec by blast
  have "isdigit (hd (show_nat k))" for k using show_nat_spec [of k] by (cases "show_nat k") simp_all
  moreover have "c \<noteq> CHR ''-'' \<and> c \<noteq> CHR ''+'' \<and> \<not> isspace c" if "isdigit c" for c
    using that by (auto simp: isdigit_def isspace_def char_code_def)
  ultimately have head: "hd (show_nat k) \<noteq> CHR ''-''" "hd (show_nat k) \<noteq> CHR ''+''" "\<not> isspace (hd (show_nat k))" for k
    by blast+
  have drop: "dropWhile isspace (show_nat k) = show_nat k" for k
    using head(3) [of k] by (cases "show_nat k") simp_all
  have sign: "dropWhile isspace (CHR ''-'' # l) = CHR ''-'' # l" for l by (simp add: isspace_def char_code_def)
  have val: "digits_value (show_nat k) = int k" for k using show_nat_spec by blast
  show ?thesis
    using assms by (cases "n < 0") (simp_all add: any_stoi_def show_int_def Let_def plain ne head drop sign val del: dropWhile.simps)
qed

section \<open>Lines\<close>

lemma split_at: "c \<notin> set l \<Longrightarrow> takeWhile (\<lambda>x. x \<noteq> c) (l @ c # rest) = l \<and> dropWhile (\<lambda>x. x \<noteq> c) (l @ c # rest) = c # rest"
  by (induction l) auto

lemma getlines_line: "newline \<notin> set l \<Longrightarrow> getlines (l @ newline # rest) = l # getlines rest"
  using split_at [of newline l rest] by (subst getlines.simps) simp

lemma getlines_empty: "getlines [] = []"
  by (subst getlines.simps) simp

section \<open>Saving and loading\<close>

text \<open>What the file can hold: no line breaks, no blanks at the ends, no key that looks like a comment or contains an equals sign.\<close>

definition clean :: "string \<Rightarrow> bool" where
  "clean s \<longleftrightarrow> newline \<notin> set s \<and> trim s = s"

definition clean_key :: "string \<Rightarrow> bool" where
  "clean_key k \<longleftrightarrow> clean k \<and> CHR ''='' \<notin> set k \<and> (k \<noteq> [] \<longrightarrow> hd k \<noteq> CHR ''#'')"

fun storable :: "('d \<Rightarrow> string) \<Rightarrow> (string \<Rightarrow> 'd option) \<Rightarrow> config_type \<Rightarrow> 'd any \<Rightarrow> bool" where
  "storable sd stod CString (Any_string s) \<longleftrightarrow> clean s"
| "storable sd stod CInteger (Any_int n) \<longleftrightarrow> - (2 ^ 31) \<le> n \<and> n < 2 ^ 31"
| "storable sd stod CBoolean (Any_bool b) \<longleftrightarrow> True"
| "storable sd stod CDouble (Any_double d) \<longleftrightarrow> clean (sd d) \<and> stod (sd d) = Some d"
| "storable sd stod _ _ \<longleftrightarrow> False"

lemma clean_digits: "list_all (\<lambda>c. isdigit c \<or> c = CHR ''-'') s \<Longrightarrow> clean s"
proof -
  assume s: "list_all (\<lambda>c. isdigit c \<or> c = CHR ''-'') s"
  have d: "isdigit c \<Longrightarrow> c \<noteq> newline \<and> \<not> is_blank c" for c
    by (auto simp: isdigit_def char_code_def newline_def is_blank_def tab_def)
  have ok: "\<forall>c \<in> set s. c \<noteq> newline \<and> \<not> is_blank c"
    using s d by (auto simp: list_all_iff newline_def is_blank_def tab_def)
  have "dropWhile is_blank xs = xs" if "\<forall>c \<in> set xs. \<not> is_blank c" for xs using that by (cases xs) simp_all
  from this [of s] this [of "rev s"] ok have "newline \<notin> set s" "dropWhile is_blank s = s" "dropWhile is_blank (rev s) = rev s"
    by (auto simp del: dropWhile_eq_self_iff)
  then show ?thesis by (simp add: clean_def trim_def)
qed

lemma serialize_clean: "storable sd stod t v \<Longrightarrow> clean (serialize_value sd v t)"
proof (induction sd stod t v rule: storable.induct)
  case (2 sd stod n)
  have "list_all isdigit (show_nat k)" for k using show_nat_spec by blast
  then have "list_all (\<lambda>c. isdigit c \<or> c = CHR ''-'') (show_int n)" by (auto simp: show_int_def list_all_iff)
  then show ?case by (simp add: serialize_value_def clean_digits)
next
  case (3 sd stod b)
  then show ?case by (simp add: serialize_value_def clean_def trim_def newline_def is_blank_def tab_def)
qed (simp_all add: serialize_value_def)

lemma deserialize_serialize: "storable sd stod t v \<Longrightarrow> deserialize_value stod (serialize_value sd v t) t = v"
  by (induction sd stod t v rule: storable.induct) (simp_all add: serialize_value_def deserialize_value_def stoi_show)

lemma item_lines:
  assumes "newline \<notin> set (ci_description it)" "clean_key k" "clean (serialize_value sd (ci_value it) (ci_type it))"
  shows "getlines (item_text sd k it @ rest)
    = (''# '' @ ci_description it) # (k @ CHR ''='' # serialize_value sd (ci_value it) (ci_type it)) # [] # getlines rest"
proof -
  let ?v = "serialize_value sd (ci_value it) (ci_type it)"
  have "getlines (item_text sd k it @ rest)
      = getlines ((''# '' @ ci_description it) @ newline # (k @ CHR ''='' # ?v) @ newline # [] @ newline # rest)"
    by (simp add: item_text_def)
  also have "\<dots> = (''# '' @ ci_description it) # getlines ((k @ CHR ''='' # ?v) @ newline # [] @ newline # rest)"
    using assms(1) by (intro getlines_line) (simp add: newline_def)
  also have "\<dots> = (''# '' @ ci_description it) # (k @ CHR ''='' # ?v) # getlines ([] @ newline # rest)"
    using assms(2,3) by (subst getlines_line) (auto simp: clean_key_def clean_def newline_def)
  also have "getlines ([] @ newline # rest) = [] # getlines rest" by (subst getlines_line) simp_all
  finally show ?thesis .
qed

lemma load_assignment:
  assumes "clean_key k" and "clean str"
  shows "load_line stod (k @ CHR ''='' # str) (m, pending) =
    (case cm_items m k of
       Some it \<Rightarrow>
         (case validate_value k (deserialize_value stod str (ci_type it)) m of
            Inl e \<Rightarrow> (m, pending)
          | Inr _ \<Rightarrow>
              (m\<lparr>cm_items := (cm_items m)(k \<mapsto> it\<lparr>ci_value := deserialize_value stod str (ci_type it)\<rparr>)\<rparr>,
               if change_callback_for k m then pending @ [(k, ci_value it, deserialize_value stod str (ci_type it))] else pending))
     | None \<Rightarrow> (m\<lparr>cm_items := (cm_items m)(k \<mapsto> make_item k (deserialize_value stod str (infer_type str)) (infer_type str))\<rparr>, pending))"
proof -
  let ?line = "k @ CHR ''='' # str"
  have "takeWhile (\<lambda>c. c \<noteq> CHR ''='') ?line = k" "dropWhile (\<lambda>c. c \<noteq> CHR ''='') ?line = CHR ''='' # str"
    using split_at [of "CHR ''=''" k str] assms(1) by (simp_all add: clean_key_def)
  moreover have "hd ?line \<noteq> CHR ''#''" using assms(1) by (cases k) (auto simp: clean_key_def)
  ultimately show ?thesis
    using assms unfolding load_line_def by (simp add: clean_key_def clean_def Let_def split: option.split)
qed

lemma comment_ignored: "load_line stod (CHR ''#'' # l) s = s" "load_line stod [] s = s"
  by (simp_all add: load_line_def case_prod_beta)

text \<open>The value of a key, and the items that a file of the manager \<open>src\<close> can restore in the manager \<open>m\<close>.\<close>

definition value_of :: "'d config_manager \<Rightarrow> string \<Rightarrow> 'd any" where
  "value_of m k = ci_value (the (cm_items m k))"

definition savable :: "('d \<Rightarrow> string) \<Rightarrow> (string \<Rightarrow> 'd option) \<Rightarrow> 'd config_manager \<Rightarrow> string \<Rightarrow> bool" where
  "savable sd stod src k \<longleftrightarrow>
     (case cm_items src k of
        None \<Rightarrow> False
      | Some it \<Rightarrow> newline \<notin> set (ci_description it) \<and> clean_key k \<and> storable sd stod (ci_type it) (ci_value it))"

definition accepts_from :: "'d config_manager \<Rightarrow> 'd config_manager \<Rightarrow> string \<Rightarrow> bool" where
  "accepts_from src m k \<longleftrightarrow>
     (case (cm_items src k, cm_items m k) of
        (Some it, Some it') \<Rightarrow> ci_type it' = ci_type it \<and> validate_value k (ci_value it) m = Inr ()
      | _ \<Rightarrow> False)"

definition restore :: "'d config_manager \<Rightarrow> string list \<Rightarrow> 'd config_manager \<Rightarrow> 'd config_manager" where
  "restore src ks m =
     m\<lparr>cm_items := (\<lambda>k. if k \<in> set ks then map_option (\<lambda>it. it\<lparr>ci_value := value_of src k\<rparr>) (cm_items m k) else cm_items m k)\<rparr>"

definition changes :: "'d config_manager \<Rightarrow> string list \<Rightarrow> 'd config_manager \<Rightarrow> (string \<times> 'd any \<times> 'd any) list" where
  "changes src ks m = map (\<lambda>k. (k, value_of m k, value_of src k)) (filter (\<lambda>k. change_callback_for k m) ks)"

lemma load_items:
  assumes "\<forall>k \<in> set ks. savable sd stod src k" and "\<forall>k \<in> set ks. accepts_from src m k" and "distinct ks"
  shows "fold (load_line stod)
      (getlines (concat (map (\<lambda>k. case cm_items src k of Some it \<Rightarrow> item_text sd k it | None \<Rightarrow> []) ks))) (m, p)
    = (restore src ks m, p @ changes src ks m)"
  using assms
proof (induction ks arbitrary: m p)
  case Nil
  show ?case by (simp add: getlines_empty restore_def changes_def)
next
  case (Cons k ks)
  from Cons.prems(1) obtain it where it: "cm_items src k = Some it" "newline \<notin> set (ci_description it)" "clean_key k"
    "storable sd stod (ci_type it) (ci_value it)" by (auto simp: savable_def split: option.splits)
  from Cons.prems(2) it obtain it' where it': "cm_items m k = Some it'" "ci_type it' = ci_type it" "validate_value k (ci_value it) m = Inr ()"
    by (auto simp: accepts_from_def split: option.splits)
  let ?str = "serialize_value sd (ci_value it) (ci_type it)"
  let ?m = "m\<lparr>cm_items := (cm_items m)(k \<mapsto> it'\<lparr>ci_value := ci_value it\<rparr>)\<rparr>"
  let ?p = "if change_callback_for k m then p @ [(k, ci_value it', ci_value it)] else p"
  note clean = serialize_clean [OF it(4)] and restored = deserialize_serialize [OF it(4)]
  have step: "load_line stod (k @ CHR ''='' # ?str) (m, p) = (?m, ?p)"
    by (simp add: load_assignment [OF it(3) clean] it' restored)
  have other: "accepts_from src ?m j" if "j \<in> set ks" for j
  proof -
    have "j \<noteq> k" "accepts_from src m j" using that Cons.prems(2,3) by auto
    then show ?thesis by (auto simp: accepts_from_def validate_value_def split: option.splits)
  qed
  have ih: "fold (load_line stod)
      (getlines (concat (map (\<lambda>k. case cm_items src k of Some it \<Rightarrow> item_text sd k it | None \<Rightarrow> []) ks))) (?m, ?p)
    = (restore src ks ?m, ?p @ changes src ks ?m)"
    using Cons.IH other Cons.prems(1,3) by simp
  have kept: "change_callback_for j ?m = change_callback_for j m" for j by (simp add: change_callback_for_def)
  have "changes src ks ?m = changes src ks m"
    unfolding changes_def kept by (rule map_cong) (use Cons.prems(3) in \<open>auto simp: value_of_def\<close>)
  moreover have "value_of src k = ci_value it" "value_of m k = ci_value it'" using it it' by (simp_all add: value_of_def)
  ultimately have p': "?p @ changes src ks ?m = p @ changes src (k # ks) m" by (simp add: changes_def)
  have r: "restore src ks ?m = restore src (k # ks) m"
    using it' \<open>value_of src k = ci_value it\<close> Cons.prems(3) by (auto simp: restore_def fun_eq_iff)
  have "load_line stod (''# '' @ l) s = s" for l s by (simp add: comment_ignored)
  then show ?case
    using ih step item_lines [OF it(2,3) clean]
    by (simp add: it(1) comment_ignored r p')
qed

lemma load_saved:
  assumes "\<forall>k \<in> set ks. savable sd stod src k" and "\<forall>k \<in> set ks. accepts_from src m k" and "distinct ks"
  shows "load_from_file stod (Some (save_text sd ks src)) m
    = (True, (restore src ks m)\<lparr>cm_calls := cm_calls m @ changes src ks m\<rparr>)"
proof -
  let ?rest = "concat (map (\<lambda>k. case cm_items src k of Some it \<Rightarrow> item_text sd k it | None \<Rightarrow> []) ks)"
  have "save_text sd ks src = ''# wirestead configuration file'' @ newline # (''# Generated automatically'' @ newline # ([] @ newline # ?rest))"
    by (simp add: save_text_def)
  then have lines: "getlines (save_text sd ks src)
      = ''# wirestead configuration file'' # ''# Generated automatically'' # [] # getlines ?rest"
    by (simp only:) ((subst getlines_line, simp add: newline_def)+, rule refl)
  have calls: "fold (\<lambda>(k, old, new). invoke_change_callback True k old new) cs n = n\<lparr>cm_calls := cm_calls n @ cs\<rparr>" for cs n
    by (induction cs arbitrary: n) (auto simp: invoke_change_callback_def)
  have "fold (load_line stod) (getlines (save_text sd ks src)) (m, []) = (restore src ks m, changes src ks m)"
    using load_items [OF assms, of "[]"] by (simp add: lines comment_ignored)
  then show ?thesis by (simp add: load_from_file_def calls) (simp add: restore_def)
qed

section \<open>Types\<close>

datatype 'd config_op =
    Op_set string "'d any"
  | Op_remove string
  | Op_clear
  | Op_register "'d config_item"
  | Op_validator string "('d any \<Rightarrow> validation_result) option"
  | Op_on_change string bool
  | Op_remove_callback string
  | Op_load "string option"

fun config_apply :: "(string \<Rightarrow> 'd option) \<Rightarrow> 'd config_op \<Rightarrow> 'd config_manager \<Rightarrow> 'd config_manager" where
  "config_apply stod (Op_set k v) m = snd (cm_set k v m)"
| "config_apply stod (Op_remove k) m = snd (cm_remove k m)"
| "config_apply stod Op_clear m = cm_clear m"
| "config_apply stod (Op_register it) m = cm_register_item it m"
| "config_apply stod (Op_validator k c) m = cm_register_validator k c m"
| "config_apply stod (Op_on_change k b) m = cm_on_change k b m"
| "config_apply stod (Op_remove_callback k) m = cm_remove_change_callback k m"
| "config_apply stod (Op_load file) m = snd (load_from_file stod file m)"

text \<open>Every item without a validator holds a value of its type.\<close>

definition well_typed :: "'d config_manager \<Rightarrow> bool" where
  "well_typed m \<longleftrightarrow> (\<forall>k it. cm_items m k = Some it \<longrightarrow> ci_validator it = None \<longrightarrow> ci_type it = actual_type (ci_value it))"

text \<open>
  What an operation must observe: a new key is set to a string only, an item is registered with a value of its type, a
  validator is not taken away, and a line that introduces a new key holds a value that its inferred type can read.
\<close>

definition line_typed :: "(string \<Rightarrow> 'd option) \<Rightarrow> string \<Rightarrow> bool" where
  "line_typed stod line \<longleftrightarrow>
     (let str = trim (tl (dropWhile (\<lambda>c. c \<noteq> CHR ''='') line))
      in actual_type (deserialize_value stod str (infer_type str)) = infer_type str)"

fun keeps_types :: "(string \<Rightarrow> 'd option) \<Rightarrow> 'd config_manager \<Rightarrow> 'd config_op \<Rightarrow> bool" where
  "keeps_types stod m (Op_set k v) \<longleftrightarrow> cm_has k m \<or> actual_type v = CString"
| "keeps_types stod m (Op_register it) \<longleftrightarrow> ci_validator it = None \<longrightarrow> ci_type it = actual_type (ci_value it)"
| "keeps_types stod m (Op_validator k c) \<longleftrightarrow> c \<noteq> None"
| "keeps_types stod m (Op_load file) \<longleftrightarrow> (case file of None \<Rightarrow> True | Some text \<Rightarrow> list_all (line_typed stod) (getlines text))"
| "keeps_types stod m _ \<longleftrightarrow> True"

fun typed_history :: "(string \<Rightarrow> 'd option) \<Rightarrow> 'd config_op list \<Rightarrow> 'd config_manager \<Rightarrow> bool" where
  "typed_history stod [] m \<longleftrightarrow> True"
| "typed_history stod (op # ops) m \<longleftrightarrow> keeps_types stod m op \<and> typed_history stod ops (config_apply stod op m)"

lemma well_typed_update:
  assumes "well_typed m" and "ci_validator it = None \<Longrightarrow> ci_type it = actual_type (ci_value it)"
  shows "well_typed (m\<lparr>cm_items := (cm_items m)(k \<mapsto> it)\<rparr>)"
  using assms by (simp add: well_typed_def)

lemma well_typed_frame [simp]:
  "well_typed (m\<lparr>cm_calls := c\<rparr>) = well_typed m" "well_typed (m\<lparr>cm_callbacks := b\<rparr>) = well_typed m"
  by (simp_all add: well_typed_def)

lemma invoke_well_typed [simp]: "well_typed (invoke_change_callback c k a b m) = well_typed m"
  by (simp add: invoke_change_callback_def)

lemma validated_type:
  "validate_value k v m = Inr () \<Longrightarrow> cm_items m k = Some it \<Longrightarrow> ci_validator it = None \<Longrightarrow> ci_type it = actual_type v"
  by (simp add: validate_value_def split: if_splits)

lemma set_typed:
  assumes m: "well_typed m" and v: "cm_has k m \<or> actual_type v = CString"
  shows "well_typed (snd (cm_set k v m))"
proof (cases "validate_value k v m")
  case (Inl e)
  with m show ?thesis by (simp add: cm_set_def)
next
  case (Inr u)
  show ?thesis
  proof (cases "cm_items m k")
    case None
    with v have "actual_type v = CString" by (simp add: cm_has_def)
    with None Inr well_typed_update [OF m, of "make_item k v CString" k] show ?thesis by (simp add: cm_set_def make_item_def)
  next
    case (Some it)
    with Inr well_typed_update [OF m, of "it\<lparr>ci_value := v\<rparr>" k] validated_type [of k v m it] show ?thesis
      by (simp add: cm_set_def Let_def)
  qed
qed

lemma load_line_typed:
  assumes m: "well_typed m" and l: "line_typed stod line"
  shows "well_typed (fst (load_line stod line (m, p)))"
proof (cases "line = [] \<or> hd line = CHR ''#'' \<or> CHR ''='' \<notin> set line")
  case True
  with m show ?thesis by (auto simp: load_line_def)
next
  case False
  define key where "key = trim (takeWhile (\<lambda>c. c \<noteq> CHR ''='') line)"
  define str where "str = trim (tl (dropWhile (\<lambda>c. c \<noteq> CHR ''='') line))"
  show ?thesis
  proof (cases "cm_items m key")
    case None
    with False well_typed_update [OF m, of "make_item key (deserialize_value stod str (infer_type str)) (infer_type str)" key] l
    show ?thesis by (simp add: load_line_def line_typed_def key_def [symmetric] str_def [symmetric] make_item_def Let_def)
  next
    case (Some it)
    let ?v = "deserialize_value stod str (ci_type it)"
    have "well_typed (fst (case validate_value key ?v m of Inl e \<Rightarrow> (m, p)
        | Inr _ \<Rightarrow> (m\<lparr>cm_items := (cm_items m)(key \<mapsto> it\<lparr>ci_value := ?v\<rparr>)\<rparr>, q)))" for q :: "(string \<times> 'a any \<times> 'a any) list"
      using m well_typed_update [OF m, of "it\<lparr>ci_value := ?v\<rparr>" key] validated_type [of key ?v m it] Some
      by (simp split: sum.split)
    with False Some show ?thesis by (simp add: load_line_def key_def [symmetric] str_def [symmetric] Let_def)
  qed
qed

lemma load_typed:
  assumes "well_typed m" and "list_all (line_typed stod) (getlines text)"
  shows "well_typed (snd (load_from_file stod (Some text) m))"
proof -
  have lines: "well_typed (fst (fold (load_line stod) ls (n, p)))" if "well_typed n" "list_all (line_typed stod) ls" for ls n p
    using that
  proof (induction ls arbitrary: n p)
    case (Cons l ls)
    obtain n' p' where l: "load_line stod l (n, p) = (n', p')" by fastforce
    with load_line_typed [of n stod l p] Cons show ?case by simp
  qed simp
  have calls: "well_typed (fold (\<lambda>(k, old, new). invoke_change_callback True k old new) cs n) = well_typed n" for cs n
    by (induction cs arbitrary: n) (simp_all add: case_prod_beta)
  obtain m1 pending where f: "fold (load_line stod) (getlines text) (m, []) = (m1, pending)" by fastforce
  have "well_typed m1" using lines [OF assms, of "[]"] by (simp add: f)
  then show ?thesis by (simp add: load_from_file_def f calls)
qed

lemma apply_typed:
  assumes "well_typed m" and "keeps_types stod m op"
  shows "well_typed (config_apply stod op m)"
proof (cases op)
  case (Op_validator k c)
  with assms show ?thesis
    by (auto simp: cm_register_validator_def intro!: well_typed_update split: option.split)
next
  case (Op_register it)
  with assms show ?thesis by (auto simp: cm_register_item_def intro!: well_typed_update)
next
  case (Op_load f)
  with assms load_typed show ?thesis by (cases f) (auto simp: load_from_file_def)
next
  case (Op_set k v)
  with assms set_typed show ?thesis by auto
qed (use assms in \<open>auto simp: cm_remove_def cm_clear_def cm_on_change_def cm_remove_change_callback_def well_typed_def\<close>)

lemma history_typed: "well_typed m \<Longrightarrow> typed_history stod ops m \<Longrightarrow> well_typed (fold (config_apply stod) ops m)"
  by (induction ops arbitrary: m) (simp_all add: apply_typed)

section \<open>Properties\<close>


definition demo_item :: "unit config_item" where
  "demo_item = \<lparr>ci_key = ''port'', ci_value = Any_int 8080, ci_type = CInteger, ci_required = True, ci_description = ''listen port'',
     ci_validator = None\<rparr>"




text \<open>
  A key that was never registered cannot hold a number. \<open>set\<close> accepts the first number for it but files it under the type
  string: from then on validation fails, every further number is refused, and the file that is saved says \<open>unknown\<close>.
\<close>

lemma config_new_key_mistyped:
  assumes "cm_items m k = None"
  shows "fst (cm_set k (Any_int n) m) = Inr () \<and> cm_get k (snd (cm_set k (Any_int n) m)) = Inr (Any_int n)
    \<and> cm_validate_key k (snd (cm_set k (Any_int n) m)) \<noteq> Inr ()
    \<and> (\<forall>n'. fst (cm_set k (Any_int n') (snd (cm_set k (Any_int n) m))) \<noteq> Inr ())
    \<and> save_text show_double [k] (snd (cm_set k (Any_int n) m))
        = save_text show_double [] m @ ''# '' @ [newline] @ k @ ''=unknown'' @ [newline, newline]"
  using assms
  by (simp add: cm_set_def validate_value_def cm_get_def cm_validate_key_def make_item_def actual_type_def save_text_def item_text_def
      serialize_value_def)

text \<open>An empty value for a new key looks like an integer, since every one of its characters is a digit, but cannot be read as one.\<close>

lemma config_empty_value_mistyped: "infer_type [] = CInteger \<and> deserialize_value stod [] CInteger = Any_string [] \<and> \<not> line_typed stod ''key=''"
  by (simp add: infer_type_def deserialize_value_def any_stoi_def line_typed_def trim_def actual_type_def Let_def)

end
