(* ===== verification/Memory_Pool.thy ===== *)
theory Memory_Pool
  imports Wire_Prelude "HOL-Library.Multiset"
begin

text \<open>
  \<open>MemoryPool\<close> and \<open>PooledBuffer\<close> (\<open>src/wirestead/memory/memory_pool.hpp\<close>, \<open>.cc\<close>): four stacks of buffers of fixed sizes, larger
  buffers straight from the allocator, and the owner object that returns its buffer when it dies.

  A buffer is an address; \<open>mp_heap\<close> is the allocator: it maps the address of every live allocation to its size, so that a
  freed address is not in it any more. \<open>ok\<close> says whether an allocation succeeds. Each access to a bucket is under its
  mutex and the counters are atomic, so an operation is one step here. Not modelled: \<open>MemoryTracker\<close> and the hit rate.
\<close>

section \<open>The pool\<close>

definition SMALL :: nat where "SMALL = 1024"
definition MEDIUM :: nat where "MEDIUM = 4096"
definition LARGE :: nat where "LARGE = 16384"
definition XLARGE :: nat where "XLARGE = 65536"

lemmas pool_sizes = SMALL_def MEDIUM_def LARGE_def XLARGE_def

definition MAX_POOLED :: nat where "MAX_POOLED = 64 * 1024 * 1024"

definition BUCKET_SIZES :: "nat list" where
  "BUCKET_SIZES = [SMALL, MEDIUM, LARGE, XLARGE]"

record pool_bucket =
  bk_buffers :: "nat list"
  bk_size :: nat
  bk_capacity :: nat

record memory_pool =
  mp_buckets :: "pool_bucket list"
  mp_total :: "64 word"
  mp_hits :: "64 word"
  mp_outstanding :: "64 word"
  mp_peak :: "64 word"
  mp_heap :: "nat \<rightharpoonup> nat"
  mp_fresh :: nat

definition create_buffer :: "bool \<Rightarrow> nat \<Rightarrow> memory_pool \<Rightarrow> exn + (nat \<times> memory_pool)" where
  "create_buffer ok sz p =
     (if ok then Inr (mp_fresh p, p\<lparr>mp_heap := (mp_heap p)(mp_fresh p \<mapsto> sz), mp_fresh := mp_fresh p + 1\<rparr>) else Inl Bad_alloc)"

definition free_buffer :: "nat \<Rightarrow> memory_pool \<Rightarrow> memory_pool" where
  "free_buffer b p = p\<lparr>mp_heap := (mp_heap p)(b := None)\<rparr>"

text \<open>The constructor, with the prefill; it throws when an allocation fails, so here they succeed.\<close>

definition empty_bucket :: "nat \<Rightarrow> nat \<Rightarrow> pool_bucket" where
  "empty_bucket max_pool_size sz = \<lparr>bk_buffers = [], bk_size = sz, bk_capacity = max_pool_size div 4\<rparr>"

fun prefill_bucket :: "nat \<Rightarrow> nat \<Rightarrow> memory_pool \<Rightarrow> memory_pool" where
  "prefill_bucket i 0 p = p"
| "prefill_bucket i (Suc n) p =
     (case create_buffer True (bk_size (mp_buckets p ! i)) p of
        Inl e \<Rightarrow> p
      | Inr (b, p1) \<Rightarrow>
          prefill_bucket i n
            (p1\<lparr>mp_buckets := (mp_buckets p1)[i := (mp_buckets p1 ! i)\<lparr>bk_buffers := bk_buffers (mp_buckets p1 ! i) @ [b]\<rparr>]\<rparr>))"

definition new_pool :: "nat \<Rightarrow> nat \<Rightarrow> memory_pool" where
  "new_pool initial_pool_size max_pool_size =
     (let p = \<lparr>mp_buckets = map (empty_bucket max_pool_size) BUCKET_SIZES, mp_total = 0, mp_hits = 0, mp_outstanding = 0, mp_peak = 0,
               mp_heap = Map.empty, mp_fresh = 0\<rparr>;
          count = min (initial_pool_size div 4) (max_pool_size div 4)
      in fold (\<lambda>i. prefill_bucket i count) [0, 1, 2, 3] p)"

definition bucket_index :: "nat \<Rightarrow> nat" where
  "bucket_index sz = (if sz \<le> SMALL then 0 else if sz \<le> MEDIUM then 1 else if sz \<le> LARGE then 2 else 3)"

definition validate_size :: "nat \<Rightarrow> bool" where
  "validate_size sz \<longleftrightarrow> \<not> (sz = 0 \<or> sz > MAX_POOLED)"

definition track_acquire :: "nat \<Rightarrow> memory_pool \<Rightarrow> memory_pool" where
  "track_acquire sz p =
     (let new_outstanding = mp_outstanding p + of_nat sz
      in p\<lparr>mp_outstanding := new_outstanding, mp_peak := (if new_outstanding > mp_peak p then new_outstanding else mp_peak p)\<rparr>)"

definition track_release :: "nat \<Rightarrow> memory_pool \<Rightarrow> memory_pool" where
  "track_release sz p = p\<lparr>mp_outstanding := mp_outstanding p - of_nat sz\<rparr>"

definition acquire_from_bucket :: "bool \<Rightarrow> nat \<Rightarrow> memory_pool \<Rightarrow> exn + (nat \<times> memory_pool)" where
  "acquire_from_bucket ok i p =
     (let bkt = mp_buckets p ! i
      in if bk_buffers bkt \<noteq> [] then
           Inr (last (bk_buffers bkt),
                p\<lparr>mp_buckets := (mp_buckets p)[i := bkt\<lparr>bk_buffers := butlast (bk_buffers bkt)\<rparr>],
                  mp_hits := mp_hits p + 1, mp_total := mp_total p + 1\<rparr>)
         else case create_buffer ok (bk_size bkt) p of
           Inl e \<Rightarrow> Inl e
         | Inr (b, p1) \<Rightarrow> Inr (b, p1\<lparr>mp_total := mp_total p1 + 1\<rparr>))"

definition pool_acquire :: "bool \<Rightarrow> nat \<Rightarrow> memory_pool \<Rightarrow> exn + (nat \<times> memory_pool)" where
  "pool_acquire ok sz p =
     (if \<not> validate_size sz then Inl Invalid_argument
      else if sz > XLARGE then
        (case create_buffer ok sz p of
           Inl e \<Rightarrow> Inl e
         | Inr (b, p1) \<Rightarrow> Inr (b, track_acquire sz (p1\<lparr>mp_total := mp_total p1 + 1\<rparr>)))
      else
        (case acquire_from_bucket ok (bucket_index sz) p of
           Inl e \<Rightarrow> Inl e
         | Inr (b, p1) \<Rightarrow> Inr (b, track_acquire (bk_size (mp_buckets p ! bucket_index sz)) p1)))"

definition release_to_bucket :: "nat \<Rightarrow> nat \<Rightarrow> memory_pool \<Rightarrow> memory_pool" where
  "release_to_bucket i b p =
     (let bkt = mp_buckets p ! i
      in if length (bk_buffers bkt) < bk_capacity bkt
         then p\<lparr>mp_buckets := (mp_buckets p)[i := bkt\<lparr>bk_buffers := bk_buffers bkt @ [b]\<rparr>]\<rparr>
         else free_buffer b p)"

text \<open>The buffer is passed by value: it is freed as well when the size is refused.\<close>

definition pool_release :: "nat option \<Rightarrow> nat \<Rightarrow> memory_pool \<Rightarrow> exn option \<times> memory_pool" where
  "pool_release buffer sz p =
     (case buffer of
        None \<Rightarrow> (None, p)
      | Some b \<Rightarrow>
          if \<not> validate_size sz then (Some Invalid_argument, free_buffer b p)
          else if sz > XLARGE then (None, track_release sz (free_buffer b p))
          else (None, release_to_bucket (bucket_index sz) b (track_release (bk_size (mp_buckets p ! bucket_index sz)) p)))"

section \<open>Owners\<close>

record pooled_buffer =
  pb_buffer :: "nat option"
  pb_size :: nat
  pb_pool :: bool

definition pooled_make :: "bool \<Rightarrow> nat \<Rightarrow> memory_pool \<Rightarrow> exn + (pooled_buffer \<times> memory_pool)" where
  "pooled_make ok sz p =
     (case pool_acquire ok sz p of
        Inl e \<Rightarrow> Inl e
      | Inr (b, p1) \<Rightarrow> Inr (\<lparr>pb_buffer = Some b, pb_size = sz, pb_pool = True\<rparr>, p1))"

definition pooled_drop :: "pooled_buffer \<Rightarrow> memory_pool \<Rightarrow> memory_pool" where
  "pooled_drop own p = (if pb_buffer own \<noteq> None \<and> pb_pool own then snd (pool_release (pb_buffer own) (pb_size own) p) else p)"

definition moved_from :: pooled_buffer where
  "moved_from = \<lparr>pb_buffer = None, pb_size = 0, pb_pool = False\<rparr>"

definition pooled_at :: "nat \<Rightarrow> pooled_buffer \<Rightarrow> exn + nat \<times> nat" where
  "pooled_at index own =
     (case pb_buffer own of
        None \<Rightarrow> Inl Out_of_range
      | Some b \<Rightarrow> if index \<ge> pb_size own then Inl Out_of_range else Inr (b, index))"

text \<open>The owners that exist; \<open>None\<close> is one that has been destroyed.\<close>

record pool_world =
  pw_pool :: memory_pool
  pw_owners :: "pooled_buffer option list"

datatype pool_event =
    Make_buffer bool nat
  | Drop_owner nat
  | Move_construct nat
  | Move_assign nat nat

fun pool_step :: "pool_event \<Rightarrow> pool_world \<Rightarrow> pool_world option" where
  "pool_step (Make_buffer ok sz) w =
     (case pooled_make ok sz (pw_pool w) of
        Inl e \<Rightarrow> Some w
      | Inr (own, p) \<Rightarrow> Some \<lparr>pw_pool = p, pw_owners = pw_owners w @ [Some own]\<rparr>)"
| "pool_step (Drop_owner i) w =
     (if i < length (pw_owners w) then
        (case pw_owners w ! i of
           None \<Rightarrow> None
         | Some own \<Rightarrow> Some \<lparr>pw_pool = pooled_drop own (pw_pool w), pw_owners = (pw_owners w)[i := None]\<rparr>)
      else None)"
| "pool_step (Move_construct i) w =
     (if i < length (pw_owners w) then
        (case pw_owners w ! i of
           None \<Rightarrow> None
         | Some own \<Rightarrow> Some (w\<lparr>pw_owners := (pw_owners w)[i := Some moved_from] @ [Some own]\<rparr>))
      else None)"
| "pool_step (Move_assign i j) w =
     (if i < length (pw_owners w) \<and> j < length (pw_owners w) then
        (case (pw_owners w ! i, pw_owners w ! j) of
           (Some this, Some other) \<Rightarrow>
             if i = j then Some w
             else Some \<lparr>pw_pool = pooled_drop this (pw_pool w), pw_owners = (pw_owners w)[i := Some other, j := Some moved_from]\<rparr>
         | _ \<Rightarrow> None)
      else None)"

definition new_pool_world :: "nat \<Rightarrow> nat \<Rightarrow> pool_world" where
  "new_pool_world initial max_size = \<lparr>pw_pool = new_pool initial max_size, pw_owners = []\<rparr>"

section \<open>Invariant\<close>

text \<open>The bytes a buffer of a requested size really has.\<close>

definition charge :: "nat \<Rightarrow> nat" where
  "charge n = (if n > XLARGE then n else BUCKET_SIZES ! bucket_index n)"

lemma charge_ge: "n \<le> charge n"
  by (simp add: charge_def BUCKET_SIZES_def bucket_index_def pool_sizes)

lemma bucket_index_bound: "bucket_index n < 4"
  by (simp add: bucket_index_def)

definition pooled :: "memory_pool \<Rightarrow> nat list" where
  "pooled p = concat (map bk_buffers (mp_buckets p))"

definition bucket_ok :: "memory_pool \<Rightarrow> pool_bucket \<Rightarrow> bool" where
  "bucket_ok p k \<longleftrightarrow> length (bk_buffers k) \<le> bk_capacity k \<and> (\<forall>b \<in> set (bk_buffers k). mp_heap p b = Some (bk_size k))"

text \<open>
  \<open>loose\<close> are the buffers that are out of the pool. Together with those in the pool they are exactly the live
  allocations, each once.
\<close>

definition pool_ok :: "memory_pool \<Rightarrow> nat multiset \<Rightarrow> bool" where
  "pool_ok p loose \<longleftrightarrow>
     map bk_size (mp_buckets p) = BUCKET_SIZES \<and> list_all (bucket_ok p) (mp_buckets p)
     \<and> (\<forall>b \<in> dom (mp_heap p). b < mp_fresh p) \<and> finite (dom (mp_heap p))
     \<and> loose + mset (pooled p) = mset_set (dom (mp_heap p))"

lemma mset_concat_update:
  "i < length xs \<Longrightarrow> mset (concat (map f (xs[i := x]))) + mset (f (xs ! i)) = mset (concat (map f xs)) + mset (f x)"
proof (induction xs arbitrary: i)
  case (Cons y ys)
  then show ?case by (cases i) (auto simp: ac_simps)
qed simp

lemma pool_ok_index:
  assumes "pool_ok p l" and "i < 4"
  shows "i < length (mp_buckets p)" "bk_size (mp_buckets p ! i) = BUCKET_SIZES ! i" "bucket_ok p (mp_buckets p ! i)"
proof -
  have m: "map bk_size (mp_buckets p) = BUCKET_SIZES" using assms by (simp add: pool_ok_def)
  have "length (map bk_size (mp_buckets p)) = 4" unfolding m by (simp add: BUCKET_SIZES_def)
  then show i: "i < length (mp_buckets p)" using assms by simp
  then show "bk_size (mp_buckets p ! i) = BUCKET_SIZES ! i" using m by (metis nth_map)
  show "bucket_ok p (mp_buckets p ! i)" using assms(1) i by (simp add: pool_ok_def list_all_length)
qed

lemma bucket_live:
  assumes "pool_ok p l"
  shows "b \<in># l \<Longrightarrow> b \<in> dom (mp_heap p)" "k \<in> set (mp_buckets p) \<Longrightarrow> b \<in> set (bk_buffers k) \<Longrightarrow> b \<in> dom (mp_heap p)"
proof -
  have fin: "finite (dom (mp_heap p))" and eq: "l + mset (pooled p) = mset_set (dom (mp_heap p))"
    using assms by (simp_all add: pool_ok_def)
  have s: "set_mset l \<union> set (pooled p) = dom (mp_heap p)"
    using arg_cong [OF eq, of set_mset] fin by simp
  then show "b \<in># l \<Longrightarrow> b \<in> dom (mp_heap p)" by blast
  show "k \<in> set (mp_buckets p) \<Longrightarrow> b \<in> set (bk_buffers k) \<Longrightarrow> b \<in> dom (mp_heap p)"
    using s by (auto simp: pooled_def)
qed

text \<open>A fresh allocation is loose.\<close>

lemma create_ok:
  assumes ok: "pool_ok p l" and c: "create_buffer a n p = Inr (b, p')"
  shows "pool_ok p' (add_mset b l)" "mp_heap p' b = Some n" "\<And>c. c \<in># l \<Longrightarrow> mp_heap p' c = mp_heap p c"
    "mp_buckets p' = mp_buckets p" "mp_outstanding p' = mp_outstanding p"
proof -
  have p': "b = mp_fresh p" "p' = p\<lparr>mp_heap := (mp_heap p)(mp_fresh p \<mapsto> n), mp_fresh := mp_fresh p + 1\<rparr>"
    using c by (auto simp: create_buffer_def split: if_splits)
  have new: "mp_fresh p \<notin> dom (mp_heap p)" using ok by (auto simp: pool_ok_def)
  show "mp_heap p' b = Some n" "mp_buckets p' = mp_buckets p" "mp_outstanding p' = mp_outstanding p" by (simp_all add: p')
  show "\<And>c. c \<in># l \<Longrightarrow> mp_heap p' c = mp_heap p c" using new bucket_live(1) [OF ok] by (auto simp: p')
  have "bucket_ok p' k" if "k \<in> set (mp_buckets p)" for k
    using that ok new bucket_live(2) [OF ok that] by (auto simp: bucket_ok_def pool_ok_def list_all_iff p')
  then show "pool_ok p' (add_mset b l)"
    using ok new by (auto simp: pool_ok_def list_all_iff p' pooled_def less_Suc_eq)
qed

text \<open>A bucket takes a loose buffer of its size, and gives its last one back.\<close>

lemma push_ok:
  assumes ok: "pool_ok p (add_mset b l)" and i: "i < 4" and room: "length (bk_buffers (mp_buckets p ! i)) < bk_capacity (mp_buckets p ! i)"
    and b: "mp_heap p b = Some (bk_size (mp_buckets p ! i))"
  shows "pool_ok (p\<lparr>mp_buckets := (mp_buckets p)[i := (mp_buckets p ! i)\<lparr>bk_buffers := bk_buffers (mp_buckets p ! i) @ [b]\<rparr>]\<rparr>) l"
proof -
  let ?k = "mp_buckets p ! i"
  let ?k' = "?k\<lparr>bk_buffers := bk_buffers ?k @ [b]\<rparr>"
  let ?p = "p\<lparr>mp_buckets := (mp_buckets p)[i := ?k']\<rparr>"
  note f = pool_ok_index [OF ok i]
  have "mset (pooled ?p) + mset (bk_buffers ?k) = mset (pooled p) + mset (bk_buffers ?k')"
    using mset_concat_update [OF f(1), of bk_buffers ?k'] by (simp add: pooled_def)
  then have "mset (pooled ?p) = add_mset b (mset (pooled p))" by simp
  moreover have "map bk_size ((mp_buckets p)[i := ?k']) = map bk_size (mp_buckets p)"
    using f(1) by (simp add: map_update list_update_same_conv)
  moreover have "bucket_ok ?p ?k'" using f(3) room b by (auto simp: bucket_ok_def)
  moreover have "bucket_ok ?p k = bucket_ok p k" for k by (simp add: bucket_ok_def)
  ultimately show ?thesis
    using ok by (auto simp: pool_ok_def list_all_iff dest!: set_update_subset_insert [THEN subsetD])
qed

lemma pop_ok:
  assumes ok: "pool_ok p l" and i: "i < 4" and ne: "bk_buffers (mp_buckets p ! i) \<noteq> []"
  shows "pool_ok (p\<lparr>mp_buckets := (mp_buckets p)[i := (mp_buckets p ! i)\<lparr>bk_buffers := butlast (bk_buffers (mp_buckets p ! i))\<rparr>]\<rparr>)
      (add_mset (last (bk_buffers (mp_buckets p ! i))) l)"
    and "mp_heap p (last (bk_buffers (mp_buckets p ! i))) = Some (bk_size (mp_buckets p ! i))"
proof -
  let ?k = "mp_buckets p ! i"
  let ?k' = "?k\<lparr>bk_buffers := butlast (bk_buffers ?k)\<rparr>"
  let ?p = "p\<lparr>mp_buckets := (mp_buckets p)[i := ?k']\<rparr>"
  note f = pool_ok_index [OF ok i]
  show "mp_heap p (last (bk_buffers ?k)) = Some (bk_size ?k)" using f(3) ne by (simp add: bucket_ok_def)
  have "mset (bk_buffers ?k) = add_mset (last (bk_buffers ?k)) (mset (butlast (bk_buffers ?k)))"
    using arg_cong [OF append_butlast_last_id [OF ne], of mset] by simp
  moreover have "mset (pooled ?p) + mset (bk_buffers ?k) = mset (pooled p) + mset (bk_buffers ?k')"
    using mset_concat_update [OF f(1), of bk_buffers ?k'] by (simp add: pooled_def)
  ultimately have e: "add_mset (last (bk_buffers ?k)) (mset (pooled ?p)) = mset (pooled p)" by simp
  have "add_mset (last (bk_buffers ?k)) l + mset (pooled ?p) = l + add_mset (last (bk_buffers ?k)) (mset (pooled ?p))" by simp
  also have "\<dots> = mset_set (dom (mp_heap p))" unfolding e using ok by (simp add: pool_ok_def)
  finally have "add_mset (last (bk_buffers ?k)) l + mset (pooled ?p) = mset_set (dom (mp_heap p))" .
  moreover have "map bk_size ((mp_buckets p)[i := ?k']) = map bk_size (mp_buckets p)"
    using f(1) by (simp add: map_update list_update_same_conv)
  moreover have "bucket_ok ?p ?k'" using f(3) by (auto simp: bucket_ok_def dest: in_set_butlastD)
  moreover have "bucket_ok ?p k = bucket_ok p k" for k by (simp add: bucket_ok_def)
  ultimately show "pool_ok ?p (add_mset (last (bk_buffers ?k)) l)"
    using ok by (auto simp: pool_ok_def list_all_iff dest!: set_update_subset_insert [THEN subsetD])
qed

lemma free_ok:
  assumes ok: "pool_ok p (add_mset b l)"
  shows "pool_ok (free_buffer b p) l" "\<And>c. c \<in># l \<Longrightarrow> mp_heap (free_buffer b p) c = mp_heap p c"
proof -
  let ?D = "dom (mp_heap p)"
  have fin: "finite ?D" and eq: "add_mset b l + mset (pooled p) = mset_set ?D" using ok by (simp_all add: pool_ok_def)
  have b: "b \<in> ?D" using bucket_live(1) [OF ok, of b] by simp
  have "count (add_mset b l + mset (pooled p)) b = 1" unfolding eq using fin b by simp
  then have nb: "b \<notin># l" "b \<notin> set (pooled p)" by (simp_all add: not_in_iff count_mset_0_iff)
  then show "\<And>c. c \<in># l \<Longrightarrow> mp_heap (free_buffer b p) c = mp_heap p c" by (auto simp: free_buffer_def)
  have "mset_set (?D - {b}) = l + mset (pooled p)" using fin b by (simp add: mset_set_Diff flip: eq)
  moreover have "bucket_ok (free_buffer b p) k" if "k \<in> set (mp_buckets p)" for k
    using that ok nb(2) by (auto simp: bucket_ok_def pool_ok_def list_all_iff free_buffer_def pooled_def)
  ultimately show "pool_ok (free_buffer b p) l"
    using ok by (auto simp: pool_ok_def list_all_iff free_buffer_def pooled_def)
qed

lemma pool_ok_counters [simp]:
  "pool_ok (p\<lparr>mp_total := x\<rparr>) l = pool_ok p l" "pool_ok (p\<lparr>mp_hits := x\<rparr>) l = pool_ok p l"
  "pool_ok (p\<lparr>mp_outstanding := x\<rparr>) l = pool_ok p l" "pool_ok (p\<lparr>mp_peak := x\<rparr>) l = pool_ok p l"
  by (simp_all add: pool_ok_def bucket_ok_def pooled_def list_all_iff)

lemma track_sel [simp]:
  "pool_ok (track_acquire n p) l = pool_ok p l" "mp_heap (track_acquire n p) = mp_heap p"
  "mp_outstanding (track_acquire n p) = mp_outstanding p + of_nat n"
  "pool_ok (track_release n p) l = pool_ok p l" "mp_heap (track_release n p) = mp_heap p" "mp_buckets (track_release n p) = mp_buckets p"
  "mp_outstanding (track_release n p) = mp_outstanding p - of_nat n"
  by (simp_all add: track_acquire_def track_release_def Let_def)

lemma bucket_acquire_ok:
  assumes ok: "pool_ok p l" and i: "i < 4" and a: "acquire_from_bucket u i p = Inr (b, p')"
  shows "pool_ok p' (add_mset b l)" "mp_heap p' b = Some (bk_size (mp_buckets p ! i))" "\<And>c. c \<in># l \<Longrightarrow> mp_heap p' c = mp_heap p c"
    "mp_outstanding p' = mp_outstanding p"
proof -
  let ?k = "mp_buckets p ! i"
  have "pool_ok p' (add_mset b l) \<and> mp_heap p' b = Some (bk_size ?k) \<and> (\<forall>c. c \<in># l \<longrightarrow> mp_heap p' c = mp_heap p c)
      \<and> mp_outstanding p' = mp_outstanding p"
  proof (cases "bk_buffers ?k = []")
    case True
    with a obtain p1 where c: "create_buffer u (bk_size ?k) p = Inr (b, p1)" "p' = p1\<lparr>mp_total := mp_total p1 + 1\<rparr>"
      by (auto simp: acquire_from_bucket_def Let_def split: sum.splits)
    with create_ok [OF ok c(1)] show ?thesis by simp
  next
    case False
    with a have f: "b = last (bk_buffers ?k)"
      "p' = p\<lparr>mp_buckets := (mp_buckets p)[i := ?k\<lparr>bk_buffers := butlast (bk_buffers ?k)\<rparr>], mp_hits := mp_hits p + 1, mp_total := mp_total p + 1\<rparr>"
      by (auto simp: acquire_from_bucket_def Let_def)
    from pop_ok [OF ok i False] show ?thesis by (simp add: f)
  qed
  then show "pool_ok p' (add_mset b l)" "mp_heap p' b = Some (bk_size ?k)" "\<And>c. c \<in># l \<Longrightarrow> mp_heap p' c = mp_heap p c"
    "mp_outstanding p' = mp_outstanding p" by blast+
qed

lemma acquire_ok:
  assumes ok: "pool_ok p l" and a: "pool_acquire u n p = Inr (b, p')"
  shows "pool_ok p' (add_mset b l)" "mp_heap p' b = Some (charge n)" "\<And>c. c \<in># l \<Longrightarrow> mp_heap p' c = mp_heap p c"
    "mp_outstanding p' = mp_outstanding p + of_nat (charge n)" "validate_size n"
proof -
  show v: "validate_size n" using a by (simp add: pool_acquire_def split: if_splits)
  have "pool_ok p' (add_mset b l) \<and> mp_heap p' b = Some (charge n) \<and> (\<forall>c. c \<in># l \<longrightarrow> mp_heap p' c = mp_heap p c)
      \<and> mp_outstanding p' = mp_outstanding p + of_nat (charge n)"
  proof (cases "n > XLARGE")
    case True
    with a v obtain p1 where c: "create_buffer u n p = Inr (b, p1)" "p' = track_acquire n (p1\<lparr>mp_total := mp_total p1 + 1\<rparr>)"
      by (auto simp: pool_acquire_def split: sum.splits)
    with create_ok [OF ok c(1)] True show ?thesis by (simp add: charge_def)
  next
    case False
    let ?i = "bucket_index n"
    from False a v obtain p1 where c: "acquire_from_bucket u ?i p = Inr (b, p1)" "p' = track_acquire (bk_size (mp_buckets p ! ?i)) p1"
      by (auto simp: pool_acquire_def split: sum.splits)
    have "bk_size (mp_buckets p ! ?i) = charge n" using pool_ok_index(2) [OF ok bucket_index_bound] False by (simp add: charge_def)
    with bucket_acquire_ok [OF ok bucket_index_bound c(1)] show ?thesis by (simp add: c(2))
  qed
  then show "pool_ok p' (add_mset b l)" "mp_heap p' b = Some (charge n)" "\<And>c. c \<in># l \<Longrightarrow> mp_heap p' c = mp_heap p c"
    "mp_outstanding p' = mp_outstanding p + of_nat (charge n)" by blast+
qed

lemma release_ok:
  assumes ok: "pool_ok p (add_mset b l)" and b: "mp_heap p b = Some (charge n)" and v: "validate_size n"
  shows "pool_ok (snd (pool_release (Some b) n p)) l" "\<And>c. c \<in># l \<Longrightarrow> mp_heap (snd (pool_release (Some b) n p)) c = mp_heap p c"
    "mp_outstanding (snd (pool_release (Some b) n p)) = mp_outstanding p - of_nat (charge n)"
proof -
  let ?r = "snd (pool_release (Some b) n p)"
  have fr: "mp_outstanding (free_buffer b q) = mp_outstanding q" for q by (simp add: free_buffer_def)
  have "pool_ok ?r l \<and> (\<forall>c. c \<in># l \<longrightarrow> mp_heap ?r c = mp_heap p c) \<and> mp_outstanding ?r = mp_outstanding p - of_nat (charge n)"
  proof (cases "n > XLARGE")
    case True
    then have "?r = track_release n (free_buffer b p)" using v by (simp add: pool_release_def)
    with free_ok [OF ok] True show ?thesis by (simp add: charge_def fr)
  next
    case False
    let ?i = "bucket_index n" and ?p = "track_release (charge n) p"
    have s: "bk_size (mp_buckets p ! ?i) = charge n" using pool_ok_index(2) [OF ok bucket_index_bound] False by (simp add: charge_def)
    then have r: "?r = release_to_bucket ?i b ?p" using v False by (simp add: pool_release_def)
    have okp: "pool_ok ?p (add_mset b l)" using ok by simp
    show ?thesis
    proof (cases "length (bk_buffers (mp_buckets p ! ?i)) < bk_capacity (mp_buckets p ! ?i)")
      case True
      with push_ok [OF okp bucket_index_bound, of n] b s show ?thesis by (simp add: r release_to_bucket_def Let_def)
    next
      case full: False
      with free_ok [OF okp] show ?thesis by (simp add: r release_to_bucket_def Let_def fr)
    qed
  qed
  then show "pool_ok ?r l" "\<And>c. c \<in># l \<Longrightarrow> mp_heap ?r c = mp_heap p c"
    "mp_outstanding ?r = mp_outstanding p - of_nat (charge n)" by blast+
qed

lemma prefill_ok:
  assumes "pool_ok p {#}" and "i < 4" and "length (bk_buffers (mp_buckets p ! i)) + n \<le> bk_capacity (mp_buckets p ! i)"
  shows "pool_ok (prefill_bucket i n p) {#} \<and> mp_outstanding (prefill_bucket i n p) = mp_outstanding p
    \<and> (\<forall>j < 4. j \<noteq> i \<longrightarrow> mp_buckets (prefill_bucket i n p) ! j = mp_buckets p ! j)"
  using assms
proof (induction n arbitrary: p)
  case (Suc n)
  let ?k = "mp_buckets p ! i"
  obtain b p1 where c: "create_buffer True (bk_size ?k) p = Inr (b, p1)" by (simp add: create_buffer_def)
  note f = create_ok [OF Suc.prems(1) c]
  define p2 where "p2 = p1\<lparr>mp_buckets := (mp_buckets p1)[i := ?k\<lparr>bk_buffers := bk_buffers ?k @ [b]\<rparr>]\<rparr>"
  have r: "prefill_bucket i (Suc n) p = prefill_bucket i n p2" using c by (simp add: p2_def f)
  have i: "i < length (mp_buckets p)" using pool_ok_index(1) [OF Suc.prems(1,2)] .
  have "pool_ok p2 {#}" unfolding p2_def using push_ok [OF f(1) Suc.prems(2)] Suc.prems(3) f by simp
  moreover have "length (bk_buffers (mp_buckets p2 ! i)) + n \<le> bk_capacity (mp_buckets p2 ! i)" "mp_outstanding p2 = mp_outstanding p"
    "\<forall>j < 4. j \<noteq> i \<longrightarrow> mp_buckets p2 ! j = mp_buckets p ! j"
    using Suc.prems(3) i by (simp_all add: p2_def f)
  ultimately show ?case using Suc.IH [of p2] Suc.prems(2) unfolding r by simp
qed simp

lemma new_pool_ok: "pool_ok (new_pool initial max_size) {#}" "mp_outstanding (new_pool initial max_size) = 0"
proof -
  define p0 where "p0 = \<lparr>mp_buckets = map (empty_bucket max_size) BUCKET_SIZES, mp_total = 0, mp_hits = 0, mp_outstanding = 0,
    mp_peak = 0, mp_heap = Map.empty, mp_fresh = 0 :: nat\<rparr>"
  define c where "c = min (initial div 4) (max_size div 4)"
  have p0: "pool_ok p0 {#}" "mp_outstanding p0 = 0"
    by (simp_all add: p0_def pool_ok_def BUCKET_SIZES_def empty_bucket_def bucket_ok_def pooled_def)
  have room: "length (bk_buffers (mp_buckets p0 ! i)) + c \<le> bk_capacity (mp_buckets p0 ! i)" if "i < 4" for i
  proof -
    have "i < length BUCKET_SIZES" using that by (simp add: BUCKET_SIZES_def)
    then show ?thesis by (simp add: p0_def empty_bucket_def c_def)
  qed
  have "pool_ok (fold (\<lambda>i. prefill_bucket i c) is p) {#} \<and> mp_outstanding (fold (\<lambda>i. prefill_bucket i c) is p) = mp_outstanding p"
    if "pool_ok p {#}" "distinct is" "\<forall>i \<in> set is. i < 4 \<and> mp_buckets p ! i = mp_buckets p0 ! i" for p "is"
    using that
  proof (induction "is" arbitrary: p)
    case (Cons i "is")
    then have "pool_ok (prefill_bucket i c p) {#} \<and> mp_outstanding (prefill_bucket i c p) = mp_outstanding p
        \<and> (\<forall>j < 4. j \<noteq> i \<longrightarrow> mp_buckets (prefill_bucket i c p) ! j = mp_buckets p ! j)"
      using room [of i] by (intro prefill_ok) simp_all
    moreover from this have "\<forall>j \<in> set is. j < 4 \<and> mp_buckets (prefill_bucket i c p) ! j = mp_buckets p0 ! j"
      using Cons.prems(2,3) by (metis distinct.simps(2) list.set_intros(2))
    ultimately show ?case using Cons.IH [of "prefill_bucket i c p"] Cons.prems(2) by simp
  qed simp
  from this [OF p0(1), of "[0, 1, 2, 3]"]
  have f: "pool_ok (fold (\<lambda>i. prefill_bucket i c) [0, 1, 2, 3] p0) {#}
      \<and> mp_outstanding (fold (\<lambda>i. prefill_bucket i c) [0, 1, 2, 3] p0) = mp_outstanding p0"
    by (simp del: fold_simps)
  have n: "new_pool initial max_size = fold (\<lambda>i. prefill_bucket i c) [0, 1, 2, 3] p0"
    unfolding new_pool_def Let_def p0_def c_def by (rule refl)
  show "pool_ok (new_pool initial max_size) {#}" "mp_outstanding (new_pool initial max_size) = 0"
    unfolding n using f p0(2) by (simp_all del: fold_simps)
qed

section \<open>Owners and the pool\<close>

definition owner_buffers :: "pooled_buffer option \<Rightarrow> nat list" where
  "owner_buffers x = (case x of None \<Rightarrow> [] | Some own \<Rightarrow> (case pb_buffer own of None \<Rightarrow> [] | Some b \<Rightarrow> [b]))"

definition buffers_held :: "pool_world \<Rightarrow> nat list" where
  "buffers_held w = concat (map owner_buffers (pw_owners w))"

definition owner_charge :: "pooled_buffer option \<Rightarrow> nat" where
  "owner_charge x = (case x of None \<Rightarrow> 0 | Some own \<Rightarrow> if pb_buffer own = None then 0 else charge (pb_size own))"

definition owner_ok :: "memory_pool \<Rightarrow> pooled_buffer option \<Rightarrow> bool" where
  "owner_ok p x \<longleftrightarrow> (\<forall>own b. x = Some own \<longrightarrow> pb_buffer own = Some b \<longrightarrow>
     mp_heap p b = Some (charge (pb_size own)) \<and> validate_size (pb_size own) \<and> pb_pool own)"

definition pool_world_ok :: "pool_world \<Rightarrow> bool" where
  "pool_world_ok w \<longleftrightarrow> pool_ok (pw_pool w) (mset (buffers_held w)) \<and> list_all (owner_ok (pw_pool w)) (pw_owners w)
     \<and> mp_outstanding (pw_pool w) = of_nat (sum_list (map owner_charge (pw_owners w)))"

lemma owner_ok_empty [simp]: "owner_ok p None" "owner_ok p (Some moved_from)"
  by (simp_all add: owner_ok_def moved_from_def)

lemma owner_empty [simp]: "owner_buffers None = []" "owner_buffers (Some moved_from) = []" "owner_charge None = 0" "owner_charge (Some moved_from) = 0"
  by (simp_all add: owner_buffers_def owner_charge_def moved_from_def)

lemma owner_ok_frame:
  "owner_ok p x \<Longrightarrow> (\<And>b. b \<in> set (owner_buffers x) \<Longrightarrow> mp_heap p' b = mp_heap p b) \<Longrightarrow> owner_ok p' x"
  by (auto simp: owner_ok_def owner_buffers_def)

lemma sum_list_replace:
  "i < length xs \<Longrightarrow> sum_list (map f (xs[i := x])) + f (xs ! i) = sum_list (map f xs) + (f x :: nat)"
proof (induction xs arbitrary: i)
  case (Cons y ys)
  then show ?case by (cases i) (auto simp: algebra_simps)
qed simp

text \<open>Dropping the owner at a position leaves the world without its buffer.\<close>

lemma drop_ok:
  assumes w: "pool_world_ok w" and i: "i < length (pw_owners w)" and own: "pw_owners w ! i = Some own"
  shows "pool_world_ok \<lparr>pw_pool = pooled_drop own (pw_pool w), pw_owners = (pw_owners w)[i := None]\<rparr>"
proof (cases "pb_buffer own")
  case None
  have "mset (concat (map owner_buffers ((pw_owners w)[i := None]))) = mset (buffers_held w)"
    using mset_concat_update [OF i, of owner_buffers None] own None by (simp add: buffers_held_def owner_buffers_def)
  moreover have "sum_list (map owner_charge ((pw_owners w)[i := None])) = sum_list (map owner_charge (pw_owners w))"
    using sum_list_replace [OF i, of owner_charge None] own None by (simp add: owner_charge_def)
  ultimately show ?thesis
    using w None by (auto simp: pool_world_ok_def pooled_drop_def buffers_held_def list_all_iff dest!: set_update_subset_insert [THEN subsetD])
next
  case (Some b)
  let ?os = "(pw_owners w)[i := None]"
  let ?p = "pw_pool w"
  let ?q = "snd (pool_release (Some b) (pb_size own) ?p)"
  have "owner_ok ?p (Some own)" using w i own by (metis pool_world_ok_def list_all_length)
  then have oo: "mp_heap ?p b = Some (charge (pb_size own))" "validate_size (pb_size own)" "pb_pool own"
    using Some by (simp_all add: owner_ok_def)
  have h: "mset (buffers_held w) = add_mset b (mset (concat (map owner_buffers ?os)))"
    using mset_concat_update [OF i, of owner_buffers None] own Some by (simp add: buffers_held_def owner_buffers_def)
  have s: "sum_list (map owner_charge (pw_owners w)) = sum_list (map owner_charge ?os) + charge (pb_size own)"
    using sum_list_replace [OF i, of owner_charge None] own Some by (simp add: owner_charge_def)
  have "pool_ok ?p (add_mset b (mset (concat (map owner_buffers ?os))))" using w by (simp add: pool_world_ok_def flip: h)
  note r = release_ok [OF this oo(1,2)]
  have "owner_ok ?q x" if "x \<in> set ?os" for x
  proof (rule owner_ok_frame [of ?p])
    show "owner_ok ?p x" using w that set_update_subset_insert [of "pw_owners w" i None] by (auto simp: pool_world_ok_def list_all_iff)
    show "mp_heap ?q c = mp_heap ?p c" if "c \<in> set (owner_buffers x)" for c
      using r(2) [of c] \<open>x \<in> set ?os\<close> that by auto
  qed
  moreover have "mp_outstanding ?q = of_nat (sum_list (map owner_charge ?os))" using w by (simp add: r(3) pool_world_ok_def s)
  ultimately show ?thesis
    using r(1) oo(3) Some by (auto simp: pool_world_ok_def pooled_drop_def buffers_held_def list_all_iff)
qed

lemma make_ok:
  assumes w: "pool_world_ok w" and m: "pooled_make u n (pw_pool w) = Inr (own, p)"
  shows "pool_world_ok \<lparr>pw_pool = p, pw_owners = pw_owners w @ [Some own]\<rparr>"
proof -
  obtain b where b: "pool_acquire u n (pw_pool w) = Inr (b, p)" "own = \<lparr>pb_buffer = Some b, pb_size = n, pb_pool = True\<rparr>"
    using m by (auto simp: pooled_make_def split: sum.splits)
  have "pool_ok (pw_pool w) (mset (buffers_held w))" using w by (simp add: pool_world_ok_def)
  note r = acquire_ok [OF this b(1)]
  have "owner_ok p x" if "x \<in> set (pw_owners w)" for x
  proof (rule owner_ok_frame [of "pw_pool w"])
    show "owner_ok (pw_pool w) x" using w that by (simp add: pool_world_ok_def list_all_iff)
    show "mp_heap p c = mp_heap (pw_pool w) c" if "c \<in> set (owner_buffers x)" for c
      using r(3) [of c] \<open>x \<in> set (pw_owners w)\<close> that by (auto simp: buffers_held_def)
  qed
  moreover have "owner_ok p (Some own)" using r by (simp add: owner_ok_def b(2))
  moreover have "mp_outstanding p = of_nat (sum_list (map owner_charge (pw_owners w)) + charge n)"
    using w by (simp add: r(4) pool_world_ok_def)
  ultimately show ?thesis
    using r(1) by (simp add: pool_world_ok_def buffers_held_def owner_buffers_def owner_charge_def b(2) list_all_iff)
qed

text \<open>Moving an owner to an empty position.\<close>

lemma move_ok:
  assumes w: "pool_world_ok \<lparr>pw_pool = p, pw_owners = os\<rparr>" and i: "i < length os" "j < length os" "i \<noteq> j"
    and e: "owner_buffers (os ! i) = []" "owner_charge (os ! i) = 0"
  shows "pool_world_ok \<lparr>pw_pool = p, pw_owners = os[i := os ! j, j := Some moved_from]\<rparr>"
proof -
  let ?x = "os[i := os ! j]"
  have "mset (concat (map owner_buffers (?x[j := Some moved_from]))) = mset (concat (map owner_buffers os))"
    using mset_concat_update [OF i(1), of owner_buffers "os ! j"] mset_concat_update [of j ?x owner_buffers "Some moved_from"] i e
    by simp
  moreover have "sum_list (map owner_charge (?x[j := Some moved_from])) = sum_list (map owner_charge os)"
    using sum_list_replace [OF i(1), of owner_charge "os ! j"] sum_list_replace [of j ?x owner_charge "Some moved_from"] i e
    by simp
  moreover have "owner_ok p y" if "y \<in> set (?x[j := Some moved_from])" for y
  proof -
    have "y = Some moved_from \<or> y = os ! j \<or> y \<in> set os"
      using that set_update_subset_insert [of ?x j "Some moved_from"] set_update_subset_insert [of os i "os ! j"] by blast
    with w i(2) show ?thesis by (auto simp: pool_world_ok_def list_all_iff)
  qed
  ultimately show ?thesis using w by (simp add: pool_world_ok_def buffers_held_def list_all_iff)
qed

lemma pool_step_ok:
  assumes w: "pool_world_ok w" and s: "pool_step e w = Some w'"
  shows "pool_world_ok w'"
proof (cases e)
  case (Make_buffer u n)
  with s w make_ok [OF w] show ?thesis by (auto split: sum.splits prod.splits)
next
  case (Drop_owner i)
  with s drop_ok [OF w] show ?thesis by (auto split: if_splits option.splits)
next
  case (Move_construct i)
  then obtain own where i: "i < length (pw_owners w)" "pw_owners w ! i = Some own"
    and w': "w' = w\<lparr>pw_owners := (pw_owners w)[i := Some moved_from] @ [Some own]\<rparr>"
    using s by (auto split: if_splits option.splits)
  let ?os = "pw_owners w @ [None]"
  have "pool_world_ok \<lparr>pw_pool = pw_pool w, pw_owners = ?os\<rparr>" using w by (simp add: pool_world_ok_def buffers_held_def)
  from move_ok [OF this, of "length (pw_owners w)" i] i show ?thesis
    by (simp add: w' nth_append list_update_append pool_world_ok_def buffers_held_def)
next
  case (Move_assign i j)
  show ?thesis
  proof (cases "i = j")
    case True
    with Move_assign s w show ?thesis by (auto split: if_splits option.splits)
  next
    case False
    with Move_assign s obtain this other where i: "i < length (pw_owners w)" "j < length (pw_owners w)" "pw_owners w ! i = Some this"
      "pw_owners w ! j = Some other"
      and w': "w' = \<lparr>pw_pool = pooled_drop this (pw_pool w), pw_owners = (pw_owners w)[i := Some other, j := Some moved_from]\<rparr>"
      by (auto split: if_splits option.splits)
    from move_ok [OF drop_ok [OF w i(1,3)], of i j] i False show ?thesis by (simp add: w')
  qed
qed

interpretation pool_machine: machine_invariant pool_step pool_world_ok
  by unfold_locales (rule pool_step_ok)

lemma new_pool_world_ok: "pool_world_ok (new_pool_world initial max_size)"
  using new_pool_ok [of initial max_size] by (simp add: pool_world_ok_def new_pool_world_def buffers_held_def)

section \<open>Properties\<close>

text \<open>
  C10: Pooled memory is safe. Whatever owners are made, moved, assigned and destroyed, an owner that passes the bounds check of
  \<open>at\<close> reaches a byte inside a live allocation, and no two owners, and no owner and the pool, share a buffer.
\<close>

theorem pooled_buffers_safe:
  assumes "reaches pool_step (new_pool_world initial max_size) w"
  shows "distinct (buffers_held w @ pooled (pw_pool w))
    \<and> (\<forall>own index b j. Some own \<in> set (pw_owners w) \<longrightarrow> pooled_at index own = Inr (b, j) \<longrightarrow>
         (\<exists>n. mp_heap (pw_pool w) b = Some n \<and> j < n))"
proof
  have w: "pool_world_ok w" by (rule pool_machine.reaches_inv [OF assms new_pool_world_ok])
  then have fin: "finite (dom (mp_heap (pw_pool w)))"
    and eq: "mset (buffers_held w @ pooled (pw_pool w)) = mset_set (dom (mp_heap (pw_pool w)))"
    by (simp_all add: pool_world_ok_def pool_ok_def)
  have "count (mset (buffers_held w @ pooled (pw_pool w))) x \<le> 1" for x unfolding eq using fin by (simp add: count_mset_set')
  then show "distinct (buffers_held w @ pooled (pw_pool w))"
    by (simp only: distinct_count_atmost_1) (metis count_greater_zero_iff le_antisym less_one not_less set_mset_mset count_eq_zero_iff)
  show "\<forall>own index b j. Some own \<in> set (pw_owners w) \<longrightarrow> pooled_at index own = Inr (b, j) \<longrightarrow>
      (\<exists>n. mp_heap (pw_pool w) b = Some n \<and> j < n)"
  proof (intro allI impI)
    fix own index b j
    assume m: "Some own \<in> set (pw_owners w)" and a: "pooled_at index own = Inr (b, j)"
    have "owner_ok (pw_pool w) (Some own)" using w m by (simp add: pool_world_ok_def list_all_iff)
    with a have "mp_heap (pw_pool w) b = Some (charge (pb_size own)) \<and> j < pb_size own"
      by (auto simp: pooled_at_def owner_ok_def split: option.splits if_splits)
    with charge_ge [of "pb_size own"] show "\<exists>n. mp_heap (pw_pool w) b = Some n \<and> j < n" by auto
  qed
qed

text \<open>
  C27: The pool neither leaks nor hoards. Its live allocations are exactly the buffers in its four stacks, which never exceed
  their capacity, and those its owners hold; \<open>memory_usage\<close> reports the bytes of the latter, modulo 64 bits.
\<close>

theorem pool_accounts_for_memory:
  assumes "reaches pool_step (new_pool_world initial max_size) w"
  shows "dom (mp_heap (pw_pool w)) = set (buffers_held w) \<union> set (pooled (pw_pool w))
    \<and> list_all (\<lambda>k. length (bk_buffers k) \<le> bk_capacity k) (mp_buckets (pw_pool w))
    \<and> mp_outstanding (pw_pool w) = of_nat (sum_list (map owner_charge (pw_owners w)))"
proof -
  have w: "pool_world_ok w" by (rule pool_machine.reaches_inv [OF assms new_pool_world_ok])
  then have fin: "finite (dom (mp_heap (pw_pool w)))"
    and eq: "mset (buffers_held w) + mset (pooled (pw_pool w)) = mset_set (dom (mp_heap (pw_pool w)))"
    by (simp_all add: pool_world_ok_def pool_ok_def)
  from arg_cong [OF eq, of set_mset] fin have "dom (mp_heap (pw_pool w)) = set (buffers_held w) \<union> set (pooled (pw_pool w))" by simp
  with w show ?thesis by (auto simp: pool_world_ok_def pool_ok_def bucket_ok_def list_all_iff)
qed

definition demo_pool :: "pool_event list" where
  "demo_pool = [Make_buffer True 100, Make_buffer True 70000, Move_construct 0, Drop_owner 2, Make_buffer True 1000]"

lemmas pool_eval =
  demo_pool_def new_pool_world_def new_pool_def BUCKET_SIZES_def pool_sizes empty_bucket_def pooled_make_def pool_acquire_def validate_size_def
  MAX_POOLED_def create_buffer_def acquire_from_bucket_def bucket_index_def track_acquire_def track_release_def pooled_drop_def
  pool_release_def release_to_bucket_def moved_from_def Let_def

theorem pooled_buffers_safe_witness:
  "\<exists>w. run_steps pool_step demo_pool (new_pool_world 0 8) = Some w \<and> buffers_held w = [1, 0] \<and> distinct (buffers_held w @ pooled (pw_pool w))"
proof -
  have "map_option buffers_held (run_steps pool_step demo_pool (new_pool_world 0 8)) = Some [1, 0]"
    by (simp add: pool_eval buffers_held_def owner_buffers_def)
  then obtain w where w: "run_steps pool_step demo_pool (new_pool_world 0 8) = Some w" "buffers_held w = [1, 0]" by auto
  from pooled_buffers_safe [OF reaches_run [OF w(1)]] w show ?thesis by blast
qed

theorem pool_accounts_for_memory_witness:
  "\<exists>w. run_steps pool_step demo_pool (new_pool_world 0 8) = Some w \<and> mp_outstanding (pw_pool w) = 71024
     \<and> mp_outstanding (pw_pool w) = of_nat (sum_list (map owner_charge (pw_owners w)))"
proof -
  have "map_option (\<lambda>w. mp_outstanding (pw_pool w)) (run_steps pool_step demo_pool (new_pool_world 0 8)) = Some 71024"
    by (simp add: pool_eval)
  then obtain w where w: "run_steps pool_step demo_pool (new_pool_world 0 8) = Some w" "mp_outstanding (pw_pool w) = 71024" by auto
  from pool_accounts_for_memory [OF reaches_run [OF w(1)]] w show ?thesis by blast
qed

end
