(* ===== verification/Spec2Isabelle.thy ===== *)
theory Spec2Isabelle
  imports Length_Prefix_Framer Line_Framer Packet_Framer Reservation Session_Properties
    Transport_Config Error_Model Client_Accounting Client_Memory Client_Lifecycle Client_Progress
    Client_Stream Server_Properties Config_Manager Memory_Pool
begin

text \<open>
  A model of wirestead (\<open>src/wirestead/\<close>), a C++ library that gives applications framed, bounded and accounted
  communication over TCP, UDP, serial lines and Unix sockets.

  \<^bold>\<open>The program.\<close> An application talks to a \<^emph>\<open>wrapper\<close> (\<open>wrapper/\<close>), which owns a \<^emph>\<open>transport\<close> (\<open>transport/\<close>). A transport runs
  on the strand of a Boost.Asio executor. Calls from any thread reserve bytes, enter the request into a ledger and post
  a handler; the handlers move requests through the queues \<open>tx_\<close> and \<open>pending_\<close> to the socket. What the socket delivers goes to the
  wrapper, which cuts it into messages with a \<^emph>\<open>framer\<close> (\<open>framer/\<close>) while a budget bounds what is retained, and calls the
  user. Configurations are validated when a transport is built.

  \<^bold>\<open>Conventions.\<close> Byte counters and sizes are natural numbers with the 64-bit wrap-around written out (\<open>size_add\<close>, \<open>size_sub\<close>);
  counters of other widths are words. Exceptions are values. Each transport is a step machine: one step is a call of a member function, one
  handler of the strand, or one completion of an asynchronous operation, in any order the executor allows and with any error code.
  The environment (sockets, timers, resolver, allocator, random delays, address parsers, the user's callbacks) is an argument of the steps, and the theorems
  hold for all its behaviours unless a hypothesis names what is assumed. Reachable states and invariants of step machines
  are treated once, in \<open>Wire_Prelude\<close>.

  \<^bold>\<open>Framing.\<close> \<open>Framer_Interface\<close> states the contract of \<open>IFramer\<close> as two locales: \<open>bounded_framer\<close> (every push returns and the buffer stays
  within its cap) and \<open>stream_framer\<close> (the messages of a stream do not depend on how it is cut into reads). \<open>Length_Prefix_Framer\<close>, \<open>Line_Framer\<close> and
  \<open>Packet_Framer\<close> model the three framers of \<open>framer/\<close> and interpret both; \<open>Byte_Search\<close> has the searches they use. The loops that are not structurally
  recursive are \<open>partial_function (option)\<close>, and that they return is proved. \<open>Builtin_Framers\<close> puts the three behind one type.

  \<^bold>\<open>Queues, ledger, statistics.\<close> \<open>Backpressure\<close> models \<open>bp_utils.hpp\<close> and \<open>bp_state_machine.hpp\<close>; \<open>Reservation\<close> takes their critical sections
  apart into single atomic accesses and shows that no interleaving admits more than the limit. \<open>Send_Ledger\<close> models
  \<open>SendAccountingLedger\<close>: the ring with its sparse overflow refines a finite map, and every accepted request is written, lost or outstanding. \<open>Runtime_Stats\<close>
  has the counters of \<open>runtime_stats_counter.hpp\<close>.

  \<^bold>\<open>TCP server.\<close> \<open>Tcp_Session\<close> models \<open>tcp_server_session.cc\<close>, \<open>Session_Properties\<close> its bounds, progress, accounting and order. \<open>Tcp_Server\<close> models
  \<open>tcp_server.cc\<close> over the sessions: binding, accepting, registry, callbacks, statistics, shutdown. \<open>Server_Sessions\<close> collects what the server relies on in a session,
  \<open>Server_Registry\<close> and \<open>Server_Invariant\<close> its invariant, \<open>Server_Shutdown\<close>, \<open>Server_Accounting\<close> and \<open>Server_Callbacks\<close> what follows, \<open>Server_Properties\<close>
  the theorems on every reachable server.

  \<^bold>\<open>TCP client.\<close> \<open>Tcp_Client\<close> models \<open>tcp_client.cc\<close> with the decision of \<open>Reconnect\<close>. \<open>Client_Forms\<close> prepares the operations for proofs; \<open>Client_Accounting\<close>,
  \<open>Client_Memory\<close>, \<open>Client_Core\<close>, \<open>Client_Lifecycle\<close>, \<open>Client_Phases\<close> and \<open>Client_Progress\<close> show accounting, memory, the reported states, retries and progress.

  \<^bold>\<open>Receiving.\<close> \<open>Receive_Budget\<close> models \<open>receive_budget.hpp\<close>, \<open>Bounded_Receive\<close> \<open>bounded_receive.hpp\<close>, where \<open>Receive_Staging\<close> shows that
  staging an input equals pushing it, or leaves no trace. \<open>Client_Receive\<close> models the receive side of the client wrapper (\<open>wrapper/tcp_client/tcp_client.cc\<close>),
  \<open>Receive_Delivery\<close> its memory and its silence after \<open>stop()\<close>, \<open>Client_Stream\<close> the composition of framer, staging, batches and callbacks: the user
  sees exactly the messages of the byte stream.

  \<^bold>\<open>Configuration, errors, memory.\<close> \<open>Constants\<close>, \<open>Input_Validator\<close>, \<open>Transport_Config\<close> (validation and clamping of the six transport configurations),
  \<open>Config_Manager\<close> (typed settings and their file), \<open>Error_Model\<close> (error codes, mappings and the error handler against its specification), \<open>Memory_Pool\<close> (the
  pool of \<open>memory_pool.cc\<close> over an explicit allocator).

  \<^bold>\<open>Not modelled.\<close> The serial, UDP and Unix-domain transports repeat the design of the TCP client and server over other sockets; their
  configurations, queues, ledger and reconnect decisions are modelled, their own handlers are not. The server wrappers and the remaining client
  wrappers repeat the receive path of the TCP client wrapper. Builders and factories only fill configurations. The logger, the I/O threads,
  the socket adapters and TLS are input and output through third-party libraries, part of the environment here.
  Within the modelled files: socket options, formatted texts and time stamps of messages, \<open>ExponentialBackoff\<close> (random floating-point delays, an arbitrary
  policy here), destructors and the hooks for tests.
\<close>

end
